(* ===== verification/Prelude.thy ===== *)
theory Prelude
  imports Main "HOL-Library.Word"
begin

text \<open>
  What the components share: the names of the machine types, the faults that stand for
  undefined behaviour of the C code (an access outside an array, a dereferenced null pointer,
  a trapping division), byte/word conversion of the x20 file format, C strings, and the part of
  \<open>printf\<close> that the disassemblers use.  The generic lemmas on words and lists that the component
  proofs use are collected here.
\<close>

unbundle bit_operations_syntax

type_synonym u8 = "8 word"
type_synonym u16 = "16 word"
type_synonym u32 = "32 word"
type_synonym u64 = "64 word"

section \<open>Faults and results\<close>

datatype fault =
    OutOfBounds      \<comment> \<open>read or write outside the array\<close>
  | NullDeref        \<comment> \<open>dereference of a null pointer\<close>
  | WildPointer      \<comment> \<open>use of an uninitialised or freed pointer\<close>
  | DivTrap          \<comment> \<open>integer division that the processor traps\<close>
  | ExitCode int     \<comment> \<open>\<open>exit(n)\<close>\<close>
  | OutOfFuel        \<comment> \<open>a loop that did not end within the fuel given to it\<close>

type_synonym 'a res = "fault + 'a"

text \<open>Sequencing: a fault stops the computation.\<close>

definition bindR :: "'a res \<Rightarrow> ('a \<Rightarrow> 'b res) \<Rightarrow> 'b res" where
  "bindR m f = (case m of Inl e \<Rightarrow> Inl e | Inr x \<Rightarrow> f x)"

lemma bindR_simps [simp]:
  "bindR (Inl e) f = Inl e"
  "bindR (Inr x) f = f x"
  by (simp_all add: bindR_def)

lemma bindR_eq_Inr [simp]:
  "bindR m f = Inr y \<longleftrightarrow> (\<exists>x. m = Inr x \<and> f x = Inr y)"
  by (cases m) auto

lemma bindR_assoc: "bindR (bindR m f) g = bindR m (\<lambda>x. bindR (f x) g)"
  by (cases m) simp_all

lemma bindR_cong [fundef_cong]:
  "m = m' \<Longrightarrow> (\<And>x. m' = Inr x \<Longrightarrow> f x = f' x) \<Longrightarrow> bindR m f = bindR m' f'"
  by (cases m') auto

named_theorems field_simps20 \<comment> \<open>facts on the bit fields of x20 instructions\<close>
named_theorems vm_defs \<comment> \<open>definitions of the instruction groups of the virtual machine\<close>

section \<open>Array access with the bound made explicit\<close>

definition aget :: "'a list \<Rightarrow> nat \<Rightarrow> 'a res" where
  "aget xs i = (if i < length xs then Inr (xs ! i) else Inl OutOfBounds)"

definition aset :: "'a list \<Rightarrow> nat \<Rightarrow> 'a \<Rightarrow> 'a list res" where
  "aset xs i x = (if i < length xs then Inr (xs[i := x]) else Inl OutOfBounds)"

lemma aget_Inr [simp]: "aget xs i = Inr x \<longleftrightarrow> i < length xs \<and> x = xs ! i"
  by (auto simp: aget_def)

lemma aset_Inr [simp]: "aset xs i x = Inr ys \<longleftrightarrow> i < length xs \<and> ys = xs[i := x]"
  by (auto simp: aset_def)

lemma aget_in [simp]: "i < length xs \<Longrightarrow> aget xs i = Inr (xs ! i)"
  by (simp add: aget_def)

lemma aset_in [simp]: "i < length xs \<Longrightarrow> aset xs i x = Inr (xs[i := x])"
  by (simp add: aset_def)

text \<open>Evaluation at numeral indices.\<close>

lemma list_update_numeral [simp]:
  "list_update (x # xs) (numeral n) v = x # list_update xs (pred_numeral n) v"
  by (simp add: numeral_eq_Suc)

lemma replicate_numeral_unfold:
  "replicate (numeral n) x = x # replicate (pred_numeral n) x"
  by (simp add: numeral_eq_Suc)

section \<open>Words and bytes, little endian\<close>

text \<open>A 32-bit word of a file is its four bytes, the lowest first.\<close>

definition word_bytes :: "u32 \<Rightarrow> u8 list" where
  "word_bytes w = [ucast w, ucast (drop_bit 8 w), ucast (drop_bit 16 w), ucast (drop_bit 24 w)]"

definition bytes_word :: "u8 \<Rightarrow> u8 \<Rightarrow> u8 \<Rightarrow> u8 \<Rightarrow> u32" where
  "bytes_word a b c d =
     ucast a OR push_bit 8 (ucast b) OR push_bit 16 (ucast c) OR push_bit 24 (ucast d)"

lemma length_word_bytes [simp]: "length (word_bytes w) = 4"
  by (simp add: word_bytes_def)

lemma word_bytes_inverse:
  "bytes_word (ucast w) (ucast (drop_bit 8 w)) (ucast (drop_bit 16 w)) (ucast (drop_bit 24 w)) = w"
proof (rule bit_word_eqI)
  fix n assume n: "n < LENGTH(32)"
  consider "n < 8" | "8 \<le> n" "n < 16" | "16 \<le> n" "n < 24" | "24 \<le> n" by linarith
  then show "bit (bytes_word (ucast w) (ucast (drop_bit 8 w)) (ucast (drop_bit 16 w))
      (ucast (drop_bit 24 w))) n = bit w n"
    using n by cases (auto simp: bytes_word_def bit_simps)
qed

lemma bit_bytes_word:
  "n < 8 \<Longrightarrow> bit (bytes_word a b c d) n = bit a n"
  "n < 8 \<Longrightarrow> bit (bytes_word a b c d) (8 + n) = bit b n"
  "n < 8 \<Longrightarrow> bit (bytes_word a b c d) (16 + n) = bit c n"
  "n < 8 \<Longrightarrow> bit (bytes_word a b c d) (24 + n) = bit d n"
  by (auto simp: bytes_word_def bit_simps dest: bit_imp_le_length)

lemma bytes_word_inverse: "word_bytes (bytes_word a b c d) = [a, b, c, d]"
proof -
  have "ucast (bytes_word a b c d) = a" "ucast (drop_bit 8 (bytes_word a b c d)) = b"
    "ucast (drop_bit 16 (bytes_word a b c d)) = c" "ucast (drop_bit 24 (bytes_word a b c d)) = d"
    by (rule bit_word_eqI; simp add: bit_simps bit_bytes_word)+
  then show ?thesis by (simp add: word_bytes_def)
qed

fun words_bytes :: "u32 list \<Rightarrow> u8 list" where
  "words_bytes [] = []"
| "words_bytes (w # ws) = word_bytes w @ words_bytes ws"

fun bytes_words :: "u8 list \<Rightarrow> u32 list" where
  "bytes_words (a # b # c # d # bs) = bytes_word a b c d # bytes_words bs"
| "bytes_words _ = []"

lemma length_words_bytes [simp]: "length (words_bytes ws) = 4 * length ws"
  by (induction ws) auto

lemma bytes_words_inverse [simp]: "bytes_words (words_bytes ws) = ws"
  by (induction ws) (auto simp: word_bytes_def word_bytes_inverse)

lemma words_bytes_append [simp]: "words_bytes (xs @ ys) = words_bytes xs @ words_bytes ys"
  by (induction xs) auto

lemma words_bytes_inverse: "length bs = 4 * n \<Longrightarrow> words_bytes (bytes_words bs) = bs"
proof (induction bs arbitrary: n rule: bytes_words.induct)
  case (1 a b c d bs)
  then show ?case by (cases n) (auto simp: bytes_word_inverse)
qed (simp_all, presburger+)

lemma length_bytes_words: "length (bytes_words bs) = length bs div 4"
  by (induction bs rule: bytes_words.induct) auto

section \<open>C strings\<close>

text \<open>The bytes up to the first NUL; \<open>None\<close> when the array holds no NUL (reading it as a
  string runs past its end).\<close>

definition cstr :: "u8 list \<Rightarrow> u8 list" where
  "cstr bs = takeWhile (\<lambda>b. b \<noteq> 0) bs"

definition cstr_opt :: "u8 list \<Rightarrow> u8 list option" where
  "cstr_opt bs = (if 0 \<in> set bs then Some (cstr bs) else None)"

definition chars :: "u8 list \<Rightarrow> string" where
  "chars bs = map (\<lambda>b. char_of (unat b)) bs"

text \<open>A name padded with NUL bytes to \<open>n\<close> bytes, as \<open>strncpy\<close> and \<open>calloc\<close> leave it.\<close>

definition pad0 :: "nat \<Rightarrow> u8 list \<Rightarrow> u8 list" where
  "pad0 n bs = take n bs @ replicate (n - length bs) 0"

lemma length_pad0 [simp]: "length (pad0 n bs) = n"
  by (auto simp: pad0_def)

lemma cstr_no_zero [simp]: "0 \<notin> set (cstr bs)"
  by (induction bs) (auto simp: cstr_def)

lemma cstr_id: "0 \<notin> set bs \<Longrightarrow> cstr bs = bs"
  unfolding cstr_def by (induction bs) auto

lemma cstr_idem [simp]: "cstr (cstr bs) = cstr bs"
  by (rule cstr_id) simp

lemma length_cstr: "length (cstr bs) \<le> length bs"
  by (simp add: cstr_def length_takeWhile_le)

lemma cstr_append_zeros: "0 \<notin> set bs \<Longrightarrow> cstr (bs @ replicate n 0) = bs"
proof -
  assume "0 \<notin> set bs"
  then have "takeWhile (\<lambda>b. b \<noteq> 0) (bs @ replicate n (0 :: u8)) = bs @ takeWhile (\<lambda>b. b \<noteq> 0) (replicate n 0)"
    by (intro takeWhile_append2) auto
  also have "takeWhile (\<lambda>b. b \<noteq> 0) (replicate n (0 :: u8)) = []"
    by (cases n) auto
  finally show ?thesis by (simp add: cstr_def)
qed

lemma cstr_pad0: "0 \<notin> set bs \<Longrightarrow> length bs \<le> n \<Longrightarrow> cstr (pad0 n bs) = bs"
  by (simp add: pad0_def cstr_append_zeros)

section \<open>Formatted output\<close>

fun dec_nat :: "nat \<Rightarrow> string" where
  "dec_nat n = (if n < 10 then [char_of (48 + n)] else dec_nat (n div 10) @ [char_of (48 + n mod 10)])"

declare dec_nat.simps [simp del]

definition hex_digit :: "nat \<Rightarrow> char" where
  "hex_digit d = (if d < 10 then char_of (48 + d) else char_of (87 + d))"

fun hex_nat :: "nat \<Rightarrow> string" where
  "hex_nat n = (if n < 16 then [hex_digit n] else hex_nat (n div 16) @ [hex_digit (n mod 16)])"

declare hex_nat.simps [simp del]

text \<open>\<open>%d\<close> of a 32-bit value.\<close>

definition dec_int :: "int \<Rightarrow> string" where
  "dec_int i = (if i < 0 then ''-'' @ dec_nat (nat (- i)) else dec_nat (nat i))"

definition fmt_d :: "u32 \<Rightarrow> string" where
  "fmt_d w = dec_int (sint w)"

text \<open>A newline of the output.\<close>

definition nl :: string where
  "nl = [char_of (10 :: nat)]"

text \<open>A precision (\<open>%.7d\<close>, \<open>%.8x\<close>) is a least number of digits; \<open>%-8s\<close> fills with
  blanks on the right, \<open>%4s\<close> on the left.\<close>

definition prec :: "nat \<Rightarrow> string \<Rightarrow> string" where
  "prec n s = replicate (n - length s) (CHR ''0'') @ s"

definition fill_right :: "nat \<Rightarrow> string \<Rightarrow> string" where
  "fill_right n s = s @ replicate (n - length s) (CHR '' '')"

definition fill_left :: "nat \<Rightarrow> string \<Rightarrow> string" where
  "fill_left n s = replicate (n - length s) (CHR '' '') @ s"

end
