(* ===== verification/Elf.thy ===== *)
theory Elf
  imports Prelude
begin

text \<open>
  The layout of ELF files that A1/P1/elf.h declares, as far as the inspector uses it: the headers
  and symbols as lists of fields with their sizes, little-endian values, and the constants.  The
  structures have no padding, so that a field is where the sizes before it put it.
\<close>

section \<open>Values in a buffer\<close>

fun le_val :: "u8 list \<Rightarrow> u64" where
  "le_val [] = 0"
| "le_val (b # bs) = ucast b OR push_bit 8 (le_val bs)"

fun le_bytes :: "nat \<Rightarrow> u64 \<Rightarrow> u8 list" where
  "le_bytes 0 w = []"
| "le_bytes (Suc n) w = ucast w # le_bytes n (drop_bit 8 w)"

lemma length_le_bytes [simp]: "length (le_bytes n w) = n"
  by (induction n arbitrary: w) auto

lemma le_val_bytes: "le_val (le_bytes n w) = take_bit (8 * n) w"
proof (induction n arbitrary: w)
  case (Suc n)
  have "ucast (ucast w :: u8) OR push_bit 8 (take_bit (8 * n) (drop_bit 8 w)) = take_bit (8 * Suc n) w"
    by (rule bit_word_eqI) (auto simp: bit_simps)
  then show ?case using Suc by simp
qed simp

text \<open>\<open>n\<close> bytes at an offset of the buffer; the C code reads through a pointer with no check, which
  is a fault outside the buffer.\<close>

definition rd :: "nat \<Rightarrow> u8 list \<Rightarrow> u64 \<Rightarrow> u64 res" where
  "rd n b off = (if unat off + n \<le> length b then Inr (le_val (take n (drop (unat off) b))) else Inl OutOfBounds)"

text \<open>The argument of \<open>%s\<close>.\<close>

definition rd_str :: "u8 list \<Rightarrow> u64 \<Rightarrow> string res" where
  "rd_str b off = (case cstr_opt (drop (unat off) b) of None \<Rightarrow> Inl OutOfBounds | Some s \<Rightarrow> Inr (chars s))"

section \<open>Structures\<close>

datatype field =
    e_ident | e_type | e_machine | e_version | e_entry | e_phoff | e_shoff | e_flags | e_ehsize
  | e_phentsize | e_phnum | e_shentsize | e_shnum | e_shstrndx
  | sh_name | sh_type | sh_flags | sh_addr | sh_offset | sh_size | sh_link | sh_info | sh_addralign | sh_entsize
  | st_name | st_value | st_size | st_info | st_other | st_shndx

type_synonym struct = "(field \<times> nat) list"

definition Elf32_Ehdr :: struct where
  "Elf32_Ehdr = [(e_ident, 16), (e_type, 2), (e_machine, 2), (e_version, 4), (e_entry, 4), (e_phoff, 4), (e_shoff, 4),
     (e_flags, 4), (e_ehsize, 2), (e_phentsize, 2), (e_phnum, 2), (e_shentsize, 2), (e_shnum, 2), (e_shstrndx, 2)]"

definition Elf64_Ehdr :: struct where
  "Elf64_Ehdr = [(e_ident, 16), (e_type, 2), (e_machine, 2), (e_version, 4), (e_entry, 8), (e_phoff, 8), (e_shoff, 8),
     (e_flags, 4), (e_ehsize, 2), (e_phentsize, 2), (e_phnum, 2), (e_shentsize, 2), (e_shnum, 2), (e_shstrndx, 2)]"

definition Elf32_Shdr :: struct where
  "Elf32_Shdr = [(sh_name, 4), (sh_type, 4), (sh_flags, 4), (sh_addr, 4), (sh_offset, 4), (sh_size, 4), (sh_link, 4),
     (sh_info, 4), (sh_addralign, 4), (sh_entsize, 4)]"

definition Elf64_Shdr :: struct where
  "Elf64_Shdr = [(sh_name, 4), (sh_type, 4), (sh_flags, 8), (sh_addr, 8), (sh_offset, 8), (sh_size, 8), (sh_link, 4),
     (sh_info, 4), (sh_addralign, 8), (sh_entsize, 8)]"

definition Elf32_Sym :: struct where
  "Elf32_Sym = [(st_name, 4), (st_value, 4), (st_size, 4), (st_info, 1), (st_other, 1), (st_shndx, 2)]"

definition Elf64_Sym :: struct where
  "Elf64_Sym = [(st_name, 4), (st_info, 1), (st_other, 1), (st_shndx, 2), (st_value, 8), (st_size, 8)]"

lemmas struct_defs = Elf32_Ehdr_def Elf64_Ehdr_def Elf32_Shdr_def Elf64_Shdr_def Elf32_Sym_def Elf64_Sym_def

definition sizeof :: "struct \<Rightarrow> nat" where
  "sizeof S = sum_list (map snd S)"

fun offsetof :: "struct \<Rightarrow> field \<Rightarrow> nat" where
  "offsetof [] f = 0"
| "offsetof ((g, n) # S) f = (if g = f then 0 else n + offsetof S f)"

fun fieldsize :: "struct \<Rightarrow> field \<Rightarrow> nat" where
  "fieldsize [] f = 0"
| "fieldsize ((g, n) # S) f = (if g = f then n else fieldsize S f)"

text \<open>\<open>p->f\<close> for a pointer \<open>p\<close> at an offset of the buffer.\<close>

definition getf :: "struct \<Rightarrow> u8 list \<Rightarrow> u64 \<Rightarrow> field \<Rightarrow> u64 res" where
  "getf S b p f = rd (fieldsize S f) b (p + of_nat (offsetof S f))"

text \<open>The bytes of a structure whose fields hold the given bytes.\<close>

definition struct_bytes :: "struct \<Rightarrow> (field \<Rightarrow> u64) \<Rightarrow> u8 list" where
  "struct_bytes S v = concat (map (\<lambda>(f, n). le_bytes n (v f)) S)"

lemma length_struct_bytes [simp]: "length (struct_bytes S v) = sizeof S"
  by (induction S) (auto simp: struct_bytes_def sizeof_def)

lemma offset_fits: "f \<in> fst ` set S \<Longrightarrow> offsetof S f + fieldsize S f \<le> sizeof S"
  by (induction S f rule: offsetof.induct) (auto simp: sizeof_def)

lemma struct_bytes_field:
  "f \<in> fst ` set S \<Longrightarrow>
   take (fieldsize S f) (drop (offsetof S f) (struct_bytes S v)) = le_bytes (fieldsize S f) (v f)"
proof (induction S f rule: offsetof.induct)
  case (2 g n S f)
  then show ?case by (cases "g = f") (auto simp: struct_bytes_def)
qed simp

text \<open>Fields are read back as they were written.\<close>

lemma getf_struct:
  assumes b: "take (sizeof S) (drop (unat p) b) = struct_bytes S v" and f: "f \<in> fst ` set S"
    and p: "unat p + sizeof S < 2 ^ 64" and S: "sizeof S \<noteq> 0"
  shows "getf S b p f = Inr (take_bit (8 * fieldsize S f) (v f))"
proof -
  let ?o = "offsetof S f" and ?n = "fieldsize S f"
  have on: "?o + ?n \<le> sizeof S" by (rule offset_fits [OF f])
  have "length (take (sizeof S) (drop (unat p) b)) = sizeof S" using b by simp
  then have len: "unat p + sizeof S \<le> length b" using S by (auto simp: min_def split: if_splits)
  have u: "unat (p + of_nat ?o) = unat p + ?o"
    using p on by (subst unat_add_lem [THEN iffD1]) (simp_all add: unat_of_nat)
  have "take ?n (drop (unat p + ?o) b) = take ?n (drop ?o (take (sizeof S) (drop (unat p) b)))"
    using on by (simp add: drop_take min_def add.commute)
  also have "\<dots> = le_bytes ?n (v f)" unfolding b by (rule struct_bytes_field [OF f])
  finally show ?thesis using u on len by (simp add: getf_def rd_def le_val_bytes)
qed

end
