(* ===== verification/Binary_Info.thy ===== *)
theory Binary_Info
  imports Elf
begin

text \<open>
  The ELF inspector A1/P1/binary_info.c: a function of the arguments and of the files, whose result
  is what is printed on the standard output and how the program ends.  The file is in a buffer with
  one byte more than it has, which \<open>malloc\<close> leaves as it is; a read outside the buffer is a fault.
  Files are smaller than 2 GB, so that loop counters of type \<open>int\<close> do not wrap.  Reading from an
  open file succeeds.
\<close>

section \<open>Output\<close>

text \<open>What is printed, with the result.\<close>

type_synonym 'a io = "string \<times> 'a res"

definition bindO :: "'a io \<Rightarrow> ('a \<Rightarrow> 'b io) \<Rightarrow> 'b io" where
  "bindO m k = (case m of (out, Inl e) \<Rightarrow> (out, Inl e) | (out, Inr x) \<Rightarrow> (case k x of (out', r) \<Rightarrow> (out @ out', r)))"

definition put :: "string \<Rightarrow> unit io" where
  "put s = (s, Inr ())"

definition load :: "'a res \<Rightarrow> 'a io" where
  "load r = ('''', r)"

definition done_io :: "unit io" where
  "done_io = ('''', Inr ())"

definition fail :: "fault \<Rightarrow> 'a io" where
  "fail e = ('''', Inl e)"

section \<open>State\<close>

datatype elf_class = ELFCLASS32 | ELFCLASS64

record info =
  fbuf :: "u8 list"
  valid :: bool
  class_of :: elf_class
  section_name_table_offset :: u64
  section_name_table_size :: u64

definition Ehdr :: "elf_class \<Rightarrow> struct" where
  "Ehdr c = (case c of ELFCLASS32 \<Rightarrow> Elf32_Ehdr | ELFCLASS64 \<Rightarrow> Elf64_Ehdr)"

definition Shdr :: "elf_class \<Rightarrow> struct" where
  "Shdr c = (case c of ELFCLASS32 \<Rightarrow> Elf32_Shdr | ELFCLASS64 \<Rightarrow> Elf64_Shdr)"

definition Sym :: "elf_class \<Rightarrow> struct" where
  "Sym c = (case c of ELFCLASS32 \<Rightarrow> Elf32_Sym | ELFCLASS64 \<Rightarrow> Elf64_Sym)"

text \<open>A field of the file header, and one of a section header at an offset.\<close>

definition hdr :: "info \<Rightarrow> field \<Rightarrow> u64 io" where
  "hdr s f = load (getf (Ehdr (class_of s)) (fbuf s) 0 f)"

definition shd :: "info \<Rightarrow> u64 \<Rightarrow> field \<Rightarrow> u64 io" where
  "shd s p f = load (getf (Shdr (class_of s)) (fbuf s) p f)"

text \<open>The product of two values of type \<open>int\<close>, as an offset.\<close>

definition int_mul :: "u64 \<Rightarrow> u64 \<Rightarrow> u64" where
  "int_mul x y = scast (ucast x * ucast y :: u32)"

section \<open>The file header\<close>

definition type_text :: "u64 \<Rightarrow> string option" where
  "type_text t = map_of [(0, ''NONE (No file type)''), (1, ''REL (Relocatable file)''), (2, ''EXEC (Executable file)''),
     (3, ''DYN (Shared object file)''), (4, ''CORE (Core file)'')] t"

definition fmt_x :: "u64 \<Rightarrow> string" where
  "fmt_x w = hex_nat (unat w)"

text \<open>\<open>%d\<close> of a 32-bit value and \<open>%ld\<close>; a value of 16 bits is the same in both.\<close>

definition fmt_int :: "elf_class \<Rightarrow> u64 \<Rightarrow> string" where
  "fmt_int c w = (case c of ELFCLASS32 \<Rightarrow> fmt_d (ucast w) | ELFCLASS64 \<Rightarrow> dec_int (sint w))"

fun print_fields :: "info \<Rightarrow> (string \<times> field \<times> (u64 \<Rightarrow> string) \<times> string) list \<Rightarrow> unit io" where
  "print_fields s [] = done_io"
| "print_fields s ((label, f, fmt, tail) # fs) =
     bindO (hdr s f) (\<lambda>w. bindO (put (label @ fmt w @ tail @ nl)) (\<lambda>_. print_fields s fs))"

definition header_fields :: "elf_class \<Rightarrow> (string \<times> field \<times> (u64 \<Rightarrow> string) \<times> string) list" where
  "header_fields c =
    [(''Entry point address: 0x'', e_entry, fmt_x, ''''),
     (''Start of program headers: '', e_phoff, fmt_int c, '' (bytes into file)''),
     (''Start of section headers: '', e_shoff, fmt_int c, '' (bytes into file)''),
     (''Flags: 0x'', e_flags, fmt_x, ''''),
     (''Size of this header: '', e_ehsize, fmt_int c, '' (bytes)''),
     (''Size of program headers: '', e_phentsize, fmt_int c, '' (bytes)''),
     (''Number of program headers: '', e_phnum, fmt_int c, ''''),
     (''Size of section headers: '', e_shentsize, fmt_int c, '' (bytes)''),
     (''Number of section headers: '', e_shnum, fmt_int c, ''''),
     (''Section header string table index: '', e_shstrndx, fmt_int c, '''')]"

fun print_ident :: "info \<Rightarrow> nat \<Rightarrow> nat \<Rightarrow> unit io" where
  "print_ident s 0 i = done_io"
| "print_ident s (Suc n) i = bindO (load (rd 1 (fbuf s) (of_nat i))) (\<lambda>b.
     bindO (put ('' '' @ prec 2 (fmt_x b))) (\<lambda>_. print_ident s n (Suc i)))"

definition print_header :: "info \<Rightarrow> unit io" where
  "print_header s =
     (if \<not> valid s then done_io else
      bindO (put (''ELF Header:'' @ nl @ ''Magic:'')) (\<lambda>_.
      bindO (print_ident s 16 0) (\<lambda>_.
      bindO (put (nl @ ''Class: '' @ (case class_of s of ELFCLASS32 \<Rightarrow> ''ELF32'' | ELFCLASS64 \<Rightarrow> ''ELF64'') @ nl)) (\<lambda>_.
      bindO (put ''Data: '') (\<lambda>_.
      bindO (load (rd 1 (fbuf s) 5)) (\<lambda>d.
      bindO (put (if d = 1 then ''2's complement, little endian'' else if d = 2 then ''2's complement, big endian'' else '''')) (\<lambda>_.
      bindO (put (nl @ ''Type: '')) (\<lambda>_.
      bindO (hdr s e_type) (\<lambda>t.
      case type_text t of None \<Rightarrow> fail (ExitCode 3)
      | Some text \<Rightarrow> bindO (put text) (\<lambda>_.
          bindO (put (nl @ ''Version: 0x1'' @ nl)) (\<lambda>_. print_fields s (header_fields (class_of s)))))))))))))"

section \<open>Section names\<close>

fun dump_chars :: "bool \<Rightarrow> info \<Rightarrow> u64 \<Rightarrow> nat \<Rightarrow> nat \<Rightarrow> unit io" where
  "dump_chars print s tab 0 i = done_io"
| "dump_chars print s tab (Suc n) i =
     bindO (load (rd 1 (fbuf s) (tab + of_nat i))) (\<lambda>c.
     bindO (if print then put (if c = 0 then nl else [char_of (unat c)]) else done_io) (\<lambda>_.
     dump_chars print s tab n (Suc i)))"

text \<open>\<open>string_dump\<close>: the offset is computed in 32 bits for a 32-bit file.\<close>

definition string_dump :: "bool \<Rightarrow> info \<Rightarrow> info io" where
  "string_dump print s =
     (if \<not> valid s then load (Inr s) else
      bindO (hdr s e_shoff) (\<lambda>shoff. bindO (hdr s e_shentsize) (\<lambda>ents. bindO (hdr s e_shstrndx) (\<lambda>ndx.
      let sht_offset = (case class_of s of
            ELFCLASS32 \<Rightarrow> ucast (ucast shoff + ucast ents * ucast ndx :: u32)
          | ELFCLASS64 \<Rightarrow> shoff + int_mul ents ndx) in
      bindO (shd s sht_offset sh_offset) (\<lambda>off. bindO (shd s sht_offset sh_size) (\<lambda>tabsize.
      let s = s\<lparr>section_name_table_offset := off, section_name_table_size := tabsize\<rparr> in
      bindO (if print then put (''Section names from '' @ [CHR 0x27] @ ''.shstrtab'' @ [CHR 0x27] @ '':'' @ nl) else done_io) (\<lambda>_.
      bindO (dump_chars print s off (unat tabsize - 1) 1) (\<lambda>_. load (Inr s)))))))))"

section \<open>Section headers\<close>

definition sht_names :: "(u64 \<times> string) list" where
  "sht_names = [(0, ''NULL''), (1, ''PROGBITS''), (2, ''SYMTAB''), (3, ''STRTAB''), (4, ''RELA''), (5, ''HASH''),
     (6, ''DYNAMIC''), (7, ''NOTE''), (8, ''NOBITS''), (9, ''REL''), (10, ''SHLIB''), (11, ''DYNSYM''),
     (14, ''INIT_ARRAY''), (15, ''FINI_ARRAY''), (16, ''PREINIT_ARRAY''), (17, ''GROUP''), (18, ''SHNDX''),
     (0x6ffffff5, ''GNU_ATTRIBUTES''), (0x6ffffff6, ''GNU_HASH''), (0x6ffffff7, ''GNU_LIBLIST''),
     (0x6ffffff8, ''CHECKSUM''), (0x6ffffffa, ''MOVE''), (0x6ffffffb, ''COMDAT''), (0x6ffffffc, ''SYMINFO''),
     (0x6ffffffd, ''VERDEF''), (0x6ffffffe, ''VERNEED''), (0x6fffffff, ''VERSYM'')]"

definition get_type_str :: "u64 \<Rightarrow> string" where
  "get_type_str t = (case map_of sht_names t of None \<Rightarrow> ''ILLEGAL_TYPE'' | Some n \<Rightarrow> n)"

text \<open>The header of section \<open>i\<close>: the loop for 32-bit files does not use \<open>i\<close>.\<close>

definition sect_ptr :: "elf_class \<Rightarrow> u64 \<Rightarrow> u64 \<Rightarrow> nat \<Rightarrow> u64" where
  "sect_ptr c shoff ents i = (case c of ELFCLASS32 \<Rightarrow> shoff | ELFCLASS64 \<Rightarrow> shoff + int_mul ents (of_nat i))"

definition print_section :: "info \<Rightarrow> nat \<Rightarrow> unit io" where
  "print_section s i =
     bindO (hdr s e_shoff) (\<lambda>shoff.
     bindO (case class_of s of ELFCLASS32 \<Rightarrow> load (Inr 0) | ELFCLASS64 \<Rightarrow> hdr s e_shentsize) (\<lambda>ents.
     let p = sect_ptr (class_of s) shoff ents i in
     bindO (shd s p sh_name) (\<lambda>name. bindO (shd s p sh_type) (\<lambda>typ.
     bindO (shd s p sh_addr) (\<lambda>addr. bindO (shd s p sh_offset) (\<lambda>off. bindO (shd s p sh_size) (\<lambda>size.
     bindO (load (rd_str (fbuf s) (section_name_table_offset s + name))) (\<lambda>namestr.
     put (''['' @ fill_left 2 (dec_nat i) @ ''] '' @ namestr @ '' '' @ get_type_str typ @ '' ''
       @ prec (case class_of s of ELFCLASS32 \<Rightarrow> 8 | ELFCLASS64 \<Rightarrow> 16) (fmt_x addr) @ '' ''
       @ prec 6 (fmt_x off) @ '' '' @ prec 6 (fmt_x size) @ nl)))))))))"

fun print_sections :: "info \<Rightarrow> nat \<Rightarrow> nat \<Rightarrow> unit io" where
  "print_sections s 0 i = done_io"
| "print_sections s (Suc n) i = bindO (print_section s i) (\<lambda>_. print_sections s n (Suc i))"

definition list_sect_headers :: "info \<Rightarrow> unit io" where
  "list_sect_headers s =
     (if \<not> valid s \<or> section_name_table_offset s = -1 then done_io else
      bindO (hdr s e_shnum) (\<lambda>shnum. bindO (hdr s e_shoff) (\<lambda>shoff.
      bindO (put (''There are '' @ dec_nat (unat shnum) @ '' section headers, starting at offset 0x'' @ fmt_x shoff @ nl)) (\<lambda>_.
      bindO (put (''Section Headers:'' @ nl)) (\<lambda>_. print_sections s (unat shnum) 0)))))"

section \<open>Symbols\<close>

definition st_type_text :: "u64 \<Rightarrow> string" where
  "st_type_text i = (case map_of [(0, ''NOTYPE ''), (1, ''OBJECT ''), (2, ''FUNC   ''), (3, ''SECTION''), (4, ''FILE   ''),
     (5, ''COMMON ''), (6, ''TLS    ''), (10, ''IFUNC  '')] (i AND 0xf) of None \<Rightarrow> ''ILLEGAL'' | Some t \<Rightarrow> t)"

definition st_bind_text :: "u64 \<Rightarrow> string" where
  "st_bind_text i = (case map_of [(0, ''LOCAL ''), (1, ''GLOBAL''), (2, ''WEAK  ''), (10, ''UNIQUE'')] (drop_bit 4 i)
     of None \<Rightarrow> ''ILLEGL'' | Some t \<Rightarrow> t)"

definition st_other_text :: "u64 \<Rightarrow> string" where
  "st_other_text i = (case map_of [(0, ''DEFAULT''), (1, ''INTERNAL''), (2, ''HIDDEN ''), (3, ''PROTECTED'')] (i AND 3)
     of None \<Rightarrow> ''ILLEGAL'' | Some t \<Rightarrow> t)"

text \<open>The search for a section by its type; \<open>ptr += 1\<close> advances by the size of the structure, whatever
  \<open>e_shentsize\<close> says.\<close>

fun find_header :: "info \<Rightarrow> u64 \<Rightarrow> nat \<Rightarrow> u64 \<Rightarrow> u64 option io" where
  "find_header s t 0 p = load (Inr None)"
| "find_header s t (Suc n) p = bindO (shd s p sh_type) (\<lambda>typ.
     if typ = t then load (Inr (Some p)) else find_header s t n (p + of_nat (sizeof (Shdr (class_of s)))))"

text \<open>The product \<open>i * sh_entsize\<close> is computed in the width of \<open>sh_entsize\<close>.\<close>

definition sym_ptr :: "elf_class \<Rightarrow> u64 \<Rightarrow> u64 \<Rightarrow> nat \<Rightarrow> u64" where
  "sym_ptr c base ents i = (case c of ELFCLASS32 \<Rightarrow> base + ucast (of_nat i * ucast ents :: u32)
     | ELFCLASS64 \<Rightarrow> base + of_nat i * ents)"

definition print_symbol :: "info \<Rightarrow> u64 \<Rightarrow> nat \<Rightarrow> u64 \<Rightarrow> unit io" where
  "print_symbol s str i p =
     (let sym = \<lambda>f. load (getf (Sym (class_of s)) (fbuf s) p f) in
      bindO (sym st_value) (\<lambda>value. bindO (sym st_size) (\<lambda>size. bindO (sym st_info) (\<lambda>inf. bindO (sym st_other) (\<lambda>other.
      bindO (put (fill_left 6 (dec_nat i) @ '': ''
        @ prec (case class_of s of ELFCLASS32 \<Rightarrow> 8 | ELFCLASS64 \<Rightarrow> 16) (fmt_x value) @ ''  '' @ fill_left 4 (dec_nat (unat size))
        @ '' '' @ st_type_text inf @ '' '' @ st_bind_text inf @ '' '' @ st_other_text other @ ''  '')) (\<lambda>_.
      bindO (sym st_shndx) (\<lambda>ndx.
      bindO (put (if ndx = 0 then ''UND '' else if ndx = 0xfff1 then ''ABS '' else fill_left 3 (dec_nat (unat ndx)) @ '' '')) (\<lambda>_.
      bindO (sym st_name) (\<lambda>name. bindO (load (rd_str (fbuf s) (str + name))) (\<lambda>text. put (text @ nl))))))))))) "

text \<open>The loop from entry \<open>i\<close>, with \<open>n\<close> entries to go, at \<open>p\<close>.\<close>

fun print_symbols :: "info \<Rightarrow> u64 \<Rightarrow> u64 \<Rightarrow> nat \<Rightarrow> nat \<Rightarrow> u64 \<Rightarrow> unit io" where
  "print_symbols s h str 0 i p = done_io"
| "print_symbols s h str (Suc n) i p =
     bindO (print_symbol s str i p) (\<lambda>_. bindO (shd s h sh_offset) (\<lambda>base. bindO (shd s h sh_entsize) (\<lambda>ents.
     print_symbols s h str n (Suc i) (sym_ptr (class_of s) base ents i))))"

text \<open>What \<open>symbol_dump\<close> and \<open>dynsym_dump\<close> share: all but the type and the name of the section.  The
  number of entries is a quotient converted to \<open>int\<close>.\<close>

definition dump_table :: "u64 \<Rightarrow> string \<Rightarrow> info \<Rightarrow> unit io" where
  "dump_table t name s =
     (if \<not> valid s then done_io else
      bindO (hdr s e_shoff) (\<lambda>shoff. bindO (hdr s e_shnum) (\<lambda>shnum.
      bindO (find_header s t (unat shnum) shoff) (\<lambda>h.
      case h of None \<Rightarrow> done_io
      | Some h \<Rightarrow>
          bindO (shd s h sh_link) (\<lambda>link. bindO (hdr s e_shentsize) (\<lambda>hents.
          let strh = shoff + int_mul hents link in
          bindO (shd s strh sh_offset) (\<lambda>str. bindO (shd s strh sh_size) (\<lambda>_.
          bindO (shd s h sh_size) (\<lambda>size. bindO (shd s h sh_entsize) (\<lambda>ents.
          if ents = 0 then fail DivTrap else
          let entries = sint (ucast (size div ents) :: u32) in
          bindO (put (''Symbol table '' @ [CHR 0x27] @ name @ [CHR 0x27] @ '' contains '' @ dec_int entries @ '' entries:'' @ nl)) (\<lambda>_.
          bindO (put (''   Num:    Value          Size Type    Bind   Vis      Ndx Name'' @ nl)) (\<lambda>_.
          bindO (shd s h sh_offset) (\<lambda>base. print_symbols s h str (nat entries) 1 base))))))))))))) "

definition symbol_dump :: "info \<Rightarrow> unit io" where
  "symbol_dump = dump_table 2 ''.symtab''"

definition dynsym_dump :: "info \<Rightarrow> unit io" where
  "dynsym_dump = dump_table 11 ''.dynsym''"

section \<open>The program\<close>

datatype mode = OPT_H | OPT_SN | OPT_SEC | OPT_SYM | OPT_DYN

definition parse_option :: "string \<Rightarrow> mode option" where
  "parse_option opt = map_of [(''-h'', OPT_H), (''-sn'', OPT_SN), (''-sec'', OPT_SEC), (''-sym'', OPT_SYM), (''-dyn'', OPT_DYN)] opt"

text \<open>The checks of the identification.\<close>

definition identify :: "u8 list \<Rightarrow> elf_class res" where
  "identify b =
     bindR (aget b 0) (\<lambda>m. if m \<noteq> 0x7f then Inl (ExitCode 2) else
     bindR (aget b 1) (\<lambda>m. if m \<noteq> 0x45 then Inl (ExitCode 2) else
     bindR (aget b 2) (\<lambda>m. if m \<noteq> 0x4c then Inl (ExitCode 2) else
     bindR (aget b 3) (\<lambda>m. if m \<noteq> 0x46 then Inl (ExitCode 2) else
     bindR (aget b 4) (\<lambda>c. if c \<noteq> 1 \<and> c \<noteq> 2 then Inl (ExitCode 2) else
     bindR (aget b 5) (\<lambda>d. if d \<noteq> 1 \<and> d \<noteq> 2 then Inl (ExitCode 2) else
     bindR (aget b 6) (\<lambda>v. if v \<noteq> 1 then Inl (ExitCode 2)
       else Inr (if c = 1 then ELFCLASS32 else ELFCLASS64))))))))"

definition run_mode :: "mode \<Rightarrow> info \<Rightarrow> unit io" where
  "run_mode m s = (case m of
       OPT_H \<Rightarrow> print_header s
     | OPT_SN \<Rightarrow> bindO (string_dump True s) (\<lambda>_. done_io)
     | OPT_SEC \<Rightarrow> bindO (string_dump False s) list_sect_headers
     | OPT_SYM \<Rightarrow> symbol_dump s
     | OPT_DYN \<Rightarrow> dynsym_dump s)"

definition binary_info :: "(string \<Rightarrow> u8 list option) \<Rightarrow> bool \<Rightarrow> u8 \<Rightarrow> string list \<Rightarrow> unit io" where
  "binary_info fs malloc_ok junk argv =
     (if length argv \<noteq> 3 then fail (ExitCode 1) else
      case parse_option (argv ! 1) of None \<Rightarrow> fail (ExitCode 1)
      | Some m \<Rightarrow>
          bindO (put (''File: '' @ argv ! 2 @ nl)) (\<lambda>_.
          case fs (argv ! 2) of None \<Rightarrow> fail (ExitCode 1)
          | Some bytes \<Rightarrow>
              if bytes = [] then fail (ExitCode 1)
              else if \<not> malloc_ok then fail (ExitCode 1)
              else bindO (load (identify (bytes @ [junk]))) (\<lambda>c.
                run_mode m \<lparr>fbuf = bytes @ [junk], valid = True, class_of = c, section_name_table_offset = -1,
                  section_name_table_size = 0\<rparr>)))"

end
