(* ===== verification/Binary_Info_Props.thy ===== *)
theory Binary_Info_Props
  imports Binary_Info
begin

text \<open>
  What the ELF inspector prints.  An \<open>elf_image\<close> is a file whose header and section headers hold given
  field values; on images each option prints what the abstract contents say.
\<close>

section \<open>Output rules\<close>

definition after :: "string \<Rightarrow> 'a io \<Rightarrow> 'a io" where
  "after s m = (s @ fst m, snd m)"

lemma bindO_load [simp]: "bindO (load (Inr x)) k = k x"
  by (simp add: bindO_def load_def split: prod.split)

lemma bindO_fault [simp]: "bindO (load (Inl e)) k = fail e"
  by (simp add: bindO_def load_def fail_def)

lemma bindO_fail [simp]: "bindO (fail e) k = fail e"
  by (simp add: bindO_def fail_def)

lemma bindO_done [simp]: "bindO done_io k = k ()"
  by (simp add: bindO_def done_io_def split: prod.split)

lemma bindO_put [simp]: "bindO (put s) k = after s (k ())"
  by (simp add: bindO_def put_def after_def split: prod.split)

lemma bindO_Pair [simp]: "bindO (s, Inr x) k = after s (k x)"
  by (simp add: bindO_def after_def split: prod.split)

lemma bindO_Inl [simp]: "bindO (s, Inl e) k = (s, Inl e)"
  by (simp add: bindO_def)

lemma after_done [simp]: "after s done_io = (s, Inr ())" "after s (put t) = (s @ t, Inr ())"
  by (simp_all add: after_def done_io_def put_def)

lemma after_simps [simp]: "after s (t, r) = (s @ t, r)" "after s (load r) = (s, r)" "after s (fail e) = (s, Inl e)"
  "after s (after t m) = after (s @ t) m"
  by (simp_all add: after_def load_def fail_def)

lemma rd_byte: "unat off < length b \<Longrightarrow> rd 1 b off = Inr (ucast (b ! unat off))"
  by (simp add: rd_def take_Suc_conv_app_nth Suc_le_eq take_Suc hd_drop_conv_nth)

section \<open>Well-formed files\<close>

text \<open>Structures one after another.\<close>

definition placed :: "struct \<Rightarrow> u8 list \<Rightarrow> nat \<Rightarrow> (field \<Rightarrow> u64) list \<Rightarrow> bool" where
  "placed S b off vs \<longleftrightarrow> take (length vs * sizeof S) (drop off b) = concat (map (struct_bytes S) vs) \<and>
     (\<forall>v \<in> set vs. \<forall>(f, n) \<in> set S. take_bit (8 * n) (v f) = v f)"

lemma length_concat_structs: "length (concat (map (struct_bytes S) vs)) = length vs * sizeof S"
  by (induction vs) auto

lemma placed_nth:
  assumes "placed S b off vs" "i < length vs"
  shows "take (sizeof S) (drop (off + i * sizeof S) b) = struct_bytes S (vs ! i)"
proof -
  have vs: "vs = take i vs @ vs ! i # drop (Suc i) vs" using assms(2) by (rule id_take_nth_drop)
  have le: "i * sizeof S + sizeof S \<le> length vs * sizeof S"
    using mult_le_mono1 [of "Suc i" "length vs" "sizeof S"] assms(2) by simp
  let ?c = "concat (map (struct_bytes S) vs)"
  have "?c = concat (map (struct_bytes S) (take i vs)) @ struct_bytes S (vs ! i) @ concat (map (struct_bytes S) (drop (Suc i) vs))"
    by (subst vs, simp only: map_append list.map concat_append concat.simps)
  moreover have "length (concat (map (struct_bytes S) (take i vs))) = i * sizeof S"
    using assms(2) by (simp add: length_concat_structs)
  ultimately have "take (sizeof S) (drop (i * sizeof S) ?c) = struct_bytes S (vs ! i)" by simp
  moreover have "take (sizeof S) (drop (i * sizeof S) (take (length vs * sizeof S) (drop off b))) =
      take (sizeof S) (drop (off + i * sizeof S) b)"
    using le by (simp add: drop_take min_def add.commute)
  ultimately show ?thesis using assms(1) by (simp add: placed_def)
qed

lemma fieldsize_in: "f \<in> fst ` set S \<Longrightarrow> (f, fieldsize S f) \<in> set S"
  by (induction S f rule: fieldsize.induct) auto

lemma getf_placed:
  assumes "placed S b off vs" "i < length vs" "f \<in> fst ` set S" "sizeof S \<noteq> 0" "length b < 2 ^ 31"
    and p: "unat p = off + i * sizeof S"
  shows "getf S b p f = Inr ((vs ! i) f)"
proof -
  have t: "take (sizeof S) (drop (unat p) b) = struct_bytes S (vs ! i)" using placed_nth [OF assms(1,2)] p by simp
  then have "length (take (sizeof S) (drop (unat p) b)) = sizeof S" by simp
  then have "unat p + sizeof S \<le> length b" using assms(4) by (auto simp: min_def split: if_splits)
  then have "unat p + sizeof S < 2 ^ 64" using assms(5) by simp
  moreover have "take_bit (8 * fieldsize S f) ((vs ! i) f) = (vs ! i) f"
  proof -
    have "\<forall>(g, n) \<in> set S. take_bit (8 * n) ((vs ! i) g) = (vs ! i) g"
      using assms(1,2) by (simp add: placed_def)
    from bspec [OF this fieldsize_in [OF assms(3)]] show ?thesis by simp
  qed
  ultimately show ?thesis using getf_struct [OF t assms(3) _ assms(4)] by simp
qed

text \<open>A file of class \<open>c\<close> with a header and a table of section headers.\<close>

definition elf_image :: "elf_class \<Rightarrow> (field \<Rightarrow> u64) \<Rightarrow> (field \<Rightarrow> u64) list \<Rightarrow> u8 list \<Rightarrow> bool" where
  "elf_image c h secs b \<longleftrightarrow> length b < 2 ^ 31 \<and> placed (Ehdr c) b 0 [h] \<and> placed (Shdr c) b (unat (h e_shoff)) secs \<and>
     unat (h e_shnum) = length secs \<and> unat (h e_shentsize) = sizeof (Shdr c)"

definition section_bytes :: "u8 list \<Rightarrow> (field \<Rightarrow> u64) \<Rightarrow> u8 list" where
  "section_bytes b sec = take (unat (sec sh_size)) (drop (unat (sec sh_offset)) b)"

lemma fields_in [simp]:
  "fst ` set (Ehdr c) = {e_ident, e_type, e_machine, e_version, e_entry, e_phoff, e_shoff, e_flags, e_ehsize, e_phentsize,
     e_phnum, e_shentsize, e_shnum, e_shstrndx}"
  "fst ` set (Shdr c) = {sh_name, sh_type, sh_flags, sh_addr, sh_offset, sh_size, sh_link, sh_info, sh_addralign, sh_entsize}"
  by (cases c; simp add: Ehdr_def Shdr_def struct_defs)+

lemma Sym_fields [simp]: "fst ` set (Sym c) = {st_name, st_value, st_size, st_info, st_other, st_shndx}"
  by (cases c; auto simp: Sym_def struct_defs)

lemma sizes [simp]:
  "sizeof (Ehdr ELFCLASS32) = 52" "sizeof (Ehdr ELFCLASS64) = 64"
  "sizeof (Shdr ELFCLASS32) = 40" "sizeof (Shdr ELFCLASS64) = 64"
  "sizeof (Sym ELFCLASS32) = 16" "sizeof (Sym ELFCLASS64) = 24"
  by (simp_all add: Ehdr_def Shdr_def Sym_def struct_defs sizeof_def)

lemma sizes_pos: "sizeof (Ehdr c) \<noteq> 0" "sizeof (Shdr c) \<noteq> 0" "sizeof (Sym c) \<noteq> 0"
  by (cases c; simp)+

lemma hdr_image:
  assumes "elf_image c h secs (fbuf s)" "class_of s = c" "f \<in> fst ` set (Ehdr c)"
  shows "hdr s f = load (Inr (h f))"
  using getf_placed [of "Ehdr c" "fbuf s" 0 "[h]" 0 f 0] assms sizes_pos by (simp add: hdr_def elf_image_def)

lemma shd_image:
  assumes "elf_image c h secs (fbuf s)" "class_of s = c" "f \<in> fst ` set (Shdr c)" "i < length secs"
    and "unat p = unat (h e_shoff) + i * sizeof (Shdr c)"
  shows "shd s p f = load (Inr ((secs ! i) f))"
  using getf_placed [of "Shdr c" "fbuf s" "unat (h e_shoff)" secs i f p] assms sizes_pos by (simp add: shd_def elf_image_def)

lemma section_fits:
  assumes "elf_image c h secs b" "i < length secs"
  shows "unat (h e_shoff) + i * sizeof (Shdr c) + sizeof (Shdr c) \<le> length b"
proof -
  have "length (take (sizeof (Shdr c)) (drop (unat (h e_shoff) + i * sizeof (Shdr c)) b)) = sizeof (Shdr c)"
    using placed_nth [of "Shdr c" b "unat (h e_shoff)" secs i] assms by (simp add: elf_image_def)
  then show ?thesis using sizes_pos(2) [of c] by (auto simp: min_def split: if_splits)
qed


section \<open>Offsets\<close>

lemma ucast32: "unat (x :: u64) < 2 ^ 32 \<Longrightarrow> unat (ucast x :: u32) = unat x"
  by (simp add: unsigned_ucast_eq take_bit_nat_eq_self)

lemma int_mul_small:
  assumes "unat x * unat y < 2 ^ 31"
  shows "unat (int_mul x y) = unat x * unat y"
proof (cases "unat x = 0 \<or> unat y = 0")
  case True
  then have "x = 0 \<or> y = 0" by (simp add: unat_eq_0)
  then show ?thesis by (auto simp: int_mul_def)
next
  case False
  then have "unat x \<le> unat x * unat y" "unat y \<le> unat x * unat y" by auto
  from le_less_trans [OF this(1) assms] le_less_trans [OF this(2) assms]
  have "unat x < 2 ^ 32" "unat y < 2 ^ 32" by simp_all
  then have m: "unat (ucast x * ucast y :: u32) = unat x * unat y"
    using assms by (simp add: unat_mult_lem [THEN iffD1] ucast32)
  define w :: u32 where "w = ucast x * ucast y"
  have u: "uint w = int (unat x * unat y)" using m by (metis w_def uint_nat)
  have "int (unat x * unat y) < 2 ^ 31" using assms by (metis of_nat_less_iff of_nat_numeral of_nat_power)
  then have lt: "uint w < 2 ^ 31" by (simp only: u)
  have "- (2 ^ 31) \<le> uint w" by (rule order_trans [of _ 0]) simp_all
  then have "sint w = uint w" using lt by (simp add: sint_uint signed_take_bit_int_eq_self)
  moreover have "int_mul x y = word_of_int (sint w)" unfolding int_mul_def w_def [symmetric] by (rule scast_eq)
  ultimately have "uint (int_mul x y) = uint w"
    using lt by (simp add: unsigned_ucast_eq take_bit_int_eq_self)
  then show ?thesis unfolding u by (metis nat_int unat_eq_nat_uint)
qed

lemma section_offset:
  assumes im: "elf_image c h secs b" and i: "unat n = i" "i < length secs"
  shows "unat (h e_shoff + int_mul (h e_shentsize) n) = unat (h e_shoff) + i * sizeof (Shdr c)"
    and "c = ELFCLASS32 \<Longrightarrow> unat (ucast (ucast (h e_shoff) + ucast (h e_shentsize) * ucast n :: u32) :: u64) =
      unat (h e_shoff) + i * sizeof (Shdr c)"
proof -
  have fit: "unat (h e_shoff) + i * sizeof (Shdr c) + sizeof (Shdr c) < 2 ^ 31" and e: "unat (h e_shentsize) = sizeof (Shdr c)"
    using section_fits [OF im i(2)] im by (auto simp: elf_image_def)
  have prod: "unat (h e_shentsize) * unat n = i * sizeof (Shdr c)" using e i by simp
  have m: "unat (int_mul (h e_shentsize) n) = i * sizeof (Shdr c)" using int_mul_small [of "h e_shentsize" n] prod fit by simp
  then show "unat (h e_shoff + int_mul (h e_shentsize) n) = unat (h e_shoff) + i * sizeof (Shdr c)"
    using fit by (subst unat_add_lem [THEN iffD1]) simp_all
  have nl: "unat n \<le> i * sizeof (Shdr c)" using i sizes_pos(2) [of c] by simp
  have small: "unat (h e_shoff) < 2 ^ 32" "unat (h e_shentsize) < 2 ^ 32" "unat n < 2 ^ 32" using fit e nl by simp_all
  have "unat (ucast (h e_shentsize) * ucast n :: u32) = i * sizeof (Shdr c)"
    using prod fit small by (subst unat_mult_lem [THEN iffD1]) (simp_all add: ucast32)
  then have "unat (ucast (h e_shoff) + ucast (h e_shentsize) * ucast n :: u32) = unat (h e_shoff) + i * sizeof (Shdr c)"
    using fit small by (subst unat_add_lem [THEN iffD1]) (simp_all add: ucast32)
  then show "unat (ucast (ucast (h e_shoff) + ucast (h e_shentsize) * ucast n :: u32) :: u64) =
      unat (h e_shoff) + i * sizeof (Shdr c)"
    using fit by (simp add: unsigned_ucast_eq take_bit_nat_eq_self)
qed

section \<open>The file header\<close>

lemma print_ident_spec:
  "i + n \<le> length (fbuf s) \<Longrightarrow> length (fbuf s) < 2 ^ 31 \<Longrightarrow>
   print_ident s n i = (concat (map (\<lambda>b. '' '' @ prec 2 (fmt_x (ucast b))) (take n (drop i (fbuf s)))), Inr ())"
proof (induction n arbitrary: i)
  case 0
  then show ?case by (simp add: done_io_def)
next
  case (Suc n)
  have "unat (of_nat i :: u64) = i" using Suc.prems by (simp add: unat_of_nat)
  then have "rd 1 (fbuf s) (of_nat i) = Inr (ucast (fbuf s ! i))" using rd_byte [of "of_nat i" "fbuf s"] Suc.prems by simp
  moreover have "take (Suc n) (drop i (fbuf s)) = fbuf s ! i # take n (drop (Suc i) (fbuf s))"
    using Suc.prems(1) by (simp add: Cons_nth_drop_Suc [symmetric])
  ultimately show ?case using Suc by simp
qed

text \<open>What the header shows when its fields hold \<open>h\<close>.\<close>

definition field_line :: "(field \<Rightarrow> u64) \<Rightarrow> string \<times> field \<times> (u64 \<Rightarrow> string) \<times> string \<Rightarrow> string" where
  "field_line h = (\<lambda>(label, f, fmt, tail). label @ fmt (h f) @ tail @ nl)"

lemma print_fields_spec:
  "elf_image c h secs (fbuf s) \<Longrightarrow> class_of s = c \<Longrightarrow> \<forall>(l, f, g, t) \<in> set fs. f \<in> fst ` set (Ehdr c) \<Longrightarrow>
   print_fields s fs = (concat (map (field_line h) fs), Inr ())"
proof (induction fs)
  case Nil
  then show ?case by (simp add: done_io_def)
next
  case (Cons x fs)
  obtain l f g t where x: "x = (l, f, g, t)" by (cases x)
  have "hdr s f = load (Inr (h f))" by (rule hdr_image [OF Cons.prems(1,2)]) (use Cons.prems(3) in \<open>simp add: x\<close>)
  then show ?case using Cons by (simp add: x field_line_def)
qed

definition header_text :: "elf_class \<Rightarrow> (field \<Rightarrow> u64) \<Rightarrow> u8 list \<Rightarrow> string \<Rightarrow> string" where
  "header_text c h ident t =
     ''ELF Header:'' @ nl @ ''Magic:'' @ concat (map (\<lambda>b. '' '' @ prec 2 (fmt_x (ucast b))) ident) @ nl @
     ''Class: '' @ (case c of ELFCLASS32 \<Rightarrow> ''ELF32'' | ELFCLASS64 \<Rightarrow> ''ELF64'') @ nl @
     ''Data: 2's complement, '' @ (if ident ! 5 = 1 then ''little'' else ''big'') @ '' endian'' @ nl @
     ''Type: '' @ t @ nl @ ''Version: 0x1'' @ nl @ concat (map (field_line h) (header_fields c))"

lemma image_header_length: "elf_image c h secs b \<Longrightarrow> sizeof (Ehdr c) \<le> length b"
proof -
  assume "elf_image c h secs b"
  then have "length (take (sizeof (Ehdr c)) b) = sizeof (Ehdr c)"
    using placed_nth [of "Ehdr c" b 0 "[h]" 0] by (simp add: elf_image_def)
  then show ?thesis by (simp add: min_def split: if_splits)
qed

lemma print_header_spec:
  assumes im: "elf_image c h secs (fbuf s)" and s: "class_of s = c" "valid s" and t: "type_text (h e_type) = Some t"
    and d: "fbuf s ! 5 = 1 \<or> fbuf s ! 5 = 2"
  shows "print_header s = (header_text c h (take 16 (fbuf s)) t, Inr ())"
proof -
  have len: "52 \<le> length (fbuf s)" using image_header_length [OF im] by (cases c) auto
  have small: "length (fbuf s) < 2 ^ 31" using im by (simp add: elf_image_def)
  have i: "print_ident s 16 0 = (concat (map (\<lambda>b. '' '' @ prec 2 (fmt_x (ucast b))) (take 16 (fbuf s))), Inr ())"
    using print_ident_spec [of 0 16 s] len small by simp
  have dat: "rd 1 (fbuf s) 5 = Inr (ucast (fbuf s ! 5))" using rd_byte [of 5 "fbuf s"] len by simp
  have ty: "hdr s e_type = load (Inr (h e_type))" by (rule hdr_image [OF im s(1)]) simp
  have fs: "print_fields s (header_fields c) = (concat (map (field_line h) (header_fields c)), Inr ())"
    by (rule print_fields_spec [OF im s(1)]) (simp add: header_fields_def)
  show ?thesis
    using s t d i dat ty fs by (auto simp: print_header_def header_text_def)
qed


section \<open>Section names\<close>

definition show_byte :: "u8 \<Rightarrow> string" where
  "show_byte b = (if b = 0 then nl else [char_of (unat b)])"

lemma dump_chars_spec:
  "unat tab + i + n \<le> length (fbuf s) \<Longrightarrow> length (fbuf s) < 2 ^ 31 \<Longrightarrow>
   dump_chars print s tab n i =
     (if print then concat (map show_byte (take n (drop (unat tab + i) (fbuf s)))) else '''', Inr ())"
proof (induction n arbitrary: i)
  case 0
  then show ?case by (simp add: done_io_def)
next
  case (Suc n)
  have u: "unat (tab + of_nat i) = unat tab + i"
    using Suc.prems by (subst unat_add_lem [THEN iffD1]) (simp_all add: unat_of_nat)
  then have r: "rd 1 (fbuf s) (tab + of_nat i) = Inr (ucast (fbuf s ! (unat tab + i)))"
    using rd_byte [of "tab + of_nat i" "fbuf s"] Suc.prems by simp
  have d: "take (Suc n) (drop (unat tab + i) (fbuf s)) =
      fbuf s ! (unat tab + i) # take n (drop (unat tab + Suc i) (fbuf s))"
    using Suc.prems(1) by (simp add: Cons_nth_drop_Suc [symmetric])
  have z: "(ucast b :: u64) = 0 \<longleftrightarrow> b = 0" "unat (ucast b :: u64) = unat b" for b :: u8
  proof -
    have "unat b < 2 ^ 8" using unsigned_less [where ?'a = nat and w = b] by simp
    then show u: "unat (ucast b :: u64) = unat b" by (simp add: unsigned_ucast_eq take_bit_nat_eq_self)
    show "(ucast b :: u64) = 0 \<longleftrightarrow> b = 0" using u by (metis unsigned_0 unsigned_word_eqI)
  qed
  have "dump_chars print s tab n (Suc i) =
      (if print then concat (map show_byte (take n (drop (unat tab + Suc i) (fbuf s)))) else '''', Inr ())"
    by (rule Suc.IH) (use Suc.prems in auto)
  then show ?case using r z [of "fbuf s ! (unat tab + i)"] unfolding d by (cases print) (simp_all add: show_byte_def)
qed

text \<open>The names of a string table: an empty one, then each ended by a NUL.\<close>

definition name_table :: "u8 list list \<Rightarrow> u8 list" where
  "name_table names = 0 # concat (map (\<lambda>n. n @ [0]) names)"

lemma show_names:
  "\<forall>n \<in> set names. 0 \<notin> set n \<Longrightarrow>
   concat (map show_byte (concat (map (\<lambda>n. n @ [0]) names))) = concat (map (\<lambda>n. chars n @ nl) names)"
proof (induction names)
  case (Cons n names)
  have "0 \<notin> set n \<Longrightarrow> concat (map show_byte n) = chars n"
    by (induction n) (auto simp: show_byte_def chars_def)
  moreover have "show_byte 0 = nl" by (simp add: show_byte_def)
  ultimately show ?case using Cons by simp
qed simp

lemma string_dump_spec:
  assumes im: "elf_image c h secs (fbuf s)" and s: "class_of s = c" "valid s" and k: "unat (h e_shstrndx) = k" "k < length secs"
    and sec: "sec = secs ! k" and fit: "unat (sec sh_offset) + unat (sec sh_size) \<le> length (fbuf s)" "0 < unat (sec sh_size)"
  shows "string_dump print s =
    (if print then ''Section names from '' @ [CHR 0x27] @ ''.shstrtab'' @ [CHR 0x27] @ '':'' @ nl @
       concat (map show_byte (tl (section_bytes (fbuf s) sec))) else '''',
     Inr (s\<lparr>section_name_table_offset := sec sh_offset, section_name_table_size := sec sh_size\<rparr>))"
proof -
  have hd: "hdr s e_shoff = load (Inr (h e_shoff))" "hdr s e_shentsize = load (Inr (h e_shentsize))"
      "hdr s e_shstrndx = load (Inr (h e_shstrndx))"
    by (rule hdr_image [OF im s(1)]; simp)+
  define p where "p = (case c of ELFCLASS32 \<Rightarrow> ucast (ucast (h e_shoff) + ucast (h e_shentsize) * ucast (h e_shstrndx) :: u32)
      | ELFCLASS64 \<Rightarrow> h e_shoff + int_mul (h e_shentsize) (h e_shstrndx))"
  have p: "unat p = unat (h e_shoff) + k * sizeof (Shdr c)"
    using section_offset [OF im k] by (cases c) (simp_all add: p_def)
  have sh: "shd s p sh_offset = load (Inr (sec sh_offset))" "shd s p sh_size = load (Inr (sec sh_size))"
    unfolding sec by (rule shd_image [OF im s(1) _ k(2) p]; simp)+
  let ?s = "s\<lparr>section_name_table_offset := sec sh_offset, section_name_table_size := sec sh_size\<rparr>"
  have "take (unat (sec sh_size) - 1) (drop (unat (sec sh_offset) + 1) (fbuf s)) = tl (section_bytes (fbuf s) sec)"
    by (simp add: section_bytes_def tl_take tl_drop drop_Suc)
  moreover have "unat (sec sh_offset) + 1 + (unat (sec sh_size) - 1) \<le> length (fbuf s)" using fit by simp
  ultimately have "dump_chars print ?s (sec sh_offset) (unat (sec sh_size) - 1) 1 =
      (if print then concat (map show_byte (tl (section_bytes (fbuf s) sec))) else '''', Inr ())"
    using dump_chars_spec [of "sec sh_offset" 1 "unat (sec sh_size) - 1" ?s print] im by (simp add: elf_image_def)
  then show ?thesis
    using hd sh s by (cases print) (simp_all add: string_dump_def p_def [symmetric] Let_def)
qed

section \<open>Section headers\<close>

text \<open>A name in a string table of the file: whether it ends inside the file, and its text.\<close>

definition has_name :: "u8 list \<Rightarrow> u64 \<Rightarrow> u64 \<Rightarrow> bool" where
  "has_name b tab off \<longleftrightarrow> 0 \<in> set (drop (unat tab + unat off) b)"

definition name_text :: "u8 list \<Rightarrow> u64 \<Rightarrow> u64 \<Rightarrow> string" where
  "name_text b tab off = chars (cstr (drop (unat tab + unat off) b))"

lemma rd_name:
  assumes "has_name b tab off" "length b < 2 ^ 31"
  shows "rd_str b (tab + off) = Inr (name_text b tab off)"
proof -
  have "drop (unat tab + unat off) b \<noteq> []" using assms(1) by (auto simp: has_name_def)
  then have "unat tab + unat off < 2 ^ 64" using assms(2) by simp
  then have "unat (tab + off) = unat tab + unat off" by (subst unat_add_lem [THEN iffD1]) simp_all
  then show ?thesis using assms(1) by (simp add: rd_str_def has_name_def name_text_def cstr_opt_def)
qed

definition section_line :: "elf_class \<Rightarrow> nat \<Rightarrow> (field \<Rightarrow> u64) \<Rightarrow> string \<Rightarrow> string" where
  "section_line c i sec name =
     ''['' @ fill_left 2 (dec_nat i) @ ''] '' @ name @ '' '' @ get_type_str (sec sh_type) @ '' ''
       @ prec (case c of ELFCLASS32 \<Rightarrow> 8 | ELFCLASS64 \<Rightarrow> 16) (fmt_x (sec sh_addr)) @ '' ''
       @ prec 6 (fmt_x (sec sh_offset)) @ '' '' @ prec 6 (fmt_x (sec sh_size)) @ nl"

text \<open>The section whose header is shown in line \<open>i\<close>.\<close>

definition shown :: "elf_class \<Rightarrow> nat \<Rightarrow> nat" where
  "shown c i = (case c of ELFCLASS32 \<Rightarrow> 0 | ELFCLASS64 \<Rightarrow> i)"

lemma print_section_spec:
  assumes im: "elf_image c h secs (fbuf s)" and s: "class_of s = c" and i: "i < length secs"
    and n: "has_name (fbuf s) (section_name_table_offset s) ((secs ! shown c i) sh_name)"
  shows "print_section s i = (section_line c i (secs ! shown c i)
    (name_text (fbuf s) (section_name_table_offset s) ((secs ! shown c i) sh_name)), Inr ())"
proof -
  let ?k = "shown c i" and ?sec = "secs ! shown c i"
  have k: "?k < length secs" using i by (cases c) (auto simp: shown_def)
  have hd: "hdr s e_shoff = load (Inr (h e_shoff))" "hdr s e_shentsize = load (Inr (h e_shentsize))"
    by (rule hdr_image [OF im s]; simp)+
  define ents where "ents = (case c of ELFCLASS32 \<Rightarrow> 0 | ELFCLASS64 \<Rightarrow> h e_shentsize)"
  have "length secs < 2 ^ 64" using im unsigned_less [where ?'a = nat and w = "h e_shnum"] by (simp add: elf_image_def)
  then have "unat (of_nat i :: u64) = i" using i by (simp add: unat_of_nat)
  from section_offset(1) [OF im this i]
  have p: "unat (sect_ptr c (h e_shoff) ents i) = unat (h e_shoff) + ?k * sizeof (Shdr c)"
    by (cases c) (simp_all add: sect_ptr_def shown_def ents_def)
  have sh: "\<forall>f \<in> {sh_name, sh_type, sh_addr, sh_offset, sh_size}. shd s (sect_ptr c (h e_shoff) ents i) f = load (Inr (?sec f))"
    by (intro ballI shd_image [OF im s _ k p]) auto
  have "length (fbuf s) < 2 ^ 31" using im by (simp add: elf_image_def)
  from rd_name [OF n this]
  have nm: "load (rd_str (fbuf s) (section_name_table_offset s + ?sec sh_name)) =
      load (Inr (name_text (fbuf s) (section_name_table_offset s) (?sec sh_name)))" by simp
  have e: "(case c of ELFCLASS32 \<Rightarrow> load (Inr 0) | ELFCLASS64 \<Rightarrow> load (Inr (h e_shentsize))) = load (Inr ents)"
    by (cases c) (simp_all add: ents_def)
  show ?thesis unfolding print_section_def s hd e bindO_load Let_def
    using sh by (simp add: nm section_line_def put_def)
qed

lemma print_sections_spec:
  assumes "\<And>j. i \<le> j \<Longrightarrow> j < i + n \<Longrightarrow> print_section s j = (t j, Inr ())"
  shows "print_sections s n i = (concat (map t [i..<i + n]), Inr ())"
  using assms
proof (induction n arbitrary: i)
  case 0
  then show ?case by (simp add: done_io_def)
next
  case (Suc n)
  have "print_sections s n (Suc i) = (concat (map t [Suc i..<Suc i + n]), Inr ())"
    by (rule Suc.IH) (use Suc.prems in auto)
  moreover have "[i..<i + Suc n] = i # [Suc i..<Suc i + n]" by (simp add: upt_conv_Cons)
  ultimately show ?case using Suc.prems [of i] by simp
qed

lemma list_sections_spec:
  assumes im: "elf_image c h secs (fbuf s)" and s: "class_of s = c" "valid s" "section_name_table_offset s \<noteq> -1"
    and n: "\<forall>sec \<in> set secs. has_name (fbuf s) (section_name_table_offset s) (sec sh_name)"
  shows "list_sect_headers s =
    (''There are '' @ dec_nat (length secs) @ '' section headers, starting at offset 0x'' @ fmt_x (h e_shoff) @ nl @
     ''Section Headers:'' @ nl @ concat (map (\<lambda>i. section_line c i (secs ! shown c i)
       (name_text (fbuf s) (section_name_table_offset s) ((secs ! shown c i) sh_name))) [0..<length secs]), Inr ())"
proof -
  have hd: "hdr s e_shoff = load (Inr (h e_shoff))" "hdr s e_shnum = load (Inr (h e_shnum))"
    by (rule hdr_image [OF im s(1)]; simp)+
  have "shown c i < length secs" if "i < length secs" for i using that by (cases c) (auto simp: shown_def)
  then have "print_section s i = (section_line c i (secs ! shown c i)
      (name_text (fbuf s) (section_name_table_offset s) ((secs ! shown c i) sh_name)), Inr ())" if "i < length secs" for i
    using print_section_spec [OF im s(1) that] n that by (meson nth_mem)
  then have "print_sections s (length secs) 0 = (concat (map (\<lambda>i. section_line c i (secs ! shown c i)
      (name_text (fbuf s) (section_name_table_offset s) ((secs ! shown c i) sh_name))) [0..<0 + length secs]), Inr ())"
    by (intro print_sections_spec) simp
  then show ?thesis using hd s im by (simp add: list_sect_headers_def elf_image_def)
qed


section \<open>Symbols\<close>

definition symbol_line :: "elf_class \<Rightarrow> nat \<Rightarrow> (field \<Rightarrow> u64) \<Rightarrow> string \<Rightarrow> string" where
  "symbol_line c i sm name =
     fill_left 6 (dec_nat i) @ '': '' @ prec (case c of ELFCLASS32 \<Rightarrow> 8 | ELFCLASS64 \<Rightarrow> 16) (fmt_x (sm st_value)) @ ''  ''
       @ fill_left 4 (dec_nat (unat (sm st_size))) @ '' '' @ st_type_text (sm st_info) @ '' '' @ st_bind_text (sm st_info)
       @ '' '' @ st_other_text (sm st_other) @ ''  ''
       @ (if sm st_shndx = 0 then ''UND '' else if sm st_shndx = 0xfff1 then ''ABS ''
          else fill_left 3 (dec_nat (unat (sm st_shndx))) @ '' '') @ name @ nl"

lemma print_symbol_spec:
  assumes "\<forall>f \<in> fst ` set (Sym c). getf (Sym c) (fbuf s) p f = Inr (sm f)" "class_of s = c" "length (fbuf s) < 2 ^ 31"
    and "has_name (fbuf s) str (sm st_name)"
  shows "print_symbol s str i p = (symbol_line c i sm (name_text (fbuf s) str (sm st_name)), Inr ())"
  using assms(1,2) rd_name [OF assms(4,3)]
  by (cases "sm st_shndx = 0"; cases "sm st_shndx = 0xfff1"; simp add: print_symbol_def symbol_line_def Let_def)

lemma placed_fits:
  assumes "placed S b off vs" "vs \<noteq> []" "sizeof S \<noteq> 0"
  shows "off + length vs * sizeof S \<le> length b"
proof -
  have "length (take (length vs * sizeof S) (drop off b)) = length vs * sizeof S"
    using assms(1) by (simp add: placed_def length_concat_structs)
  then have "length vs * sizeof S \<le> length b - off" by simp
  moreover have "0 < length vs * sizeof S" using assms by simp
  ultimately show ?thesis by linarith
qed

lemma sym_ptr_offset:
  assumes "unat base + i * unat ents < 2 ^ 31" "unat ents < 2 ^ 31" "i < 2 ^ 31"
  shows "unat (sym_ptr c base ents i) = unat base + i * unat ents"
proof -
  have lt: "i * unat ents < 2 ^ 31" using assms(1) by linarith
  have i: "unat (of_nat i :: u64) = i" "unat (of_nat i :: u32) = i" using assms(3) by (simp_all add: unat_of_nat)
  have "unat (of_nat i * ents) = i * unat ents" using lt i by (subst unat_mult_lem [THEN iffD1]) simp_all
  moreover have "unat (of_nat i * ucast ents :: u32) = i * unat ents"
    using lt i assms(2) by (subst unat_mult_lem [THEN iffD1]) (simp_all add: ucast32)
  then have "unat (ucast (of_nat i * ucast ents :: u32) :: u64) = i * unat ents"
    using lt by (simp add: unsigned_ucast_eq take_bit_nat_eq_self)
  ultimately show ?thesis using assms(1) by (cases c) (auto simp: sym_ptr_def unat_add_lem [THEN iffD1])
qed

lemma print_symbols_spec:
  assumes pl: "placed (Sym c) (fbuf s) (unat base) syms" and s: "class_of s = c" "length (fbuf s) < 2 ^ 31"
    and h: "shd s h sh_offset = load (Inr base)" "shd s h sh_entsize = load (Inr ents)" "unat ents = sizeof (Sym c)"
    and nm: "\<forall>sm \<in> set syms. has_name (fbuf s) str (sm st_name)"
  shows "i + n = Suc (length syms) \<Longrightarrow> 0 < i \<Longrightarrow> n = 0 \<or> unat p = unat base + (i - 1) * sizeof (Sym c) \<Longrightarrow>
    print_symbols s h str n i p =
      (concat (map (\<lambda>k. symbol_line c k (syms ! (k - 1)) (name_text (fbuf s) str ((syms ! (k - 1)) st_name))) [i..<i + n]),
       Inr ())"
proof (induction n arbitrary: i p)
  case 0
  then show ?case by (simp add: done_io_def)
next
  case (Suc n)
  have k: "i - 1 < length syms" "syms ! (i - 1) \<in> set syms" using Suc.prems by auto
  have p: "unat p = unat base + (i - 1) * sizeof (Sym c)" using Suc.prems(3) by simp
  have "\<forall>f \<in> fst ` set (Sym c). getf (Sym c) (fbuf s) p f = Inr ((syms ! (i - 1)) f)"
    using getf_placed [OF pl k(1) _ sizes_pos(3) s(2) p] by blast
  from print_symbol_spec [OF this s] nm k(2)
  have one: "print_symbol s str i p = (symbol_line c i (syms ! (i - 1)) (name_text (fbuf s) str ((syms ! (i - 1)) st_name)), Inr ())"
    by blast
  have fit: "unat base + length syms * sizeof (Sym c) < 2 ^ 31"
    using placed_fits [OF pl _ sizes_pos(3)] k(1) s(2) by fastforce
  have "n = 0 \<or> unat (sym_ptr c base ents i) = unat base + (Suc i - 1) * sizeof (Sym c)"
  proof (cases n)
    case (Suc m)
    then have il: "i \<le> length syms" using Suc.prems(1) by simp
    then have "i * sizeof (Sym c) \<le> length syms * sizeof (Sym c)" by simp
    then have "unat base + i * unat ents < 2 ^ 31" using fit unfolding h(3) by linarith
    moreover have "i \<le> i * sizeof (Sym c)" "unat ents < 2 ^ 31" by (cases c; simp add: h(3))+
    moreover have "i < 2 ^ 31"
      using \<open>i \<le> i * sizeof (Sym c)\<close> \<open>i * sizeof (Sym c) \<le> length syms * sizeof (Sym c)\<close> fit by linarith
    ultimately show ?thesis using sym_ptr_offset [of base i ents c] h(3) by simp
  qed simp
  from Suc.IH [OF _ _ this] have "print_symbols s h str n (Suc i) (sym_ptr c base ents i) =
      (concat (map (\<lambda>k. symbol_line c k (syms ! (k - 1)) (name_text (fbuf s) str ((syms ! (k - 1)) st_name)))
        [Suc i..<Suc i + n]), Inr ())"
    using Suc.prems(1) by simp
  moreover have "[i..<i + Suc n] = i # [Suc i..<Suc i + n]" by (simp add: upt_conv_Cons)
  ultimately show ?case using one h s by simp
qed

lemma find_header_spec:
  assumes im: "elf_image c h secs (fbuf s)" and s: "class_of s = c" and j: "j < length secs" "(secs ! j) sh_type = t"
    and first: "\<And>k. k < j \<Longrightarrow> (secs ! k) sh_type \<noteq> t"
  shows "i \<le> j \<Longrightarrow> j < i + n \<Longrightarrow> unat p = unat (h e_shoff) + i * sizeof (Shdr c) \<Longrightarrow>
    \<exists>q. find_header s t n p = load (Inr (Some q)) \<and> unat q = unat (h e_shoff) + j * sizeof (Shdr c)"
proof (induction n arbitrary: i p)
  case (Suc n)
  have il: "i < length secs" using Suc.prems(1) j(1) by simp
  have ty: "shd s p sh_type = load (Inr ((secs ! i) sh_type))" by (rule shd_image [OF im s _ il Suc.prems(3)]) simp
  show ?case
  proof (cases "i = j")
    case True
    then show ?thesis using ty j(2) Suc.prems(3) by (intro exI [of _ p]) simp
  next
    case False
    then have "i < j" using Suc.prems(1) by simp
    have b: "unat (h e_shoff) + i * sizeof (Shdr c) + sizeof (Shdr c) < 2 ^ 31"
      using section_fits [OF im il] im by (simp add: elf_image_def)
    then have "unat (p + of_nat (sizeof (Shdr c))) = unat (h e_shoff) + Suc i * sizeof (Shdr c)"
      using Suc.prems(3) by (subst unat_add_lem [THEN iffD1]) (simp_all add: unat_of_nat)
    from Suc.IH [OF _ _ this] show ?thesis using \<open>i < j\<close> Suc.prems(2) ty first [of i] s by simp
  qed
qed simp

definition symbols_text :: "elf_class \<Rightarrow> string \<Rightarrow> (field \<Rightarrow> u64) list \<Rightarrow> (u64 \<Rightarrow> string) \<Rightarrow> string" where
  "symbols_text c name syms text =
     ''Symbol table '' @ [CHR 0x27] @ name @ [CHR 0x27] @ '' contains '' @ dec_nat (length syms) @ '' entries:'' @ nl @
     ''   Num:    Value          Size Type    Bind   Vis      Ndx Name'' @ nl @
     concat (map (\<lambda>i. symbol_line c i (syms ! (i - 1)) (text ((syms ! (i - 1)) st_name))) [1..<Suc (length syms)])"

text \<open>A symbol table in the section at index \<open>j\<close>, the first of type \<open>t\<close>, with its names in the section it links to.\<close>

definition symbol_section :: "elf_class \<Rightarrow> (field \<Rightarrow> u64) list \<Rightarrow> u8 list \<Rightarrow> u64 \<Rightarrow> nat \<Rightarrow> (field \<Rightarrow> u64) list \<Rightarrow> bool" where
  "symbol_section c secs b t j syms \<longleftrightarrow> j < length secs \<and> (secs ! j) sh_type = t \<and> (\<forall>k < j. (secs ! k) sh_type \<noteq> t) \<and>
     unat ((secs ! j) sh_link) < length secs \<and> placed (Sym c) b (unat ((secs ! j) sh_offset)) syms \<and>
     unat ((secs ! j) sh_entsize) = sizeof (Sym c) \<and> unat ((secs ! j) sh_size) = length syms * sizeof (Sym c) \<and>
     length syms < 2 ^ 31 \<and>
     (\<forall>sm \<in> set syms. has_name b ((secs ! unat ((secs ! j) sh_link)) sh_offset) (sm st_name))"

lemma entries_count:
  assumes "unat sz = n * k" "unat ents = k" "k \<noteq> 0" "n < 2 ^ 31"
  shows "sint (ucast (sz div ents :: u64) :: u32) = int n"
proof -
  have "unat (sz div ents) = n" using assms by (simp add: unat_div)
  then have "unat (ucast (sz div ents) :: u32) = n" using assms(4) by (simp add: ucast32)
  then have "uint (ucast (sz div ents) :: u32) = int n" by (metis uint_nat)
  then show ?thesis using assms(4) by (simp add: sint_uint signed_take_bit_int_eq_self)
qed

lemma dump_table_spec:
  assumes im: "elf_image c h secs (fbuf s)" and s: "class_of s = c" "valid s" and sy: "symbol_section c secs (fbuf s) t j syms"
  shows "dump_table t name s =
    (symbols_text c name syms (name_text (fbuf s) ((secs ! unat ((secs ! j) sh_link)) sh_offset)), Inr ())"
proof -
  let ?sec = "secs ! j"
  let ?k = "unat (?sec sh_link)"
  let ?str = "(secs ! ?k) sh_offset"
  have j: "j < length secs" "?sec sh_type = t" "\<And>k. k < j \<Longrightarrow> (secs ! k) sh_type \<noteq> t" "?k < length secs"
    and pl: "placed (Sym c) (fbuf s) (unat (?sec sh_offset)) syms" "unat (?sec sh_entsize) = sizeof (Sym c)"
      "unat (?sec sh_size) = length syms * sizeof (Sym c)" "length syms < 2 ^ 31"
    and nm: "\<forall>sm \<in> set syms. has_name (fbuf s) ?str (sm st_name)"
    using sy by (simp_all add: symbol_section_def)
  have hd: "\<forall>f \<in> {e_shoff, e_shnum, e_shentsize}. hdr s f = load (Inr (h f))"
    by (intro ballI hdr_image [OF im s(1)]) auto
  obtain q where q: "find_header s t (unat (h e_shnum)) (h e_shoff) = load (Inr (Some q))"
      "unat q = unat (h e_shoff) + j * sizeof (Shdr c)"
    using find_header_spec [OF im s(1) j(1,2,3), of 0 "length secs" "h e_shoff"] j(1) im by (auto simp: elf_image_def)
  have sh: "\<forall>f \<in> {sh_link, sh_size, sh_entsize, sh_offset}. shd s q f = load (Inr (?sec f))"
    by (intro ballI shd_image [OF im s(1) _ j(1) q(2)]) auto
  let ?p = "h e_shoff + int_mul (h e_shentsize) (?sec sh_link)"
  have "unat ?p = unat (h e_shoff) + ?k * sizeof (Shdr c)" by (rule section_offset(1) [OF im refl j(4)])
  then have st: "\<forall>f \<in> {sh_size, sh_offset}. shd s ?p f = load (Inr ((secs ! ?k) f))"
    by (intro ballI shd_image [OF im s(1) _ j(4)]) auto
  have n: "sint (ucast (?sec sh_size div ?sec sh_entsize) :: u32) = int (length syms)"
    by (rule entries_count [OF pl(3,2) sizes_pos(3) pl(4)])
  have ez: "?sec sh_entsize \<noteq> 0" using pl(2) sizes_pos(3) [of c] by (metis unsigned_0)
  have small: "length (fbuf s) < 2 ^ 31" using im by (simp add: elf_image_def)
  have "shd s q sh_offset = load (Inr (?sec sh_offset))" "shd s q sh_entsize = load (Inr (?sec sh_entsize))" using sh by auto
  from print_symbols_spec [OF pl(1) s(1) small this pl(2) nm, of 1 "length syms" "?sec sh_offset"]
  have ps: "print_symbols s q ?str (length syms) 1 (?sec sh_offset) = (concat (map (\<lambda>i. symbol_line c i (syms ! (i - 1))
      (name_text (fbuf s) ?str ((syms ! (i - 1)) st_name))) [1..<Suc (length syms)]), Inr ())" by simp
  have di: "dec_int (int (length syms)) = dec_nat (length syms)" by (simp add: dec_int_def)
  show ?thesis
    using hd q(1) sh st ez s(2) ps di by (simp add: dump_table_def Let_def n symbols_text_def del: upt_Suc)
qed


section \<open>Runs of the program\<close>

definition elf_file :: "elf_class \<Rightarrow> (field \<Rightarrow> u64) \<Rightarrow> (field \<Rightarrow> u64) list \<Rightarrow> u8 list \<Rightarrow> u8 \<Rightarrow> bool" where
  "elf_file c h secs bytes junk \<longleftrightarrow> elf_image c h secs (bytes @ [junk]) \<and> identify (bytes @ [junk]) = Inr c \<and> bytes \<noteq> []"

definition start_state :: "elf_class \<Rightarrow> u8 list \<Rightarrow> info" where
  "start_state c b = \<lparr>fbuf = b, valid = True, class_of = c, section_name_table_offset = -1, section_name_table_size = 0\<rparr>"

lemma start_simps [simp]: "fbuf (start_state c b) = b" "valid (start_state c b)" "class_of (start_state c b) = c"
  by (simp_all add: start_state_def)

lemma binary_info_run:
  assumes "parse_option opt = Some m" "fs f = Some bytes" "bytes \<noteq> []" "identify (bytes @ [j]) = Inr c"
  shows "binary_info fs True j [p, opt, f] = after (''File: '' @ f @ nl) (run_mode m (start_state c (bytes @ [j])))"
  using assms by (simp add: binary_info_def start_state_def)

lemma identify_data: "identify b = Inr c \<Longrightarrow> b ! 5 = 1 \<or> b ! 5 = 2"
  by (auto simp: identify_def split: if_splits)


section \<open>An example file\<close>

lemma image_build:
  assumes "b = struct_bytes (Ehdr c) h @ mid @ concat (map (struct_bytes (Shdr c)) secs) @ rest" "length b < 2 ^ 31"
    and "unat (h e_shoff) = sizeof (Ehdr c) + length mid" "unat (h e_shnum) = length secs"
    and "unat (h e_shentsize) = sizeof (Shdr c)" "\<forall>(f, n) \<in> set (Ehdr c). take_bit (8 * n) (h f) = h f"
    and "\<forall>v \<in> set secs. \<forall>(f, n) \<in> set (Shdr c). take_bit (8 * n) (v f) = v f"
  shows "elf_image c h secs b"
  using assms by (simp add: elf_image_def placed_def length_concat_structs)

definition fields :: "(field \<times> u64) list \<Rightarrow> field \<Rightarrow> u64" where
  "fields xs f = (case map_of xs f of None \<Rightarrow> 0 | Some v \<Rightarrow> v)"

text \<open>A 64-bit file with the names \<open>.a\<close> and \<open>f\<close>, and one symbol.\<close>

definition ex_names :: "u8 list list" where
  "ex_names = [[0x2e, 0x61], [0x66]]"

definition ex_header :: "field \<Rightarrow> u64" where
  "ex_header = fields [(e_ident, 0x10102464c457f), (e_type, 2), (e_shoff, 94), (e_shentsize, 64), (e_shnum, 3), (e_shstrndx, 1)]"

definition ex_symbol :: "field \<Rightarrow> u64" where
  "ex_symbol = fields [(st_name, 4), (st_info, 0x12), (st_shndx, 1), (st_value, 0x401000), (st_size, 32)]"

definition ex_sections :: "(field \<Rightarrow> u64) list" where
  "ex_sections = [fields [], fields [(sh_name, 1), (sh_type, 3), (sh_offset, 64), (sh_size, 6)],
     fields [(sh_name, 4), (sh_type, 2), (sh_offset, 70), (sh_size, 24), (sh_link, 1), (sh_entsize, 24)]]"

definition ex_file :: "u8 list" where
  "ex_file = struct_bytes Elf64_Ehdr ex_header @ (name_table ex_names @ struct_bytes Elf64_Sym ex_symbol) @
     concat (map (struct_bytes Elf64_Shdr) ex_sections)"

lemma ex_sizes [simp]: "sizeof Elf64_Ehdr = 64" "sizeof Elf64_Shdr = 64" "sizeof Elf64_Sym = 24"
  by (simp_all add: sizeof_def struct_defs)

lemma ex_length: "length ex_file = 286" "length (name_table ex_names) = 6"
  by (simp_all add: ex_file_def length_concat_structs ex_sections_def name_table_def ex_names_def)

lemma ex_structs [simp]: "Ehdr ELFCLASS64 = Elf64_Ehdr" "Shdr ELFCLASS64 = Elf64_Shdr" "Sym ELFCLASS64 = Elf64_Sym"
  by (simp_all add: Ehdr_def Shdr_def Sym_def)

lemma ex_image: "elf_image ELFCLASS64 ex_header ex_sections (ex_file @ [0])"
proof (rule image_build)
  show "ex_file @ [0] = struct_bytes (Ehdr ELFCLASS64) ex_header @ (name_table ex_names @ struct_bytes Elf64_Sym ex_symbol) @
      concat (map (struct_bytes (Shdr ELFCLASS64)) ex_sections) @ [0]"
    by (simp add: ex_file_def)
  show "\<forall>(f, n) \<in> set (Ehdr ELFCLASS64). take_bit (8 * n) (ex_header f) = ex_header f"
    by (simp add: Elf64_Ehdr_def ex_header_def fields_def)
  show "\<forall>v \<in> set ex_sections. \<forall>(f, n) \<in> set (Shdr ELFCLASS64). take_bit (8 * n) (v f) = v f"
    by (simp add: Elf64_Shdr_def ex_sections_def fields_def)
qed (simp_all add: ex_length, simp_all add: ex_header_def fields_def ex_sections_def)

lemma take_le_bytes: "n \<le> m \<Longrightarrow> take n (le_bytes m w) = le_bytes n w"
proof (induction n arbitrary: m w)
  case (Suc n)
  then show ?case by (cases m) auto
qed simp

lemma ex_ident: "identify (ex_file @ [0]) = Inr ELFCLASS64"
proof -
  have "take 8 (ex_file @ [0]) = take 8 (le_bytes 16 0x10102464c457f)"
    by (simp add: ex_file_def struct_bytes_def Elf64_Ehdr_def ex_header_def fields_def)
  also have "\<dots> = le_bytes 8 0x10102464c457f" by (rule take_le_bytes) simp
  also have "\<dots> = [0x7f, 0x45, 0x4c, 0x46, 2, 1, 1, 0]" by code_simp
  finally have t: "take 8 (ex_file @ [0]) = [0x7f, 0x45, 0x4c, 0x46, 2, 1, 1, 0]" .
  have "(ex_file @ [0]) ! i = [0x7f, 0x45, 0x4c, 0x46, 2, 1, 1, 0] ! i" if "i < 8" for i
    using that t by (metis nth_take)
  then show ?thesis by (simp add: identify_def ex_length)
qed

lemma ex_elf: "elf_file ELFCLASS64 ex_header ex_sections ex_file 0"
  using ex_image ex_ident ex_length by (auto simp: elf_file_def)




text \<open>With \<open>-sn\<close> the program prints each name of the section name table on a line of its own.\<close>

theorem section_names_printed:
  assumes "fs f = Some bytes" "elf_file c h secs bytes j" "unat (h e_shstrndx) < length secs"
    and "sec = secs ! unat (h e_shstrndx)" "section_bytes (bytes @ [j]) sec = name_table names"
    and "length (section_bytes (bytes @ [j]) sec) = unat (sec sh_size)" "\<forall>n \<in> set names. 0 \<notin> set n"
  shows "binary_info fs True j [p, ''-sn'', f] =
    (''File: '' @ f @ nl @ ''Section names from '' @ [CHR 0x27] @ ''.shstrtab'' @ [CHR 0x27] @ '':'' @ nl @
     concat (map (\<lambda>n. chars n @ nl) names), Inr ())"
proof -
  let ?s = "start_state c (bytes @ [j])"
  have e: "elf_image c h secs (fbuf ?s)" "identify (bytes @ [j]) = Inr c" "bytes \<noteq> []"
    using assms(2) by (simp_all add: elf_file_def)
  have pos: "0 < unat (sec sh_size)" using assms(5,6) by (simp add: name_table_def)
  then have "unat (sec sh_offset) + unat (sec sh_size) \<le> length (fbuf ?s)"
    using assms(6) by (simp add: section_bytes_def min_def split: if_splits)
  from string_dump_spec [OF e(1) _ _ refl assms(3,4) this pos, of True]
  have "string_dump True ?s = (''Section names from '' @ [CHR 0x27] @ ''.shstrtab'' @ [CHR 0x27] @ '':'' @ nl @
      concat (map (\<lambda>n. chars n @ nl) names),
      Inr (?s\<lparr>section_name_table_offset := sec sh_offset, section_name_table_size := sec sh_size\<rparr>))"
    using assms(5,7) by (simp add: name_table_def show_names)
  then show ?thesis using binary_info_run [of "''-sn''" OPT_SN fs f bytes j c p] assms(1) e(2,3)
    by (simp add: parse_option_def run_mode_def)
qed

theorem section_names_printed_witness:
  "binary_info [''f'' \<mapsto> ex_file] True 0 [''binary_info'', ''-sn'', ''f''] =
    (''File: f'' @ nl @ ''Section names from '' @ [CHR 0x27] @ ''.shstrtab'' @ [CHR 0x27] @ '':'' @ nl @ ''.a'' @ nl @ ''f'' @ nl,
     Inr ())"
proof -
  have "unat (ex_header e_shstrndx) = 1" by (simp add: ex_header_def fields_def)
  moreover have "unat (ex_header e_shstrndx) < length ex_sections" by (simp add: ex_header_def ex_sections_def fields_def)
  moreover have "section_bytes (ex_file @ [0]) (ex_sections ! 1) = name_table ex_names"
    by (simp add: section_bytes_def ex_sections_def fields_def ex_file_def ex_length)
  moreover have "chars [0x2e, 0x61] = ''.a''" "chars [0x66] = ''f''" by code_simp+
  ultimately show ?thesis
    using section_names_printed [OF _ ex_elf _ refl, of "[''f'' \<mapsto> ex_file]" "''f''" ex_names]
    by (simp add: ex_length) (simp add: ex_sections_def fields_def ex_names_def)
qed

text \<open>C39: with \<open>-sec\<close> the program lists the section headers of a 64-bit file one by one, with their
  names; for a 32-bit file every line shows the first section.\<close>

theorem sections_listed:
  assumes "fs f = Some bytes" "elf_file c h secs bytes j" "unat (h e_shstrndx) < length secs"
    and "sec = secs ! unat (h e_shstrndx)" "unat (sec sh_offset) + unat (sec sh_size) \<le> length bytes" "0 < unat (sec sh_size)"
    and "\<forall>x \<in> set secs. has_name (bytes @ [j]) (sec sh_offset) (x sh_name)"
  shows "binary_info fs True j [p, ''-sec'', f] =
    (''File: '' @ f @ nl @ ''There are '' @ dec_nat (length secs) @ '' section headers, starting at offset 0x'' @
     fmt_x (h e_shoff) @ nl @ ''Section Headers:'' @ nl @
     concat (map (\<lambda>i. let k = (case c of ELFCLASS32 \<Rightarrow> 0 | ELFCLASS64 \<Rightarrow> i)
       in section_line c i (secs ! k) (name_text (bytes @ [j]) (sec sh_offset) ((secs ! k) sh_name))) [0..<length secs]), Inr ())"
proof -
  let ?s = "start_state c (bytes @ [j])"
  let ?s1 = "?s\<lparr>section_name_table_offset := sec sh_offset, section_name_table_size := sec sh_size\<rparr>"
  have e: "elf_image c h secs (fbuf ?s)" "identify (bytes @ [j]) = Inr c" "bytes \<noteq> []"
    using assms(2) by (simp_all add: elf_file_def)
  have fit: "unat (sec sh_offset) + unat (sec sh_size) \<le> length (fbuf ?s)" using assms(5) by simp
  have d: "string_dump False ?s = ('''', Inr ?s1)"
    using string_dump_spec [OF e(1) _ _ refl assms(3,4) fit assms(6), of False] by simp
  have "sec sh_offset \<noteq> -1"
  proof
    assume "sec sh_offset = -1"
    moreover have "unat (sec sh_offset) < 2 ^ 31" using fit e(1) by (simp add: elf_image_def)
    ultimately show False by (simp add: unsigned_minus_1_eq_mask mask_eq_exp_minus_1)
  qed
  then have "list_sect_headers ?s1 =
    (''There are '' @ dec_nat (length secs) @ '' section headers, starting at offset 0x'' @ fmt_x (h e_shoff) @ nl @
     ''Section Headers:'' @ nl @ concat (map (\<lambda>i. section_line c i (secs ! shown c i)
       (name_text (bytes @ [j]) (sec sh_offset) ((secs ! shown c i) sh_name))) [0..<length secs]), Inr ())"
    using list_sections_spec [of c h secs ?s1] e(1) assms(7) by simp
  then show ?thesis using binary_info_run [of "''-sec''" OPT_SEC fs f bytes j c p] assms(1) e(2,3) d
    by (simp add: parse_option_def run_mode_def shown_def Let_def)
qed

theorem sections_listed_witness:
  "\<exists>out. binary_info [''f'' \<mapsto> ex_file] True 0 [''binary_info'', ''-sec'', ''f''] =
    (''File: f'' @ nl @ ''There are 3 section headers, starting at offset 0x5e'' @ nl @ ''Section Headers:'' @ nl @ out, Inr ())"
proof -
  have "hex_nat 94 = ''5e''" "dec_nat 3 = ''3''" by code_simp+
  then have n: "unat (ex_header e_shstrndx) = 1" "1 < length ex_sections" "length ex_sections = 3" "fmt_x (ex_header e_shoff) = ''5e''"
      "dec_nat 3 = ''3''"
    by (simp_all add: ex_header_def ex_sections_def fields_def fmt_x_def)
  have "has_name (ex_file @ [0]) ((ex_sections ! 1) sh_offset) (x sh_name)" if "x \<in> set ex_sections" for x
    using that by (auto simp: has_name_def ex_sections_def fields_def ex_length)
  then show ?thesis
    using sections_listed [OF _ ex_elf _ refl, of "[''f'' \<mapsto> ex_file]" "''f''" "''binary_info''"] n
    by (simp add: ex_length) (simp add: ex_sections_def fields_def)
qed

text \<open>C38: with \<open>-sym\<close> and \<open>-dyn\<close> the program lists exactly the symbols of the first symbol table and of
  the first dynamic symbol table of the file, with the names in the section that the table links to.\<close>

theorem symbols_listed:
  assumes "fs f = Some bytes" "elf_file c h secs bytes j"
    and "(opt, t, name) \<in> {(''-sym'', 2, ''.symtab''), (''-dyn'', 11, ''.dynsym'')}"
    and "symbol_section c secs (bytes @ [j]) t k syms"
  shows "binary_info fs True j [p, opt, f] =
    (''File: '' @ f @ nl @ symbols_text c name syms
       (name_text (bytes @ [j]) ((secs ! unat ((secs ! k) sh_link)) sh_offset)), Inr ())"
proof -
  let ?s = "start_state c (bytes @ [j])"
  have e: "elf_image c h secs (fbuf ?s)" "identify (bytes @ [j]) = Inr c" "bytes \<noteq> []"
    using assms(2) by (simp_all add: elf_file_def)
  have d: "dump_table t name ?s = (symbols_text c name syms
      (name_text (bytes @ [j]) ((secs ! unat ((secs ! k) sh_link)) sh_offset)), Inr ())"
    using dump_table_spec [OF e(1), of t k syms name] assms(4) by simp
  consider "opt = ''-sym''" "t = 2" "name = ''.symtab''" | "opt = ''-dyn''" "t = 11" "name = ''.dynsym''" using assms(3) by auto
  then show ?thesis
  proof cases
    case 1
    then show ?thesis using binary_info_run [of opt OPT_SYM fs f bytes j c p] assms(1) e(2,3) d
      by (simp add: parse_option_def run_mode_def symbol_dump_def)
  next
    case 2
    then show ?thesis using binary_info_run [of opt OPT_DYN fs f bytes j c p] assms(1) e(2,3) d
      by (simp add: parse_option_def run_mode_def dynsym_dump_def)
  qed
qed

lemma all_less_two: "(\<forall>k < (2 :: nat). P k) \<longleftrightarrow> P 0 \<and> P 1"
  by (auto simp: numeral_2_eq_2 less_Suc_eq)

theorem symbols_listed_witness:
  "binary_info [''f'' \<mapsto> ex_file] True 0 [''binary_info'', ''-sym'', ''f''] =
    (''File: f'' @ nl @ symbols_text ELFCLASS64 ''.symtab'' [ex_symbol] (name_text (ex_file @ [0]) 64), Inr ())"
proof -
  have "placed Elf64_Sym (ex_file @ [0]) 70 [ex_symbol]"
    by (simp add: placed_def ex_file_def ex_length) (simp add: fields_def ex_symbol_def Elf64_Sym_def)
  moreover have "ex_symbol st_name = 4" by (simp add: ex_symbol_def fields_def)
  ultimately have "symbol_section ELFCLASS64 ex_sections (ex_file @ [0]) 2 2 [ex_symbol]"
    by (simp add: symbol_section_def has_name_def ex_length ex_sections_def fields_def all_less_two nth_Cons')
  from symbols_listed [OF _ ex_elf _ this, of "[''f'' \<mapsto> ex_file]" "''f''" "''-sym''" "''.symtab''" "''binary_info''"]
  show ?thesis by (simp add: ex_sections_def fields_def)
qed

section \<open>Short files\<close>

lemma load_eq [simp]: "load x = load y \<longleftrightarrow> x = y"
  by (simp add: load_def)

lemma rd_cases: "(\<exists>x. rd n b p = Inr x) \<or> rd n b p = Inl OutOfBounds"
  by (simp add: rd_def)

lemma print_fields_short:
  "(l, f, g, t) \<in> set fs \<Longrightarrow> hdr s f = load (Inl OutOfBounds) \<Longrightarrow> snd (print_fields s fs) = Inl OutOfBounds"
proof (induction fs)
  case (Cons x fs)
  obtain l' f' g' t' where x: "x = (l', f', g', t')" by (cases x)
  consider y where "hdr s f' = load (Inr y)" | "hdr s f' = load (Inl OutOfBounds)"
    using rd_cases unfolding hdr_def getf_def by metis
  then show ?case using Cons by cases (auto simp: x fail_def after_def)
qed simp

lemma print_ident_cases: "(\<exists>out. print_ident s n i = (out, Inr ())) \<or> (\<exists>out. print_ident s n i = (out, Inl OutOfBounds))"
proof (induction n arbitrary: i)
  case (Suc n)
  consider y where "rd 1 (fbuf s) (of_nat i) = Inr y" | "rd 1 (fbuf s) (of_nat i) = Inl OutOfBounds"
    using rd_cases by blast
  then show ?case using Suc [of "Suc i"] by cases (auto simp: fail_def)
qed (simp add: done_io_def)

lemma after_snd [simp]: "snd (after s m) = snd m"
  by (simp add: after_def)

lemma print_header_short:
  assumes "valid s" "length (fbuf s) < sizeof (Ehdr (class_of s))"
  shows "snd (print_header s) \<in> {Inl OutOfBounds, Inl (ExitCode 3)}"
proof -
  have "hdr s e_shstrndx = load (Inl OutOfBounds)"
    using assms(2) by (cases "class_of s")
      (simp_all add: hdr_def getf_def rd_def Ehdr_def struct_defs sizeof_def)
  moreover have "(''Section header string table index: '', e_shstrndx, fmt_int (class_of s), '''') \<in> set (header_fields (class_of s))"
    by (simp add: header_fields_def)
  ultimately have pf: "snd (print_fields s (header_fields (class_of s))) = Inl OutOfBounds"
    using print_fields_short by blast
  consider out where "print_ident s 16 0 = (out, Inr ())" | out where "print_ident s 16 0 = (out, Inl OutOfBounds)"
    using print_ident_cases by blast
  then show ?thesis
  proof cases
    case 1
    have d: "(\<exists>d. rd 1 (fbuf s) 5 = Inr d) \<or> rd 1 (fbuf s) 5 = Inl OutOfBounds" by (rule rd_cases)
    have t: "(\<exists>t. hdr s e_type = load (Inr t)) \<or> hdr s e_type = load (Inl OutOfBounds)"
      using rd_cases unfolding hdr_def getf_def by metis
    show ?thesis using d
    proof
      assume "\<exists>d. rd 1 (fbuf s) 5 = Inr d"
      then show ?thesis using t assms(1) 1 pf by (auto simp: print_header_def fail_def split: option.splits)
    next
      assume "rd 1 (fbuf s) 5 = Inl OutOfBounds"
      then show ?thesis using assms(1) 1 by (simp add: print_header_def fail_def)
    qed
  next
    case 2
    then show ?thesis using assms(1) by (simp add: print_header_def)
  qed
qed

text \<open>Nothing checks the size of the file against its headers: on a file that passes the
  identification but is shorter than an ELF header, \<open>-h\<close> reads past the end of the buffer unless it
  stops at the file's type.\<close>

theorem short_header_faults:
  assumes "fs f = Some bytes" "bytes \<noteq> []" "identify (bytes @ [j]) = Inr c" "length bytes + 1 < sizeof (Ehdr c)"
  shows "snd (binary_info fs True j [p, ''-h'', f]) \<in> {Inl OutOfBounds, Inl (ExitCode 3)}"
  using binary_info_run [of "''-h''" OPT_H fs f bytes j c p] assms(1-3) print_header_short [of "start_state c (bytes @ [j])"] assms(4)
  by (simp add: parse_option_def run_mode_def)

theorem short_header_faults_witness:
  "snd (binary_info [''f'' \<mapsto> [0x7f, 0x45, 0x4c, 0x46, 2, 1, 1]] True 0 [''binary_info'', ''-h'', ''f'']) \<in>
    {Inl OutOfBounds, Inl (ExitCode 3)}"
  by (rule short_header_faults [of _ _ "[0x7f, 0x45, 0x4c, 0x46, 2, 1, 1]" 0 ELFCLASS64]) (simp_all add: identify_def)

end
