(* ===== verification/X20_ISA.thy ===== *)
theory X20_ISA
  imports Prelude
begin

text \<open>
  The x20 instruction set as the tools of the repository know it.  Each of the three tools has
  its own copy of the opcode table and of the two \<open>switch\<close> functions \<open>op_name\<close> and
  \<open>op_format\<close>: the recursive disassembler (A1/P2/dsx20.h, dsx20.c), the linear one
  (A1/P2/dsx20_linear.h, dsx20_linear.c) and the virtual machine (A2/P2/vmx20_macros.h,
  vmx20.c).  All three copies are modelled, and the lemmas say where they agree.  The
  sign extension macros are compared with the sign extension of two's complement fields.
\<close>

section \<open>Opcodes and instruction formats\<close>

datatype ins =
    INS_HALT | INS_LOAD | INS_STORE | INS_LDIMM | INS_LDADDR | INS_LDIND | INS_STIND | INS_ADDF | INS_SUBF
  | INS_DIVF | INS_MULF | INS_ADDI | INS_SUBI | INS_DIVI | INS_MULI | INS_CALL | INS_RET | INS_BLT
  | INS_BGT | INS_BEQ | INS_JMP | INS_CMPXCHG | INS_GETPID | INS_GETPN | INS_PUSH | INS_POP
  | INS_NOP | INS_INVALID

datatype fmt = F_OP | F_ADDR | F_REG | F_REGCONST | F_REGADDR | F_REGREG | F_REGOFF
  | F_REGREGADDR | F_INVALID

text \<open>The opcode tables: the \<open>#define\<close> lines, read from the byte to the name.  A byte with no
  entry takes the \<open>default\<close> branch of every \<open>switch\<close>, as \<open>INS_INVALID\<close> does.\<close>

definition ds_ins :: "u8 \<Rightarrow> ins" where
  "ds_ins b =
     (if b = 0x00 then INS_HALT
      else if b = 0x01 then INS_LOAD
      else if b = 0x02 then INS_STORE
      else if b = 0x03 then INS_LDIMM
      else if b = 0x04 then INS_LDADDR
      else if b = 0x05 then INS_LDIND
      else if b = 0x06 then INS_STIND
      else if b = 0x07 then INS_ADDF
      else if b = 0x08 then INS_SUBF
      else if b = 0x09 then INS_DIVF
      else if b = 0x0a then INS_MULF
      else if b = 0x0b then INS_ADDI
      else if b = 0x0c then INS_SUBI
      else if b = 0x0d then INS_DIVI
      else if b = 0x0e then INS_MULI
      else if b = 0x0f then INS_CALL
      else if b = 0x10 then INS_RET
      else if b = 0x11 then INS_BLT
      else if b = 0x12 then INS_BGT
      else if b = 0x13 then INS_BEQ
      else if b = 0x14 then INS_JMP
      else if b = 0x15 then INS_CMPXCHG
      else if b = 0x16 then INS_GETPID
      else if b = 0x17 then INS_GETPN
      else if b = 0x18 then INS_PUSH
      else if b = 0x19 then INS_POP
      else if b = 0x20 then INS_NOP
      else INS_INVALID)"

definition vm_ins :: "u8 \<Rightarrow> ins" where
  "vm_ins b =
     (if b = 0x00 then INS_HALT
      else if b = 0x01 then INS_LOAD
      else if b = 0x02 then INS_STORE
      else if b = 0x03 then INS_LDIMM
      else if b = 0x04 then INS_LDADDR
      else if b = 0x05 then INS_LDIND
      else if b = 0x06 then INS_STIND
      else if b = 0x07 then INS_ADDF
      else if b = 0x08 then INS_SUBF
      else if b = 0x09 then INS_DIVF
      else if b = 0x0a then INS_MULF
      else if b = 0x0b then INS_ADDI
      else if b = 0x0c then INS_SUBI
      else if b = 0x0d then INS_DIVI
      else if b = 0x0e then INS_MULI
      else if b = 0x0f then INS_CALL
      else if b = 0x10 then INS_RET
      else if b = 0x11 then INS_BLT
      else if b = 0x12 then INS_BGT
      else if b = 0x13 then INS_BEQ
      else if b = 0x14 then INS_JMP
      else if b = 0x15 then INS_CMPXCHG
      else if b = 0x16 then INS_GETPID
      else if b = 0x17 then INS_GETPN
      else if b = 0x18 then INS_PUSH
      else if b = 0x19 then INS_POP
      else if b = 0x20 then INS_NOP
      else INS_INVALID)"

definition lin_ins :: "u8 \<Rightarrow> ins" where
  "lin_ins b =
     (if b = 0x00 then INS_HALT
      else if b = 0x01 then INS_LOAD
      else if b = 0x02 then INS_STORE
      else if b = 0x03 then INS_LDIMM
      else if b = 0x04 then INS_LDADDR
      else if b = 0x05 then INS_LDIND
      else if b = 0x06 then INS_STIND
      else if b = 0x07 then INS_ADDF
      else if b = 0x08 then INS_SUBF
      else if b = 0x09 then INS_DIVF
      else if b = 0x0a then INS_MULF
      else if b = 0x0b then INS_ADDI
      else if b = 0x0c then INS_SUBI
      else if b = 0x0d then INS_DIVI
      else if b = 0x0e then INS_MULI
      else if b = 0x0f then INS_CALL
      else if b = 0x10 then INS_RET
      else if b = 0x11 then INS_BLT
      else if b = 0x12 then INS_BGT
      else if b = 0x13 then INS_BEQ
      else if b = 0x14 then INS_JMP
      else if b = 0x15 then INS_CMPXCHG
      else if b = 0x16 then INS_GETPID
      else if b = 0x17 then INS_GETPN
      else if b = 0x18 then INS_PUSH
      else if b = 0x19 then INS_POP
      else INS_INVALID)"

section \<open>Names and formats\<close>

definition ds_op_name :: "u8 \<Rightarrow> string" where
  "ds_op_name op =
     (case ds_ins op of
        INS_HALT \<Rightarrow> ''halt''
      | INS_LOAD \<Rightarrow> ''load''
      | INS_STORE \<Rightarrow> ''store''
      | INS_LDIMM \<Rightarrow> ''ldimm''
      | INS_LDADDR \<Rightarrow> ''ldaddr''
      | INS_LDIND \<Rightarrow> ''ldind''
      | INS_STIND \<Rightarrow> ''stind''
      | INS_ADDF \<Rightarrow> ''addf''
      | INS_SUBF \<Rightarrow> ''subf''
      | INS_DIVF \<Rightarrow> ''divf''
      | INS_MULF \<Rightarrow> ''mulf''
      | INS_ADDI \<Rightarrow> ''addi''
      | INS_SUBI \<Rightarrow> ''subi''
      | INS_DIVI \<Rightarrow> ''divi''
      | INS_MULI \<Rightarrow> ''muli''
      | INS_CALL \<Rightarrow> ''call''
      | INS_RET \<Rightarrow> ''ret''
      | INS_BLT \<Rightarrow> ''blt''
      | INS_BGT \<Rightarrow> ''bgt''
      | INS_BEQ \<Rightarrow> ''beq''
      | INS_JMP \<Rightarrow> ''jmp''
      | INS_CMPXCHG \<Rightarrow> ''cmpxchg''
      | INS_GETPID \<Rightarrow> ''getpid''
      | INS_GETPN \<Rightarrow> ''getpn''
      | INS_PUSH \<Rightarrow> ''push''
      | INS_POP \<Rightarrow> ''pop''
      | INS_NOP \<Rightarrow> ''NOP''
      | INS_INVALID \<Rightarrow> ''unknown'')"

definition vm_op_name :: "u8 \<Rightarrow> string" where
  "vm_op_name op =
     (case vm_ins op of
        INS_HALT \<Rightarrow> ''halt''
      | INS_LOAD \<Rightarrow> ''load''
      | INS_STORE \<Rightarrow> ''store''
      | INS_LDIMM \<Rightarrow> ''ldimm''
      | INS_LDADDR \<Rightarrow> ''ldaddr''
      | INS_LDIND \<Rightarrow> ''ldind''
      | INS_STIND \<Rightarrow> ''stind''
      | INS_ADDF \<Rightarrow> ''addf''
      | INS_SUBF \<Rightarrow> ''subf''
      | INS_DIVF \<Rightarrow> ''divf''
      | INS_MULF \<Rightarrow> ''mulf''
      | INS_ADDI \<Rightarrow> ''addi''
      | INS_SUBI \<Rightarrow> ''subi''
      | INS_DIVI \<Rightarrow> ''divi''
      | INS_MULI \<Rightarrow> ''muli''
      | INS_CALL \<Rightarrow> ''call''
      | INS_RET \<Rightarrow> ''ret''
      | INS_BLT \<Rightarrow> ''blt''
      | INS_BGT \<Rightarrow> ''bgt''
      | INS_BEQ \<Rightarrow> ''beq''
      | INS_JMP \<Rightarrow> ''jmp''
      | INS_CMPXCHG \<Rightarrow> ''cmpxchg''
      | INS_GETPID \<Rightarrow> ''getpid''
      | INS_GETPN \<Rightarrow> ''getpn''
      | INS_PUSH \<Rightarrow> ''push''
      | INS_POP \<Rightarrow> ''pop''
      | INS_NOP \<Rightarrow> ''NOP''
      | INS_INVALID \<Rightarrow> ''unknown'')"

definition lin_op_name :: "u8 \<Rightarrow> string" where
  "lin_op_name op =
     (case lin_ins op of
        INS_HALT \<Rightarrow> ''halt''
      | INS_LOAD \<Rightarrow> ''load''
      | INS_STORE \<Rightarrow> ''store''
      | INS_LDIMM \<Rightarrow> ''ldimm''
      | INS_LDADDR \<Rightarrow> ''ldaddr''
      | INS_LDIND \<Rightarrow> ''ldind''
      | INS_STIND \<Rightarrow> ''stind''
      | INS_ADDF \<Rightarrow> ''addf''
      | INS_SUBF \<Rightarrow> ''subf''
      | INS_DIVF \<Rightarrow> ''divf''
      | INS_MULF \<Rightarrow> ''mulf''
      | INS_ADDI \<Rightarrow> ''addi''
      | INS_SUBI \<Rightarrow> ''subi''
      | INS_DIVI \<Rightarrow> ''divi''
      | INS_MULI \<Rightarrow> ''muli''
      | INS_CALL \<Rightarrow> ''call''
      | INS_RET \<Rightarrow> ''ret''
      | INS_BLT \<Rightarrow> ''blt''
      | INS_BGT \<Rightarrow> ''bgt''
      | INS_BEQ \<Rightarrow> ''beq''
      | INS_JMP \<Rightarrow> ''jmp''
      | INS_CMPXCHG \<Rightarrow> ''cmpxchg''
      | INS_GETPID \<Rightarrow> ''getpid''
      | INS_GETPN \<Rightarrow> ''getpn''
      | INS_PUSH \<Rightarrow> ''push''
      | INS_POP \<Rightarrow> ''pop''
      | INS_NOP \<Rightarrow> ''unknown''
      | INS_INVALID \<Rightarrow> ''unknown'')"

definition ds_op_format :: "u8 \<Rightarrow> fmt" where
  "ds_op_format op =
     (case ds_ins op of
        INS_HALT \<Rightarrow> F_OP
      | INS_LOAD \<Rightarrow> F_REGADDR
      | INS_STORE \<Rightarrow> F_REGADDR
      | INS_LDIMM \<Rightarrow> F_REGCONST
      | INS_LDADDR \<Rightarrow> F_REGADDR
      | INS_LDIND \<Rightarrow> F_REGOFF
      | INS_STIND \<Rightarrow> F_REGOFF
      | INS_ADDF \<Rightarrow> F_REGREG
      | INS_SUBF \<Rightarrow> F_REGREG
      | INS_DIVF \<Rightarrow> F_REGREG
      | INS_MULF \<Rightarrow> F_REGREG
      | INS_ADDI \<Rightarrow> F_REGREG
      | INS_SUBI \<Rightarrow> F_REGREG
      | INS_DIVI \<Rightarrow> F_REGREG
      | INS_MULI \<Rightarrow> F_REGREG
      | INS_CALL \<Rightarrow> F_ADDR
      | INS_RET \<Rightarrow> F_OP
      | INS_BLT \<Rightarrow> F_REGREGADDR
      | INS_BGT \<Rightarrow> F_REGREGADDR
      | INS_BEQ \<Rightarrow> F_REGREGADDR
      | INS_JMP \<Rightarrow> F_ADDR
      | INS_CMPXCHG \<Rightarrow> F_REGREGADDR
      | INS_GETPID \<Rightarrow> F_REG
      | INS_GETPN \<Rightarrow> F_REG
      | INS_PUSH \<Rightarrow> F_REG
      | INS_POP \<Rightarrow> F_REG
      | INS_NOP \<Rightarrow> F_OP
      | INS_INVALID \<Rightarrow> F_INVALID)"

definition vm_op_format :: "u8 \<Rightarrow> fmt" where
  "vm_op_format op =
     (case vm_ins op of
        INS_HALT \<Rightarrow> F_OP
      | INS_LOAD \<Rightarrow> F_REGADDR
      | INS_STORE \<Rightarrow> F_REGADDR
      | INS_LDIMM \<Rightarrow> F_REGCONST
      | INS_LDADDR \<Rightarrow> F_REGADDR
      | INS_LDIND \<Rightarrow> F_REGOFF
      | INS_STIND \<Rightarrow> F_REGOFF
      | INS_ADDF \<Rightarrow> F_REGREG
      | INS_SUBF \<Rightarrow> F_REGREG
      | INS_DIVF \<Rightarrow> F_REGREG
      | INS_MULF \<Rightarrow> F_REGREG
      | INS_ADDI \<Rightarrow> F_REGREG
      | INS_SUBI \<Rightarrow> F_REGREG
      | INS_DIVI \<Rightarrow> F_REGREG
      | INS_MULI \<Rightarrow> F_REGREG
      | INS_CALL \<Rightarrow> F_ADDR
      | INS_RET \<Rightarrow> F_OP
      | INS_BLT \<Rightarrow> F_REGREGADDR
      | INS_BGT \<Rightarrow> F_REGREGADDR
      | INS_BEQ \<Rightarrow> F_REGREGADDR
      | INS_JMP \<Rightarrow> F_ADDR
      | INS_CMPXCHG \<Rightarrow> F_REGREGADDR
      | INS_GETPID \<Rightarrow> F_REG
      | INS_GETPN \<Rightarrow> F_REG
      | INS_PUSH \<Rightarrow> F_REG
      | INS_POP \<Rightarrow> F_REG
      | INS_NOP \<Rightarrow> F_OP
      | INS_INVALID \<Rightarrow> F_INVALID)"

definition lin_op_format :: "u8 \<Rightarrow> fmt" where
  "lin_op_format op =
     (case lin_ins op of
        INS_HALT \<Rightarrow> F_OP
      | INS_LOAD \<Rightarrow> F_REGADDR
      | INS_STORE \<Rightarrow> F_REGADDR
      | INS_LDIMM \<Rightarrow> F_REGCONST
      | INS_LDADDR \<Rightarrow> F_REGADDR
      | INS_LDIND \<Rightarrow> F_REGOFF
      | INS_STIND \<Rightarrow> F_REGOFF
      | INS_ADDF \<Rightarrow> F_REGREG
      | INS_SUBF \<Rightarrow> F_REGREG
      | INS_DIVF \<Rightarrow> F_REGREG
      | INS_MULF \<Rightarrow> F_REGREG
      | INS_ADDI \<Rightarrow> F_REGREG
      | INS_SUBI \<Rightarrow> F_REGREG
      | INS_DIVI \<Rightarrow> F_REGREG
      | INS_MULI \<Rightarrow> F_REGREG
      | INS_CALL \<Rightarrow> F_ADDR
      | INS_RET \<Rightarrow> F_OP
      | INS_BLT \<Rightarrow> F_REGREGADDR
      | INS_BGT \<Rightarrow> F_REGREGADDR
      | INS_BEQ \<Rightarrow> F_REGREGADDR
      | INS_JMP \<Rightarrow> F_ADDR
      | INS_CMPXCHG \<Rightarrow> F_REGREGADDR
      | INS_GETPID \<Rightarrow> F_REG
      | INS_GETPN \<Rightarrow> F_REG
      | INS_PUSH \<Rightarrow> F_REG
      | INS_POP \<Rightarrow> F_REG
      | INS_NOP \<Rightarrow> F_INVALID
      | INS_INVALID \<Rightarrow> F_INVALID)"

section \<open>Sign extension of the address fields\<close>

text \<open>\<open>EXTENDBIT20(addr)\<close> of dsx20.h is applied to \<open>cur >> 12\<close> of an unsigned word, so the
  shift is logical.\<close>

definition EXTENDBIT20 :: "u32 \<Rightarrow> u32" where
  "EXTENDBIT20 addr = (if drop_bit 19 addr AND 1 \<noteq> 0 then addr OR 0xfff00000 else addr)"

definition EXTENDBYTE20 :: "u32 \<Rightarrow> u32" where
  "EXTENDBYTE20 addr = (if drop_bit 19 addr AND 1 \<noteq> 0 then addr OR 0xfff00000 else addr)"

text \<open>The macros of vmx20_macros.h are applied to \<open>word >> 12\<close> and \<open>word >> 16\<close> of a signed
  word: the shifts, the macro's own included, are arithmetic.\<close>

definition EXTENDSIGN20 :: "u32 \<Rightarrow> u32" where
  "EXTENDSIGN20 x = (if signed_drop_bit 19 x \<noteq> 0 then x OR 0xfff00000 else x)"

definition EXTENDSIGN16 :: "u32 \<Rightarrow> u32" where
  "EXTENDSIGN16 x = (if signed_drop_bit 15 x \<noteq> 0 then x OR 0xffff0000 else x)"

text \<open>What the fields mean: a 20-bit or 16-bit two's complement number.\<close>

definition field20 :: "u32 \<Rightarrow> int" where
  "field20 w = sint (ucast (drop_bit 12 w) :: 20 word)"

definition field16 :: "u32 \<Rightarrow> int" where
  "field16 w = sint (ucast (drop_bit 16 w) :: 16 word)"

definition reg1_of :: "u32 \<Rightarrow> 4 word" where
  "reg1_of w = ucast (drop_bit 8 w AND 0xf)"

definition reg2_of :: "u32 \<Rightarrow> 4 word" where
  "reg2_of w = ucast (drop_bit 12 w AND 0xf)"

section \<open>The macros compute the field\<close>

lemma bit_hi20: "bit (0xfff00000 :: u32) n \<longleftrightarrow> 20 \<le> n \<and> n < 32"
proof -
  have eq: "(0xfff00000 :: u32) = push_bit 20 (mask 12)" by (simp add: mask_eq_exp_minus_1 push_bit_eq_mult)
  show ?thesis unfolding eq by (auto simp: bit_simps)
qed

lemma bit_hi16: "bit (0xffff0000 :: u32) n \<longleftrightarrow> 16 \<le> n \<and> n < 32"
proof -
  have eq: "(0xffff0000 :: u32) = push_bit 16 (mask 16)" by (simp add: mask_eq_exp_minus_1 push_bit_eq_mult)
  show ?thesis unfolding eq by (auto simp: bit_simps)
qed

lemma sign_bit_signed: "signed_drop_bit 31 (w :: u32) \<noteq> 0 \<longleftrightarrow> bit w 31"
proof -
  have "signed_drop_bit 31 w = (if bit w 31 then - 1 else 0)"
  proof (rule bit_word_eqI)
    fix n assume "n < LENGTH(32)"
    then show "bit (signed_drop_bit 31 w) n = bit (if bit w 31 then - 1 else 0 :: u32) n"
      by (cases n) (auto simp: bit_simps)
  qed
  then show ?thesis by simp
qed

lemma sign_bit_unsigned: "drop_bit 31 (w :: u32) AND 1 \<noteq> 0 \<longleftrightarrow> bit w 31"
  by (simp add: bit_iff_odd_drop_bit and_one_eq odd_iff_mod_2_eq_one)

lemma shift12_scast: "signed_drop_bit 12 w = (scast (ucast (drop_bit 12 w) :: 20 word) :: u32)"
proof (rule bit_word_eqI)
  fix n assume "n < LENGTH(32)"
  consider "n < 19" | "n = 19" | "20 \<le> n" by linarith
  then show "bit (signed_drop_bit 12 w) n = bit (scast (ucast (drop_bit 12 w) :: 20 word) :: u32) n"
    using \<open>n < LENGTH(32)\<close> by cases (auto simp: bit_simps min_def)
qed

lemma shift16_scast: "signed_drop_bit 16 w = (scast (ucast (drop_bit 16 w) :: 16 word) :: u32)"
proof (rule bit_word_eqI)
  fix n assume "n < LENGTH(32)"
  consider "n < 15" | "n = 15" | "16 \<le> n" by linarith
  then show "bit (signed_drop_bit 16 w) n = bit (scast (ucast (drop_bit 16 w) :: 16 word) :: u32) n"
    using \<open>n < LENGTH(32)\<close> by cases (auto simp: bit_simps min_def)
qed

lemma EXTENDBIT20_shift [field_simps20]: "EXTENDBIT20 (drop_bit 12 w) = signed_drop_bit 12 w"
proof (rule bit_word_eqI)
  fix n assume n: "n < LENGTH(32)"
  have d: "drop_bit 19 (drop_bit 12 w) AND 1 \<noteq> 0 \<longleftrightarrow> bit w 31"
    using sign_bit_unsigned [of w] by simp
  consider "n < 19" | "n = 19" | "20 \<le> n" by linarith
  then show "bit (EXTENDBIT20 (drop_bit 12 w)) n = bit (signed_drop_bit 12 w) n"
    unfolding EXTENDBIT20_def d using n
    by cases (auto simp: bit_simps bit_hi20 not_le min_def simp del: bit_numeral_word_iff
          dest: bit_imp_le_length)
qed

lemma EXTENDSIGN20_shift [field_simps20]: "EXTENDSIGN20 (signed_drop_bit 12 w) = signed_drop_bit 12 w"
proof (rule bit_word_eqI)
  fix n assume n: "n < LENGTH(32)"
  have d: "signed_drop_bit 19 (signed_drop_bit 12 w) \<noteq> 0 \<longleftrightarrow> bit w 31"
    using sign_bit_signed [of w] by simp
  show "bit (EXTENDSIGN20 (signed_drop_bit 12 w)) n = bit (signed_drop_bit 12 w) n"
    unfolding EXTENDSIGN20_def d using n
    by (auto simp: bit_simps bit_hi20 not_le min_def simp del: bit_numeral_word_iff
          dest: bit_imp_le_length)
qed

lemma EXTENDSIGN16_shift [field_simps20]: "EXTENDSIGN16 (signed_drop_bit 16 w) = signed_drop_bit 16 w"
proof (rule bit_word_eqI)
  fix n assume n: "n < LENGTH(32)"
  have d: "signed_drop_bit 15 (signed_drop_bit 16 w) \<noteq> 0 \<longleftrightarrow> bit w 31"
    using sign_bit_signed [of w] by simp
  show "bit (EXTENDSIGN16 (signed_drop_bit 16 w)) n = bit (signed_drop_bit 16 w) n"
    unfolding EXTENDSIGN16_def d using n
    by (auto simp: bit_simps bit_hi16 not_le min_def simp del: bit_numeral_word_iff
          dest: bit_imp_le_length)
qed

lemma sint_shift12 [field_simps20]: "sint (signed_drop_bit 12 w) = field20 w"
  unfolding shift12_scast field20_def by (simp add: sint_up_scast is_up)

lemma sint_shift16 [field_simps20]: "sint (signed_drop_bit 16 w) = field16 w"
  unfolding shift16_scast field16_def by (simp add: sint_up_scast is_up)

lemma field20_bounds: "- (2^19) \<le> field20 w \<and> field20 w < 2^19"
  unfolding field20_def using sint_range_size[of "ucast (drop_bit 12 w) :: 20 word"] by (simp add: word_size)

lemma mask20_shift: "drop_bit 12 (w :: u32) AND 0xfffff = drop_bit 12 w"
proof -
  have m: "(0xfffff :: u32) = mask 20" by (simp add: mask_eq_exp_minus_1)
  show ?thesis
    unfolding m by (rule bit_word_eqI) (auto simp: bit_simps dest: bit_imp_le_length)
qed

lemma EXTENDSIGN20_masked [field_simps20]: "EXTENDSIGN20 (drop_bit 12 w AND 0xfffff) = signed_drop_bit 12 w"
proof (rule bit_word_eqI)
  fix n assume n: "n < LENGTH(32)"
  have e: "drop_bit 12 w AND 0xfffff = drop_bit 12 w" by (rule mask20_shift)
  have d: "signed_drop_bit 19 (drop_bit 12 w) \<noteq> 0 \<longleftrightarrow> bit w 31"
  proof -
    have "signed_drop_bit 19 (drop_bit 12 w) = drop_bit 31 w"
      by (rule bit_word_eqI) (auto simp: bit_simps min_def dest: bit_imp_le_length)
    moreover have "drop_bit 31 w \<noteq> 0 \<longleftrightarrow> bit w 31"
    proof -
      have "drop_bit 31 w = (if bit w 31 then 1 else 0)"
      proof (rule bit_word_eqI)
        fix n assume "n < LENGTH(32)"
        then show "bit (drop_bit 31 w) n = bit (if bit w 31 then 1 else 0 :: u32) n"
          by (cases n) (auto simp: bit_simps bit_1_iff dest: bit_imp_le_length)
      qed
      then show ?thesis by simp
    qed
    ultimately show ?thesis by simp
  qed
  consider "n < 19" | "n = 19" | "20 \<le> n" by linarith
  then show "bit (EXTENDSIGN20 (drop_bit 12 w AND 0xfffff)) n = bit (signed_drop_bit 12 w) n"
    unfolding EXTENDSIGN20_def e d using n
    by cases (auto simp: bit_simps bit_hi20 not_le min_def simp del: bit_numeral_word_iff
          dest: bit_imp_le_length)
qed

lemma field16_bounds: "- (2^15) \<le> field16 w \<and> field16 w < 2^15"
  unfolding field16_def using sint_range_size [of "ucast (drop_bit 16 w) :: 16 word"]
  by (simp add: word_size)

lemma EXTENDBYTE20_eq [field_simps20]: "EXTENDBYTE20 = EXTENDBIT20"
  by (simp add: fun_eq_iff EXTENDBYTE20_def EXTENDBIT20_def)

text \<open>A 16-bit field read through the cast \<open>(int16_t)(cur >> 16)\<close>.\<close>

lemma int16_cast [field_simps20]:
  "(scast (ucast (drop_bit 16 (w :: u32)) :: 16 word) :: u32) = signed_drop_bit 16 w"
  by (simp add: shift16_scast)

section \<open>The copies of the tables agree\<close>

lemma ins_tables: "ds_ins = vm_ins"
  by (simp add: fun_eq_iff ds_ins_def vm_ins_def)

lemma op_name_copies: "ds_op_name = vm_op_name"
  by (simp add: fun_eq_iff ds_op_name_def vm_op_name_def ins_tables)

lemma op_format_copies: "ds_op_format = vm_op_format"
  by (simp add: fun_eq_iff ds_op_format_def vm_op_format_def ins_tables)

lemma lin_ins_eq: "lin_ins b = (if b = 0x20 then INS_INVALID else ds_ins b)"
  by (simp add: lin_ins_def ds_ins_def)

lemma ds_ins_NOP: "ds_ins b = INS_NOP \<longleftrightarrow> b = 0x20"
  by (simp add: ds_ins_def)

lemma lin_op_name_eq: "lin_op_name b = (if b = 0x20 then ''unknown'' else ds_op_name b)"
  by (auto simp: lin_op_name_def ds_op_name_def lin_ins_eq ds_ins_NOP split: ins.splits)

lemma lin_op_format_eq: "lin_op_format b = (if b = 0x20 then F_INVALID else ds_op_format b)"
  by (auto simp: lin_op_format_def ds_op_format_def lin_ins_eq ds_ins_NOP split: ins.splits)

end
