(* ===== verification/Dsx20.thy ===== *)
theory Dsx20
  imports X20_ISA
begin

text \<open>
  The recursive disassembler A1/P2/dsx20.c: reading an object file into \<open>fbuf\<close>, the symbol
  tables, the recursive traversal \<open>parse_code\<close> that separates instructions from data, and the
  listing.  The file's globals are arguments of the functions that read them.  \<open>fbuf\<close> is the
  list of the file's bytes; reading a word past its end is the fault \<open>OutOfBounds\<close>.  Allocations
  are taken to succeed.  The lemmas on \<open>parse_loop\<close> show that the traversal ends, that it marks
  exactly the reachable words, and when it leaves its array.
\<close>

section \<open>Reading the file\<close>

definition fbuf_word :: "u8 list \<Rightarrow> nat \<Rightarrow> u32 res" where
  "fbuf_word fbuf i =
     (if 4 * i + 3 < length fbuf
      then Inr (bytes_word (fbuf ! (4*i)) (fbuf ! (4*i + 1)) (fbuf ! (4*i + 2)) (fbuf ! (4*i + 3)))
      else Inl OutOfBounds)"

text \<open>\<open>read_file\<close>: the file system is a partial map from names to contents.\<close>

definition read_file :: "(string \<Rightarrow> u8 list option) \<Rightarrow> string \<Rightarrow> u8 list res" where
  "read_file fs filename =
     (case fs filename of
        None \<Rightarrow> Inl (ExitCode 1)
      | Some bs \<Rightarrow> if length bs = 0 then Inl (ExitCode 1) else Inr bs)"

section \<open>Symbol tables\<close>

text \<open>The inner loop over a word's bytes: \<open>name[4*word + j] = this_word & mask; this_word >>= 8\<close>.\<close>

fun split_word :: "nat \<Rightarrow> u32 \<Rightarrow> u8 list" where
  "split_word 0 this_word = []"
| "split_word (Suc j) this_word = ucast (this_word AND 0xff) # split_word j (drop_bit 8 this_word)"

fun read_name :: "u8 list \<Rightarrow> nat \<Rightarrow> nat \<Rightarrow> u8 list res" where
  "read_name fbuf ptr 0 = Inr []"
| "read_name fbuf ptr (Suc word) =
     bindR (fbuf_word fbuf ptr) (\<lambda>this_word.
     bindR (read_name fbuf (Suc ptr) word) (\<lambda>rest. Inr (split_word 4 this_word @ rest)))"

fun read_symbols :: "u8 list \<Rightarrow> nat \<Rightarrow> nat \<Rightarrow> (u8 list \<times> u32) list res" where
  "read_symbols fbuf ptr 0 = Inr []"
| "read_symbols fbuf ptr (Suc count) =
     bindR (read_name fbuf ptr 4) (\<lambda>name.
     bindR (fbuf_word fbuf (ptr + 4)) (\<lambda>address.
     bindR (read_symbols fbuf (ptr + 5) count) (\<lambda>rest. Inr ((name, address) # rest))))"

definition read_insymbols :: "u8 list \<Rightarrow> nat \<Rightarrow> (u8 list \<times> u32) list res" where
  "read_insymbols fbuf count = read_symbols fbuf 3 count"

definition read_outsymbols :: "u8 list \<Rightarrow> nat \<Rightarrow> nat \<Rightarrow> (u8 list \<times> u32) list res" where
  "read_outsymbols fbuf start count = read_symbols fbuf start count"

fun is_outsymbol :: "(u8 list \<times> u32) list \<Rightarrow> u32 \<Rightarrow> bool" where
  "is_outsymbol [] addr = False"
| "is_outsymbol ((name, address) # rest) addr =
     (if address = addr then True else is_outsymbol rest addr)"

section \<open>Recursive traversal\<close>

text \<open>The target of an instruction, \<open>-1\<close> for none; the address field 0 counts as undefined.\<close>

definition branch_target :: "u32 \<Rightarrow> nat \<Rightarrow> int" where
  "branch_target cur pc =
     (case ds_op_format (ucast (cur AND 0xff)) of
        F_ADDR \<Rightarrow> (if drop_bit 12 cur = 0 then - 1
                   else sint (EXTENDBIT20 (drop_bit 12 cur) + of_nat pc + 1))
      | F_REGADDR \<Rightarrow> (if drop_bit 12 cur = 0 then - 1
                   else sint (EXTENDBIT20 (drop_bit 12 cur) + of_nat pc + 1))
      | F_REGREGADDR \<Rightarrow> (if drop_bit 16 cur = 0 then - 1
                   else sint (scast (ucast (drop_bit 16 cur) :: 16 word) + of_nat pc + (1 :: u32)))
      | _ \<Rightarrow> - 1)"

definition falls_through :: "u32 \<Rightarrow> bool" where
  "falls_through cur =
     (let op = ds_ins (ucast (cur AND 0xff))
      in \<not> (op = INS_JMP \<or> op = INS_HALT \<or> op = INS_RET))"

definition is_branch :: "u32 \<Rightarrow> bool" where
  "is_branch cur =
     (let op = ds_ins (ucast (cur AND 0xff))
      in op = INS_JMP \<or> op = INS_BEQ \<or> op = INS_BLT \<or> op = INS_BGT \<or> op = INS_CALL)"

text \<open>The body for a word that is an instruction: the new marks (\<open>True\<close> is \<open>D_INS\<close>) and the next
  value of \<open>pc\<close>, the loop's increment included.  A target outside the array of \<open>count + 1\<close> marks is
  read and written out of bounds.\<close>

definition parse_ins :: "u32 \<Rightarrow> bool list \<Rightarrow> nat \<Rightarrow> (bool list \<times> nat) res" where
  "parse_ins cur data pc =
     bindR (if falls_through cur then aset data (Suc pc) True else Inr data) (\<lambda>data.
     let target = branch_target cur pc in
     if is_branch cur \<and> target \<noteq> - 1 then
       (if target < 0 \<or> int (length data) \<le> target then Inl OutOfBounds
        else Inr (data[nat target := True],
                  if target < int pc \<and> \<not> data ! nat target then nat target else Suc pc))
     else Inr (data, Suc pc))"

definition marks_left :: "bool list \<Rightarrow> nat" where
  "marks_left data = length (filter Not data)"

lemma marks_left_update_le: "marks_left (data[i := True]) \<le> marks_left data"
  unfolding marks_left_def by (induction data arbitrary: i) (auto split: nat.splits simp: le_SucI)

lemma marks_left_update_less:
  "i < length data \<Longrightarrow> \<not> data ! i \<Longrightarrow> marks_left (data[i := True]) < marks_left data"
  unfolding marks_left_def
  by (induction data arbitrary: i) (auto split: nat.splits)

lemma parse_ins_progress:
  assumes "parse_ins cur data pc = Inr (data', pc')"
  shows "marks_left data' < marks_left data \<or> (marks_left data' \<le> marks_left data \<and> pc' = Suc pc)"
proof -
  obtain d1 where d1: "d1 = data \<or> d1 = data[Suc pc := True]"
    and rest: "(let target = branch_target cur pc in
       if is_branch cur \<and> target \<noteq> - 1 then
         (if target < 0 \<or> int (length d1) \<le> target then Inl OutOfBounds
          else Inr (d1[nat target := True],
                    if target < int pc \<and> \<not> d1 ! nat target then nat target else Suc pc))
       else Inr (d1, Suc pc)) = (Inr (data', pc') :: (bool list \<times> nat) res)"
    using assms unfolding parse_ins_def by (auto split: if_splits)
  have le: "marks_left d1 \<le> marks_left data"
    using d1 marks_left_update_le by auto
  have "marks_left data' < marks_left d1 \<or> (marks_left data' \<le> marks_left d1 \<and> pc' = Suc pc)"
    using rest
    by (auto simp: Let_def marks_left_update_le intro: marks_left_update_less split: if_splits)
  with le show ?thesis by linarith
qed

function parse_loop :: "(nat \<Rightarrow> u32 res) \<Rightarrow> nat \<Rightarrow> bool list \<Rightarrow> nat \<Rightarrow> bool list res" where
  "parse_loop rd count data pc =
     (if pc < count then
        bindR (rd pc) (\<lambda>cur.
        bindR (aget data pc) (\<lambda>m.
        if pc = 0 \<or> m then
          bindR (parse_ins cur data pc) (\<lambda>r. parse_loop rd count (fst r) (snd r))
        else parse_loop rd count data (Suc pc)))
      else Inr data)"
  by pat_completeness auto
termination
proof (relation "measures [\<lambda>(rd, count, data, pc). marks_left data, \<lambda>(rd, count, data, pc). count - pc]")
  fix rd :: "nat \<Rightarrow> u32 res" and count data pc x xa xb
  assume "pc < count" and r: "parse_ins x data pc = Inr xb"
  obtain d p where xb: "xb = (d, p)" by (cases xb)
  from parse_ins_progress [of x data pc d p] r xb \<open>pc < count\<close>
  show "((rd, count, fst xb, snd xb), rd, count, data, pc)
      \<in> measures [\<lambda>(rd, count, data, pc). marks_left data, \<lambda>(rd, count, data, pc). count - pc]"
    by auto
qed auto

declare parse_loop.simps [simp del]

text \<open>\<open>count\<close> is a C \<open>int\<close>: for a negative one \<open>calloc\<close> fails or gives an empty array.\<close>

definition parse_code :: "u8 list \<Rightarrow> nat \<Rightarrow> int \<Rightarrow> bool list res" where
  "parse_code fbuf start count =
     (if count = - 1 then Inl OutOfBounds
      else if count < 0 \<or> count = 2^31 - 1 then Inl NullDeref
      else parse_loop (\<lambda>pc. fbuf_word fbuf (start + pc)) (nat count)
             ((replicate (nat count + 1) False)[0 := True]) 0)"

section \<open>The listing\<close>

definition show_reg :: "4 word \<Rightarrow> string" where
  "show_reg r = ''r'' @ dec_nat (unat r)"

definition show_target :: "(u8 list \<times> u32) list \<Rightarrow> u32 \<Rightarrow> nat \<Rightarrow> string" where
  "show_target outs addr pc =
     (if \<not> is_outsymbol outs (of_nat pc) then fmt_d (addr + of_nat pc + 1) else ''[undefined]'')"

text \<open>The \<open>switch\<close> on the format.\<close>

definition ds_operands :: "(u8 list \<times> u32) list \<Rightarrow> fmt \<Rightarrow> u32 \<Rightarrow> nat \<Rightarrow> string" where
  "ds_operands outs format cur pc =
     (case format of
        F_OP \<Rightarrow> []
      | F_INVALID \<Rightarrow> []
      | F_ADDR \<Rightarrow> show_target outs (EXTENDBIT20 (drop_bit 12 cur)) pc
      | F_REG \<Rightarrow> show_reg (reg1_of cur)
      | F_REGCONST \<Rightarrow>
          show_reg (reg1_of cur) @ '', '' @ fmt_d (EXTENDBIT20 (drop_bit 12 cur AND 0xfffff))
      | F_REGADDR \<Rightarrow>
          show_reg (reg1_of cur) @ '', '' @ show_target outs (EXTENDBIT20 (drop_bit 12 cur)) pc
      | F_REGREG \<Rightarrow> show_reg (reg1_of cur) @ '', '' @ show_reg (reg2_of cur)
      | F_REGOFF \<Rightarrow>
          show_reg (reg1_of cur) @ '', '' @ fmt_d (scast (ucast (drop_bit 16 cur) :: 16 word))
            @ ''('' @ show_reg (reg2_of cur) @ '')''
      | F_REGREGADDR \<Rightarrow>
          show_reg (reg1_of cur) @ '', '' @ show_reg (reg2_of cur) @ '', ''
            @ show_target outs (scast (ucast (drop_bit 16 cur) :: 16 word)) pc)"

definition print_line :: "(u8 list \<times> u32) list \<Rightarrow> bool list option \<Rightarrow> u32 \<Rightarrow> nat \<Rightarrow> string" where
  "print_line outs data_arr cur pc =
     (let op = (case data_arr of
                  Some d \<Rightarrow> if \<not> d ! pc then 0x20 else ucast (cur AND 0xff)
                | None \<Rightarrow> ucast (cur AND 0xff))
      in prec 7 (dec_nat pc) @ ''   '' @ prec 8 (hex_nat (unat cur)) @ ''   ''
           @ fill_right 8 (ds_op_name op) @ ''    ''
           @ ds_operands outs (ds_op_format op) cur pc @ nl)"

fun print_code :: "u8 list \<Rightarrow> (u8 list \<times> u32) list \<Rightarrow> nat \<Rightarrow> bool list option \<Rightarrow> nat \<Rightarrow> nat \<Rightarrow> string res" where
  "print_code fbuf outs start data_arr pc 0 = Inr []"
| "print_code fbuf outs start data_arr pc (Suc left) =
     bindR (fbuf_word fbuf (start + pc)) (\<lambda>cur.
     bindR (print_code fbuf outs start data_arr (Suc pc) left) (\<lambda>rest.
     Inr (print_line outs data_arr cur pc @ rest)))"

text \<open>\<open>%s %d\<close> of a symbol: the name is printed up to its NUL; a name of 16 characters has none
  in its 16-byte array.\<close>

fun print_symbols :: "(u8 list \<times> u32) list \<Rightarrow> string res" where
  "print_symbols [] = Inr []"
| "print_symbols ((name, address) # rest) =
     (case cstr_opt name of
        None \<Rightarrow> Inl OutOfBounds
      | Some nm \<Rightarrow> bindR (print_symbols rest)
          (\<lambda>r. Inr (chars nm @ '' '' @ fmt_d address @ nl @ r)))"

section \<open>The program\<close>

definition ds_usage_ok :: "string list \<Rightarrow> bool" where
  "ds_usage_ok argv =
     (length argv = 2 \<or>
      length argv = 3 \<and> take 2 (argv ! 1) = ''-r'')"

definition ds_report :: "u8 list \<Rightarrow> bool \<Rightarrow> string res" where
  "ds_report fbuf is_recursive =
     bindR (fbuf_word fbuf 0) (\<lambda>w0.
     bindR (fbuf_word fbuf 1) (\<lambda>w1.
     bindR (fbuf_word fbuf 2) (\<lambda>obj_len.
     let insym_count = unat w0 div 5; outsym_count = unat w1 div 5 in
     bindR (read_insymbols fbuf insym_count) (\<lambda>ins.
     bindR (read_outsymbols fbuf (3 + insym_count * 5) outsym_count) (\<lambda>outs.
     bindR (print_symbols ins) (\<lambda>ins_text.
     bindR (print_symbols outs) (\<lambda>outs_text.
     let obj_start = 3 + insym_count * 5 + outsym_count * 5 in
     bindR (if is_recursive then bindR (parse_code fbuf obj_start (sint obj_len)) (\<lambda>d. Inr (Some d))
            else Inr None) (\<lambda>data_arr.
     bindR (print_code fbuf outs obj_start data_arr 0 (nat (sint obj_len))) (\<lambda>code_text.
     Inr (''Insymbol Section ('' @ dec_nat insym_count @ '' entries)'' @ nl @ nl @ ins_text
          @ nl @ ''Outsymbol Section ('' @ dec_nat outsym_count @ '' entries)'' @ nl @ nl @ outs_text
          @ nl @ ''Object Code ('' @ fmt_d obj_len @ '' words)'' @ nl @ nl @ code_text))))))))))"

definition ds_main :: "(string \<Rightarrow> u8 list option) \<Rightarrow> string list \<Rightarrow> string res" where
  "ds_main fs argv =
     (if \<not> ds_usage_ok argv then Inl (ExitCode 1)
      else bindR (read_file fs (argv ! (length argv - 1)))
             (\<lambda>fbuf. ds_report fbuf (length argv = 3)))"

section \<open>What the traversal computes\<close>

text \<open>The reachable words: word 0, the successor of an instruction that falls through, the target
  of a branch.\<close>

inductive reach :: "(nat \<Rightarrow> u32 res) \<Rightarrow> nat \<Rightarrow> nat \<Rightarrow> bool" for rd count where
  start: "reach rd count 0"
| fall: "reach rd count i \<Longrightarrow> i < count \<Longrightarrow> rd i = Inr w \<Longrightarrow> falls_through w \<Longrightarrow> reach rd count (Suc i)"
| jump: "reach rd count i \<Longrightarrow> i < count \<Longrightarrow> rd i = Inr w \<Longrightarrow> is_branch w \<Longrightarrow>
    branch_target w i = int t \<Longrightarrow> reach rd count t"

text \<open>A mark at \<open>i\<close> is closed when its successors are marked too.\<close>

definition succs_marked :: "(nat \<Rightarrow> u32 res) \<Rightarrow> bool list \<Rightarrow> nat \<Rightarrow> bool" where
  "succs_marked rd data i =
     (\<forall>w. rd i = Inr w \<longrightarrow> (falls_through w \<longrightarrow> data ! Suc i) \<and>
        (is_branch w \<longrightarrow> branch_target w i \<noteq> - 1 \<longrightarrow>
           0 \<le> branch_target w i \<and> branch_target w i < int (length data) \<and> data ! nat (branch_target w i)))"

definition parse_inv :: "(nat \<Rightarrow> u32 res) \<Rightarrow> nat \<Rightarrow> bool list \<Rightarrow> nat \<Rightarrow> bool" where
  "parse_inv rd count data pc =
     (length data = Suc count \<and> data ! 0 \<and> pc \<le> count \<and>
      (\<forall>i \<le> count. data ! i \<longrightarrow> reach rd count i) \<and>
      (\<forall>i < pc. data ! i \<longrightarrow> succs_marked rd data i))"

section \<open>Lemmas on the traversal\<close>

lemma succs_marked_mono:
  "succs_marked rd data i \<Longrightarrow> length data' = length data \<Longrightarrow>
   (\<And>j. j < length data \<Longrightarrow> data ! j \<Longrightarrow> data' ! j) \<Longrightarrow> Suc i < length data \<Longrightarrow> succs_marked rd data' i"
  unfolding succs_marked_def by (auto simp: nat_less_iff)

text \<open>The two ways through the body.\<close>

definition fall_marks :: "u32 \<Rightarrow> bool list \<Rightarrow> nat \<Rightarrow> bool list" where
  "fall_marks cur data pc = (if falls_through cur then data[Suc pc := True] else data)"

lemma parse_ins_cases:
  assumes "parse_ins cur data pc = Inr (data', pc')" "Suc pc < length data"
  obtains (plain) "is_branch cur \<longrightarrow> branch_target cur pc = - 1"
      "data' = fall_marks cur data pc" "pc' = Suc pc"
  | (branch) t where "is_branch cur" "branch_target cur pc = int t" "t < length data"
      "data' = (fall_marks cur data pc)[t := True]"
      "pc' = (if t < pc \<and> \<not> fall_marks cur data pc ! t then t else Suc pc)"
proof -
  define d1 where "d1 = fall_marks cur data pc"
  have len: "length d1 = length data" by (simp add: d1_def fall_marks_def)
  have rest: "(if is_branch cur \<and> branch_target cur pc \<noteq> - 1 then
         (if branch_target cur pc < 0 \<or> int (length d1) \<le> branch_target cur pc then Inl OutOfBounds
          else Inr (d1[nat (branch_target cur pc) := True],
                    if branch_target cur pc < int pc \<and> \<not> d1 ! nat (branch_target cur pc)
                    then nat (branch_target cur pc) else Suc pc))
       else Inr (d1, Suc pc)) = (Inr (data', pc') :: (bool list \<times> nat) res)"
    using assms(1) unfolding parse_ins_def d1_def fall_marks_def Let_def
    by (cases "falls_through cur") (simp_all only: if_True if_False aset_in [OF assms(2)] bindR_simps)
  show thesis
  proof (cases "is_branch cur \<and> branch_target cur pc \<noteq> - 1")
    case False
    with rest show thesis by (intro plain) (auto simp: d1_def)
  next
    case True
    with rest obtain t where t: "branch_target cur pc = int t" "t < length d1"
      by (cases "branch_target cur pc") (auto split: if_splits)
    with True rest show thesis
      by (intro branch [of t]) (auto simp: d1_def len [unfolded d1_def])
  qed
qed

lemma fall_marks_nth:
  "Suc pc < length data \<Longrightarrow> fall_marks cur data pc ! i \<longleftrightarrow> data ! i \<or> (falls_through cur \<and> i = Suc pc)"
  by (auto simp: fall_marks_def nth_list_update)

lemma length_fall_marks [simp]: "length (fall_marks cur data pc) = length data"
  by (simp add: fall_marks_def)

text \<open>One instruction: the marks only grow, the new ones are reachable, and the word at \<open>pc\<close> is
  closed afterwards.\<close>

lemma parse_ins_mono:
  assumes "parse_ins cur data pc = Inr (data', pc')" "Suc pc < length data"
  shows "length data' = length data" "j < length data \<Longrightarrow> data ! j \<Longrightarrow> data' ! j" "pc' \<le> Suc pc"
  using assms by (auto elim!: parse_ins_cases simp: fall_marks_nth nth_list_update)

lemma parse_ins_new_mark:
  assumes "parse_ins cur data pc = Inr (data', pc')" "Suc pc < length data" "i < pc'" "data' ! i"
  shows "i = pc \<or> (i < pc \<and> data ! i)"
  using assms by (auto elim!: parse_ins_cases simp: fall_marks_nth nth_list_update split: if_splits)

lemma parse_ins_reach:
  assumes "parse_ins cur data pc = Inr (data', pc')" "Suc pc < length data"
    "rd pc = Inr cur" "reach rd count pc" "pc < count" "i < length data" "data' ! i"
  shows "data ! i \<or> reach rd count i"
  using assms by (auto elim!: parse_ins_cases simp: fall_marks_nth nth_list_update
      intro: reach.fall reach.jump split: if_splits)

lemma parse_ins_closed:
  assumes "parse_ins cur data pc = Inr (data', pc')" "Suc pc < length data" "rd pc = Inr cur"
  shows "succs_marked rd data' pc"
  using assms
  by (auto elim!: parse_ins_cases simp: succs_marked_def fall_marks_nth nth_list_update)

lemma parse_inv_step:
  assumes inv: "parse_inv rd count data pc" and pc: "pc < count" "rd pc = Inr cur" "data ! pc"
    and step: "parse_ins cur data pc = Inr (data', pc')"
  shows "parse_inv rd count data' pc'"
proof -
  have len: "length data = Suc count" and less: "Suc pc < length data" and r: "reach rd count pc"
    using inv pc unfolding parse_inv_def by auto
  note mono = parse_ins_mono [OF step less]
  have "succs_marked rd data' i" if "i < pc'" "data' ! i" for i
    using parse_ins_new_mark [OF step less that]
  proof
    assume "i = pc"
    then show ?thesis using parse_ins_closed [OF step less] pc by simp
  next
    assume i: "i < pc \<and> data ! i"
    with inv have "succs_marked rd data i" unfolding parse_inv_def by simp
    then show ?thesis
      by (rule succs_marked_mono) (use mono i less in auto)
  qed
  moreover have "reach rd count i" if "i \<le> count" "data' ! i" for i
    using parse_ins_reach [OF step less pc(2) r pc(1), of i] inv len that
    unfolding parse_inv_def by auto
  ultimately show ?thesis
    using mono inv len pc(1) unfolding parse_inv_def by auto
qed

lemma parse_inv_skip: "parse_inv rd count data pc \<Longrightarrow> pc < count \<Longrightarrow> \<not> data ! pc \<Longrightarrow> parse_inv rd count data (Suc pc)"
  unfolding parse_inv_def by (auto simp: less_Suc_eq)

lemma parse_loop_inv:
  "parse_loop rd count data pc = Inr out \<Longrightarrow> parse_inv rd count data pc \<Longrightarrow> parse_inv rd count out count"
proof (induction rd count data pc rule: parse_loop.induct)
  case (1 rd count data pc)
  show ?case
  proof (cases "pc < count")
    case False
    with 1 show ?thesis by (subst (asm) parse_loop.simps) (auto simp: parse_inv_def)
  next
    case pc: True
    from "1.prems"(1) pc obtain cur where cur: "rd pc = Inr cur" and m: "pc < length data"
      by (subst (asm) parse_loop.simps) auto
    show ?thesis
    proof (cases "pc = 0 \<or> data ! pc")
      case True
      with "1.prems"(1) pc cur obtain d p where s: "parse_ins cur data pc = Inr (d, p)"
        and l: "parse_loop rd count d p = Inr out"
        by (subst (asm) parse_loop.simps) auto
      have dpc: "data ! pc" using True "1.prems"(2) by (auto simp: parse_inv_def)
      show ?thesis
        using "1.IH"(1) [OF pc cur, of "data ! pc" "(d, p)"] m True s l parse_inv_step [OF "1.prems"(2) pc cur dpc s]
        by simp
    next
      case False
      with "1.prems"(1) pc cur m have "parse_loop rd count data (Suc pc) = Inr out"
        by (subst (asm) parse_loop.simps) auto
      with "1.IH"(2) [OF pc cur, of "data ! pc"] False m "1.prems"(2) pc parse_inv_skip show ?thesis
        by auto
    qed
  qed
qed

lemma parse_inv_exact:
  assumes inv: "parse_inv rd count data count" and rd: "\<And>i. i < count \<Longrightarrow> \<exists>w. rd i = Inr w" and i: "i \<le> count"
  shows "data ! i \<longleftrightarrow> reach rd count i"
proof
  show "data ! i \<Longrightarrow> reach rd count i" using inv i by (auto simp: parse_inv_def)
  have "reach rd count j \<Longrightarrow> j \<le> count \<and> data ! j" for j
  proof (induction rule: reach.induct)
    case start
    then show ?case using inv by (auto simp: parse_inv_def)
  next
    case (fall i w)
    then show ?case using inv by (auto simp: parse_inv_def succs_marked_def)
  next
    case (jump i w t)
    then show ?case using inv by (fastforce simp: parse_inv_def succs_marked_def)
  qed
  then show "reach rd count i \<Longrightarrow> data ! i" by blast
qed
text \<open>When the traversal stays inside its array.\<close>

definition targets_ok :: "(nat \<Rightarrow> u32 res) \<Rightarrow> nat \<Rightarrow> bool" where
  "targets_ok rd count =
     (\<forall>i w. reach rd count i \<longrightarrow> i < count \<longrightarrow> rd i = Inr w \<longrightarrow> is_branch w \<longrightarrow>
        - 1 \<le> branch_target w i \<and> branch_target w i \<le> int count)"

lemma parse_ins_ok:
  assumes "Suc pc < length data" "is_branch cur \<Longrightarrow> - 1 \<le> branch_target cur pc \<and> branch_target cur pc < int (length data)"
  shows "\<exists>data' pc'. parse_ins cur data pc = Inr (data', pc')"
proof (cases "falls_through cur")
  case True
  then show ?thesis using assms unfolding parse_ins_def Let_def
    by (simp only: if_True aset_in [OF assms(1)] bindR_simps) auto
next
  case False
  then show ?thesis using assms unfolding parse_ins_def Let_def
    by (simp only: if_False bindR_simps) auto
qed

lemma parse_loop_ok:
  assumes "\<And>i. i < count \<Longrightarrow> \<exists>w. rd i = Inr w" "targets_ok rd count"
  shows "parse_inv rd count data pc \<Longrightarrow> \<exists>out. parse_loop rd count data pc = Inr out"
  using assms
proof (induction rd count data pc rule: parse_loop.induct)
  case (1 rd count data pc)
  show ?case
  proof (cases "pc < count")
    case False
    then show ?thesis by (subst parse_loop.simps) simp
  next
    case pc: True
    obtain cur where cur: "rd pc = Inr cur" using "1.prems"(2) pc by blast
    have len: "length data = Suc count" and less: "Suc pc < length data" and m: "pc < length data"
      using "1.prems"(1) pc by (auto simp: parse_inv_def)
    show ?thesis
    proof (cases "data ! pc")
      case True
      then have r: "reach rd count pc" using "1.prems"(1) pc by (auto simp: parse_inv_def)
      with "1.prems"(3) cur pc len obtain d p where s: "parse_ins cur data pc = Inr (d, p)"
        using parse_ins_ok [OF less, of cur] unfolding targets_ok_def by fastforce
      have "\<exists>out. parse_loop rd count d p = Inr out"
        using "1.IH"(1) [OF pc cur, of "data ! pc" "(d, p)"] m True s "1.prems"(2,3)
          parse_inv_step [OF "1.prems"(1) pc cur True s] by simp
      with pc cur m True s show ?thesis by (subst parse_loop.simps) simp
    next
      case False
      then have "pc \<noteq> 0" using "1.prems"(1) by (cases "pc = 0") (auto simp: parse_inv_def)
      then have "\<exists>out. parse_loop rd count data (Suc pc) = Inr out"
        using "1.IH"(2) [OF pc cur, of "data ! pc"] m False "1.prems"(2,3)
          parse_inv_skip [OF "1.prems"(1) pc False] by simp
      with pc cur m False \<open>pc \<noteq> 0\<close> show ?thesis by (subst parse_loop.simps) simp
    qed
  qed
qed

lemma parse_inv_targets:
  "parse_inv rd count data count \<Longrightarrow> (\<And>i. i < count \<Longrightarrow> \<exists>w. rd i = Inr w) \<Longrightarrow> targets_ok rd count"
  unfolding targets_ok_def
proof (intro allI impI)
  fix i w
  assume inv: "parse_inv rd count data count" and rd: "\<And>i. i < count \<Longrightarrow> \<exists>w. rd i = Inr w"
    and i: "reach rd count i" "i < count" "rd i = Inr w" "is_branch w"
  have "data ! i" using parse_inv_exact [OF inv rd, of i] i by simp
  then have "succs_marked rd data i" "length data = Suc count" using inv i by (auto simp: parse_inv_def)
  then show "- 1 \<le> branch_target w i \<and> branch_target w i \<le> int count"
    using i by (cases "branch_target w i = - 1") (auto simp: succs_marked_def)
qed

lemma parse_inv_start: "parse_inv rd count ((replicate (Suc count) False)[0 := True]) 0"
proof -
  have "(replicate (Suc count) False)[0 := True] = True # replicate count False" by simp
  moreover have "i = 0" if "i \<le> count" "(True # replicate count False) ! i" for i
    using that by (cases i) auto
  ultimately show ?thesis by (auto simp: parse_inv_def simp del: replicate_Suc intro: reach.start)
qed

text \<open>The traversal succeeds exactly when every reachable branch stays in the array, and then the
  marks are exactly the reachable words.\<close>

lemma parse_code_loop:
  "0 \<le> count \<Longrightarrow> count < 2^31 - 1 \<Longrightarrow>
   parse_code fbuf start count = parse_loop (\<lambda>pc. fbuf_word fbuf (start + pc)) (nat count)
     ((replicate (Suc (nat count)) False)[0 := True]) 0"
  by (simp add: parse_code_def)

lemma parse_loop_reads:
  "parse_loop rd count data pc = Inr out \<Longrightarrow> length data = Suc count \<Longrightarrow> pc \<le> i \<Longrightarrow> i < count \<Longrightarrow>
   \<exists>w. rd i = Inr w"
proof (induction rd count data pc rule: parse_loop.induct)
  case (1 rd count data pc)
  have pc: "pc < count" using "1.prems" by simp
  from "1.prems"(1) pc obtain cur where cur: "rd pc = Inr cur" and m: "pc < length data"
    by (subst (asm) parse_loop.simps) auto
  consider "i = pc" | "Suc pc \<le> i" using "1.prems"(3) by linarith
  then show ?case
  proof cases
    case 1
    then show ?thesis using cur by simp
  next
    case i: 2
    show ?thesis
    proof (cases "pc = 0 \<or> data ! pc")
      case True
      with "1.prems"(1) pc cur obtain d p where s: "parse_ins cur data pc = Inr (d, p)"
        and l: "parse_loop rd count d p = Inr out"
        by (subst (asm) parse_loop.simps) auto
      have less: "Suc pc < length data" using pc "1.prems"(2) by simp
      show ?thesis
        using "1.IH"(1) [OF pc cur, of "data ! pc" "(d, p)"] m True s l i "1.prems"(2,4)
          parse_ins_mono [OF s less] by auto
    next
      case False
      with "1.prems"(1) pc cur m have "parse_loop rd count data (Suc pc) = Inr out"
        by (subst (asm) parse_loop.simps) auto
      with "1.IH"(2) [OF pc cur, of "data ! pc"] False m i "1.prems"(2,4) show ?thesis by auto
    qed
  qed
qed

lemma parse_code_Inr:
  assumes "parse_code fbuf start count = Inr data"
  shows "0 \<le> count" "\<And>i. i < nat count \<Longrightarrow> \<exists>w. fbuf_word fbuf (start + i) = Inr w"
    "parse_inv (\<lambda>pc. fbuf_word fbuf (start + pc)) (nat count) data (nat count)"
proof -
  show pos: "0 \<le> count" using assms by (auto simp: parse_code_def split: if_splits)
  have loop: "parse_loop (\<lambda>pc. fbuf_word fbuf (start + pc)) (nat count)
     ((replicate (Suc (nat count)) False)[0 := True]) 0 = Inr data"
    using assms pos by (simp add: parse_code_def split: if_splits)
  then show "\<And>i. i < nat count \<Longrightarrow> \<exists>w. fbuf_word fbuf (start + i) = Inr w"
    using parse_loop_reads [OF loop] by simp
  show "parse_inv (\<lambda>pc. fbuf_word fbuf (start + pc)) (nat count) data (nat count)"
    by (rule parse_loop_inv [OF loop parse_inv_start])
qed

section \<open>Reading back what a file holds\<close>

lemma split_word_bytes: "split_word 4 w = word_bytes w"
proof -
  have m: "(0xff :: u32) = mask 8" by (simp add: mask_eq_exp_minus_1)
  have e: "ucast (x AND 0xff) = (ucast x :: u8)" for x :: u32
    unfolding m by (rule bit_word_eqI) (auto simp: bit_simps)
  have "split_word (Suc (Suc (Suc (Suc 0)))) w = word_bytes w"
    by (simp only: split_word.simps e word_bytes_def) simp
  then show ?thesis by (simp add: eval_nat_numeral)
qed

lemma nth_words_bytes:
  "i < length ws \<Longrightarrow> j < 4 \<Longrightarrow> words_bytes ws ! (4 * i + j) = word_bytes (ws ! i) ! j"
proof (induction ws arbitrary: i)
  case (Cons w ws)
  then show ?case by (cases i) (auto simp: nth_append)
qed simp

lemma fbuf_word_words [simp]:
  "i < length ws \<Longrightarrow> fbuf_word (words_bytes ws) i = Inr (ws ! i)"
  using nth_words_bytes [of i ws 0] nth_words_bytes [of i ws 1]
    nth_words_bytes [of i ws 2] nth_words_bytes [of i ws 3]
  by (simp add: fbuf_word_def word_bytes_def word_bytes_inverse)

text \<open>One entry of a symbol section: four words of name and the address.\<close>

definition sym_words :: "u8 list \<times> u32 \<Rightarrow> u32 list" where
  "sym_words s = bytes_words (fst s) @ [snd s]"

lemma read_name_words:
  "ptr + n \<le> length ws \<Longrightarrow>
   read_name (words_bytes ws) ptr n = Inr (words_bytes (take n (drop ptr ws)))"
proof (induction n arbitrary: ptr)
  case (Suc n)
  then have "take (Suc n) (drop ptr ws) = ws ! ptr # take n (drop (Suc ptr) ws)"
    by (metis Cons_nth_drop_Suc Suc_le_lessD add_Suc_right le_add1 order_le_less_trans take_Suc_Cons)
  with Suc show ?case by (simp add: split_word_bytes)
qed simp

lemma read_symbols_words:
  "\<forall>s \<in> set syms. length (fst s) = 16 \<Longrightarrow>
   read_symbols (words_bytes (pre @ concat (map sym_words syms) @ post)) (length pre) (length syms)
     = Inr syms"
proof (induction syms arbitrary: pre)
  case (Cons s syms)
  obtain nm a where s: "s = (nm, a)" by (cases s)
  have len: "length nm = 16" using Cons.prems s by simp
  let ?ws = "pre @ concat (map sym_words (s # syms)) @ post"
  have four: "length (bytes_words nm) = 4" by (simp add: length_bytes_words len)
  have nm: "read_name (words_bytes ?ws) (length pre) 4 = Inr nm"
    using read_name_words [of "length pre" 4 ?ws] words_bytes_inverse [of nm 4]
    by (simp add: s sym_words_def four len)
  have a: "fbuf_word (words_bytes ?ws) (length pre + 4) = Inr a"
    using fbuf_word_words [of "length pre + 4" ?ws]
    by (simp add: s sym_words_def four nth_append)
  have split: "?ws = (pre @ sym_words s) @ concat (map sym_words syms) @ post" by simp
  have five: "length (sym_words s) = 5" by (simp add: s sym_words_def four)
  have rest: "read_symbols (words_bytes ?ws) (length pre + 5) (length syms) = Inr syms"
    using Cons.IH [of "pre @ sym_words s"] Cons.prems five
    unfolding split by (simp del: words_bytes_append)
  show ?case using nm a rest by (simp add: s del: words_bytes_append words_bytes.simps)
qed simp

section \<open>Properties\<close>

lemmas parse_eval = parse_code_def parse_loop.simps parse_ins_def falls_through_def is_branch_def
  branch_target_def ds_ins_def ds_op_format_def EXTENDBIT20_def Let_def

lemma parse_code_reach:
  assumes "parse_code fbuf start count = Inr data"
  shows "length data = nat count + 1 \<and>
    (\<forall>i. i \<le> nat count \<longrightarrow>
       data ! i = reach (\<lambda>pc. fbuf_word fbuf (start + pc)) (nat count) i)"
proof -
  note r = parse_code_Inr [OF assms]
  show ?thesis
    using parse_inv_exact [OF r(3)] r by (auto simp: parse_inv_def)
qed

lemma parse_code_total:
  assumes "0 \<le> count" "count < 2^31 - 1"
  shows "(\<exists>data. parse_code fbuf start count = Inr data) \<longleftrightarrow>
    (\<forall>i < nat count. \<exists>w. fbuf_word fbuf (start + i) = Inr w) \<and>
    targets_ok (\<lambda>pc. fbuf_word fbuf (start + pc)) (nat count)"
    (is "?L \<longleftrightarrow> ?R")
proof
  assume ?L
  then obtain data where "parse_code fbuf start count = Inr data" ..
  note r = parse_code_Inr [OF this]
  show ?R using r(2) parse_inv_targets [OF r(3) r(2)] by simp
next
  assume ?R
  then show ?L
    unfolding parse_code_loop [OF assms]
    by (intro parse_loop_ok [OF _ _ parse_inv_start]) auto
qed

lemma parse_code_escape:
  "parse_code (words_bytes [0, 0, 1, 0x9014]) 3 1 = Inl OutOfBounds"
  by (simp add: parse_eval del: words_bytes.simps)

text \<open>C25: the symbol tables of a file are read back as written: for a file whose words hold
  symbol entries (16 bytes of name, then the address), the reader returns these names and
  addresses.\<close>

theorem read_symbols_roundtrip:
  assumes "length hdr = 3" "\<forall>s \<in> set ins. length (fst s) = 16" "\<forall>s \<in> set outs. length (fst s) = 16"
  shows "read_insymbols (words_bytes (hdr @ concat (map sym_words ins) @ concat (map sym_words outs) @ code))
      (length ins) = Inr ins \<and>
    read_outsymbols (words_bytes (hdr @ concat (map sym_words ins) @ concat (map sym_words outs) @ code))
      (3 + length ins * 5) (length outs) = Inr outs"
proof -
  have five: "length (concat (map sym_words ins)) = length ins * 5"
    using assms(2) by (induction ins) (auto simp: sym_words_def length_bytes_words)
  show ?thesis
    using read_symbols_words [OF assms(2), of hdr "concat (map sym_words outs) @ code"]
      read_symbols_words [OF assms(3), of "hdr @ concat (map sym_words ins)" code] assms(1) five
    by (simp add: read_insymbols_def read_outsymbols_def del: words_bytes_append)
qed

theorem read_symbols_roundtrip_witness:
  "read_insymbols (words_bytes ([5, 0, 1] @ concat (map sym_words [(pad0 16 [109, 97], 7)])
       @ concat (map sym_words []) @ [0])) (length [(pad0 16 [109, 97 :: u8], 7 :: u32)])
     = Inr [(pad0 16 [109, 97], 7)]"
  using read_symbols_roundtrip [of "[5, 0, 1]" "[(pad0 16 [109, 97], 7)]" "[]" "[0]"] by simp

end
