(* ===== verification/Dsx20_Linear.thy ===== *)
theory Dsx20_Linear
  imports Dsx20
begin

text \<open>
  The linear disassembler A1/P2/dsx20_linear.c: the same file reader and symbol reader as
  \<open>Dsx20\<close>, its own opcode tables (\<open>lin_op_name\<close>, \<open>lin_op_format\<close> of \<open>X20_ISA\<close>) and a
  listing that decodes every word.  The lemmas compare its listing with the one of the recursive
  disassembler.
\<close>

definition lin_read_file :: "(string \<Rightarrow> u8 list option) \<Rightarrow> string \<Rightarrow> u8 list res" where
  "lin_read_file fs filename =
     (case fs filename of
        None \<Rightarrow> Inl (ExitCode 1)
      | Some bs \<Rightarrow> if length bs = 0 then Inl (ExitCode 1) else Inr bs)"

definition lin_read_insymbols :: "u8 list \<Rightarrow> nat \<Rightarrow> (u8 list \<times> u32) list res" where
  "lin_read_insymbols fbuf count = read_symbols fbuf 3 count"

definition lin_read_outsymbols :: "u8 list \<Rightarrow> nat \<Rightarrow> nat \<Rightarrow> (u8 list \<times> u32) list res" where
  "lin_read_outsymbols fbuf start count = read_symbols fbuf start count"

definition lin_is_outsymbol :: "(u8 list \<times> u32) list \<Rightarrow> u32 \<Rightarrow> bool" where
  "lin_is_outsymbol outs addr = list_ex (\<lambda>(name, address). address = addr) outs"

definition lin_target :: "(u8 list \<times> u32) list \<Rightarrow> u32 \<Rightarrow> nat \<Rightarrow> string" where
  "lin_target outs addr pc =
     (if \<not> lin_is_outsymbol outs (of_nat pc) then fmt_d (addr + of_nat pc + 1) else ''[undefined]'')"

text \<open>\<open>F_REGCONST\<close> prints the field without sign extension: \<open>(int32_t)((cur >> 12) & 0xfffff)\<close>.\<close>

definition lin_operands :: "(u8 list \<times> u32) list \<Rightarrow> fmt \<Rightarrow> u32 \<Rightarrow> nat \<Rightarrow> string" where
  "lin_operands outs format cur pc =
     (case format of
        F_OP \<Rightarrow> []
      | F_INVALID \<Rightarrow> []
      | F_ADDR \<Rightarrow> lin_target outs (EXTENDBYTE20 (drop_bit 12 cur)) pc
      | F_REG \<Rightarrow> show_reg (reg1_of cur)
      | F_REGCONST \<Rightarrow> show_reg (reg1_of cur) @ '', '' @ fmt_d (drop_bit 12 cur AND 0xfffff)
      | F_REGADDR \<Rightarrow>
          show_reg (reg1_of cur) @ '', '' @ lin_target outs (EXTENDBYTE20 (drop_bit 12 cur)) pc
      | F_REGREG \<Rightarrow> show_reg (reg1_of cur) @ '', '' @ show_reg (reg2_of cur)
      | F_REGOFF \<Rightarrow>
          show_reg (reg1_of cur) @ '', '' @ fmt_d (scast (ucast (drop_bit 16 cur) :: 16 word))
            @ ''('' @ show_reg (reg2_of cur) @ '')''
      | F_REGREGADDR \<Rightarrow>
          show_reg (reg1_of cur) @ '', '' @ show_reg (reg2_of cur) @ '', ''
            @ lin_target outs (scast (ucast (drop_bit 16 cur) :: 16 word)) pc)"

definition read_code_line :: "(u8 list \<times> u32) list \<Rightarrow> u32 \<Rightarrow> nat \<Rightarrow> string" where
  "read_code_line outs cur pc =
     (let op = ucast (cur AND 0xff)
      in prec 7 (dec_nat pc) @ ''   '' @ prec 8 (hex_nat (unat cur)) @ ''   ''
           @ fill_right 8 (lin_op_name op) @ ''    ''
           @ lin_operands outs (lin_op_format op) cur pc @ nl)"

fun read_code :: "u8 list \<Rightarrow> (u8 list \<times> u32) list \<Rightarrow> nat \<Rightarrow> nat \<Rightarrow> nat \<Rightarrow> string res" where
  "read_code fbuf outs start pc 0 = Inr []"
| "read_code fbuf outs start pc (Suc left) =
     bindR (fbuf_word fbuf (start + pc)) (\<lambda>cur.
     bindR (read_code fbuf outs start (Suc pc) left) (\<lambda>rest.
     Inr (read_code_line outs cur pc @ rest)))"

definition lin_main :: "(string \<Rightarrow> u8 list option) \<Rightarrow> string list \<Rightarrow> string res" where
  "lin_main fs argv =
     (if length argv \<noteq> 2 then Inl (ExitCode 1)
      else bindR (lin_read_file fs (argv ! 1)) (\<lambda>fbuf.
     bindR (fbuf_word fbuf 0) (\<lambda>w0.
     bindR (fbuf_word fbuf 1) (\<lambda>w1.
     bindR (fbuf_word fbuf 2) (\<lambda>obj_len.
     let insym_count = unat w0 div 5; outsym_count = unat w1 div 5 in
     bindR (lin_read_insymbols fbuf insym_count) (\<lambda>ins.
     bindR (lin_read_outsymbols fbuf (3 + insym_count * 5) outsym_count) (\<lambda>outs.
     bindR (print_symbols ins) (\<lambda>ins_text.
     bindR (print_symbols outs) (\<lambda>outs_text.
     bindR (read_code fbuf outs (3 + insym_count * 5 + outsym_count * 5) 0 (nat (sint obj_len)))
       (\<lambda>code_text.
     Inr (''Disassembling '' @ argv ! 1 @ nl
          @ ''Insymbol Section ('' @ dec_nat insym_count @ '' entries)'' @ nl @ nl @ ins_text
          @ nl @ ''Outsymbol Section ('' @ dec_nat outsym_count @ '' entries)'' @ nl @ nl @ outs_text
          @ nl @ ''Object Code ('' @ fmt_d obj_len @ '' words)'' @ nl @ nl @ code_text)))))))))))"

section \<open>The two listings\<close>

lemma lin_is_outsymbol_eq: "lin_is_outsymbol outs addr = is_outsymbol outs addr"
  by (induction outs) (auto simp: lin_is_outsymbol_def split: if_splits)

lemma lin_target_eq [simp]: "lin_target = show_target"
  by (intro ext) (simp add: lin_target_def show_target_def lin_is_outsymbol_eq)

lemma dec_nat_hd: "\<exists>d < (10 :: nat). \<exists>cs. dec_nat n = char_of (48 + d) # cs"
proof (induction n rule: dec_nat.induct)
  case (1 n)
  show ?case
  proof (cases "n < 10")
    case True
    then show ?thesis by (subst dec_nat.simps) auto
  next
    case False
    with 1 show ?thesis by (subst dec_nat.simps) auto
  qed
qed

lemma digit_not_minus: "d < 10 \<Longrightarrow> char_of (48 + d :: nat) \<noteq> CHR ''-''"
proof -
  assume "d < 10"
  then have "of_char (char_of (48 + d :: nat) :: char) \<noteq> (of_char CHR ''-'' :: nat)" by simp
  then show ?thesis by metis
qed

lemma dec_int_sign: "0 \<le> i \<Longrightarrow> j < 0 \<Longrightarrow> dec_int i \<noteq> dec_int j"
  using dec_nat_hd [of "nat i"] digit_not_minus by (fastforce simp: dec_int_def)

lemma field20_negative: "field20 w < 0 \<longleftrightarrow> bit w 31"
  using bit_last_iff [of "signed_drop_bit 12 w"] sint_shift12 [of w]
  by (simp add: bit_signed_drop_bit_iff)

lemma drop_bit_nonneg: "0 \<le> sint (drop_bit 12 (w :: u32))"
proof -
  have "\<not> bit (drop_bit 12 w) (LENGTH(32) - 1)"
    by (auto simp: bit_simps dest: bit_imp_le_length)
  then show ?thesis using bit_last_iff [of "drop_bit 12 w"] by simp
qed

lemma EXTENDBIT20_nonneg: "0 \<le> field20 w \<Longrightarrow> EXTENDBIT20 (drop_bit 12 w) = drop_bit 12 w"
proof -
  assume "0 \<le> field20 w"
  then have "\<not> bit w 31" using field20_negative [of w] by linarith
  moreover have "drop_bit 19 (drop_bit 12 w) AND 1 \<noteq> 0 \<longleftrightarrow> bit w 31"
    using sign_bit_unsigned [of w] by simp
  ultimately show ?thesis by (simp add: EXTENDBIT20_def)
qed

text \<open>C24: the linear and the recursive disassembler print the same line for a word exactly when
  the word is not an \<open>ldimm\<close> with a negative constant, which the linear one prints as a large
  positive number (opcode 0x20, which only the recursive tool knows, apart).\<close>

theorem listings_agree_iff:
  assumes "ucast (cur AND 0xff) \<noteq> (0x20 :: u8)"
  shows "read_code_line outs cur pc = print_line outs None cur pc \<longleftrightarrow>
    \<not> (ds_op_format (ucast (cur AND 0xff)) = F_REGCONST \<and> field20 cur < 0)"
proof -
  let ?op = "ucast (cur AND 0xff) :: u8"
  have tables: "lin_op_name ?op = ds_op_name ?op" "lin_op_format ?op = ds_op_format ?op"
    using assms by (simp_all add: lin_op_name_eq lin_op_format_eq)
  have lines: "read_code_line outs cur pc = print_line outs None cur pc \<longleftrightarrow>
      lin_operands outs (ds_op_format ?op) cur pc = ds_operands outs (ds_op_format ?op) cur pc"
    by (simp add: read_code_line_def print_line_def tables Let_def)
  have const: "fmt_d (drop_bit 12 cur AND 0xfffff) = fmt_d (EXTENDBIT20 (drop_bit 12 cur AND 0xfffff))
      \<longleftrightarrow> 0 \<le> field20 cur"
  proof (cases "0 \<le> field20 cur")
    case True
    then show ?thesis by (simp add: EXTENDBIT20_nonneg mask20_shift)
  next
    case False
    then have "sint (EXTENDBIT20 (drop_bit 12 cur)) < 0" by (simp add: field_simps20)
    with False show ?thesis
      using dec_int_sign [OF drop_bit_nonneg] by (auto simp: fmt_d_def mask20_shift)
  qed
  show ?thesis
    unfolding lines lin_operands_def ds_operands_def
    using const by (cases "ds_op_format ?op") (auto simp: EXTENDBYTE20_eq)
qed

theorem listings_agree_iff_witness:
  "read_code_line [] 0xfffff003 0 \<noteq> print_line [] None 0xfffff003 0"
proof -
  have "ucast ((0xfffff003 :: u32) AND 0xff) \<noteq> (0x20 :: u8)" by simp
  note i = listings_agree_iff [OF this, of "[]" 0]
  have "ds_op_format (ucast ((0xfffff003 :: u32) AND 0xff)) = F_REGCONST"
    by (simp add: ds_op_format_def ds_ins_def)
  moreover have "field20 0xfffff003 < 0" by (simp add: field20_def)
  ultimately show ?thesis using i by blast
qed

end
