(* ===== verification/Vmx20.thy ===== *)
theory Vmx20
  imports X20_ISA
begin

text \<open>
  The state of the virtual machine A2/P2/vmx20.c and the operations on it that do not execute
  instructions: creation, the loader, the symbol lookup, and the two guarded memory accesses
  that every instruction goes through.  The memory is a function on 32-bit addresses; only the
  first \<open>MEM_SIZE\<close> words exist, and \<open>getWord\<close> and \<open>putWord\<close> refuse the others.  What
  \<open>malloc\<close> leaves uninitialised is a parameter (\<open>junk\<close>).  The interface \<open>word_store\<close> states what
  the instructions rely on.
\<close>

section \<open>State\<close>

definition MEM_SIZE :: u32 where
  "MEM_SIZE = 0xfffff div 4"

text \<open>The linked list of symbols: it ends in a null pointer or, where \<open>vm->symbols\<close> was never
  initialised, in a wild one.\<close>

datatype symtab = SymNull | SymWild | SymCons "u8 list" u32 symtab

record vm =
  vreg :: "4 word \<Rightarrow> u32"
  memory :: "u32 \<Rightarrow> u32"
  entryPoint :: u32
  progEnd :: u32
  numProcessors :: u32
  trace :: bool
  symbols :: symtab

record core =
  reg :: "4 word \<Rightarrow> u32"
  stack :: u32
  status :: int
  pid :: u32

definition FP :: "4 word" where "FP = 13"
definition SP :: "4 word" where "SP = 14"
definition PC :: "4 word" where "PC = 15"

definition NORMAL_TERMINATION :: int where "NORMAL_TERMINATION = 0"
definition INITIALIZE_FAILURE :: int where "INITIALIZE_FAILURE = - 1"
definition FILE_NOT_FOUND :: int where "FILE_NOT_FOUND = - 2"
definition FILE_IS_NOT_VALID :: int where "FILE_IS_NOT_VALID = - 3"
definition FILE_CONTAINS_OUTSYMBOLS :: int where "FILE_CONTAINS_OUTSYMBOLS = - 4"
definition DIVIDE_BY_ZERO :: int where "DIVIDE_BY_ZERO = - 5"
definition ADDRESS_OUT_OF_RANGE :: int where "ADDRESS_OUT_OF_RANGE = - 6"
definition ILLEGAL_INSTRUCTION :: int where "ILLEGAL_INSTRUCTION = - 7"

lemmas error_codes = NORMAL_TERMINATION_def INITIALIZE_FAILURE_def FILE_NOT_FOUND_def
  FILE_IS_NOT_VALID_def FILE_CONTAINS_OUTSYMBOLS_def DIVIDE_BY_ZERO_def
  ADDRESS_OUT_OF_RANGE_def ILLEGAL_INSTRUCTION_def

text \<open>\<open>initVm\<close>: whether each \<open>malloc\<close> and the mutex initialisations succeed, and what the
  allocated block holds, are arguments.  Only the registers are initialised.\<close>

definition initVm :: "bool \<Rightarrow> bool \<Rightarrow> bool \<Rightarrow> vm \<Rightarrow> (vm option \<times> int) res" where
  "initVm vm_ok memory_ok locks_ok junk =
     (if \<not> vm_ok then Inr (None, INITIALIZE_FAILURE)
      else if \<not> memory_ok then Inr (None, INITIALIZE_FAILURE)
      else if \<not> locks_ok then Inl (ExitCode 50)
      else Inr (Some (junk\<lparr>vreg := (\<lambda>_. 0)\<rparr>), NORMAL_TERMINATION))"

section \<open>Memory\<close>

text \<open>Both return 1 on success; \<open>getWord\<close> leaves \<open>*outWord\<close> alone otherwise.\<close>

definition getWord :: "vm \<Rightarrow> u32 \<Rightarrow> u32 \<Rightarrow> u32 \<times> bool" where
  "getWord vm addr outWord = (if addr \<ge> MEM_SIZE then (outWord, False) else (memory vm addr, True))"

definition putWord :: "vm \<Rightarrow> u32 \<Rightarrow> u32 \<Rightarrow> vm \<times> bool" where
  "putWord vm addr word =
     (if addr \<ge> MEM_SIZE then (vm, False) else (vm\<lparr>memory := (memory vm)(addr := word)\<rparr>, True))"

text \<open>What the instructions need of the two: a store of words with a bound.\<close>

locale word_store =
  fixes get :: "'s \<Rightarrow> u32 \<Rightarrow> u32 \<Rightarrow> u32 \<times> bool"
    and put :: "'s \<Rightarrow> u32 \<Rightarrow> u32 \<Rightarrow> 's \<times> bool"
    and size :: u32
  assumes get_ok: "snd (get s a d) \<longleftrightarrow> a < size"
    and put_ok: "snd (put s a w) \<longleftrightarrow> a < size"
    and get_out: "\<not> a < size \<Longrightarrow> fst (get s a d) = d"
    and put_out: "\<not> a < size \<Longrightarrow> fst (put s a w) = s"
    and get_default: "a < size \<Longrightarrow> fst (get s a d) = fst (get s a d')"
    and get_put_same: "a < size \<Longrightarrow> fst (get (fst (put s a w)) a d) = w"
    and get_put_other: "a \<noteq> b \<Longrightarrow> fst (get (fst (put s a w)) b d) = fst (get s b d)"
begin

text \<open>Three words pushed below an address are read back, the frame of a call.\<close>

lemma frame_read_back:
  assumes "sp - 1 < size" "sp - 2 < size" "sp - 3 < size"
    and s': "s' = fst (put (fst (put (fst (put s (sp - 1) x)) (sp - 2) y)) (sp - 3) z)"
  shows "fst (get s' (sp - 1) d) = x" "fst (get s' (sp - 2) d) = y" "fst (get s' (sp - 3) d) = z"
proof -
  have ne: "sp - 1 \<noteq> sp - 2" "sp - 1 \<noteq> sp - 3" "sp - 2 \<noteq> sp - (3 :: u32)" by simp_all
  show "fst (get s' (sp - 1) d) = x" "fst (get s' (sp - 2) d) = y" "fst (get s' (sp - 3) d) = z"
    using assms ne by (simp_all add: get_put_same get_put_other)
qed

lemma put_preserves_others: "b \<noteq> a \<Longrightarrow> get (fst (put s a w)) b d = get s b d"
  using get_put_other [of a b s w d] get_ok [of "fst (put s a w)" b d] get_ok [of s b d]
  by (simp add: prod_eq_iff)

end

interpretation vmem: word_store getWord putWord MEM_SIZE
  by unfold_locales (auto simp: getWord_def putWord_def)

lemma putWord_frame:
  "fst (putWord vm a w) = vm\<lparr>memory := memory (fst (putWord vm a w))\<rparr>"
  "b \<noteq> a \<or> b \<ge> MEM_SIZE \<Longrightarrow> memory (fst (putWord vm a w)) b = memory vm b"
  by (auto simp: putWord_def)

section \<open>Symbols and the loader\<close>

fun getAddress :: "symtab \<Rightarrow> u8 list \<Rightarrow> u32 option res" where
  "getAddress SymNull label = Inr None"
| "getAddress SymWild label = Inl WildPointer"
| "getAddress (SymCons name address rest) label =
     (if name = label then Inr (Some address) else getAddress rest label)"

text \<open>\<open>"mainx20"\<close> as bytes.\<close>

definition mainx20 :: "u8 list" where
  "mainx20 = [109, 97, 105, 110, 120, 50, 48]"

text \<open>\<open>fread\<close> of whole words: the words of the file from position \<open>i\<close>, at most \<open>n\<close>.  A value of
  the file that is not there leaves the variable as it was.\<close>

definition file_words :: "u8 list \<Rightarrow> nat \<Rightarrow> nat \<Rightarrow> u32 list" where
  "file_words bs i n = take n (drop i (bytes_words bs))"

definition file_word :: "u8 list \<Rightarrow> nat \<Rightarrow> u32" where
  "file_word bs i = (case file_words bs i 1 of [w] \<Rightarrow> w | _ \<Rightarrow> 0)"

text \<open>The loop over the insymbols: the entries still to parse, the symbol list, the entry point
  and whether it was found.  \<open>strcpy\<close> of a name with no NUL in its 16 bytes overruns the 16
  bytes allocated for it; a part of an entry is read past the buffer.\<close>

function parse_insymbols :: "u32 list \<Rightarrow> vm \<Rightarrow> bool \<Rightarrow> (vm \<times> bool \<times> bool) res" where
  "parse_insymbols buf vm mainFound =
     (if buf = [] then Inr (vm, mainFound, False)
      else if length buf < 5 then Inl OutOfBounds
      else (case cstr_opt (words_bytes (take 4 buf)) of
              None \<Rightarrow> Inl OutOfBounds
            | Some name \<Rightarrow>
                (let address = buf ! 4;
                     vm' = vm\<lparr>symbols := SymCons name address (symbols vm)\<rparr> in
                 if name = mainx20 then
                   (if mainFound then Inr (vm', True, True)
                    else parse_insymbols (drop 5 buf) (vm'\<lparr>entryPoint := address\<rparr>) True)
                 else parse_insymbols (drop 5 buf) vm' mainFound)))"
  by pat_completeness auto
termination by (relation "measure (\<lambda>(buf, vm, m). length buf)") auto

declare parse_insymbols.simps [simp del]

text \<open>\<open>loadExecutableFile\<close>: the result holds the state, the returned value and the value of
  \<open>*errorNumber\<close> (\<open>err\<close> before the call).  A negative length makes \<open>malloc\<close> return null;
  a program larger than the memory is written past its end.\<close>

definition loadExecutableFile ::
  "vm \<Rightarrow> u8 list option \<Rightarrow> int \<Rightarrow> (vm \<times> bool \<times> int) res" where
  "loadExecutableFile vm file err =
     (case file of
        None \<Rightarrow> Inr (vm, False, FILE_NOT_FOUND)
      | Some bs \<Rightarrow>
         (let len0 = sint (file_word bs 0); len1 = sint (file_word bs 1);
              len2 = sint (file_word bs 2) in
          if len1 \<noteq> 0 then Inr (vm, False, FILE_CONTAINS_OUTSYMBOLS)
          else if len0 < 0 then Inl NullDeref
          else
           (let symbuffer = file_words bs 3 (nat len0);
                avail = drop (3 + nat len0) (bytes_words bs);
                code = (if len2 < 0 then avail else take (nat len2) avail) in
            if unat MEM_SIZE < length code then Inl OutOfBounds
            else
             (let vm1 = vm\<lparr>memory := (\<lambda>a. if unat a < length code then code ! unat a else memory vm a),
                          progEnd := of_nat (length code)\<rparr> in
              if int (length code) \<noteq> len2 then Inr (vm1, False, FILE_IS_NOT_VALID)
              else if length symbuffer < nat len0 then Inl WildPointer
              else bindR (parse_insymbols symbuffer vm1 False) (\<lambda>(vm2, mainFound, twice).
                if twice then Inr (vm2, False, FILE_IS_NOT_VALID)
                else if \<not> mainFound then Inr (vm2, False, FILE_IS_NOT_VALID)
                else Inr (vm2, True, err))))))"

text \<open>\<open>cleanup\<close> walks and frees the symbol list.\<close>

fun cleanup :: "symtab \<Rightarrow> unit res" where
  "cleanup SymNull = Inr ()"
| "cleanup SymWild = Inl WildPointer"
| "cleanup (SymCons name address rest) = cleanup rest"

end
