(* ===== verification/Float32.thy ===== *)
theory Float32
  imports Prelude
begin

text \<open>
  The C type \<open>float\<close> of the \<open>addf\<close>, \<open>subf\<close>, \<open>mulf\<close> and \<open>divf\<close> instructions: IEEE 754 binary32
  with round to nearest, ties to even, on the 32-bit patterns that the virtual machine copies
  in and out of its registers.  Results are computed exactly on integers and rounded once.
  A NaN result is the quieted first NaN operand, or the default NaN of x86.
\<close>

section \<open>Fields\<close>

definition f_sign :: "u32 \<Rightarrow> bool" where
  "f_sign x = bit x 31"

definition f_exp :: "u32 \<Rightarrow> nat" where
  "f_exp x = unat x div 2^23 mod 256"

definition f_frac :: "u32 \<Rightarrow> nat" where
  "f_frac x = unat x mod 2^23"

definition f_nan :: "u32 \<Rightarrow> bool" where
  "f_nan x \<longleftrightarrow> f_exp x = 255 \<and> f_frac x \<noteq> 0"

definition f_inf :: "u32 \<Rightarrow> bool" where
  "f_inf x \<longleftrightarrow> f_exp x = 255 \<and> f_frac x = 0"

definition f_zero :: "u32 \<Rightarrow> bool" where
  "f_zero x \<longleftrightarrow> f_exp x = 0 \<and> f_frac x = 0"

text \<open>A finite value is \<open>f_mant x * 2 powr f_pow x\<close>, with its sign.\<close>

definition f_mant :: "u32 \<Rightarrow> nat" where
  "f_mant x = (if f_exp x = 0 then f_frac x else 2^23 + f_frac x)"

definition f_pow :: "u32 \<Rightarrow> int" where
  "f_pow x = (if f_exp x = 0 then - 149 else int (f_exp x) - 150)"

section \<open>Rounding\<close>

fun bitlen :: "nat \<Rightarrow> nat" where
  "bitlen n = (if n = 0 then 0 else Suc (bitlen (n div 2)))"

declare bitlen.simps [simp del]

definition round_even :: "nat \<Rightarrow> nat \<Rightarrow> nat" where
  "round_even m k =
     (let q = m div 2^k; r = m mod 2^k in
      if 2 * r > 2^k \<or> (2 * r = 2^k \<and> odd q) then q + 1 else q)"

definition f_pack :: "bool \<Rightarrow> nat \<Rightarrow> u32" where
  "f_pack s n = of_nat (n + (if s then 2^31 else 0))"

definition f_infinity :: nat where "f_infinity = 255 * 2^23"

definition default_nan :: u32 where "default_nan = 0xffc00000"

text \<open>The binary32 number nearest to \<open>m * 2 powr e\<close>.\<close>

definition f_round :: "bool \<Rightarrow> nat \<Rightarrow> int \<Rightarrow> u32" where
  "f_round s m e =
     (if m = 0 then f_pack s 0
      else
       (let sh = max (int (bitlen m) - 24) (- 149 - e);
            q = (if sh \<le> 0 then m * 2^nat (- sh) else round_even m (nat sh));
            n = nat (e + sh + 149) * 2^23 + q
        in f_pack s (min n f_infinity)))"

section \<open>Arithmetic\<close>

definition quiet :: "u32 \<Rightarrow> u32" where
  "quiet x = x OR 0x400000"

definition f_signed :: "u32 \<Rightarrow> int \<Rightarrow> int" where
  "f_signed x e = (if f_sign x then - 1 else 1) * int (f_mant x) * 2^nat (f_pow x - e)"

definition f_add :: "u32 \<Rightarrow> u32 \<Rightarrow> u32" where
  "f_add x y =
     (if f_nan x then quiet x else if f_nan y then quiet y
      else if f_inf x then (if f_inf y \<and> f_sign x \<noteq> f_sign y then default_nan else x)
      else if f_inf y then y
      else
       (let e = min (f_pow x) (f_pow y); v = f_signed x e + f_signed y e
        in if v = 0 then f_pack (f_sign x \<and> f_sign y) 0 else f_round (v < 0) (nat \<bar>v\<bar>) e))"

definition f_sub :: "u32 \<Rightarrow> u32 \<Rightarrow> u32" where
  "f_sub x y = (if f_nan x then quiet x else if f_nan y then quiet y else f_add x (y XOR 0x80000000))"

definition f_mul :: "u32 \<Rightarrow> u32 \<Rightarrow> u32" where
  "f_mul x y =
     (let s = (f_sign x \<noteq> f_sign y) in
      if f_nan x then quiet x else if f_nan y then quiet y
      else if f_inf x \<or> f_inf y then
        (if f_zero x \<or> f_zero y then default_nan else f_pack s f_infinity)
      else f_round s (f_mant x * f_mant y) (f_pow x + f_pow y))"

text \<open>The quotient of the mantissas to 50 more bits, with a last bit that says whether it is exact.\<close>

definition f_div :: "u32 \<Rightarrow> u32 \<Rightarrow> u32" where
  "f_div x y =
     (let s = (f_sign x \<noteq> f_sign y) in
      if f_nan x then quiet x else if f_nan y then quiet y
      else if f_inf x then (if f_inf y then default_nan else f_pack s f_infinity)
      else if f_inf y then f_pack s 0
      else if f_zero y then (if f_zero x then default_nan else f_pack s f_infinity)
      else
       (let a = f_mant x * 2^50; q = a div f_mant y;
            m = 2 * q + (if a mod f_mant y = 0 then 0 else 1)
        in f_round s m (f_pow x - f_pow y - 51)))"

text \<open>\<open>x == 0.0f\<close>\<close>

definition f_eq_zero :: "u32 \<Rightarrow> bool" where
  "f_eq_zero x = f_zero x"

end
