(* ===== verification/Vmx20_Exec.thy ===== *)
theory Vmx20_Exec
  imports Vmx20 Float32 "HOL-Library.Signed_Division"
begin

text \<open>
  \<open>executeInstruction\<close> of A2/P2/vmx20.c: one definition per group of cases of its \<open>switch\<close>, and
  the dispatch with the code before and after it.  A group takes the core, the machine, the target
  PC \<open>tPC\<close> and the instruction word, and returns them updated with the flag \<open>success\<close>; a C
  behaviour that is undefined and traps (\<open>INT_MIN / -1\<close>) is a fault.  \<open>int32_t\<close> arithmetic wraps.
  The locks do not appear: a core takes the memory lock at most once per instruction, around all
  the accesses of that instruction, so an instruction after its fetch is one step.
\<close>

type_synonym exec = "(core \<times> vm \<times> u32 \<times> bool) res"

definition setr :: "core \<Rightarrow> 4 word \<Rightarrow> u32 \<Rightarrow> core" where
  "setr cpu r v = cpu\<lparr>reg := (reg cpu)(r := v)\<rparr>"

text \<open>\<open>word >> 8 & 0xf\<close> and \<open>word >> 12 & 0xf\<close> on a signed word.\<close>

definition vm_reg1 :: "u32 \<Rightarrow> 4 word" where
  "vm_reg1 word = ucast (signed_drop_bit 8 word AND 0xf)"

definition vm_reg2 :: "u32 \<Rightarrow> 4 word" where
  "vm_reg2 word = ucast (signed_drop_bit 12 word AND 0xf)"

definition addr20 :: "u32 \<Rightarrow> u32" where
  "addr20 word = EXTENDSIGN20 (signed_drop_bit 12 word)"

definition addr16 :: "u32 \<Rightarrow> u32" where
  "addr16 word = EXTENDSIGN16 (signed_drop_bit 16 word)"

definition stop :: "core \<Rightarrow> int \<Rightarrow> core" where
  "stop cpu termCode = cpu\<lparr>status := termCode\<rparr>"

section \<open>Loads and stores\<close>

definition exec_load :: "core \<Rightarrow> vm \<Rightarrow> u32 \<Rightarrow> u32 \<Rightarrow> exec" where
  "exec_load cpu vm tPC word =
     (let r1 = vm_reg1 word
      in Inr (setr cpu r1 (fst (getWord vm (tPC + addr20 word) (reg cpu r1))), vm, tPC, True))"

definition exec_store :: "core \<Rightarrow> vm \<Rightarrow> u32 \<Rightarrow> u32 \<Rightarrow> exec" where
  "exec_store cpu vm tPC word =
     Inr (cpu, fst (putWord vm (tPC + addr20 word) (reg cpu (vm_reg1 word))), tPC, True)"

definition exec_ldimm :: "core \<Rightarrow> vm \<Rightarrow> u32 \<Rightarrow> u32 \<Rightarrow> exec" where
  "exec_ldimm cpu vm tPC word = Inr (setr cpu (vm_reg1 word) (addr20 word), vm, tPC, True)"

definition exec_ldaddr :: "core \<Rightarrow> vm \<Rightarrow> u32 \<Rightarrow> u32 \<Rightarrow> exec" where
  "exec_ldaddr cpu vm tPC word = Inr (setr cpu (vm_reg1 word) (tPC + addr20 word), vm, tPC, True)"

text \<open>The bound of \<open>ldind\<close> is on \<open>(uint64_t)cpu->reg[reg2] + addr\<close>; the one of \<open>stind\<close> on
  \<open>(uint64_t)reg2 + addr\<close>, the number of the register.\<close>

definition exec_ldind :: "core \<Rightarrow> vm \<Rightarrow> u32 \<Rightarrow> u32 \<Rightarrow> exec" where
  "exec_ldind cpu vm tPC word =
     (let r1 = vm_reg1 word; r2 = vm_reg2 word; addr = addr16 word in
      if (scast (reg cpu r2) :: u64) + scast addr \<ge> ucast MEM_SIZE
      then Inr (stop cpu ADDRESS_OUT_OF_RANGE, vm, tPC, False)
      else Inr (setr cpu r1 (fst (getWord vm (reg cpu r2 + addr) (reg cpu r1))), vm, tPC, True))"

definition exec_stind :: "core \<Rightarrow> vm \<Rightarrow> u32 \<Rightarrow> u32 \<Rightarrow> exec" where
  "exec_stind cpu vm tPC word =
     (let r1 = vm_reg1 word; r2 = vm_reg2 word; addr = addr16 word in
      if (ucast r2 :: u64) + scast addr \<ge> ucast MEM_SIZE
      then Inr (stop cpu ADDRESS_OUT_OF_RANGE, vm, tPC, False)
      else Inr (cpu, fst (putWord vm (reg cpu r2 + addr) (reg cpu r1)), tPC, True))"

section \<open>Arithmetic\<close>

definition exec_float :: "(u32 \<Rightarrow> u32 \<Rightarrow> u32) \<Rightarrow> core \<Rightarrow> vm \<Rightarrow> u32 \<Rightarrow> u32 \<Rightarrow> exec" where
  "exec_float f cpu vm tPC word =
     (let r1 = vm_reg1 word; r2 = vm_reg2 word
      in Inr (setr cpu r1 (f (reg cpu r1) (reg cpu r2)), vm, tPC, True))"

definition exec_divf :: "core \<Rightarrow> vm \<Rightarrow> u32 \<Rightarrow> u32 \<Rightarrow> exec" where
  "exec_divf cpu vm tPC word =
     (let r1 = vm_reg1 word; r2 = vm_reg2 word in
      if f_eq_zero (reg cpu r2) then Inr (stop cpu DIVIDE_BY_ZERO, vm, tPC, False)
      else Inr (setr cpu r1 (f_div (reg cpu r1) (reg cpu r2)), vm, tPC, True))"

definition exec_addi :: "core \<Rightarrow> vm \<Rightarrow> u32 \<Rightarrow> u32 \<Rightarrow> exec" where
  "exec_addi cpu vm tPC word =
     (let r1 = vm_reg1 word; r2 = vm_reg2 word
      in Inr (setr cpu r1 (reg cpu r1 + reg cpu r2), vm, tPC, True))"

definition exec_subi :: "core \<Rightarrow> vm \<Rightarrow> u32 \<Rightarrow> u32 \<Rightarrow> exec" where
  "exec_subi cpu vm tPC word =
     (let r1 = vm_reg1 word; r2 = vm_reg2 word
      in Inr (setr cpu r1 (reg cpu r1 - reg cpu r2), vm, tPC, True))"

definition exec_divi :: "core \<Rightarrow> vm \<Rightarrow> u32 \<Rightarrow> u32 \<Rightarrow> exec" where
  "exec_divi cpu vm tPC word =
     (let r1 = vm_reg1 word; r2 = vm_reg2 word in
      if reg cpu r2 = 0 then Inr (stop cpu DIVIDE_BY_ZERO, vm, tPC, False)
      else if reg cpu r1 = 0x80000000 \<and> reg cpu r2 = 0xffffffff then Inl DivTrap
      else Inr (setr cpu r1 (word_of_int (sint (reg cpu r1) sdiv sint (reg cpu r2))), vm, tPC, True))"

definition exec_muli :: "core \<Rightarrow> vm \<Rightarrow> u32 \<Rightarrow> u32 \<Rightarrow> exec" where
  "exec_muli cpu vm tPC word =
     (let r1 = vm_reg1 word; r2 = vm_reg2 word
      in Inr (setr cpu r1 (reg cpu r1 * reg cpu r2), vm, tPC, True))"

section \<open>Calls and the stack\<close>

definition exec_call :: "core \<Rightarrow> vm \<Rightarrow> u32 \<Rightarrow> u32 \<Rightarrow> exec" where
  "exec_call cpu vm tPC word =
     (if reg cpu SP > stack cpu \<or> reg cpu SP - 3 < progEnd vm
      then Inr (stop cpu ADDRESS_OUT_OF_RANGE, vm, tPC, False)
      else
       (let addr = addr20 word;
            cpu = setr cpu SP (reg cpu SP - 1);
            vm = fst (putWord vm (reg cpu SP) tPC);
            tPC = tPC + addr;
            cpu = setr cpu SP (reg cpu SP - 1);
            vm = fst (putWord vm (reg cpu SP) (reg cpu FP));
            cpu = setr cpu FP (reg cpu SP);
            cpu = setr cpu SP (reg cpu SP - 1);
            vm = fst (putWord vm (reg cpu SP) 0)
        in Inr (cpu, vm, tPC, True)))"

definition exec_ret :: "core \<Rightarrow> vm \<Rightarrow> u32 \<Rightarrow> u32 \<Rightarrow> exec" where
  "exec_ret cpu vm tPC word =
     (if reg cpu SP + 3 > stack cpu \<or> reg cpu SP < progEnd vm
      then Inr (stop cpu ADDRESS_OUT_OF_RANGE, vm, tPC, False)
      else
       (let word = fst (getWord vm (reg cpu SP) word);
            cpu = setr cpu SP (reg cpu SP + 1);
            cpu = setr cpu FP (fst (getWord vm (reg cpu SP) (reg cpu FP)));
            cpu = setr cpu SP (reg cpu SP + 1);
            tPC = fst (getWord vm (reg cpu SP) tPC);
            cpu = setr cpu SP (reg cpu SP + 1);
            vm = fst (putWord vm (reg cpu FP - 1) word)
        in Inr (cpu, vm, tPC, True)))"

definition exec_push :: "core \<Rightarrow> vm \<Rightarrow> u32 \<Rightarrow> u32 \<Rightarrow> exec" where
  "exec_push cpu vm tPC word =
     (if reg cpu SP > stack cpu \<or> reg cpu SP < progEnd vm
      then Inr (stop cpu ADDRESS_OUT_OF_RANGE, vm, tPC, False)
      else
       (let cpu = setr cpu SP (reg cpu SP - 1)
        in Inr (cpu, fst (putWord vm (reg cpu SP) (reg cpu (vm_reg1 word))), tPC, True)))"

text \<open>The case of \<open>pop\<close> has no \<open>break\<close> after the load: it runs into \<open>default\<close>.\<close>

definition exec_default :: "core \<Rightarrow> vm \<Rightarrow> u32 \<Rightarrow> exec" where
  "exec_default cpu vm tPC = Inr (stop cpu ILLEGAL_INSTRUCTION, vm, tPC, False)"

definition exec_pop :: "core \<Rightarrow> vm \<Rightarrow> u32 \<Rightarrow> u32 \<Rightarrow> exec" where
  "exec_pop cpu vm tPC word =
     (if reg cpu SP > stack cpu \<or> reg cpu SP < progEnd vm
      then Inr (stop cpu ADDRESS_OUT_OF_RANGE, vm, tPC, False)
      else
       (let r1 = vm_reg1 word;
            cpu = setr cpu r1 (fst (getWord vm (reg cpu SP) (reg cpu r1)));
            cpu = setr cpu SP (reg cpu SP + 1)
        in exec_default cpu vm tPC))"

section \<open>Branches\<close>

definition exec_blt :: "core \<Rightarrow> vm \<Rightarrow> u32 \<Rightarrow> u32 \<Rightarrow> exec" where
  "exec_blt cpu vm tPC word =
     Inr (cpu, vm, if sint (reg cpu (vm_reg1 word)) < sint (reg cpu (vm_reg2 word))
                   then tPC + addr16 word else tPC, True)"

definition exec_bgt :: "core \<Rightarrow> vm \<Rightarrow> u32 \<Rightarrow> u32 \<Rightarrow> exec" where
  "exec_bgt cpu vm tPC word =
     Inr (cpu, vm, if sint (reg cpu (vm_reg1 word)) > sint (reg cpu (vm_reg2 word))
                   then tPC + addr16 word else tPC, True)"

definition exec_beq :: "core \<Rightarrow> vm \<Rightarrow> u32 \<Rightarrow> u32 \<Rightarrow> exec" where
  "exec_beq cpu vm tPC word =
     Inr (cpu, vm, if reg cpu (vm_reg1 word) = reg cpu (vm_reg2 word)
                   then tPC + addr16 word else tPC, True)"

definition exec_jmp :: "core \<Rightarrow> vm \<Rightarrow> u32 \<Rightarrow> u32 \<Rightarrow> exec" where
  "exec_jmp cpu vm tPC word = Inr (cpu, vm, tPC + addr20 word, True)"

section \<open>Compare and exchange, processor queries\<close>

definition exec_cmpxchg :: "core \<Rightarrow> vm \<Rightarrow> u32 \<Rightarrow> u32 \<Rightarrow> exec" where
  "exec_cmpxchg cpu vm tPC word =
     (let r1 = vm_reg1 word; r2 = vm_reg2 word; addr = addr16 word;
          w = fst (getWord vm (tPC + addr) 0) in
      if reg cpu r1 = w then Inr (cpu, fst (putWord vm (tPC + addr) (reg cpu r2)), tPC, True)
      else Inr (setr cpu r1 (fst (getWord vm (tPC + addr) (reg cpu r1))), vm, tPC, True))"

definition exec_getpid :: "core \<Rightarrow> vm \<Rightarrow> u32 \<Rightarrow> u32 \<Rightarrow> exec" where
  "exec_getpid cpu vm tPC word = Inr (setr cpu (vm_reg1 word) (pid cpu), vm, tPC, True)"

definition exec_getpn :: "core \<Rightarrow> vm \<Rightarrow> u32 \<Rightarrow> u32 \<Rightarrow> exec" where
  "exec_getpn cpu vm tPC word = Inr (setr cpu (vm_reg1 word) (numProcessors vm), vm, tPC, True)"

section \<open>The dispatch\<close>

definition exec_switch :: "core \<Rightarrow> vm \<Rightarrow> u32 \<Rightarrow> u32 \<Rightarrow> exec" where
  "exec_switch cpu vm tPC word =
     (case vm_ins (ucast (word AND 0xff)) of
        INS_HALT \<Rightarrow> Inr (stop cpu NORMAL_TERMINATION, vm, tPC, False)
      | INS_LOAD \<Rightarrow> exec_load cpu vm tPC word
      | INS_STORE \<Rightarrow> exec_store cpu vm tPC word
      | INS_LDIMM \<Rightarrow> exec_ldimm cpu vm tPC word
      | INS_LDADDR \<Rightarrow> exec_ldaddr cpu vm tPC word
      | INS_LDIND \<Rightarrow> exec_ldind cpu vm tPC word
      | INS_STIND \<Rightarrow> exec_stind cpu vm tPC word
      | INS_ADDF \<Rightarrow> exec_float f_add cpu vm tPC word
      | INS_SUBF \<Rightarrow> exec_float f_sub cpu vm tPC word
      | INS_DIVF \<Rightarrow> exec_divf cpu vm tPC word
      | INS_MULF \<Rightarrow> exec_float f_mul cpu vm tPC word
      | INS_ADDI \<Rightarrow> exec_addi cpu vm tPC word
      | INS_SUBI \<Rightarrow> exec_subi cpu vm tPC word
      | INS_DIVI \<Rightarrow> exec_divi cpu vm tPC word
      | INS_MULI \<Rightarrow> exec_muli cpu vm tPC word
      | INS_CALL \<Rightarrow> exec_call cpu vm tPC word
      | INS_RET \<Rightarrow> exec_ret cpu vm tPC word
      | INS_BLT \<Rightarrow> exec_blt cpu vm tPC word
      | INS_BGT \<Rightarrow> exec_bgt cpu vm tPC word
      | INS_BEQ \<Rightarrow> exec_beq cpu vm tPC word
      | INS_JMP \<Rightarrow> exec_jmp cpu vm tPC word
      | INS_CMPXCHG \<Rightarrow> exec_cmpxchg cpu vm tPC word
      | INS_GETPID \<Rightarrow> exec_getpid cpu vm tPC word
      | INS_GETPN \<Rightarrow> exec_getpn cpu vm tPC word
      | INS_PUSH \<Rightarrow> exec_push cpu vm tPC word
      | INS_POP \<Rightarrow> exec_pop cpu vm tPC word
      | INS_NOP \<Rightarrow> exec_default cpu vm tPC
      | INS_INVALID \<Rightarrow> exec_default cpu vm tPC)"

text \<open>The fetch reads the memory array without a check and outside the lock.\<close>

definition fetch :: "vm \<Rightarrow> u32 \<Rightarrow> u32 res" where
  "fetch vm instrAddr = (if instrAddr \<ge> MEM_SIZE then Inl OutOfBounds else Inr (memory vm instrAddr))"

text \<open>The part after the fetch: the switch with \<open>tPC\<close> one past the instruction, then the PC.\<close>

definition execute_word :: "core \<Rightarrow> vm \<Rightarrow> u32 \<Rightarrow> (core \<times> vm \<times> bool) res" where
  "execute_word cpu vm word =
     bindR (exec_switch cpu vm (reg cpu PC + 1) word)
       (\<lambda>(cpu, vm, tPC, success). Inr (setr cpu PC tPC, vm, success))"

definition executeInstruction :: "core \<Rightarrow> vm \<Rightarrow> u32 \<Rightarrow> (core \<times> vm \<times> bool) res" where
  "executeInstruction cpu vm instrAddr =
     bindR (fetch vm instrAddr) (\<lambda>word. execute_word cpu vm word)"

lemmas exec_defs [vm_defs] = exec_load_def exec_store_def exec_ldimm_def exec_ldaddr_def exec_ldind_def
  exec_stind_def exec_float_def exec_divf_def exec_addi_def exec_subi_def exec_divi_def exec_muli_def
  exec_call_def exec_ret_def exec_push_def exec_pop_def exec_default_def exec_blt_def exec_bgt_def
  exec_beq_def exec_jmp_def exec_cmpxchg_def exec_getpid_def exec_getpn_def Let_def

section \<open>What every instruction keeps\<close>

lemma reg_setr [simp]: "reg (setr cpu r v) = (reg cpu)(r := v)"
  by (simp add: setr_def)

lemma core_setr [simp]:
  "stack (setr cpu r v) = stack cpu" "status (setr cpu r v) = status cpu" "pid (setr cpu r v) = pid cpu"
  by (simp_all add: setr_def)

lemma core_stop [simp]:
  "stack (stop cpu c) = stack cpu" "status (stop cpu c) = c" "pid (stop cpu c) = pid cpu"
  "reg (stop cpu c) = reg cpu"
  by (simp_all add: stop_def)

definition term_codes :: "int set" where
  "term_codes = {NORMAL_TERMINATION, DIVIDE_BY_ZERO, ADDRESS_OUT_OF_RANGE, ILLEGAL_INSTRUCTION}"

definition same_config :: "vm \<Rightarrow> vm \<Rightarrow> bool" where
  "same_config vm vm' \<longleftrightarrow> vm' = vm\<lparr>memory := memory vm'\<rparr> \<and> (\<forall>a. MEM_SIZE \<le> a \<longrightarrow> memory vm' a = memory vm a)"

lemma same_config_refl [simp, intro]: "same_config vm vm"
  by (simp add: same_config_def)

lemma same_config_trans [trans]: "same_config a b \<Longrightarrow> same_config b c \<Longrightarrow> same_config a c"
  unfolding same_config_def by (metis vm.simps(4,5,6,7) vm.surjective vm.update_convs(2))

lemma same_config_put [simp, intro]: "same_config vm (fst (putWord vm a w))"
  by (auto simp: same_config_def putWord_def)

lemma same_config_put2: "same_config vm vm' \<Longrightarrow> same_config vm (fst (putWord vm' a w))"
  by (rule same_config_trans) auto

lemma same_config_fields:
  "same_config vm vm' \<Longrightarrow> progEnd vm' = progEnd vm \<and> entryPoint vm' = entryPoint vm \<and>
     numProcessors vm' = numProcessors vm \<and> symbols vm' = symbols vm \<and> trace vm' = trace vm"
  unfolding same_config_def by (metis vm.simps(10,11,12,13,14) vm.select_convs vm.surjective vm.update_convs(2))

definition instr_ok :: "core \<Rightarrow> vm \<Rightarrow> exec \<Rightarrow> bool" where
  "instr_ok cpu vm r =
     (case r of
        Inl e \<Rightarrow> e = DivTrap
      | Inr (cpu', vm', t, success) \<Rightarrow>
          same_config vm vm' \<and> stack cpu' = stack cpu \<and> pid cpu' = pid cpu \<and>
          (if success then status cpu' = status cpu else status cpu' \<in> term_codes))"

lemma exec_groups_ok:
  "instr_ok cpu vm (exec_load cpu vm t w)"
  "instr_ok cpu vm (exec_store cpu vm t w)"
  "instr_ok cpu vm (exec_ldimm cpu vm t w)"
  "instr_ok cpu vm (exec_ldaddr cpu vm t w)"
  "instr_ok cpu vm (exec_ldind cpu vm t w)"
  "instr_ok cpu vm (exec_stind cpu vm t w)"
  "instr_ok cpu vm (exec_float f cpu vm t w)"
  "instr_ok cpu vm (exec_divf cpu vm t w)"
  "instr_ok cpu vm (exec_addi cpu vm t w)"
  "instr_ok cpu vm (exec_subi cpu vm t w)"
  "instr_ok cpu vm (exec_divi cpu vm t w)"
  "instr_ok cpu vm (exec_muli cpu vm t w)"
  "instr_ok cpu vm (exec_push cpu vm t w)"
  "instr_ok cpu vm (exec_pop cpu vm t w)"
  "instr_ok cpu vm (exec_default cpu vm t)"
  "instr_ok cpu vm (exec_blt cpu vm t w)"
  "instr_ok cpu vm (exec_bgt cpu vm t w)"
  "instr_ok cpu vm (exec_beq cpu vm t w)"
  "instr_ok cpu vm (exec_jmp cpu vm t w)"
  "instr_ok cpu vm (exec_cmpxchg cpu vm t w)"
  "instr_ok cpu vm (exec_getpid cpu vm t w)"
  "instr_ok cpu vm (exec_getpn cpu vm t w)"
  "instr_ok cpu vm (Inr (stop cpu NORMAL_TERMINATION, vm, t, False))"
  by (simp_all add: instr_ok_def exec_defs term_codes_def)

lemma exec_call_ok: "instr_ok cpu vm (exec_call cpu vm t w)"
  by (simp add: instr_ok_def exec_call_def Let_def term_codes_def same_config_put2)

lemma exec_ret_ok: "instr_ok cpu vm (exec_ret cpu vm t w)"
  by (simp add: instr_ok_def exec_ret_def Let_def term_codes_def same_config_put2)

lemma exec_switch_ok: "instr_ok cpu vm (exec_switch cpu vm t w)"
  unfolding exec_switch_def
  by (cases "vm_ins (ucast (w AND 0xff))") (simp_all only: ins.case exec_groups_ok exec_call_ok exec_ret_ok)

lemma execute_word_ok:
  assumes "execute_word cpu vm w = Inr (cpu', vm', success)"
  shows "same_config vm vm'" "stack cpu' = stack cpu" "pid cpu' = pid cpu"
    "success \<Longrightarrow> status cpu' = status cpu" "\<not> success \<Longrightarrow> status cpu' \<in> term_codes"
proof -
  obtain c t where s: "exec_switch cpu vm (reg cpu PC + 1) w = Inr (c, vm', t, success)"
    and c: "cpu' = setr c PC t"
    using assms by (auto simp: execute_word_def)
  show "same_config vm vm'" "stack cpu' = stack cpu" "pid cpu' = pid cpu"
    "success \<Longrightarrow> status cpu' = status cpu" "\<not> success \<Longrightarrow> status cpu' \<in> term_codes"
    using exec_switch_ok [of cpu vm "reg cpu PC + 1" w] unfolding instr_ok_def s c
    by (auto split: if_splits)
qed

text \<open>The instructions that write memory.\<close>

definition writes_memory :: "u32 \<Rightarrow> bool" where
  "writes_memory w =
     (vm_ins (ucast (w AND 0xff)) \<in> {INS_STORE, INS_STIND, INS_CALL, INS_RET, INS_CMPXCHG, INS_PUSH})"

lemma exec_switch_reads:
  "exec_switch cpu vm t w = Inr (cpu', vm', t', success) \<Longrightarrow> \<not> writes_memory w \<Longrightarrow> vm' = vm"
  unfolding exec_switch_def writes_memory_def
  by (cases "vm_ins (ucast (w AND 0xff))") (auto simp: exec_defs split: if_splits)

lemma exec_switch_stopped:
  "exec_switch cpu vm t w = Inr (cpu', vm', t', False) \<Longrightarrow> vm' = vm"
  unfolding exec_switch_def
  by (cases "vm_ins (ucast (w AND 0xff))") (auto simp: exec_defs split: if_splits)

section \<open>Register fields\<close>

lemma and_0xf: "(x AND 0xf :: u32) = take_bit 4 x"
proof -
  have "(0xf :: u32) = mask 4" by (simp add: mask_eq_exp_minus_1)
  then show ?thesis by (simp add: take_bit_eq_mask)
qed

lemma vm_reg1_eq [field_simps20]: "vm_reg1 w = reg1_of w"
  unfolding vm_reg1_def reg1_of_def and_0xf
  by (rule bit_word_eqI) (auto simp: bit_simps min_def)

lemma vm_reg2_eq [field_simps20]: "vm_reg2 w = reg2_of w"
  unfolding vm_reg2_def reg2_of_def and_0xf
  by (rule bit_word_eqI) (auto simp: bit_simps min_def)

lemma addr20_eq [field_simps20]: "addr20 w = word_of_int (field20 w)"
  by (simp add: addr20_def EXTENDSIGN20_shift flip: sint_shift12)

lemma addr16_eq [field_simps20]: "addr16 w = word_of_int (field16 w)"
  by (simp add: addr16_def EXTENDSIGN16_shift flip: sint_shift16)

section \<open>Properties of the instructions\<close>

lemma regs_distinct [simp]: "FP \<noteq> SP" "SP \<noteq> FP" "SP \<noteq> PC" "PC \<noteq> SP" "FP \<noteq> PC" "PC \<noteq> FP"
  by (simp_all add: FP_def SP_def PC_def)

lemma getWord_in: "a < MEM_SIZE \<Longrightarrow> getWord vm a d = (memory vm a, True)"
  by (simp add: getWord_def not_le)

lemma getWord_out: "\<not> a < MEM_SIZE \<Longrightarrow> getWord vm a d = (d, False)"
  by (simp add: getWord_def not_less)

lemma putWord_in: "a < MEM_SIZE \<Longrightarrow> putWord vm a w = (vm\<lparr>memory := (memory vm)(a := w)\<rparr>, True)"
  by (simp add: putWord_def not_le)

lemma putWord_out: "\<not> a < MEM_SIZE \<Longrightarrow> putWord vm a w = (vm, False)"
  by (simp add: putWord_def not_less)

text \<open>C18: a call and the matching return are inverse on the machine's own registers: when the
  three words below the stack pointer exist, a call succeeds, and a return executed by the callee
  with the stack pointer of the call and the frame's two saved words intact gives back the
  caller's stack pointer and frame pointer, continues at the instruction after the call, and
  stores the callee's result (the word on top of the frame) just below the caller's frame.\<close>

theorem call_ret_roundtrip:
  assumes call: "exec_call cpu vm tPC w = Inr (cpu1, vm1, t1, True)"
    and range: "reg cpu SP - 1 < MEM_SIZE" "reg cpu SP - 2 < MEM_SIZE" "reg cpu SP - 3 < MEM_SIZE"
    and callee: "reg cpu2 SP = reg cpu1 SP" "stack cpu2 = stack cpu" "progEnd vm2 = progEnd vm"
      "memory vm2 (reg cpu1 SP + 1) = memory vm1 (reg cpu1 SP + 1)"
      "memory vm2 (reg cpu1 SP + 2) = memory vm1 (reg cpu1 SP + 2)"
  shows "t1 = tPC + addr20 w \<and> memory vm1 (reg cpu1 SP) = 0 \<and> reg cpu1 FP = reg cpu1 SP + 1 \<and>
    (\<exists>cpu3 vm3. exec_ret cpu2 vm2 t2 w2 = Inr (cpu3, vm3, tPC, True) \<and>
       reg cpu3 SP = reg cpu SP \<and> reg cpu3 FP = reg cpu FP \<and>
       (\<forall>r. r \<noteq> SP \<longrightarrow> r \<noteq> FP \<longrightarrow> reg cpu3 r = reg cpu2 r) \<and>
       vm3 = fst (putWord vm2 (reg cpu FP - 1) (memory vm2 (reg cpu1 SP))))"
proof -
  let ?sp = "reg cpu SP"
  have guard: "?sp \<le> stack cpu" "progEnd vm \<le> ?sp - 3"
    and c1: "cpu1 = setr (setr (setr (setr cpu SP (?sp - 1)) SP (?sp - 2)) FP (?sp - 2)) SP (?sp - 3)"
    and v1: "vm1 = fst (putWord (fst (putWord (fst (putWord vm (?sp - 1) tPC)) (?sp - 2) (reg cpu FP))) (?sp - 3) 0)"
    and t1: "t1 = tPC + addr20 w"
    using call by (auto simp: exec_call_def Let_def split: if_splits)
  have sp1: "reg cpu1 SP = ?sp - 3" "reg cpu1 FP = ?sp - 2" by (simp_all add: c1)
  note frame = vmem.frame_read_back [OF range v1]
  have m1: "memory vm1 (?sp - 1) = tPC" "memory vm1 (?sp - 2) = reg cpu FP" "memory vm1 (?sp - 3) = 0"
    using frame range by (simp_all add: getWord_in)
  have m2: "memory vm2 (?sp - 2) = reg cpu FP" "memory vm2 (?sp - 1) = tPC"
    using callee m1 by (simp_all add: sp1)
  have "\<exists>cpu3 vm3. exec_ret cpu2 vm2 t2 w2 = Inr (cpu3, vm3, tPC, True) \<and>
       reg cpu3 SP = ?sp \<and> reg cpu3 FP = reg cpu FP \<and>
       (\<forall>r. r \<noteq> SP \<longrightarrow> r \<noteq> FP \<longrightarrow> reg cpu3 r = reg cpu2 r) \<and>
       vm3 = fst (putWord vm2 (reg cpu FP - 1) (memory vm2 (?sp - 3)))"
    unfolding exec_ret_def Let_def
    using guard callee m2 range by (simp add: sp1 getWord_in not_less)
  then show ?thesis using t1 m1 sp1 by simp
qed


definition ex_vm :: "u32 list \<Rightarrow> vm" where
  "ex_vm code = \<lparr>vreg = (\<lambda>_. 0), memory = (\<lambda>a. if unat a < length code then code ! unat a else 0),
     entryPoint = 0, progEnd = of_nat (length code), numProcessors = 1, trace = False, symbols = SymNull\<rparr>"

definition ex_core :: "u32 \<Rightarrow> core" where
  "ex_core sp = \<lparr>reg = (\<lambda>_. 0)(SP := sp), stack = sp, status = 1, pid = 0\<rparr>"

text \<open>The witness: a call of the next word, with the stack at 100.\<close>

theorem call_ret_roundtrip_witness:
  "\<exists>cpu1 vm1. exec_call (ex_core 100) (ex_vm [0x0f]) 1 0x0f = Inr (cpu1, vm1, 1, True) \<and>
    (\<exists>cpu3 vm3. exec_ret cpu1 vm1 7 0x10 = Inr (cpu3, vm3, 1, True) \<and>
       reg cpu3 SP = 100 \<and> reg cpu3 FP = 0)"
proof -
  have a: "addr20 0x0f = 0" by (simp add: addr20_eq field20_def)
  obtain cpu1 vm1 where c: "exec_call (ex_core 100) (ex_vm [0x0f]) 1 0x0f = Inr (cpu1, vm1, 1, True)"
    and k: "stack cpu1 = 100" "progEnd vm1 = 1"
    by (simp add: exec_call_def Let_def ex_core_def ex_vm_def a putWord_def MEM_SIZE_def)
  have sp: "reg (ex_core 100) SP = 100" "reg (ex_core 100) FP = 0" "stack (ex_core 100) = 100"
    by (simp_all add: ex_core_def)
  have "reg (ex_core 100) SP - 1 < MEM_SIZE" "reg (ex_core 100) SP - 2 < MEM_SIZE"
    "reg (ex_core 100) SP - 3 < MEM_SIZE"
    by (simp_all add: sp MEM_SIZE_def)
  note r = call_ret_roundtrip [OF c this refl, of vm1 7 "0x10"]
  have "progEnd (ex_vm [0x0f]) = 1" by (simp add: ex_vm_def)
  then show ?thesis using r c k sp by auto
qed

lemma stind_bound:
  "(ucast (r :: 4 word) :: u64) + scast (addr16 w) \<ge> ucast MEM_SIZE \<longleftrightarrow> int (unat r) + field16 w < 0"
proof -
  define x where "x = int (unat r) + field16 w"
  have int_unat: "int (unat r) = uint r" by simp
  have r: "uint r < 16" "0 \<le> uint r" using unsigned_less [where ?'a = int and w = r] by simp_all
  have "sint (addr16 w) = field16 w"
    by (simp add: addr16_def EXTENDSIGN16_shift sint_shift16)
  then have s: "(scast (addr16 w) :: u64) = word_of_int (field16 w)"
    by (simp add: scast_eq)
  have u: "(ucast r :: u64) = word_of_int (int (unat r))"
    by (simp add: unsigned_ucast_eq)
  have e: "uint ((ucast r :: u64) + scast (addr16 w)) = x mod 2^64"
    unfolding s u wi_hom_add x_def [symmetric] by (simp add: uint_word_of_int)
  have f: "- 32768 \<le> field16 w" "field16 w < 32768" using field16_bounds [of w] by simp_all
  have b: "- 32768 \<le> x" "x < 65536" using r f unfolding x_def int_unat by linarith+
  have "x mod 2^64 = (if x < 0 then x + 2^64 else x)"
  proof (cases "x < 0")
    case True
    then have "(x + 2^64) mod 2^64 = x + 2^64" using b by (intro mod_pos_pos_trivial) auto
    then show ?thesis using True by simp
  next
    case False
    then show ?thesis using b by simp
  qed
  moreover have "uint (ucast MEM_SIZE :: u64) = 262143" by (simp add: MEM_SIZE_def)
  ultimately show ?thesis
    unfolding word_le_def e using b by (auto simp: x_def)
qed

text \<open>The bounds check of \<open>stind\<close> looks at the number of the base register instead of its
  contents: the instruction stops with an address error exactly when that number plus the offset
  is negative, whatever address it would write.\<close>

theorem stind_guard:
  "(\<exists>cpu' vm' t. exec_stind cpu vm tPC w = Inr (cpu', vm', t, False)) \<longleftrightarrow>
     int (unat (reg2_of w)) + field16 w < 0"
  by (simp add: exec_stind_def Let_def stind_bound vm_reg2_eq)

text \<open>\<open>pop\<close> never completes: whatever the state, it stops the core, with an address error or,
  after having loaded the register and moved the stack pointer, as an illegal instruction.\<close>

theorem pop_always_stops:
  "\<exists>cpu'. exec_pop cpu vm tPC w = Inr (cpu', vm, tPC, False) \<and>
     status cpu' = (if stack cpu < reg cpu SP \<or> reg cpu SP < progEnd vm
                    then ADDRESS_OUT_OF_RANGE else ILLEGAL_INSTRUCTION)"
  by (simp add: exec_pop_def exec_default_def Let_def)

text \<open>Compare-and-exchange is atomic and does what its name says for an address in memory: the
  word is replaced exactly when it equals the first register, and otherwise that register
  receives the word; nothing else changes.\<close>

theorem cmpxchg_spec:
  assumes "tPC + addr16 w < MEM_SIZE"
  shows "exec_cmpxchg cpu vm tPC w =
    (let a = tPC + addr16 w; old = memory vm a in
     if reg cpu (reg1_of w) = old
     then Inr (cpu, vm\<lparr>memory := (memory vm)(a := reg cpu (reg2_of w))\<rparr>, tPC, True)
     else Inr (setr cpu (reg1_of w) old, vm, tPC, True))"
  using assms by (simp add: exec_cmpxchg_def getWord_in putWord_in vm_reg1_eq vm_reg2_eq Let_def)

theorem cmpxchg_spec_witness:
  "exec_cmpxchg (ex_core 100) (ex_vm [0x00011015, 5]) 0 0x00011015 =
     Inr (setr (ex_core 100) 0 5, ex_vm [0x00011015, 5], 0, True)"
proof -
  have a: "addr16 0x00011015 = 1" by (simp add: addr16_eq field16_def)
  have r: "reg1_of 0x00011015 = 0" by (simp add: reg1_of_def)
  have "0 + addr16 0x00011015 < MEM_SIZE" by (simp add: a MEM_SIZE_def)
  then show ?thesis
    using cmpxchg_spec [of 0 "0x00011015" "ex_core 100" "ex_vm [0x00011015, 5]"]
    by (simp add: a r ex_core_def ex_vm_def Let_def SP_def)
qed

text \<open>The driver A2/P2/testvm.c starts processor \<open>i\<close> with the stack at \<open>0xfffff - 1000 * i\<close>.\<close>

definition testvm_initialSP :: "nat \<Rightarrow> u32" where
  "testvm_initialSP i = 0xfffff - 1000 * of_nat i"

lemma testvm_initialSP_high:
  assumes "i < 16" "k \<le> 3"
  shows "\<not> testvm_initialSP i - of_nat k < MEM_SIZE"
proof -
  have "testvm_initialSP i - of_nat k = of_nat (0xfffff - 1000 * i - k)"
    using assms by (simp add: testvm_initialSP_def of_nat_diff)
  moreover have "unat (of_nat (0xfffff - 1000 * i - k) :: u32) = 0xfffff - 1000 * i - k"
    unfolding unat_of_nat using assms by (intro mod_less) simp
  moreover have "unat MEM_SIZE = 262143" by (simp add: MEM_SIZE_def)
  ultimately have "\<not> unat (testvm_initialSP i - of_nat k) < unat MEM_SIZE"
    using assms by (simp only:)
  then show ?thesis by (simp only: word_less_nat_alt not_False_eq_True)
qed

text \<open>With the stack pointers of the driver no call saves anything: every address of the frame
  is past the end of the memory, the three stores are refused silently, and the callee's return
  finds no return address: it continues at the word after itself, with the frame pointer of the
  call.\<close>

theorem testvm_calls_lost:
  assumes "i < 16" "reg cpu SP = testvm_initialSP i" "stack cpu = testvm_initialSP i"
    "progEnd vm \<le> testvm_initialSP i - 3"
  shows "\<exists>cpu1. exec_call cpu vm tPC w = Inr (cpu1, vm, tPC + addr20 w, True) \<and>
    (\<exists>cpu2 vm2. exec_ret cpu1 vm tRet w2 = Inr (cpu2, vm2, tRet, True) \<and>
      reg cpu2 FP = testvm_initialSP i - 2)"
proof -
  let ?sp = "testvm_initialSP i"
  have out: "\<not> ?sp - 1 < MEM_SIZE" "\<not> ?sp - 2 < MEM_SIZE" "\<not> ?sp - 3 < MEM_SIZE"
    using testvm_initialSP_high [OF assms(1), of 1] testvm_initialSP_high [OF assms(1), of 2]
      testvm_initialSP_high [OF assms(1), of 3] by simp_all
  let ?c = "setr (setr (setr (setr cpu SP (?sp - 1)) SP (?sp - 2)) FP (?sp - 2)) SP (?sp - 3)"
  have call: "exec_call cpu vm tPC w = Inr (?c, vm, tPC + addr20 w, True)"
    using assms out by (simp add: exec_call_def Let_def putWord_out not_less)
  have "\<exists>cpu2 vm2. exec_ret ?c vm tRet w2 = Inr (cpu2, vm2, tRet, True) \<and> reg cpu2 FP = ?sp - 2"
    using assms out by (simp add: exec_ret_def Let_def getWord_out not_less)
  with call show ?thesis by blast
qed

theorem testvm_calls_lost_witness:
  "\<exists>cpu1. exec_call (ex_core (testvm_initialSP 0)) (ex_vm [0x0f]) 1 0x0f = Inr (cpu1, ex_vm [0x0f], 1, True)"
proof -
  have "addr20 0x0f = 0" by (simp add: addr20_eq field20_def)
  then show ?thesis
    using testvm_calls_lost [of 0 "ex_core (testvm_initialSP 0)" "ex_vm [0x0f]" 1 "0x0f"]
    by (auto simp: ex_core_def ex_vm_def testvm_initialSP_def)
qed

end
