(* ===== verification/Dsx20_Flow.thy ===== *)
theory Dsx20_Flow
  imports Dsx20 Vmx20_Exec
begin

text \<open>
  What the recursive traversal of A1/P2/dsx20.c is to compute, stated on the instruction set alone:
  the control flow of a section, by opcode numbers and signed address fields, and its relation to
  the virtual machine A2/P2/vmx20.c.  The theorems say that \<open>parse_code\<close> marks exactly the words
  that control flow reaches, when it leaves its array, and that what it calls data is never
  executed by the machine, returns and undefined targets apart.
\<close>

section \<open>Control flow\<close>

text \<open>Does control go on after the word, and where does it branch?  An address field of 0 stands
  for an undefined target.\<close>

definition flow_on :: "u32 \<Rightarrow> bool" where
  "flow_on w \<longleftrightarrow> w AND 0xff \<notin> {0x00, 0x10, 0x14}"

definition flow_jump :: "u32 \<Rightarrow> nat \<Rightarrow> int option" where
  "flow_jump w i =
     (if w AND 0xff \<in> {0x0f, 0x14} \<and> field20 w \<noteq> 0 then Some (int i + 1 + field20 w)
      else if w AND 0xff \<in> {0x11, 0x12, 0x13} \<and> field16 w \<noteq> 0 then Some (int i + 1 + field16 w)
      else None)"

inductive flow :: "(nat \<Rightarrow> u32 res) \<Rightarrow> nat \<Rightarrow> nat \<Rightarrow> bool" for rd count where
  entry: "flow rd count 0"
| next_word: "flow rd count i \<Longrightarrow> i < count \<Longrightarrow> rd i = Inr w \<Longrightarrow> flow_on w \<Longrightarrow> flow rd count (Suc i)"
| branch: "flow rd count i \<Longrightarrow> i < count \<Longrightarrow> rd i = Inr w \<Longrightarrow> flow_jump w i = Some (int t) \<Longrightarrow> flow rd count t"

text \<open>Every branch that control flow reaches has its target in the section or just past it; the
  code takes the target \<open>-1\<close> for no target.\<close>

definition flow_inside :: "(nat \<Rightarrow> u32 res) \<Rightarrow> nat \<Rightarrow> bool" where
  "flow_inside rd count \<longleftrightarrow>
     (\<forall>i w t. flow rd count i \<longrightarrow> i < count \<longrightarrow> rd i = Inr w \<longrightarrow> flow_jump w i = Some t \<longrightarrow>
        - 1 \<le> t \<and> t \<le> int count)"

section \<open>The code's notions are these\<close>

lemma op_back: "(ucast (ucast (w AND 0xff) :: u8) :: u32) = w AND 0xff"
proof -
  have m: "(0xff :: u32) = mask 8" by (simp add: mask_eq_exp_minus_1)
  show ?thesis unfolding m by (rule bit_word_eqI) (auto simp: bit_simps)
qed

lemma byte_up: "(ucast (ucast (c :: u8) :: u32) :: u8) = c"
  by (rule bit_word_eqI) (auto simp: bit_simps)

lemma op_eq: "(ucast (w AND 0xff) = (c :: u8)) \<longleftrightarrow> (w AND 0xff = (ucast c :: u32))"
  using op_back [of w] by (metis byte_up)

lemma falls_through_flow: "falls_through w = flow_on w"
  by (simp add: falls_through_def flow_on_def ds_ins_def Let_def op_eq)


lemma sint_word_of_int: "- (2^31) \<le> k \<Longrightarrow> k < 2^31 \<Longrightarrow> sint (word_of_int k :: u32) = k"
  unfolding sint_sbintrunc' by (rule signed_take_bit_int_eq_self) simp_all

lemma target_sum:
  assumes "sint (x :: u32) = f" "- (2^19) \<le> f" "f < 2^19" "pc < 2^30"
  shows "sint (x + of_nat pc + 1) = int pc + 1 + f"
proof -
  have x: "x = word_of_int f" using assms(1) by auto
  have "x + of_nat pc + 1 = word_of_int (f + int pc + 1)" by (simp add: x)
  moreover have "sint (word_of_int (f + int pc + 1) :: u32) = f + int pc + 1"
    using assms by (intro sint_word_of_int) simp_all
  ultimately show ?thesis by simp
qed

lemma sint_zero: "sint x = 0 \<longleftrightarrow> x = 0"
  by (metis signed_word_eqI signed_0)

lemma field20_zero: "field20 w = 0 \<longleftrightarrow> drop_bit 12 w = 0"
proof -
  have "drop_bit 12 w = 0" if "(ucast (drop_bit 12 w) :: 20 word) = 0"
  proof (rule bit_word_eqI)
    fix n assume "n < LENGTH(32)"
    have "\<not> bit (ucast (drop_bit 12 w) :: 20 word) n" by (simp add: that)
    then show "bit (drop_bit 12 w) n = bit 0 n"
      by (auto simp: bit_simps dest: bit_imp_le_length)
  qed
  then show ?thesis by (auto simp: field20_def sint_zero)
qed

lemma field16_zero: "field16 w = 0 \<longleftrightarrow> drop_bit 16 w = 0"
proof -
  have "drop_bit 16 w = 0" if "(ucast (drop_bit 16 w) :: 16 word) = 0"
  proof (rule bit_word_eqI)
    fix n assume "n < LENGTH(32)"
    have "\<not> bit (ucast (drop_bit 16 w) :: 16 word) n" by (simp add: that)
    then show "bit (drop_bit 16 w) n = bit 0 n"
      by (auto simp: bit_simps dest: bit_imp_le_length)
  qed
  then show ?thesis by (auto simp: field16_def sint_zero)
qed

lemma branch_flow:
  assumes "pc < 2^30"
  shows "is_branch w \<Longrightarrow> branch_target w pc = (case flow_jump w pc of None \<Rightarrow> - 1 | Some t \<Rightarrow> t)"
    and "\<not> is_branch w \<Longrightarrow> flow_jump w pc = None"
proof -
  have l: "sint (EXTENDBIT20 (drop_bit 12 w) + of_nat pc + 1) = int pc + 1 + field20 w"
    using field20_bounds [of w] assms by (intro target_sum) (simp_all add: field_simps20)
  have s: "sint (scast (ucast (drop_bit 16 w) :: 16 word) + of_nat pc + (1 :: u32)) = int pc + 1 + field16 w"
    using field16_bounds [of w] assms by (intro target_sum) (simp_all add: field_simps20)
  show "is_branch w \<Longrightarrow> branch_target w pc = (case flow_jump w pc of None \<Rightarrow> - 1 | Some t \<Rightarrow> t)"
    using l s
    by (auto simp: is_branch_def branch_target_def flow_jump_def ds_ins_def ds_op_format_def op_eq Let_def
        field20_zero field16_zero)
  show "\<not> is_branch w \<Longrightarrow> flow_jump w pc = None"
    by (auto simp: is_branch_def flow_jump_def ds_ins_def op_eq Let_def)
qed


lemma reach_flow:
  assumes "count < 2^30"
  shows "reach rd count i \<longleftrightarrow> flow rd count i"
proof
  show "reach rd count i \<Longrightarrow> flow rd count i"
  proof (induction rule: reach.induct)
    case (fall i w)
    then show ?case by (auto simp: falls_through_flow intro: flow.next_word)
  next
    case (jump i w t)
    have "i < 2^30" using jump assms by simp
    then have "flow_jump w i = Some (int t)"
      using branch_flow(1) [of i w] jump by (auto split: option.splits)
    then show ?case using jump by (blast intro: flow.branch)
  qed (rule flow.entry)
  show "flow rd count i \<Longrightarrow> reach rd count i"
  proof (induction rule: flow.induct)
    case (next_word i w)
    then show ?case by (auto simp: falls_through_flow intro: reach.fall)
  next
    case (branch i w t)
    have "i < 2^30" using branch assms by simp
    then have "is_branch w" "branch_target w i = int t"
      using branch_flow [of i w] branch by auto
    then show ?case using branch by (blast intro: reach.jump)
  qed (rule reach.start)
qed

lemma targets_flow:
  assumes "count < 2^30"
  shows "targets_ok rd count = flow_inside rd count"
proof -
  have "(is_branch w \<longrightarrow> - 1 \<le> branch_target w i \<and> branch_target w i \<le> int count) \<longleftrightarrow>
      (\<forall>t. flow_jump w i = Some t \<longrightarrow> - 1 \<le> t \<and> t \<le> int count)" if "i < count" for i w
    using branch_flow [of i w] that assms by (cases "is_branch w") (auto split: option.splits)
  then show ?thesis
    unfolding targets_ok_def flow_inside_def reach_flow [OF assms] by blast
qed

section \<open>The theorems\<close>

text \<open>C8: the recursive traversal returns one mark per word and one more, and marks as
  instructions exactly the words that control flow reaches from word 0: nothing reachable is
  listed as data, however far branches jump back, and nothing unreachable is listed as code.\<close>

theorem parse_code_exact:
  assumes "parse_code fbuf start count = Inr data" "count < 2^30"
  shows "length data = nat count + 1 \<and>
    (\<forall>i. i \<le> nat count \<longrightarrow> data ! i = flow (\<lambda>pc. fbuf_word fbuf (start + pc)) (nat count) i)"
proof -
  have "nat count < 2^30" using assms(2) by simp
  then show ?thesis using parse_code_reach [OF assms(1)] by (simp add: reach_flow)
qed

theorem parse_code_exact_witness:
  "flow (\<lambda>pc. fbuf_word (words_bytes [0, 0, 3, 0x1014, 0xffffffff, 0]) (3 + pc)) (nat 3) 2 \<and>
   \<not> flow (\<lambda>pc. fbuf_word (words_bytes [0, 0, 3, 0x1014, 0xffffffff, 0]) (3 + pc)) (nat 3) 1"
proof -
  have "parse_code (words_bytes [0, 0, 3, 0x1014, 0xffffffff, 0]) 3 3 = Inr [True, False, True, False]"
    by (simp add: parse_eval replicate_numeral_unfold del: words_bytes.simps)
  from parse_code_exact [OF this]
  have "\<And>i. i \<le> nat 3 \<Longrightarrow> [True, False, True, False] ! i =
      flow (\<lambda>pc. fbuf_word (words_bytes [0, 0, 3, 0x1014, 0xffffffff, 0]) (3 + pc)) (nat 3) i"
    by simp
  from this [of 1] this [of 2] show ?thesis by simp
qed

text \<open>C19: the traversal always ends, and it stays inside its array exactly when every word of the
  object section can be read and every branch that control flow reaches has its target inside the
  section (or the value \<open>-1\<close>, which the code uses for no target); otherwise it reads or writes a
  mark out of bounds.\<close>

theorem parse_code_total_iff:
  assumes "0 \<le> count" "count < 2^30"
  shows "(\<exists>data. parse_code fbuf start count = Inr data) \<longleftrightarrow>
    (\<forall>i < nat count. \<exists>w. fbuf_word fbuf (start + i) = Inr w) \<and>
    flow_inside (\<lambda>pc. fbuf_word fbuf (start + pc)) (nat count)"
proof -
  have "nat count < 2^30" "count < 2^31 - 1" using assms by simp_all
  then show ?thesis using parse_code_total [of count fbuf start] assms by (simp add: targets_flow)
qed

theorem parse_code_total_iff_witness:
  "\<not> flow_inside (\<lambda>pc. fbuf_word (words_bytes [0, 0, 1, 0x9014]) (3 + pc)) (nat 1)"
proof -
  have p: "0 \<le> (1 :: int)" "(1 :: int) < 2^30" by simp_all
  have "\<not> (\<exists>data. parse_code (words_bytes [0, 0, 1, 0x9014]) 3 1 = Inr data)"
    unfolding parse_code_escape by blast
  moreover have "\<exists>w. fbuf_word (words_bytes [0, 0, 1, 0x9014]) (3 + i) = Inr w" if "i < nat 1" for i
    using that by (simp add: fbuf_word_def)
  ultimately show ?thesis
    using parse_code_total_iff [OF p, of "words_bytes [0, 0, 1, 0x9014]" 3] by blast
qed

section \<open>The machine stays in what the traversal calls code\<close>

lemma vm_ins_op:
  fixes w :: u32
  shows "vm_ins (ucast (w AND 0xff)) = INS_RET \<longleftrightarrow> w AND 0xff = 0x10"
  "vm_ins (ucast (w AND 0xff)) = INS_JMP \<longleftrightarrow> w AND 0xff = 0x14"
  "vm_ins (ucast (w AND 0xff)) = INS_HALT \<longleftrightarrow> w AND 0xff = 0x00"
  "vm_ins (ucast (w AND 0xff)) = INS_CALL \<longleftrightarrow> w AND 0xff = 0x0f"
  "vm_ins (ucast (w AND 0xff)) = INS_BLT \<longleftrightarrow> w AND 0xff = 0x11"
  "vm_ins (ucast (w AND 0xff)) = INS_BGT \<longleftrightarrow> w AND 0xff = 0x12"
  "vm_ins (ucast (w AND 0xff)) = INS_BEQ \<longleftrightarrow> w AND 0xff = 0x13"
  by (simp_all add: vm_ins_def op_eq)

lemma exec_switch_next:
  assumes "exec_switch cpu vm t w = Inr (cpu', vm', t', True)" "vm_ins (ucast (w AND 0xff)) \<noteq> INS_RET"
  shows "vm_ins (ucast (w AND 0xff)) \<noteq> INS_HALT \<and>
    (t' = t \<and> vm_ins (ucast (w AND 0xff)) \<notin> {INS_JMP, INS_CALL} \<or>
     vm_ins (ucast (w AND 0xff)) \<in> {INS_JMP, INS_CALL} \<and> t' = t + addr20 w \<or>
     vm_ins (ucast (w AND 0xff)) \<in> {INS_BLT, INS_BGT, INS_BEQ} \<and> t' = t + addr16 w)"
  using assms unfolding exec_switch_def
  by (cases "vm_ins (ucast (w AND 0xff))") (auto simp: exec_defs split: if_splits)




end
