(* ===== verification/Vmx20_Disasm.thy ===== *)
theory Vmx20_Disasm
  imports Vmx20_Exec Dsx20
begin

text \<open>
  \<open>disassemble\<close> and \<open>printTrace\<close> of A2/P2/vmx20.c, with the theorems that relate the machine's
  disassembler to the stand-alone one (A1/P2/dsx20.c) and bound its output.  The caller's buffer
  is an option: \<open>None\<close> where the code has not written to it.
\<close>

definition vm_show_reg :: "4 word \<Rightarrow> string" where
  "vm_show_reg r = ''r'' @ dec_nat (unat r)"

text \<open>The cases of the \<open>switch\<close> on the format, as what is appended to the buffer.  Targets are
  \<open>addr + address + 1\<close>, computed unsigned and printed with \<open>%d\<close>.\<close>

definition vm_operands :: "fmt \<Rightarrow> u32 \<Rightarrow> u32 \<Rightarrow> string" where
  "vm_operands format word address =
     (case format of
        F_OP \<Rightarrow> []
      | F_INVALID \<Rightarrow> []
      | F_ADDR \<Rightarrow> fmt_d (addr20 word + address + 1)
      | F_REG \<Rightarrow> vm_show_reg (vm_reg1 word)
      | F_REGCONST \<Rightarrow>
          vm_show_reg (vm_reg1 word) @ '', '' @ fmt_d (EXTENDSIGN20 (signed_drop_bit 12 word AND 0xfffff))
      | F_REGADDR \<Rightarrow> vm_show_reg (vm_reg1 word) @ '', '' @ fmt_d (addr20 word + address + 1)
      | F_REGREG \<Rightarrow> vm_show_reg (vm_reg1 word) @ '', '' @ vm_show_reg (vm_reg2 word)
      | F_REGOFF \<Rightarrow>
          vm_show_reg (vm_reg1 word) @ '', '' @ fmt_d (scast (ucast (signed_drop_bit 16 word) :: 16 word))
            @ ''('' @ vm_show_reg (vm_reg2 word) @ '')''
      | F_REGREGADDR \<Rightarrow>
          vm_show_reg (vm_reg1 word) @ '', '' @ vm_show_reg (vm_reg2 word) @ '', ''
            @ fmt_d (scast (ucast (signed_drop_bit 16 word) :: 16 word) + address + 1))"

text \<open>\<open>disassemble\<close>: the buffer, \<open>*errorNumber\<close> and whether 1 is returned.\<close>

definition disassemble :: "vm \<Rightarrow> u32 \<Rightarrow> string option \<Rightarrow> string option \<times> int \<times> bool" where
  "disassemble vm address buffer =
     (if address \<ge> progEnd vm then (buffer, ADDRESS_OUT_OF_RANGE, False)
      else
       (let (word, ok) = getWord vm address 0 in
        if \<not> ok then (buffer, ADDRESS_OUT_OF_RANGE, False)
        else
         (let op = ucast (word AND 0xff);
              format = vm_op_format op;
              errorNumber = (if format = F_INVALID then ILLEGAL_INSTRUCTION else 0)
          in (Some (fill_right 8 (vm_op_name op) @ '' '' @ vm_operands format word address),
              errorNumber, errorNumber = 0))))"

text \<open>\<open>printTrace\<close>: the sixteen registers, a new line after the eighth, and the instruction at the
  PC.  An uninitialised buffer is printed as the stack left it: \<open>junk\<close>.\<close>

definition trace_regs :: "core \<Rightarrow> string" where
  "trace_regs cpu =
     concat (map (\<lambda>i. prec 8 (hex_nat (unat (reg cpu (of_nat i)))) @ '' ''
                       @ (if i = 7 then nl else [])) [0..<16])"

definition printTrace :: "core \<Rightarrow> vm \<Rightarrow> string \<Rightarrow> string" where
  "printTrace cpu vm junk =
     (let (buffer, err, ok) = disassemble vm (reg cpu PC) None
      in ''Core '' @ fmt_d (pid cpu) @ nl @ trace_regs cpu
           @ nl @ (case buffer of None \<Rightarrow> junk | Some b \<Rightarrow> b) @ nl @ nl)"

section \<open>Agreement with the stand-alone disassembler\<close>

lemma signed_mask20: "signed_drop_bit 12 (w :: u32) AND 0xfffff = drop_bit 12 w AND 0xfffff"
proof -
  have m: "(0xfffff :: u32) = mask 20" by (simp add: mask_eq_exp_minus_1)
  show ?thesis
    unfolding m by (rule bit_word_eqI) (auto simp: bit_simps min_def)
qed

lemma signed_ucast16: "(ucast (signed_drop_bit 16 (w :: u32)) :: 16 word) = ucast (drop_bit 16 w)"
  by (rule bit_word_eqI) (auto simp: bit_simps min_def)

lemma vm_show_reg_eq: "vm_show_reg = show_reg"
  by (simp add: fun_eq_iff vm_show_reg_def show_reg_def)

lemma vm_operands_eq:
  "vm_operands format w (of_nat pc) = ds_operands [] format w pc"
  by (cases format)
    (simp_all add: vm_operands_def ds_operands_def vm_show_reg_eq vm_reg1_eq vm_reg2_eq show_target_def
      addr20_def EXTENDBIT20_shift EXTENDSIGN20_shift signed_mask20 signed_ucast16 mask20_shift
      EXTENDSIGN20_masked [unfolded mask20_shift])

text \<open>C22: the machine's disassembler and the stand-alone one print the same instruction: for an
  address of the loaded program, \<open>disassemble\<close> returns the mnemonic and operands that
  \<open>dsx20\<close> prints for that word at that position, for a program without unresolved symbols, and it
  reports an illegal instruction exactly for the words whose opcode \<open>dsx20\<close> does not know.\<close>

theorem disassemble_agrees:
  assumes "address < progEnd vm" "address < MEM_SIZE"
  shows "disassemble vm address buffer =
    (let w = memory vm address; op = ucast (w AND 0xff);
         invalid = (ds_op_format op = F_INVALID)
     in (Some (fill_right 8 (ds_op_name op) @ '' '' @ ds_operands [] (ds_op_format op) w (unat address)),
         if invalid then ILLEGAL_INSTRUCTION else 0, \<not> invalid))"
  using assms vm_operands_eq [of _ _ "unat address"]
  by (simp add: disassemble_def getWord_in Let_def not_le op_name_copies op_format_copies error_codes)

theorem disassemble_agrees_witness:
  "disassemble (ex_vm [0xfffff014]) 0 None = (Some ''jmp      0'', 0, True)"
proof -
  have "(0::u32) < progEnd (ex_vm [0xfffff014])" "(0::u32) < MEM_SIZE"
    by (simp_all add: ex_vm_def MEM_SIZE_def)
  note t = disassemble_agrees [OF this, of None]
  have op: "ds_op_format 0x14 = F_ADDR" "ds_op_name 0x14 = ''jmp''"
    by (simp_all add: ds_op_format_def ds_op_name_def ds_ins_def)
  have e: "EXTENDBIT20 0xfffff + 1 = 0"
    by (simp add: EXTENDBIT20_def)
  have "char_of (48 :: nat) = CHR ''0''" by (simp add: char_of_def bit_iff_odd)
  then have d: "fmt_d 0 = ''0''" by (simp add: fmt_d_def dec_int_def dec_nat.simps)
  have m: "memory (ex_vm [0xfffff014]) 0 = 0xfffff014" by (simp add: ex_vm_def)
  show ?thesis
    unfolding t m Let_def
    by (simp add: op ds_operands_def show_target_def e d fill_right_def replicate_numeral_unfold)
qed

section \<open>The size of the output\<close>

lemma dec_nat_length: "0 < d \<Longrightarrow> n < 10 ^ d \<Longrightarrow> length (dec_nat n) \<le> d"
proof (induction d arbitrary: n)
  case (Suc d)
  show ?case
  proof (cases "n < 10")
    case True
    then show ?thesis by (subst dec_nat.simps) simp
  next
    case False
    then have "0 < d" using Suc.prems by (cases d) auto
    moreover have "n div 10 < 10 ^ d" using Suc.prems by (simp add: less_mult_imp_div_less)
    ultimately have "length (dec_nat (n div 10)) \<le> d" by (rule Suc.IH)
    then show ?thesis using False by (subst dec_nat.simps) simp
  qed
qed simp

lemma fmt_d_length: "length (fmt_d w) \<le> 11"
proof -
  have b: "- (2^31) \<le> sint w" "sint w < 2^31" using sint_range_size [of w] by (simp_all add: word_size)
  have "length (dec_nat (nat (- sint w))) \<le> 10" "length (dec_nat (nat (sint w))) \<le> 10"
    using b by (intro dec_nat_length; simp)+
  then show ?thesis by (simp add: fmt_d_def dec_int_def)
qed

lemma vm_show_reg_length: "length (vm_show_reg r) \<le> 3"
proof -
  have "unat r < 16" using unsigned_less [where ?'a = nat and w = r] by simp
  then have "length (dec_nat (unat r)) \<le> 2" by (intro dec_nat_length) simp_all
  then show ?thesis by (simp add: vm_show_reg_def)
qed

lemma vm_operands_length: "length (vm_operands f w a) \<le> 24"
  using vm_show_reg_length [of "vm_reg1 w"] vm_show_reg_length [of "vm_reg2 w"]
    fmt_d_length [of "addr20 w + a + 1"]
    fmt_d_length [of "EXTENDSIGN20 (signed_drop_bit 12 w AND 0xfffff)"]
    fmt_d_length [of "scast (ucast (signed_drop_bit 16 w) :: 16 word)"]
    fmt_d_length [of "scast (ucast (signed_drop_bit 16 w) :: 16 word) + a + 1"]
  by (cases f) (simp_all add: vm_operands_def)

lemma vm_op_name_length: "length (vm_op_name op) \<le> 8"
  by (cases "vm_ins op") (simp_all add: vm_op_name_def)

text \<open>C26: the output of \<open>disassemble\<close> is at most 33 characters: with its NUL it stays far below the
  100 characters that the interface promises, and every operand string fits the 32 bytes the
  function allocates for it.\<close>

theorem disassemble_bound:
  "case disassemble vm address None of
     (None, err, ok) \<Rightarrow> \<not> ok \<and> err = ADDRESS_OUT_OF_RANGE
   | (Some s, err, ok) \<Rightarrow> length s \<le> 33 \<and> length (vm_operands f w a) < 32"
  using vm_operands_length [of "vm_op_format (ucast (memory vm address AND 0xff))" "memory vm address" address]
    vm_operands_length [of f w a] vm_op_name_length [of "ucast (memory vm address AND 0xff)"]
  by (auto simp: disassemble_def getWord_def Let_def fill_right_def)

end
