(* ===== verification/Linkx20.thy ===== *)
theory Linkx20
  imports X20_ISA
begin

text \<open>
  The linker A2/P1/linkx20.c: reading the object files, their symbol tables, the layout of the
  output buffer, the duplicate check, the resolution of outsymbols and the written file.  The
  two linked lists (files and symbols) are lists in the order of the pointers, so the last file
  and the last symbol read come first, as in the code.  \<open>output_buffer\<close> is one list of words in
  which the three sections are offsets, as in the code; what \<open>malloc\<close> leaves in it is the
  argument \<open>junk\<close>.  An access outside a buffer is a fault; allocations and the reads and writes of
  open files are taken to succeed.
\<close>

section \<open>Data\<close>

record sym =
  sym_name :: "u8 list"
  sym_address :: u64
  sym_flags :: u8

definition FLAG_OUTSYM :: u8 where "FLAG_OUTSYM = 1"
definition FLAG_DEFINED :: u8 where "FLAG_DEFINED = 2"

record fheader =
  file_data :: "u32 list"
  file_name :: string
  insyms :: "sym list"
  outsyms :: "sym list"

text \<open>\<open>memcpy\<close> between arrays of words.\<close>

definition slice :: "'a list \<Rightarrow> nat \<Rightarrow> nat \<Rightarrow> 'a list res" where
  "slice xs a n = (if a + n \<le> length xs \<or> n = 0 then Inr (take n (drop a xs)) else Inl OutOfBounds)"

definition blit :: "'a list \<Rightarrow> nat \<Rightarrow> 'a list \<Rightarrow> 'a list res" where
  "blit xs a ys = (if ys = [] then Inr xs
     else if a + length ys \<le> length xs then Inr (take a xs @ ys @ drop (a + length ys) xs)
     else Inl OutOfBounds)"

text \<open>\<open>strncpy (name, src, n)\<close> as the C string it leaves, and \<open>strncmp (name, src, n) == 0\<close> for a
  name without NUL; both stop reading at the first byte that decides.\<close>

fun strncpy_src :: "nat \<Rightarrow> u8 list \<Rightarrow> u8 list res" where
  "strncpy_src 0 src = Inr []"
| "strncpy_src (Suc n) [] = Inl OutOfBounds"
| "strncpy_src (Suc n) (b # bs) = (if b = 0 then Inr [] else bindR (strncpy_src n bs) (\<lambda>r. Inr (b # r)))"

fun strncmp_eq :: "nat \<Rightarrow> u8 list \<Rightarrow> u8 list \<Rightarrow> bool res" where
  "strncmp_eq 0 name src = Inr True"
| "strncmp_eq (Suc n) name [] = Inl OutOfBounds"
| "strncmp_eq (Suc n) [] (b # bs) = Inr (b = 0)"
| "strncmp_eq (Suc n) (x # xs) (b # bs) = (if x = b then strncmp_eq n xs bs else Inr False)"

text \<open>\<open>"mainx20"\<close>.\<close>

definition entry_name :: "u8 list" where
  "entry_name = [109, 97, 105, 110, 120, 50, 48]"

section \<open>Symbols\<close>

text \<open>The loop of \<open>extract_symbols\<close>: \<open>i\<close> counts words, \<open>ptr\<close> is the index of \<open>*ptr\<close> in the data.\<close>

function extract_loop ::
  "u32 list \<Rightarrow> int \<Rightarrow> int \<Rightarrow> int \<Rightarrow> nat \<Rightarrow> bool \<Rightarrow> sym list \<Rightarrow> sym list \<Rightarrow> (bool \<times> sym list \<times> sym list) res" where
  "extract_loop data in_count out_count i ptr found ins outs =
     (if i < in_count + out_count then
        bindR (strncpy_src 16 (words_bytes (drop ptr data))) (\<lambda>name.
        bindR (aget data (ptr + 4)) (\<lambda>addr.
          if i < in_count then
            extract_loop data in_count out_count (i + 5) (ptr + 5) (found \<or> name = entry_name)
              (\<lparr>sym_name = name, sym_address = ucast addr, sym_flags = FLAG_DEFINED\<rparr> # ins) outs
          else
            extract_loop data in_count out_count (i + 5) (ptr + 5) found ins
              (\<lparr>sym_name = name, sym_address = ucast addr, sym_flags = FLAG_OUTSYM\<rparr> # outs)))
      else Inr (found, ins, outs))"
  by pat_completeness auto
termination
  by (relation "measure (\<lambda>(data, in_count, out_count, i, _). nat (in_count + out_count - i))") auto

declare extract_loop.simps [simp del]

definition extract_symbols :: "fheader \<Rightarrow> (bool \<times> fheader) res" where
  "extract_symbols fh =
     bindR (aget (file_data fh) 0) (\<lambda>w0.
     bindR (aget (file_data fh) 1) (\<lambda>w1.
     bindR (extract_loop (file_data fh) (sint w0) (sint w1) 0 3 False (insyms fh) (outsyms fh))
       (\<lambda>(found, ins, outs). Inr (found, fh\<lparr>insyms := ins, outsyms := outs\<rparr>))))"

section \<open>The output file\<close>

text \<open>The sums of the three lengths over the files.\<close>

fun count_words :: "fheader list \<Rightarrow> (nat \<times> nat \<times> nat) res" where
  "count_words [] = Inr (0, 0, 0)"
| "count_words (fh # fhs) =
     bindR (aget (file_data fh) 0) (\<lambda>w0.
     bindR (aget (file_data fh) 1) (\<lambda>w1.
     bindR (aget (file_data fh) 2) (\<lambda>w2.
     bindR (count_words fhs) (\<lambda>(a, b, c). Inr (unat w0 + a, unat w1 + b, unat w2 + c)))))"

text \<open>Is the name among the entries of the section at \<open>insym_section\<close> (word 3) before \<open>target\<close>?\<close>

function search_dup :: "u32 list \<Rightarrow> u8 list \<Rightarrow> nat \<Rightarrow> nat \<Rightarrow> bool res" where
  "search_dup buf name i target =
     (if i < target then
        bindR (strncmp_eq 16 name (words_bytes (drop (3 + i) buf)))
          (\<lambda>eq. if eq then Inr True else search_dup buf name (i + 5) target)
      else Inr False)"
  by pat_completeness auto
termination by (relation "measure (\<lambda>(buf, name, i, target). target - i)") auto

declare search_dup.simps [simp del]

text \<open>An entry of a symbol section: 16 bytes of name and the address.\<close>

definition put_symbol :: "u32 list \<Rightarrow> nat \<Rightarrow> u8 list \<Rightarrow> u32 \<Rightarrow> u32 list res" where
  "put_symbol buf a name address =
     bindR (blit buf a (bytes_words (pad0 16 name))) (\<lambda>buf. aset buf (a + 4) address)"

fun put_insyms :: "sym list \<Rightarrow> nat \<Rightarrow> u32 list \<Rightarrow> nat \<Rightarrow> nat \<Rightarrow> (u32 list \<times> nat \<times> nat) res" where
  "put_insyms [] pc_offset buf target bytes_written = Inr (buf, target, bytes_written)"
| "put_insyms (s # ss) pc_offset buf target bytes_written =
     bindR (search_dup buf (sym_name s) 0 target) (\<lambda>dup.
       if dup then Inl (ExitCode 1)
       else
         bindR (put_symbol buf (3 + target) (sym_name s) (ucast (sym_address s) + of_nat pc_offset))
           (\<lambda>buf. put_insyms ss pc_offset buf (target + 5) (bytes_written + 5 * 4)))"

text \<open>The first loop over the files; \<open>code\<close> is the index of \<open>code_section\<close>.\<close>

fun put_files :: "fheader list \<Rightarrow> nat \<Rightarrow> nat \<Rightarrow> u32 list \<Rightarrow> nat \<Rightarrow> nat \<Rightarrow> (u32 list \<times> nat \<times> nat) res" where
  "put_files [] code pc_offset buf target bytes_written = Inr (buf, target, bytes_written)"
| "put_files (fh # fhs) code pc_offset buf target bytes_written =
     bindR (put_insyms (insyms fh) pc_offset buf target bytes_written) (\<lambda>(buf, target, bytes_written).
     bindR (aget (file_data fh) 0) (\<lambda>w0.
     bindR (aget (file_data fh) 1) (\<lambda>w1.
     bindR (aget (file_data fh) 2) (\<lambda>w2.
     bindR (slice (file_data fh) (unat w0 + unat w1 + 3) (unat w2)) (\<lambda>obj.
     bindR (blit buf (code + pc_offset) obj) (\<lambda>buf.
       put_files fhs code (pc_offset + unat w2) buf target (bytes_written + unat (w2 * 4))))))))"

text \<open>The instruction with its address field replaced.\<close>

definition patch :: "u32 \<Rightarrow> u32 \<Rightarrow> u32" where
  "patch instr new_addr =
     (let op = instr AND 0xff in
      if op \<in> {0x0f, 0x14, 0x01, 0x02, 0x04} then (push_bit 12 new_addr AND 0xfffff000) OR (instr AND 0xfff)
      else if op \<in> {0x11, 0x12, 0x13, 0x15} then (push_bit 16 new_addr AND 0xffff0000) OR (instr AND 0xffff)
      else instr)"

text \<open>The search of the new symbol table for one outsymbol at \<open>pc\<close>; it goes on after a match.\<close>

function resolve_one ::
  "u8 list \<Rightarrow> nat \<Rightarrow> nat \<Rightarrow> nat \<Rightarrow> u32 list \<Rightarrow> nat \<Rightarrow> bool \<Rightarrow> (u32 list \<times> bool) res" where
  "resolve_one name pc code insym_words buf i is_def =
     (if i < insym_words then
        bindR (strncmp_eq 16 name (words_bytes (drop (3 + i) buf))) (\<lambda>eq.
          if eq then
            bindR (aget buf (3 + i + 4)) (\<lambda>symbol_definition.
            bindR (aget buf (code + pc)) (\<lambda>instr.
            bindR (aset buf (code + pc) (patch instr (symbol_definition - (of_nat pc + 1)))) (\<lambda>buf.
              resolve_one name pc code insym_words buf (i + 5) True)))
          else resolve_one name pc code insym_words buf (i + 5) is_def)
      else Inr (buf, is_def))"
  by pat_completeness auto
termination by (relation "measure (\<lambda>(name, pc, code, insym_words, buf, i, d). insym_words - i)") auto

declare resolve_one.simps [simp del]

text \<open>The outsymbols of one file: an unresolved one is written to \<open>outsym_section\<close> (index \<open>outs\<close>).\<close>

fun resolve_syms ::
  "sym list \<Rightarrow> nat \<Rightarrow> nat \<Rightarrow> nat \<Rightarrow> nat \<Rightarrow> u32 list \<Rightarrow> nat \<Rightarrow> nat \<Rightarrow> bool \<Rightarrow> (u32 list \<times> nat \<times> nat \<times> bool) res" where
  "resolve_syms [] pc_offset insym_words outs code buf target bytes_written is_object =
     Inr (buf, target, bytes_written, is_object)"
| "resolve_syms (s # ss) pc_offset insym_words outs code buf target bytes_written is_object =
     bindR (resolve_one (sym_name s) (pc_offset + unat (sym_address s)) code insym_words buf 0
              (sym_flags s AND FLAG_DEFINED \<noteq> 0))
       (\<lambda>(buf, is_def).
          if \<not> is_def then
            bindR (put_symbol buf (outs + target) (sym_name s) (ucast (sym_address s) + of_nat pc_offset))
              (\<lambda>buf. resolve_syms ss pc_offset insym_words outs code buf (target + 5) (bytes_written + 5 * 4) True)
          else resolve_syms ss pc_offset insym_words outs code buf target bytes_written is_object)"

fun resolve_files ::
  "fheader list \<Rightarrow> nat \<Rightarrow> nat \<Rightarrow> nat \<Rightarrow> nat \<Rightarrow> u32 list \<Rightarrow> nat \<Rightarrow> nat \<Rightarrow> bool \<Rightarrow> (u32 list \<times> nat \<times> nat \<times> bool) res" where
  "resolve_files [] pc_offset insym_words outs code buf target bytes_written is_object =
     Inr (buf, target, bytes_written, is_object)"
| "resolve_files (fh # fhs) pc_offset insym_words outs code buf target bytes_written is_object =
     bindR (resolve_syms (outsyms fh) pc_offset insym_words outs code buf target bytes_written is_object)
       (\<lambda>(buf, target, bytes_written, is_object).
     bindR (aget (file_data fh) 2) (\<lambda>w2.
       resolve_files fhs (pc_offset + unat w2) insym_words outs code buf target bytes_written is_object))"

text \<open>The name of the output: its last three characters become \<open>obj\<close>.\<close>

definition object_name :: "string \<Rightarrow> string res" where
  "object_name filename =
     (if length filename < 3 then Inl OutOfBounds
      else Inr (take (length filename - 3) filename @ ''obj''))"

text \<open>\<open>generate_output_file\<close>: the name and the words of the file it writes, and the value it
  returns.\<close>

definition generate_output_file ::
  "(nat \<Rightarrow> u32 list) \<Rightarrow> fheader list \<Rightarrow> string \<Rightarrow> bool \<Rightarrow> (string \<times> u32 list \<times> nat) res" where
  "generate_output_file junk fhs filename is_object =
     bindR (count_words fhs) (\<lambda>(insym_words, outsym_words, object_words).
       if object_words = 0 then Inl (ExitCode 50)
       else
        (let outs = 3 + insym_words; code = outs + outsym_words; size = code + object_words in
         bindR (put_files fhs code 0 (take size (junk size @ replicate size 0)) 0 0) (\<lambda>(buf, target, bytes_written).
         bindR (resolve_files fhs 0 insym_words outs code buf 0 bytes_written is_object)
           (\<lambda>(buf, target, bytes_written, is_object).
         bindR (blit buf 0 [of_nat insym_words, of_nat target, of_nat object_words]) (\<lambda>buf.
         bindR (if is_object then object_name filename else Inr filename) (\<lambda>filename.
         bindR (slice buf 0 3) (\<lambda>hdr.
         bindR (slice buf 3 insym_words) (\<lambda>insec.
         bindR (slice buf outs target) (\<lambda>outsec.
         bindR (slice buf code object_words) (\<lambda>codesec.
         Inr (filename, hdr @ insec @ outsec @ codesec, bytes_written + 3 * 4)))))))))))"

section \<open>The program\<close>

text \<open>The arguments from index \<open>i\<close> on: the headers read so far (the last file first) and the name
  of the output.\<close>

function read_args ::
  "(string \<Rightarrow> u8 list option) \<Rightarrow> string list \<Rightarrow> nat \<Rightarrow> fheader list \<Rightarrow> string \<Rightarrow> (fheader list \<times> string) res" where
  "read_args fs argv i fhs exec_name =
     (if i < length argv then
        if i + 2 = length argv \<and> argv ! i = ''-o'' then Inr (fhs, argv ! (length argv - 1) @ ''.exe'')
        else (case fs (argv ! i) of
                None \<Rightarrow> Inl (ExitCode 1)
              | Some bs \<Rightarrow>
                  read_args fs argv (Suc i)
                    (\<lparr>file_data = bytes_words bs, file_name = argv ! i, insyms = [], outsyms = []\<rparr> # fhs)
                    exec_name)
      else Inr (fhs, exec_name))"
  by pat_completeness auto
termination by (relation "measure (\<lambda>(fs, argv, i, _). length argv - i)") auto

declare read_args.simps [simp del]

fun extract_all :: "fheader list \<Rightarrow> (bool \<times> fheader list) res" where
  "extract_all [] = Inr (False, [])"
| "extract_all (fh # fhs) =
     bindR (extract_symbols fh) (\<lambda>(found, fh).
     bindR (extract_all fhs) (\<lambda>(found', fhs). Inr (found \<or> found', fh # fhs)))"

text \<open>\<open>main\<close>: the written file; the program then returns 0.\<close>

definition link_main ::
  "(nat \<Rightarrow> u32 list) \<Rightarrow> (string \<Rightarrow> u8 list option) \<Rightarrow> string list \<Rightarrow> (string \<times> u32 list) res" where
  "link_main junk fs argv =
     (if length argv = 1 then Inl (ExitCode 1)
      else
        bindR (read_args fs argv 1 [] ''mainx20.exe'') (\<lambda>(fhs, exec_name).
        bindR (extract_all fhs) (\<lambda>(found, fhs).
        bindR (generate_output_file junk fhs exec_name (\<not> found)) (\<lambda>(name, words, n).
        Inr (name, words)))))"

section \<open>Well-formed object files\<close>

type_synonym entry = "u8 list \<times> u32"

record obj =
  o_ins :: "entry list"
  o_outs :: "entry list"
  o_code :: "u32 list"

definition name_ok :: "u8 list \<Rightarrow> bool" where
  "name_ok n \<longleftrightarrow> 0 \<notin> set n \<and> length n \<le> 16"

definition enc :: "entry \<Rightarrow> u32 list" where
  "enc e = bytes_words (pad0 16 (fst e)) @ [snd e]"

definition encs :: "entry list \<Rightarrow> u32 list" where
  "encs es = concat (map enc es)"

definition obj_words :: "obj \<Rightarrow> u32 list" where
  "obj_words ob = [of_nat (5 * length (o_ins ob)), of_nat (5 * length (o_outs ob)), of_nat (length (o_code ob))]
     @ encs (o_ins ob) @ encs (o_outs ob) @ o_code ob"

definition obj_ok :: "obj \<Rightarrow> bool" where
  "obj_ok ob \<longleftrightarrow> (\<forall>e \<in> set (o_ins ob) \<union> set (o_outs ob). name_ok (fst e)) \<and>
     5 * length (o_ins ob) + 5 * length (o_outs ob) < 2^31 \<and> length (o_code ob) < 2^30"

lemma length_enc [simp]: "length (enc e) = 5"
  by (simp add: enc_def length_bytes_words)

lemma length_encs [simp]: "length (encs es) = 5 * length es"
  by (induction es) (auto simp: encs_def)

lemma encs_simps [simp]: "encs [] = []" "encs (e # es) = enc e @ encs es" "encs (xs @ ys) = encs xs @ encs ys"
  by (simp_all add: encs_def)

lemma enc_bytes: "words_bytes (enc e) = pad0 16 (fst e) @ word_bytes (snd e)"
  using words_bytes_inverse [of "pad0 16 (fst e)" 4] by (simp add: enc_def)

lemma strncpy_src_take:
  "n \<le> length bs \<Longrightarrow> strncpy_src n bs = Inr (cstr (take n bs))"
  by (induction n bs rule: strncpy_src.induct) (auto simp: cstr_def)

lemma strncmp_eq_take:
  "0 \<notin> set name \<Longrightarrow> length name \<le> n \<Longrightarrow> n \<le> length bs \<Longrightarrow>
     strncmp_eq n name bs = Inr (name = cstr (take n bs))"
  by (induction n name bs rule: strncmp_eq.induct) (auto simp: cstr_def)

lemma cstr_name: "name_ok n \<Longrightarrow> cstr (pad0 16 n) = n"
  by (simp add: name_ok_def cstr_pad0)

lemma strncpy_entry: "name_ok (fst e) \<Longrightarrow> strncpy_src 16 (words_bytes (enc e) @ bs) = Inr (fst e)"
  by (simp add: strncpy_src_take enc_bytes cstr_name)

lemma strncmp_entry:
  "name_ok (fst e) \<Longrightarrow> name_ok n \<Longrightarrow> strncmp_eq 16 n (words_bytes (enc e) @ bs) = Inr (n = fst e)"
  by (subst strncmp_eq_take) (simp_all add: enc_bytes cstr_name, simp_all add: name_ok_def)

lemma enc_nth [simp]: "(enc e @ ws) ! 4 = snd e"
  by (simp add: nth_append enc_def length_bytes_words)

section \<open>Reading an object file\<close>

definition def_sym :: "entry \<Rightarrow> sym" where
  "def_sym e = \<lparr>sym_name = fst e, sym_address = ucast (snd e), sym_flags = FLAG_DEFINED\<rparr>"

definition out_sym :: "entry \<Rightarrow> sym" where
  "out_sym e = \<lparr>sym_name = fst e, sym_address = ucast (snd e), sym_flags = FLAG_OUTSYM\<rparr>"

definition header :: "obj \<Rightarrow> string \<Rightarrow> fheader" where
  "header ob f = \<lparr>file_data = obj_words ob, file_name = f,
     insyms = rev (map def_sym (o_ins ob)), outsyms = rev (map out_sym (o_outs ob))\<rparr>"

definition raw_header :: "obj \<Rightarrow> string \<Rightarrow> fheader" where
  "raw_header ob f = \<lparr>file_data = obj_words ob, file_name = f, insyms = [], outsyms = []\<rparr>"

lemma extract_ins:
  assumes "\<forall>e \<in> set es. name_ok (fst e)" "i + 5 * int (length es) \<le> ic" "0 \<le> oc"
  shows "extract_loop (pre @ encs es @ post) ic oc i (length pre) fnd xs ys =
     extract_loop (pre @ encs es @ post) ic oc (i + 5 * int (length es)) (length pre + 5 * length es)
       (fnd \<or> entry_name \<in> fst ` set es) (rev (map def_sym es) @ xs) ys"
  using assms
proof (induction es arbitrary: pre i fnd xs)
  case (Cons e es)
  have n: "strncpy_src 16 (words_bytes (drop (length pre) (pre @ encs (e # es) @ post))) = Inr (fst e)"
    using Cons.prems(1) strncpy_entry [of e] by simp
  have a: "(pre @ encs (e # es) @ post) ! (length pre + 4) = snd e"
    by simp
  have "extract_loop (pre @ encs (e # es) @ post) ic oc i (length pre) fnd xs ys =
      extract_loop ((pre @ enc e) @ encs es @ post) ic oc (i + 5) (length (pre @ enc e))
        (fnd \<or> fst e = entry_name) (def_sym e # xs) ys"
    using Cons.prems(2,3) by (subst extract_loop.simps, subst n) (simp add: a def_sym_def)
  also have "\<dots> = extract_loop ((pre @ enc e) @ encs es @ post) ic oc (i + 5 + 5 * int (length es))
      (length (pre @ enc e) + 5 * length es) ((fnd \<or> fst e = entry_name) \<or> entry_name \<in> fst ` set es)
      (rev (map def_sym es) @ def_sym e # xs) ys"
    by (rule Cons.IH) (use Cons.prems in auto)
  finally show ?case by (simp add: algebra_simps disj_commute eq_commute)
qed simp

lemma extract_outs:
  assumes "\<forall>e \<in> set es. name_ok (fst e)" "ic \<le> i" "i + 5 * int (length es) = ic + oc"
  shows "extract_loop (pre @ encs es @ post) ic oc i (length pre) fnd xs ys =
     Inr (fnd, xs, rev (map out_sym es) @ ys)"
  using assms
proof (induction es arbitrary: pre i ys)
  case Nil
  then show ?case by (subst extract_loop.simps) simp
next
  case (Cons e es)
  have n: "strncpy_src 16 (words_bytes (drop (length pre) (pre @ encs (e # es) @ post))) = Inr (fst e)"
    using Cons.prems(1) strncpy_entry [of e] by simp
  have a: "(pre @ encs (e # es) @ post) ! (length pre + 4) = snd e"
    by simp
  have "extract_loop (pre @ encs (e # es) @ post) ic oc i (length pre) fnd xs ys =
      extract_loop ((pre @ enc e) @ encs es @ post) ic oc (i + 5) (length (pre @ enc e)) fnd xs (out_sym e # ys)"
    using Cons.prems(2,3) by (subst extract_loop.simps, subst n) (simp add: a out_sym_def)
  also have "\<dots> = Inr (fnd, xs, rev (map out_sym es) @ out_sym e # ys)"
    by (rule Cons.IH) (use Cons.prems in auto)
  finally show ?case by simp
qed

lemma unat_small: "n < 2^32 \<Longrightarrow> unat (of_nat n :: u32) = n"
  unfolding unat_of_nat by (intro mod_less) simp

lemma sint_small: "n < 2^31 \<Longrightarrow> sint (of_nat n :: u32) = int n"
proof -
  assume n: "n < 2^31"
  then have "uint (of_nat n :: u32) = int n" using unat_small [of n] uint_nat [of "of_nat n :: u32"] by simp
  then show ?thesis unfolding sint_uint using n by (simp add: signed_take_bit_int_eq_self)
qed

lemma extract_symbols_spec:
  assumes "obj_ok ob"
  shows "extract_symbols (raw_header ob f) = Inr (entry_name \<in> fst ` set (o_ins ob), header ob f)"
proof -
  let ?h = "[of_nat (5 * length (o_ins ob)), of_nat (5 * length (o_outs ob)), of_nat (length (o_code ob))] :: u32 list"
  let ?i = "5 * int (length (o_ins ob))" and ?o = "5 * int (length (o_outs ob))"
  have w: "sint (of_nat (5 * length (o_ins ob)) :: u32) = ?i" "sint (of_nat (5 * length (o_outs ob)) :: u32) = ?o"
    using assms by (simp_all add: sint_small obj_ok_def del: of_nat_mult)
  have d: "obj_words ob = ?h @ encs (o_ins ob) @ encs (o_outs ob) @ o_code ob" by (simp add: obj_words_def)
  have "extract_loop (obj_words ob) ?i ?o 0 (Suc (Suc (Suc 0))) False [] [] =
      extract_loop (?h @ encs (o_ins ob) @ encs (o_outs ob) @ o_code ob) ?i ?o 0 (length ?h) False [] []"
    by (simp add: d)
  also have "\<dots> = extract_loop ((?h @ encs (o_ins ob)) @ encs (o_outs ob) @ o_code ob) ?i ?o ?i
      (length (?h @ encs (o_ins ob))) (entry_name \<in> fst ` set (o_ins ob)) (rev (map def_sym (o_ins ob))) []"
    using assms by (subst extract_ins) (auto simp: obj_ok_def)
  also have "\<dots> = Inr (entry_name \<in> fst ` set (o_ins ob), rev (map def_sym (o_ins ob)), rev (map out_sym (o_outs ob)))"
    using assms by (subst extract_outs) (auto simp: obj_ok_def)
  finally show ?thesis
    using w by (simp add: extract_symbols_def raw_header_def header_def aget_def numeral_3_eq_3) (simp add: obj_words_def)
qed

text \<open>C20: the symbol tables of a well-formed object file are read as written: for every such file,
  \<open>extract_symbols\<close> returns the insymbols and outsymbols, the last one first, with the addresses
  of the file, and reports the entry point exactly when the file defines \<open>mainx20\<close>.\<close>

theorem extract_symbols_exact:
  assumes "obj_ok ob"
  shows "extract_symbols (raw_header ob f) = Inr (entry_name \<in> fst ` set (o_ins ob), header ob f)"
  using assms by (rule extract_symbols_spec)

theorem extract_symbols_exact_witness:
  "extract_symbols (raw_header \<lparr>o_ins = [(entry_name, 0)], o_outs = [([102], 0)], o_code = [0x0f, 0]\<rparr> []) =
     Inr (True, header \<lparr>o_ins = [(entry_name, 0)], o_outs = [([102], 0)], o_code = [0x0f, 0]\<rparr> [])"
  using extract_symbols_exact [of "\<lparr>o_ins = [(entry_name, 0)], o_outs = [([102], 0)], o_code = [0x0f, 0]\<rparr>" "[]"]
  by (simp add: obj_ok_def name_ok_def entry_name_def)

section \<open>What the linker is to produce\<close>

text \<open>The new symbol table, the relocations and the object code of a list of object files, each
  file's table in reverse, as the lists hold them.\<close>

fun ins_of :: "nat \<Rightarrow> obj list \<Rightarrow> entry list" where
  "ins_of base [] = []"
| "ins_of base (ob # obs) =
     map (\<lambda>(n, a). (n, a + of_nat base)) (rev (o_ins ob)) @ ins_of (base + length (o_code ob)) obs"

fun relocs :: "nat \<Rightarrow> obj list \<Rightarrow> (u8 list \<times> nat) list" where
  "relocs base [] = []"
| "relocs base (ob # obs) =
     map (\<lambda>(n, a). (n, base + unat a)) (rev (o_outs ob)) @ relocs (base + length (o_code ob)) obs"

definition all_code :: "obj list \<Rightarrow> u32 list" where
  "all_code obs = concat (map o_code obs)"

definition relocate :: "entry list \<Rightarrow> u8 list \<times> nat \<Rightarrow> u32 list \<Rightarrow> u32 list" where
  "relocate tab r code =
     (case map_of tab (fst r) of
        None \<Rightarrow> code
      | Some a \<Rightarrow> code[snd r := patch (code ! snd r) (a - (of_nat (snd r) + 1))])"

definition unresolved :: "entry list \<Rightarrow> (u8 list \<times> nat) list \<Rightarrow> entry list" where
  "unresolved tab rs = map (\<lambda>(n, pc). (n, of_nat pc)) (filter (\<lambda>r. map_of tab (fst r) = None) rs)"

definition link_words :: "obj list \<Rightarrow> u32 list" where
  "link_words obs =
     (let tab = ins_of 0 obs; rs = relocs 0 obs; un = unresolved tab rs;
          code = fold (relocate tab) rs (all_code obs)
      in [of_nat (5 * length tab), of_nat (5 * length un), of_nat (length code)]
           @ encs tab @ encs un @ code)"

definition linkable :: "obj list \<Rightarrow> bool" where
  "linkable obs \<longleftrightarrow> (\<forall>ob \<in> set obs. obj_ok ob) \<and> all_code obs \<noteq> [] \<and>
     (\<forall>r \<in> set (relocs 0 obs). snd r < length (all_code obs))"

section \<open>The buffer\<close>

lemma blit_mid [simp]:
  "length ys = length ws \<Longrightarrow> blit (xs @ ys @ zs) (length xs) ws = Inr (xs @ ws @ zs)"
  by (auto simp: blit_def)

lemma slice_mid [simp]: "slice (xs @ ys @ zs) (length xs) (length ys) = Inr ys"
  by (simp add: slice_def)

lemma put_symbol_mid:
  assumes "length ys = 5" "a = length xs"
  shows "put_symbol (xs @ ys @ zs) a n w = Inr (xs @ enc (n, w) @ zs)"
proof -
  obtain y4 y where ys: "ys = y4 @ [y]" "length y4 = 4" using assms by (cases ys rule: rev_cases) auto
  let ?b = "bytes_words (pad0 16 n)"
  have l: "length ?b = 4" by (simp add: length_bytes_words)
  then have "blit (xs @ y4 @ y # zs) (length xs) ?b = Inr (xs @ ?b @ y # zs)"
    using ys by (intro blit_mid) simp
  then show ?thesis using ys l assms
    by (simp add: put_symbol_def enc_def list_update_append)
qed

lemma search_dup_entries:
  assumes "\<forall>e \<in> set es. name_ok (fst e)" "name_ok n" "length h = 3"
    and "i = 5 * length pre" "t = 5 * length (pre @ es)"
  shows "search_dup (h @ encs (pre @ es) @ zs) n i t = Inr (n \<in> fst ` set es)"
  using assms
proof (induction es arbitrary: pre i)
  case Nil
  then show ?case by (subst search_dup.simps) simp
next
  case (Cons e es)
  have d: "drop (3 + i) (h @ encs (pre @ e # es) @ zs) = enc e @ encs es @ zs"
    using Cons.prems(3,4) by simp
  have IH: "search_dup (h @ encs ((pre @ [e]) @ es) @ zs) n (i + 5) t = Inr (n \<in> fst ` set es)"
    by (rule Cons.IH) (use Cons.prems in auto)
  show ?case
    using Cons.prems IH by (subst search_dup.simps, subst d) (auto simp: strncmp_entry)
qed

definition entry_of :: "nat \<Rightarrow> sym \<Rightarrow> entry" where
  "entry_of base s = (sym_name s, ucast (sym_address s) + of_nat base)"

lemma put_insyms_spec:
  assumes "\<forall>e \<in> set D. name_ok (fst e)" "\<forall>s \<in> set ss. name_ok (sym_name s)" "length h = 3"
    and "length R = 5 * length ss" "distinct (map fst D)" "t = 5 * length D"
  shows "put_insyms ss base (h @ encs D @ R @ T) t b =
    (if distinct (map fst (D @ map (entry_of base) ss))
     then Inr (h @ encs (D @ map (entry_of base) ss) @ T, t + 5 * length ss, b + 20 * length ss)
     else Inl (ExitCode 1))"
  using assms
proof (induction ss arbitrary: D R t b)
  case (Cons s ss)
  obtain R1 R2 where R: "R = R1 @ R2" "length R1 = 5" "length R2 = 5 * length ss"
    using Cons.prems(4) by (intro that [of "take 5 R" "drop 5 R"]) auto
  have s: "search_dup (h @ encs ([] @ D) @ R @ T) (sym_name s) 0 t = Inr (sym_name s \<in> fst ` set D)"
    by (rule search_dup_entries) (use Cons.prems in auto)
  have p: "put_symbol ((h @ encs D) @ R1 @ R2 @ T) (3 + t) (sym_name s) (ucast (sym_address s) + of_nat base) =
      Inr ((h @ encs D) @ enc (entry_of base s) @ R2 @ T)"
    unfolding entry_of_def by (rule put_symbol_mid) (use Cons.prems R in auto)
  show ?case
  proof (cases "sym_name s \<in> fst ` set D")
    case True
    then show ?thesis using s by (auto simp: entry_of_def)
  next
    case False
    have "put_insyms ss base (h @ encs (D @ [entry_of base s]) @ R2 @ T) (t + 5) (b + 20) =
      (if distinct (map fst ((D @ [entry_of base s]) @ map (entry_of base) ss))
       then Inr (h @ encs ((D @ [entry_of base s]) @ map (entry_of base) ss) @ T,
              t + 5 + 5 * length ss, b + 20 + 20 * length ss)
       else Inl (ExitCode 1))"
      by (rule Cons.IH) (use Cons.prems R False in \<open>auto simp: entry_of_def\<close>)
    then show ?thesis using False s p R by (simp add: algebra_simps)
  qed
qed auto

lemma header_fields:
  "file_data (header ob f) ! 0 = of_nat (5 * length (o_ins ob))"
  "file_data (header ob f) ! 1 = of_nat (5 * length (o_outs ob))"
  "file_data (header ob f) ! 2 = of_nat (length (o_code ob))"
  "length (file_data (header ob f)) = 3 + 5 * length (o_ins ob) + 5 * length (o_outs ob) + length (o_code ob)"
  by (simp_all add: header_def obj_words_def del: of_nat_mult)

lemma slice_code:
  "slice (file_data (header ob f)) (5 * length (o_ins ob) + 5 * length (o_outs ob) + 3) (length (o_code ob)) =
     Inr (o_code ob)"
proof -
  let ?h = "[of_nat (5 * length (o_ins ob)), of_nat (5 * length (o_outs ob)), of_nat (length (o_code ob))]
    @ encs (o_ins ob) @ encs (o_outs ob)"
  have "5 * length (o_ins ob) + 5 * length (o_outs ob) + 3 = length ?h" by simp
  moreover have "file_data (header ob f) = ?h @ o_code ob @ []"
    by (simp add: header_def obj_words_def)
  ultimately show ?thesis by (simp only: slice_mid)
qed

lemma header_sizes:
  assumes "obj_ok ob"
  shows "unat (of_nat (5 * length (o_ins ob)) :: u32) = 5 * length (o_ins ob)"
    "unat (of_nat (5 * length (o_outs ob)) :: u32) = 5 * length (o_outs ob)"
    "unat (of_nat (length (o_code ob)) :: u32) = length (o_code ob)"
    "unat (of_nat (length (o_code ob)) * 4 :: u32) = 4 * length (o_code ob)"
proof -
  have "unat (of_nat (4 * length (o_code ob)) :: u32) = 4 * length (o_code ob)"
    by (rule unat_small) (use assms in \<open>simp add: obj_ok_def\<close>)
  then show "unat (of_nat (length (o_code ob)) * 4 :: u32) = 4 * length (o_code ob)"
    by (simp add: mult.commute)
qed (use assms in \<open>simp_all add: obj_ok_def unat_small del: of_nat_mult\<close>)

lemma ucast_u64 [simp]: "ucast (ucast (w :: u32) :: u64) = w"
  by (rule bit_word_eqI) (simp add: bit_simps)

lemma count_words_spec:
  "\<forall>ob \<in> set obs. obj_ok ob \<Longrightarrow> count_words (map (\<lambda>ob. header ob (f ob)) obs) =
     Inr (5 * length (ins_of b obs), 5 * length (relocs b obs), length (all_code obs))"
proof (induction obs arbitrary: b)
  case (Cons ob obs)
  have ok: "obj_ok ob" using Cons.prems by simp
  have "count_words (map (\<lambda>ob. header ob (f ob)) obs) =
      Inr (5 * length (ins_of (b + length (o_code ob)) obs), 5 * length (relocs (b + length (o_code ob)) obs),
        length (all_code obs))"
    using Cons by simp
  then show ?case using header_fields [of ob "f ob"] header_sizes [OF ok]
    by (simp add: all_code_def del: of_nat_mult)
qed (simp add: all_code_def)

lemma entry_of_ins:
  "map (entry_of base) (insyms (header ob f)) = map (\<lambda>(n, a). (n, a + of_nat base)) (rev (o_ins ob))"
  by (auto simp: header_def rev_map def_sym_def entry_of_def)

lemma put_files_spec:
  assumes "\<forall>e \<in> set D. name_ok (fst e)" "\<forall>ob \<in> set obs. obj_ok ob" "length h = 3" "distinct (map fst D)"
    and "length R = 5 * length (ins_of base obs)" "length Cr = length (all_code obs)" "base = length C"
    and "t = 5 * length D" "cd = 3 + t + length R + length Ou"
  shows "put_files (map (\<lambda>ob. header ob (f ob)) obs) cd base (h @ encs D @ R @ Ou @ C @ Cr) t b =
    (if distinct (map fst (D @ ins_of base obs))
     then Inr (h @ encs (D @ ins_of base obs) @ Ou @ C @ all_code obs, t + 5 * length (ins_of base obs),
            b + 20 * length (ins_of base obs) + 4 * length (all_code obs))
     else Inl (ExitCode 1))"
  using assms
proof (induction obs arbitrary: D R C Cr base t b)
  case Nil
  then show ?case by (simp add: all_code_def)
next
  case (Cons ob obs)
  let ?E = "map (\<lambda>(n, a). (n, a + of_nat base)) (rev (o_ins ob))"
  have ok: "obj_ok ob" using Cons.prems by simp
  note hf = header_fields [of ob "f ob"] header_sizes [OF ok]
  obtain R1 R2 where R: "R = R1 @ R2" "length R1 = 5 * length (o_ins ob)"
    "length R2 = 5 * length (ins_of (base + length (o_code ob)) obs)"
    using Cons.prems(5) by (intro that [of "take (5 * length (o_ins ob)) R" "drop (5 * length (o_ins ob)) R"]) auto
  obtain C1 C2 where C: "Cr = C1 @ C2" "length C1 = length (o_code ob)" "length C2 = length (all_code obs)"
    using Cons.prems(6) by (intro that [of "take (length (o_code ob)) Cr" "drop (length (o_code ob)) Cr"])
      (auto simp: all_code_def)
  have names: "\<forall>e \<in> set (D @ ?E). name_ok (fst e)"
    using Cons.prems(1) ok by (force simp: obj_ok_def)
  have p: "put_insyms (insyms (header ob (f ob))) base (h @ encs D @ R1 @ R2 @ Ou @ C @ Cr) t b =
    (if distinct (map fst (D @ ?E))
     then Inr (h @ encs (D @ ?E) @ R2 @ Ou @ C @ Cr, t + 5 * length (o_ins ob), b + 20 * length (o_ins ob))
     else Inl (ExitCode 1))"
  proof -
    have n: "\<forall>s \<in> set (insyms (header ob (f ob))). name_ok (sym_name s)"
      using ok by (auto simp: header_def def_sym_def obj_ok_def)
    have l: "length (insyms (header ob (f ob))) = length (o_ins ob)" by (simp add: header_def)
    show ?thesis
      using put_insyms_spec [OF Cons.prems(1) n Cons.prems(3) _ Cons.prems(4,8), of R1 base "R2 @ Ou @ C @ Cr" b] R
      by (simp only: entry_of_ins l append_assoc)
  qed
  have sl: "slice (file_data (header ob (f ob))) (5 * length (o_ins ob) + 5 * length (o_outs ob) + 3)
      (length (o_code ob)) = Inr (o_code ob)"
    by (rule slice_code)
  have bl: "blit ((h @ encs (D @ ?E) @ R2 @ Ou @ C) @ C1 @ C2) (cd + base) (o_code ob) =
      Inr ((h @ encs (D @ ?E) @ R2 @ Ou @ C) @ o_code ob @ C2)"
  proof -
    have "cd + base = length (h @ encs (D @ ?E) @ R2 @ Ou @ C)"
      using Cons.prems R by simp
    then show ?thesis using C by (simp only:) (rule blit_mid, simp)
  qed
  show ?case
  proof (cases "distinct (map fst (D @ ?E))")
    case False
    have "map fst (D @ ins_of base (ob # obs)) =
        map fst (D @ ?E) @ map fst (ins_of (base + length (o_code ob)) obs)" by simp
    then have "\<not> distinct (map fst (D @ ins_of base (ob # obs)))"
      using False by (simp only: distinct_append) simp
    moreover have "put_insyms (insyms (header ob (f ob))) base (h @ encs D @ R @ Ou @ C @ Cr) t b = Inl (ExitCode 1)"
      using p False R by simp
    ultimately show ?thesis by (simp only: list.map put_files.simps bindR_simps if_False)
  next
    case True
    have IH: "put_files (map (\<lambda>ob. header ob (f ob)) obs) cd (base + length (o_code ob))
        (h @ encs (D @ ?E) @ R2 @ Ou @ (C @ o_code ob) @ C2) (t + 5 * length (o_ins ob))
        (b + 20 * length (o_ins ob) + 4 * length (o_code ob)) =
      (if distinct (map fst ((D @ ?E) @ ins_of (base + length (o_code ob)) obs))
       then Inr (h @ encs ((D @ ?E) @ ins_of (base + length (o_code ob)) obs) @ Ou @ (C @ o_code ob) @ all_code obs,
              t + 5 * length (o_ins ob) + 5 * length (ins_of (base + length (o_code ob)) obs),
              b + 20 * length (o_ins ob) + 4 * length (o_code ob)
              + 20 * length (ins_of (base + length (o_code ob)) obs) + 4 * length (all_code obs))
       else Inl (ExitCode 1))"
      by (rule Cons.IH) (use names True Cons.prems R C in auto)
    show ?thesis
      using p True sl bl IH hf R C
      by (simp add: all_code_def algebra_simps del: of_nat_mult distinct_append map_append)
  qed
qed

section \<open>Resolution\<close>

lemma resolve_one_step:
  assumes "i < I" "strncmp_eq 16 n (words_bytes (drop (3 + i) buf)) = Inr True" "aget buf (3 + i + 4) = Inr a"
    "aget buf (cd + pc) = Inr x" "aset buf (cd + pc) (patch x (a - (of_nat pc + 1))) = Inr buf'"
  shows "resolve_one n pc cd I buf i d = resolve_one n pc cd I buf' (i + 5) True"
  using assms(1) by (subst resolve_one.simps) (simp only: assms bindR_simps if_True)

lemma unat_u64 [simp]: "unat (ucast (a :: u32) :: u64) = unat a"
proof -
  have "unat a < 2 ^ 32" using unsigned_less [where ?'a = nat and w = a] by simp
  then show ?thesis by (simp add: unsigned_ucast_eq take_bit_nat_eq_self)
qed

lemma resolve_one_spec:
  assumes "\<forall>e \<in> set tab. name_ok (fst e)" "name_ok n" "length h = 3" "distinct (map fst tab)"
    and "i = 5 * length pre" "I = 5 * length (pre @ tab)" "cd = 3 + I + length Ou" "pc < length C"
  shows "resolve_one n pc cd I (h @ encs (pre @ tab) @ Ou @ C) i d =
    Inr (h @ encs (pre @ tab) @ Ou @ relocate tab (n, pc) C, d \<or> map_of tab n \<noteq> None)"
  using assms
proof (induction tab arbitrary: pre i C d)
  case Nil
  then show ?case by (subst resolve_one.simps) (simp add: relocate_def)
next
  case (Cons e tab)
  obtain m a where e: "e = (m, a)" by (cases e)
  let ?b = "h @ encs (pre @ e # tab) @ Ou @ C"
  have d: "drop (3 + i) ?b = enc e @ encs tab @ Ou @ C"
    using Cons.prems(3,5) by simp
  have cmp: "strncmp_eq 16 n (words_bytes (drop (3 + i) ?b)) = Inr (n = fst e)"
    using Cons.prems(1,2) unfolding d by (simp add: strncmp_entry)
  have IH: "resolve_one n pc cd I (h @ encs ((pre @ [e]) @ tab) @ Ou @ C') (i + 5) d' =
      Inr (h @ encs ((pre @ [e]) @ tab) @ Ou @ relocate tab (n, pc) C', d' \<or> map_of tab n \<noteq> None)"
    if "length C' = length C" for C' d'
    by (rule Cons.IH) (use Cons.prems that in auto)
  show ?case
  proof (cases "n = m")
    case False
    then show ?thesis
      using Cons.prems(5,6) IH [of C d] by (subst resolve_one.simps, subst cmp) (simp add: e relocate_def)
  next
    case True
    have al: "?b ! (3 + i + 4) = a"
      using Cons.prems(3,5) by (simp add: nth_append e) (simp add: enc_def length_bytes_words nth_append)
    let ?p = "h @ encs (pre @ e # tab) @ Ou"
    have lp: "cd = length ?p" using Cons.prems(3,6,7) by simp
    have g: "aget ?b (cd + pc) = Inr (C ! pc)"
      using Cons.prems(8) by (simp add: lp nth_append)
    let ?C = "C[pc := patch (C ! pc) (a - (of_nat pc + 1))]"
    have st: "aset ?b (cd + pc) (patch (C ! pc) (a - (of_nat pc + 1))) = Inr (h @ encs (pre @ e # tab) @ Ou @ ?C)"
      using Cons.prems(8) by (simp add: lp list_update_append)
    have none: "map_of tab m = None"
      using Cons.prems(4) by (simp add: e map_of_eq_None_iff)
    have gl: "aget ?b (3 + i + 4) = Inr a"
      using al Cons.prems(3,5) by (simp add: aget_def)
    have cmpT: "strncmp_eq 16 n (words_bytes (drop (3 + i) ?b)) = Inr True"
      unfolding cmp by (simp add: e True)
    have "resolve_one n pc cd I ?b i d =
        resolve_one n pc cd I (h @ encs (pre @ e # tab) @ Ou @ ?C) (i + 5) True"
      by (intro resolve_one_step [OF _ cmpT gl g st]) (simp add: Cons.prems(5,6))
    then show ?thesis
      using IH [of ?C True] True none by (simp add: e relocate_def)
  qed
qed

lemma length_relocate [simp]: "length (relocate tab r C) = length C"
  by (simp add: relocate_def split: option.split)

lemma length_fold_relocate [simp]: "length (fold (relocate tab) rs C) = length C"
  by (induction rs arbitrary: C) auto

lemma unresolved_simps:
  "unresolved tab [] = []"
  "unresolved tab (r # rs) = (if map_of tab (fst r) = None then [(fst r, of_nat (snd r))] else []) @ unresolved tab rs"
  "unresolved tab (xs @ ys) = unresolved tab xs @ unresolved tab ys"
  by (auto simp: unresolved_def split: prod.split)

definition sym_reloc :: "nat \<Rightarrow> sym \<Rightarrow> u8 list \<times> nat" where
  "sym_reloc base s = (sym_name s, base + unat (sym_address s))"

lemma resolve_syms_spec:
  assumes tab: "\<forall>e \<in> set tab. name_ok (fst e)" "distinct (map fst tab)" and h: "length h = 3"
    and "\<forall>s \<in> set ss. name_ok (sym_name s) \<and> sym_flags s = FLAG_OUTSYM \<and> base + unat (sym_address s) < length C"
    and "5 * length ss \<le> length R" "t = 5 * length U" "cd = outs + t + length R"
    and I: "I = 5 * length tab" "outs = 3 + I"
  shows "resolve_syms ss base I outs cd (h @ encs tab @ (encs U @ R) @ C) t b isob =
     (let rs = map (sym_reloc base) ss; un = unresolved tab rs in
      Inr (h @ encs tab @ (encs (U @ un) @ drop (5 * length un) R) @ fold (relocate tab) rs C,
           t + 5 * length un, b + 20 * length un, isob \<or> un \<noteq> []))"
  using assms(4-7)
proof (induction ss arbitrary: U R C t b isob)
  case Nil
  then show ?case by (simp add: unresolved_simps)
next
  case (Cons s ss)
  let ?n = "sym_name s" and ?pc = "base + unat (sym_address s)"
  let ?C = "relocate tab (?n, ?pc) C" and ?rs = "map (sym_reloc base) ss"
  have flag: "sym_flags s AND FLAG_DEFINED = 0" using Cons.prems(1) by (simp add: FLAG_OUTSYM_def FLAG_DEFINED_def)
  have sr: "sym_reloc base s = (?n, ?pc)" by (simp add: sym_reloc_def)
  have one: "resolve_one ?n ?pc cd I (h @ encs ([] @ tab) @ (encs U @ R) @ C) 0 False =
      Inr (h @ encs ([] @ tab) @ (encs U @ R) @ ?C, False \<or> map_of tab ?n \<noteq> None)"
    by (rule resolve_one_spec) (use tab h I Cons.prems in auto)
  show ?case
  proof (cases "map_of tab ?n")
    case (Some a)
    have "resolve_syms ss base I outs cd (h @ encs tab @ (encs U @ R) @ ?C) t b isob =
       (let un = unresolved tab ?rs in
        Inr (h @ encs tab @ (encs (U @ un) @ drop (5 * length un) R) @ fold (relocate tab) ?rs ?C,
          t + 5 * length un, b + 20 * length un, isob \<or> un \<noteq> []))"
      using Cons.IH [of ?C R t U b isob] Cons.prems by (simp add: Let_def)
    then show ?thesis using one flag Some sr
      by (simp add: unresolved_simps Let_def)
  next
    case None
    let ?e = "(?n, ucast (sym_address s) + of_nat base) :: entry"
    obtain R1 R2 where R: "R = R1 @ R2" "length R1 = 5" "5 * length ss \<le> length R2"
      using Cons.prems(2) by (intro that [of "take 5 R" "drop 5 R"]) auto
    have put: "put_symbol ((h @ encs tab @ encs U) @ R1 @ (R2 @ ?C)) (outs + t) ?n (ucast (sym_address s) + of_nat base) =
        Inr ((h @ encs tab @ encs U) @ enc ?e @ (R2 @ ?C))"
      by (rule put_symbol_mid) (use h I Cons.prems R in auto)
    have "resolve_syms ss base I outs cd (h @ encs tab @ (encs (U @ [?e]) @ R2) @ ?C) (t + 5) (b + 20) True =
       (let un = unresolved tab ?rs in
        Inr (h @ encs tab @ (encs ((U @ [?e]) @ un) @ drop (5 * length un) R2) @ fold (relocate tab) ?rs ?C,
          t + 5 + 5 * length un, b + 20 + 20 * length un, True \<or> un \<noteq> []))"
      unfolding Let_def
      by (rule Cons.IH [unfolded Let_def]) (use Cons.prems R in auto)
    moreover have "unresolved tab (map (sym_reloc base) (s # ss)) = ?e # unresolved tab ?rs"
      using None by (simp add: unresolved_simps sr add.commute)
    ultimately show ?thesis using one flag None put R
      by (simp add: sr Let_def)
  qed
qed

lemma outsyms_relocs:
  "map (sym_reloc base) (outsyms (header ob f)) = map (\<lambda>(n, a). (n, base + unat a)) (rev (o_outs ob))"
  by (auto simp: header_def rev_map out_sym_def sym_reloc_def)

lemma resolve_files_spec:
  assumes tab: "\<forall>e \<in> set tab. name_ok (fst e)" "distinct (map fst tab)" and h: "length h = 3"
    and "\<forall>ob \<in> set obs. obj_ok ob" "\<forall>r \<in> set (relocs base obs). snd r < length C"
    and "5 * length (relocs base obs) \<le> length R" "t = 5 * length U" "cd = outs + t + length R"
    and I: "I = 5 * length tab" "outs = 3 + I"
  shows "resolve_files (map (\<lambda>ob. header ob (f ob)) obs) base I outs cd (h @ encs tab @ (encs U @ R) @ C) t b isob =
     (let rs = relocs base obs; un = unresolved tab rs in
      Inr (h @ encs tab @ (encs (U @ un) @ drop (5 * length un) R) @ fold (relocate tab) rs C,
           t + 5 * length un, b + 20 * length un, isob \<or> un \<noteq> []))"
  using assms(4-8)
proof (induction obs arbitrary: U R C t b isob base)
  case Nil
  then show ?case by (simp add: unresolved_simps)
next
  case (Cons ob obs)
  let ?fh = "header ob (f ob)" and ?b' = "base + length (o_code ob)"
  let ?rs = "map (\<lambda>(n, a). (n, base + unat a)) (rev (o_outs ob))"
  let ?un = "unresolved tab ?rs" and ?C = "fold (relocate tab) ?rs C"
  have ok: "obj_ok ob" using Cons.prems by simp
  have un: "length ?un \<le> length (o_outs ob)" by (simp add: unresolved_def) (metis length_filter_le length_map length_rev)
  have syms: "resolve_syms (outsyms ?fh) base I outs cd (h @ encs tab @ (encs U @ R) @ C) t b isob =
      Inr (h @ encs tab @ (encs (U @ ?un) @ drop (5 * length ?un) R) @ ?C, t + 5 * length ?un,
        b + 20 * length ?un, isob \<or> ?un \<noteq> [])"
  proof -
    have "\<forall>s \<in> set (outsyms ?fh). name_ok (sym_name s) \<and> sym_flags s = FLAG_OUTSYM \<and> base + unat (sym_address s) < length C"
    proof
      fix s assume "s \<in> set (outsyms ?fh)"
      then obtain e where e: "e \<in> set (o_outs ob)" "s = out_sym e" by (auto simp: header_def)
      then have "(fst e, base + unat (snd e)) \<in> set (relocs base (ob # obs))" by force
      then show "name_ok (sym_name s) \<and> sym_flags s = FLAG_OUTSYM \<and> base + unat (sym_address s) < length C"
        using Cons.prems(2) e ok by (force simp: out_sym_def obj_ok_def)
    qed
    moreover have "5 * length (outsyms ?fh) \<le> length R" using Cons.prems(3) by (simp add: header_def)
    ultimately show ?thesis
      using resolve_syms_spec [OF tab h, of "outsyms ?fh" base C R t U cd outs I b isob] Cons.prems(4,5) I
      by (simp add: outsyms_relocs Let_def)
  qed
  have "resolve_files (map (\<lambda>ob. header ob (f ob)) obs) ?b' I outs cd
      (h @ encs tab @ (encs (U @ ?un) @ drop (5 * length ?un) R) @ ?C) (t + 5 * length ?un)
      (b + 20 * length ?un) (isob \<or> ?un \<noteq> []) =
     (let rs = relocs ?b' obs; un = unresolved tab rs in
      Inr (h @ encs tab @ (encs ((U @ ?un) @ un) @ drop (5 * length un) (drop (5 * length ?un) R)) @
           fold (relocate tab) rs ?C,
           t + 5 * length ?un + 5 * length un, b + 20 * length ?un + 20 * length un,
           (isob \<or> ?un \<noteq> []) \<or> un \<noteq> []))"
    by (rule Cons.IH) (use Cons.prems un in auto)
  then show ?case
    using syms header_fields [of ob "f ob"] header_sizes [OF ok]
    by (simp add: Let_def unresolved_simps algebra_simps disj_assoc del: of_nat_mult)
qed

section \<open>The linker implements its specification\<close>

lemma ins_of_names:
  "\<forall>ob \<in> set obs. obj_ok ob \<Longrightarrow> \<forall>e \<in> set (ins_of base obs). name_ok (fst e)"
  by (induction obs arbitrary: base) (force simp: obj_ok_def)+

lemma unresolved_length: "length (unresolved tab rs) \<le> length rs"
  by (simp add: unresolved_def)

lemma generate_spec:
  assumes "linkable obs"
  shows "generate_output_file junk (map (\<lambda>ob. header ob (f ob)) obs) filename is_object =
    (if \<not> distinct (map fst (ins_of 0 obs)) then Inl (ExitCode 1)
     else bindR (if is_object \<or> unresolved (ins_of 0 obs) (relocs 0 obs) \<noteq> [] then object_name filename
                 else Inr filename)
            (\<lambda>name. Inr (name, link_words obs, 4 * length (link_words obs))))"
proof -
  have ok: "\<forall>ob \<in> set obs. obj_ok ob" and ne: "all_code obs \<noteq> []"
    and rel: "\<forall>r \<in> set (relocs 0 obs). snd r < length (all_code obs)"
    using assms by (auto simp: linkable_def)
  define tab where "tab = ins_of 0 obs"
  define rs where "rs = relocs 0 obs"
  define un where "un = unresolved tab rs"
  define I where "I = 5 * length tab"
  define O' where "O' = 5 * length rs"
  define N where "N = length (all_code obs)"
  define buf where "buf = take (3 + I + O' + N) (junk (3 + I + O' + N) @ replicate (3 + I + O' + N) 0)"
  have lb: "length buf = 3 + I + O' + N" by (simp add: buf_def)
  define h where "h = take 3 buf"
  define R where "R = take I (drop 3 buf)"
  define Ou where "Ou = take O' (drop (3 + I) buf)"
  define Cr where "Cr = drop (3 + I + O') buf"
  have lens: "length h = 3" "length R = I" "length Ou = O'" "length Cr = N"
    by (simp_all add: h_def R_def Ou_def Cr_def lb)
  have "buf = take 3 buf @ take I (drop 3 buf) @ take O' (drop I (drop 3 buf)) @ drop O' (drop I (drop 3 buf))"
    by (simp only: append_take_drop_id)
  then have split_buf: "buf = h @ encs [] @ R @ Ou @ [] @ Cr"
    by (simp add: h_def R_def Ou_def Cr_def add.commute add.left_commute)
  have cnt: "count_words (map (\<lambda>ob. header ob (f ob)) obs) = Inr (I, O', N)"
    using count_words_spec [OF ok, of f 0] by (simp add: I_def O'_def N_def tab_def rs_def)
  have N: "N \<noteq> 0" using ne by (simp add: N_def)
  have put: "put_files (map (\<lambda>ob. header ob (f ob)) obs) (3 + I + O') 0 buf 0 0 =
    (if distinct (map fst tab) then Inr (h @ encs tab @ Ou @ all_code obs, I, 20 * length tab + 4 * N)
     else Inl (ExitCode 1))"
    unfolding split_buf
    using put_files_spec [of "[]" obs h R 0 Cr "[]" 0 "3 + I + O'" Ou f 0] ok lens
    by (simp add: I_def N_def tab_def)
  show ?thesis
  proof (cases "distinct (map fst tab)")
    case False
    then have "put_files (map (\<lambda>ob. header ob (f ob)) obs) (3 + I + O') 0 buf 0 0 = Inl (ExitCode 1)"
      using put by simp
    then show ?thesis
      using False cnt N unfolding generate_output_file_def tab_def [symmetric] buf_def
      by (simp only: bindR_simps split_conv Let_def if_False if_True simp_thms add.assoc [symmetric])
  next
    case True
    define C where "C = fold (relocate tab) rs (all_code obs)"
    have lC: "length C = N" by (simp add: C_def N_def)
    have res: "resolve_files (map (\<lambda>ob. header ob (f ob)) obs) 0 I (3 + I) (3 + I + O')
        (h @ encs tab @ Ou @ all_code obs) 0 (20 * length tab + 4 * N) is_object =
      Inr (h @ encs tab @ (encs un @ drop (5 * length un) Ou) @ C, 5 * length un,
        20 * length tab + 4 * N + 20 * length un, is_object \<or> un \<noteq> [])"
      using resolve_files_spec [of tab h obs 0 "all_code obs" Ou 0 "[]" "3 + I + O'" "3 + I" I f
          "20 * length tab + 4 * N" is_object] ok rel True lens ins_of_names [OF ok, of 0]
      by (simp add: tab_def [symmetric] rs_def [symmetric] un_def [symmetric] C_def [symmetric] O'_def I_def Let_def)
    let ?H = "[of_nat I, of_nat (5 * length un), of_nat N] :: u32 list"
    let ?O = "encs un @ drop (5 * length un) Ou"
    let ?b = "?H @ encs tab @ ?O @ C"
    have ul: "length un \<le> length rs" by (simp add: un_def unresolved_length)
    have hdr: "blit (h @ encs tab @ ?O @ C) 0 ?H = Inr ?b"
      using blit_mid [of h ?H "[]" "encs tab @ ?O @ C"] lens(1) by simp
    have s0: "slice ?b 0 3 = Inr ?H" using slice_mid [of "[]" ?H "encs tab @ ?O @ C"] by (simp add: numeral_3_eq_3)
    have s1: "slice ?b 3 I = Inr (encs tab)"
      using slice_mid [of ?H "encs tab" "?O @ C"] by (simp add: I_def numeral_3_eq_3 del: of_nat_mult)
    have s2: "slice ?b (3 + I) (5 * length un) = Inr (encs un)"
      using slice_mid [of "?H @ encs tab" "encs un" "drop (5 * length un) Ou @ C"]
      by (simp add: I_def numeral_3_eq_3 del: of_nat_mult)
    have lO: "length ?O = O'" using ul lens(3) by (simp add: O'_def)
    have s3: "slice ?b (3 + I + O') N = Inr C"
    proof -
      have "3 + I + O' = length (?H @ encs tab @ ?O)" using lO by (simp add: I_def)
      moreover have "?b = (?H @ encs tab @ ?O) @ C @ []" by simp
      ultimately show ?thesis using slice_mid [of "?H @ encs tab @ ?O" C "[]"] lC by metis
    qed
    have lw: "link_words obs = ?H @ encs tab @ encs un @ C"
      by (simp add: link_words_def Let_def tab_def [symmetric] rs_def [symmetric] un_def [symmetric]
          C_def [symmetric] I_def lC N_def [symmetric])
    then have bytes: "20 * length tab + 4 * N + 20 * length un + 3 * 4 = 4 * length (link_words obs)"
      using lC by simp
    have "generate_output_file junk (map (\<lambda>ob. header ob (f ob)) obs) filename is_object =
       bindR (if is_object \<or> un \<noteq> [] then object_name filename else Inr filename)
         (\<lambda>name. Inr (name, ?H @ encs tab @ encs un @ C, 20 * length tab + 4 * N + 20 * length un + 3 * 4))"
      unfolding generate_output_file_def
      using N put [unfolded buf_def] True
      by (simp only: cnt bindR_simps split_conv Let_def if_False if_True res hdr s0 s1 s2 s3)
    then show ?thesis
      using True lw bytes by (simp only: tab_def [symmetric] rs_def [symmetric] un_def [symmetric] if_False simp_thms)
  qed
qed

text \<open>Reading the arguments: every file first, then the option.\<close>

lemma bytes_words_of_words: "bytes_words (words_bytes (obj_words ob)) = obj_words ob"
  by simp

lemma read_args_files:
  assumes "\<forall>n \<in> set names. fs n = Some (words_bytes (obj_words (ob n)))"
    and "argv = pre @ names @ [''-o'', out]" "i = length pre"
  shows "read_args fs argv i fhs ex = Inr (rev (map (\<lambda>n. raw_header (ob n) n) names) @ fhs, out @ ''.exe'')"
  using assms
proof (induction names arbitrary: pre i fhs)
  case Nil
  then show ?case by (subst read_args.simps) (simp add: nth_append)
next
  case (Cons n names)
  have "read_args fs argv (Suc i) (raw_header (ob n) n # fhs) ex =
      Inr (rev (map (\<lambda>n. raw_header (ob n) n) names) @ raw_header (ob n) n # fhs, out @ ''.exe'')"
    by (rule Cons.IH [of "pre @ [n]"]) (use Cons.prems in auto)
  then show ?case
    using Cons.prems by (subst read_args.simps) (simp add: nth_append raw_header_def)
qed

lemma extract_all_spec:
  assumes "\<forall>n \<in> set ns. obj_ok (ob n)"
  shows "extract_all (map (\<lambda>n. raw_header (ob n) n) ns) =
    Inr (\<exists>n \<in> set ns. entry_name \<in> fst ` set (o_ins (ob n)), map (\<lambda>n. header (ob n) n) ns)"
  using assms by (induction ns) (auto simp: extract_symbols_spec)


text \<open>The names of the input files do not matter.\<close>

lemma names_irrelevant:
  "count_words (map (\<lambda>n. header (ob n) n) ns) = count_words (map (\<lambda>n. header (ob n) []) ns)"
  "put_files (map (\<lambda>n. header (ob n) n) ns) cd base buf t b =
     put_files (map (\<lambda>n. header (ob n) []) ns) cd base buf t b"
  "resolve_files (map (\<lambda>n. header (ob n) n) ns) base I outs cd buf t b isob =
     resolve_files (map (\<lambda>n. header (ob n) []) ns) base I outs cd buf t b isob"
proof -
  show "count_words (map (\<lambda>n. header (ob n) n) ns) = count_words (map (\<lambda>n. header (ob n) []) ns)"
    by (induction ns) (simp_all add: header_def)
  show "put_files (map (\<lambda>n. header (ob n) n) ns) cd base buf t b =
     put_files (map (\<lambda>n. header (ob n) []) ns) cd base buf t b"
    by (induction ns arbitrary: base buf t b) (simp_all add: header_def)
  show "resolve_files (map (\<lambda>n. header (ob n) n) ns) base I outs cd buf t b isob =
     resolve_files (map (\<lambda>n. header (ob n) []) ns) base I outs cd buf t b isob"
    by (induction ns arbitrary: base buf t b isob) (simp_all add: header_def)
qed

lemma generate_names:
  "generate_output_file junk (map (\<lambda>n. header (ob n) n) ns) filename isob =
   generate_output_file junk (map (\<lambda>ob. header ob []) (map ob ns)) filename isob"
  unfolding generate_output_file_def map_map o_def names_irrelevant ..

definition has_entry :: "obj list \<Rightarrow> bool" where
  "has_entry obs \<longleftrightarrow> (\<exists>ob \<in> set obs. entry_name \<in> fst ` set (o_ins ob))"

text \<open>C2: the linker implements its specification: given well-formed object files and an output
  name, it exits with 1 when two files define the same symbol, and otherwise it writes exactly the
  specified file - the lengths, the symbols with their new addresses, the unresolved outsymbols,
  and the object code with every resolved reference relocated - under the name with \<open>.exe\<close> when
  everything is resolved and some file defines \<open>mainx20\<close>, with \<open>.obj\<close> otherwise.  The last file
  on the command line comes first.\<close>

theorem linker_implements:
  assumes files: "\<forall>n \<in> set names. fs n = Some (words_bytes (obj_words (ob n)))"
    and ok: "linkable (map ob (rev names))"
  shows "link_main junk fs (prog # names @ [''-o'', out]) =
    (let obs = map ob (rev names); tab = ins_of 0 obs in
     if \<not> distinct (map fst tab) then Inl (ExitCode 1)
     else Inr (out @ (if has_entry obs \<and> unresolved tab (relocs 0 obs) = [] then ''.exe'' else ''.obj''),
               link_words obs))"
proof -
  let ?obs = "map ob (rev names)"
  have args: "read_args fs (prog # names @ [''-o'', out]) 1 [] ''mainx20.exe'' =
      Inr (map (\<lambda>n. raw_header (ob n) n) (rev names), out @ ''.exe'')"
    using read_args_files [OF files, of "prog # names @ [''-o'', out]" "[prog]" out 1 "[]" "''mainx20.exe''"]
    by (simp add: rev_map)
  have oks: "\<forall>n \<in> set (rev names). obj_ok (ob n)" using ok by (auto simp: linkable_def)
  have ext: "extract_all (map (\<lambda>n. raw_header (ob n) n) (rev names)) =
      Inr (has_entry ?obs, map (\<lambda>n. header (ob n) n) (rev names))"
    unfolding extract_all_spec [OF oks] by (simp add: has_entry_def)
  have obj: "object_name (out @ ''.exe'') = Inr (out @ ''.obj'')"
    by (simp add: object_name_def)
  show ?thesis
    using args ext generate_spec [OF ok, of junk "\<lambda>_. []" "out @ ''.exe''" "\<not> has_entry ?obs"]
    by (simp add: link_main_def generate_names Let_def obj)
qed

text \<open>The witness: a caller of \<open>f\<close> linked with its definition.\<close>

definition ex_main :: obj where
  "ex_main = \<lparr>o_ins = [(entry_name, 0)], o_outs = [([102], 0)], o_code = [0x0000000f, 0]\<rparr>"

definition ex_f :: obj where
  "ex_f = \<lparr>o_ins = [([102], 0)], o_outs = [], o_code = [0x10]\<rparr>"

lemma ex_link:
  "linkable [ex_f, ex_main]" "ins_of 0 [ex_f, ex_main] = [([102], 0), (entry_name, 1)]"
  "relocs 0 [ex_f, ex_main] = [([102], 1)]"
  by (auto simp: linkable_def obj_ok_def ex_f_def ex_main_def all_code_def entry_name_def name_ok_def)

theorem linker_implements_witness:
  "\<exists>words. link_main (\<lambda>_. []) [''m'' \<mapsto> words_bytes (obj_words ex_main), ''f'' \<mapsto> words_bytes (obj_words ex_f)]
     [''linkx20'', ''m'', ''f'', ''-o'', ''a''] = Inr (''a.exe'', words) \<and> drop 13 words = [0x10, 0xffffe00f, 0]"
proof -
  let ?ob = "\<lambda>n. if n = ''m'' then ex_main else ex_f"
  define fs where "fs = [''m'' \<mapsto> words_bytes (obj_words ex_main), ''f'' \<mapsto> words_bytes (obj_words ex_f)]"
  have f: "\<forall>n \<in> set [''m'', ''f'']. fs n = Some (words_bytes (obj_words (?ob n)))" by (simp add: fs_def)
  have o: "map ?ob (rev [''m'', ''f'']) = [ex_f, ex_main]" by simp
  have e: "has_entry [ex_f, ex_main]" by (simp add: has_entry_def ex_main_def)
  have u: "unresolved [([102], 0), (entry_name, 1)] [([102], 1)] = []" by (simp add: unresolved_def)
  have d: "distinct (map fst [([102], 0), (entry_name, 1)])" by (simp add: entry_name_def)
  have w: "drop 13 (link_words [ex_f, ex_main]) = [0x10, 0xffffe00f, 0]"
    by (simp add: link_words_def ex_link Let_def u relocate_def all_code_def patch_def enc_def length_bytes_words)
      (simp add: ex_f_def ex_main_def relocate_def unresolved_def patch_def)
  show ?thesis
    using linker_implements [OF f, unfolded o, OF ex_link(1), of "\<lambda>_. []" "''linkx20''" "''a''"] w
    unfolding ex_link Let_def fs_def [symmetric] using e u d by simp
qed

end
