(* ===== verification/Vmx20_Multi.thy ===== *)
theory Vmx20_Multi
  imports Vmx20_Exec
begin

text \<open>
  The multiprocessor of A2/P2/vmx20.c: \<open>execute\<close> starts one thread per processor, each runs
  \<open>fetchDecodeExecute\<close> on its own \<open>Core\<close> and all share the machine.  A step of the system is an
  atomic action of one core: the start of its thread, the fetch of a word (outside the lock), or
  the rest of the instruction (whose accesses to memory are all under one acquisition of
  \<open>memLock\<close>).  Memory is sequentially consistent; the code's unlocked fetch is a data race in
  C11's terms, which the interleaving does not show.
\<close>

section \<open>The loop of one core\<close>

text \<open>The loop of \<open>fetchDecodeExecute\<close> with fuel: \<open>None\<close> when it has not returned.\<close>

fun fde_loop :: "nat \<Rightarrow> core \<Rightarrow> vm \<Rightarrow> (core \<times> vm) option res" where
  "fde_loop 0 cpu vm = Inr None"
| "fde_loop (Suc fuel) cpu vm =
     bindR (executeInstruction cpu vm (reg cpu PC))
       (\<lambda>(cpu', vm', success). if success then fde_loop fuel cpu' vm' else Inr (Some (cpu', vm')))"

definition fde_start :: "core \<Rightarrow> vm \<Rightarrow> core" where
  "fde_start cpu vm = setr (cpu\<lparr>status := 1\<rparr>) PC (entryPoint vm)"

definition fetchDecodeExecute :: "nat \<Rightarrow> core \<Rightarrow> vm \<Rightarrow> (core \<times> vm) option res" where
  "fetchDecodeExecute fuel cpu vm = fde_loop fuel (fde_start cpu vm) vm"

section \<open>The system\<close>

datatype phase = Starting | Fetching | Executing u32 | Finished

record sys =
  machine :: vm
  cores :: "core list"
  phases :: "phase list"

text \<open>\<open>execute\<close> up to the joins.  \<open>created i\<close> says whether the \<open>i\<close>-th \<open>pthread_create\<close>
  succeeds; when one fails the code frees the cores of the threads that are already running and
  returns 0: \<open>Abandoned i\<close>, with \<open>i\<close> such threads.\<close>

datatype started = Refused | Abandoned nat | Started sys

definition new_core :: "vm \<Rightarrow> u32 \<Rightarrow> nat \<Rightarrow> core" where
  "new_core vm sp i =
     \<lparr>reg = (vreg vm)(SP := sp), stack = sp, status = 1, pid = of_nat i\<rparr>"

fun start_cores :: "vm \<Rightarrow> u32 list \<Rightarrow> (nat \<Rightarrow> bool) \<Rightarrow> nat \<Rightarrow> nat \<Rightarrow> core list \<Rightarrow> (core list option \<times> nat) res" where
  "start_cores vm initialSP created i 0 acc = Inr (Some acc, i)"
| "start_cores vm initialSP created i (Suc k) acc =
     bindR (aget initialSP i) (\<lambda>sp.
       if created i then start_cores vm initialSP created (Suc i) k (acc @ [new_core vm sp i])
       else Inr (None, i))"

definition execute_start :: "vm \<Rightarrow> u32 \<Rightarrow> u32 list \<Rightarrow> (nat \<Rightarrow> bool) \<Rightarrow> bool \<Rightarrow> started res" where
  "execute_start vm numProcs initialSP created tr =
     (if numProcs > 16 then Inr Refused
      else
       (let vm1 = vm\<lparr>numProcessors := numProcs, trace := tr\<rparr>
        in bindR (start_cores vm1 initialSP created 0 (unat numProcs) []) (\<lambda>(cs, i).
             Inr (case cs of
                    None \<Rightarrow> Abandoned i
                  | Some cs \<Rightarrow> Started \<lparr>machine = vm1, cores = cs, phases = replicate (length cs) Starting\<rparr>))))"

text \<open>What core \<open>i\<close> does next.\<close>

definition core_step :: "nat \<Rightarrow> sys \<Rightarrow> sys res" where
  "core_step i s =
     (let cpu = cores s ! i in
      case phases s ! i of
        Starting \<Rightarrow> Inr (s\<lparr>cores := (cores s)[i := fde_start cpu (machine s)], phases := (phases s)[i := Fetching]\<rparr>)
      | Fetching \<Rightarrow> bindR (fetch (machine s) (reg cpu PC))
          (\<lambda>word. Inr (s\<lparr>phases := (phases s)[i := Executing word]\<rparr>))
      | Executing word \<Rightarrow> bindR (execute_word cpu (machine s) word) (\<lambda>(cpu', vm', success).
          Inr \<lparr>machine = vm', cores = (cores s)[i := cpu'],
               phases = (phases s)[i := (if success then Fetching else Finished)]\<rparr>)
      | Finished \<Rightarrow> Inr s)"

inductive sys_step :: "sys \<Rightarrow> sys \<Rightarrow> bool" where
  step: "i < length (cores s) \<Longrightarrow> phases s ! i \<noteq> Finished \<Longrightarrow> core_step i s = Inr s' \<Longrightarrow> sys_step s s'"

inductive_cases sys_stepE: "sys_step s s'"

inductive reachable :: "sys \<Rightarrow> sys \<Rightarrow> bool" for s0 where
  init: "reachable s0 s0"
| more: "reachable s0 s \<Longrightarrow> sys_step s s' \<Longrightarrow> reachable s0 s'"

text \<open>After the joins \<open>execute\<close> copies the status of every core.\<close>

definition execute_finish :: "sys \<Rightarrow> int list option" where
  "execute_finish s = (if list_all (\<lambda>p. p = Finished) (phases s) then Some (map status (cores s)) else None)"

text \<open>A schedule, for evaluation: the cores in the order they act; a finished one is passed over.\<close>

fun run_sched :: "nat list \<Rightarrow> sys \<Rightarrow> sys res" where
  "run_sched [] s = Inr s"
| "run_sched (i # is) s =
     (if i < length (cores s) \<and> phases s ! i \<noteq> Finished
      then bindR (core_step i s) (run_sched is) else run_sched is s)"

lemma run_sched_reachable: "reachable s0 s \<Longrightarrow> run_sched is s = Inr s' \<Longrightarrow> reachable s0 s'"
proof (induction "is" arbitrary: s)
  case (Cons i "is")
  show ?case
  proof (cases "i < length (cores s) \<and> phases s ! i \<noteq> Finished")
    case True
    then obtain t where t: "core_step i s = Inr t" and r: "run_sched is t = Inr s'"
      using Cons.prems(2) by auto
    from True t have "sys_step s t" by (blast intro: sys_step.intros)
    then show ?thesis by (rule Cons.IH [OF reachable.more [OF Cons.prems(1)] r])
  next
    case False
    then show ?thesis using Cons by (simp split: if_splits)
  qed
qed simp

section \<open>The system invariant\<close>

lemma start_cores_eq:
  "start_cores vm sps created i k acc = Inr (Some cs, j) \<Longrightarrow>
     cs = acc @ map (\<lambda>n. new_core vm (sps ! n) n) [i..<i + k] \<and> i + k \<le> max (length sps) i"
proof (induction k arbitrary: i acc)
  case (Suc k)
  then obtain sp where sp: "aget sps i = Inr sp" "created i"
    and r: "start_cores vm sps created (Suc i) k (acc @ [new_core vm sp i]) = Inr (Some cs, j)"
    by (auto split: if_splits)
  have "i < length sps" "sp = sps ! i" using sp(1) by (auto simp: aget_def split: if_splits)
  moreover have "[i..<i + Suc k] = i # [Suc i..<Suc i + k]"
    by (subst upt_conv_Cons) simp_all
  ultimately show ?case using Suc.IH [OF r] by (simp del: upt_Suc add_Suc_right)
qed simp

definition core_ok :: "u32 list \<Rightarrow> nat \<Rightarrow> core \<Rightarrow> phase \<Rightarrow> bool" where
  "core_ok sps i c p \<longleftrightarrow> pid c = of_nat i \<and> stack c = sps ! i \<and>
     (if p = Finished then status c \<in> term_codes else status c = 1)"

definition sys_ok :: "vm \<Rightarrow> u32 list \<Rightarrow> nat \<Rightarrow> sys \<Rightarrow> bool" where
  "sys_ok vm0 sps n s \<longleftrightarrow> length (cores s) = n \<and> length (phases s) = n \<and> same_config vm0 (machine s) \<and>
     (\<forall>i < n. core_ok sps i (cores s ! i) (phases s ! i))"

lemma core_step_frame:
  assumes "core_step i s = Inr s'" "length (phases s) = length (cores s)" "i < length (cores s)"
  shows "length (cores s') = length (cores s)" "length (phases s') = length (phases s)"
    "j \<noteq> i \<Longrightarrow> cores s' ! j = cores s ! j" "j \<noteq> i \<Longrightarrow> phases s' ! j = phases s ! j"
  using assms by (auto simp: core_step_def Let_def split: phase.splits)

lemma core_step_ok:
  assumes s: "sys_ok vm0 sps n s" and i: "i < n" and st: "core_step i s = Inr s'"
  shows "sys_ok vm0 sps n s'"
proof -
  have len: "length (cores s) = n" "length (phases s) = n" and cfg: "same_config vm0 (machine s)"
    and ok: "\<And>j. j < n \<Longrightarrow> core_ok sps j (cores s ! j) (phases s ! j)"
    using s by (auto simp: sys_ok_def)
  have own: "core_ok sps i (cores s' ! i) (phases s' ! i) \<and> same_config vm0 (machine s')"
  proof (cases "phases s ! i")
    case (Executing w)
    then obtain c m ok' where e: "execute_word (cores s ! i) (machine s) w = Inr (c, m, ok')"
      and s': "s' = \<lparr>machine = m, cores = (cores s)[i := c],
        phases = (phases s)[i := (if ok' then Fetching else Finished)]\<rparr>"
      using st by (auto simp: core_step_def)
    show ?thesis
      using execute_word_ok [OF e] ok [OF i] cfg i len Executing
      by (auto simp: s' core_ok_def intro: same_config_trans)
  qed (use st i len cfg ok [OF i] in \<open>auto simp: core_step_def core_ok_def fde_start_def\<close>)
  have "core_ok sps j (cores s' ! j) (phases s' ! j)" if "j < n" for j
    using own core_step_frame [OF st] len i that ok by (cases "j = i") simp_all
  then show ?thesis using own core_step_frame [OF st] len i by (simp add: sys_ok_def)
qed

lemma execute_start_cases:
  assumes "execute_start vm n sps created tr = Inr (Started s)"
  shows "n \<le> 16" "machine s = vm\<lparr>numProcessors := n, trace := tr\<rparr>" "unat n \<le> length sps"
    "cores s = map (\<lambda>i. new_core (machine s) (sps ! i) i) [0..<unat n]"
    "phases s = replicate (unat n) Starting"
proof -
  let ?v = "vm\<lparr>numProcessors := n, trace := tr\<rparr>"
  have n: "n \<le> 16" using assms by (auto simp: execute_start_def split: if_splits)
  then obtain cs j where r: "start_cores ?v sps created 0 (unat n) [] = Inr (Some cs, j)"
    and s: "s = \<lparr>machine = ?v, cores = cs, phases = replicate (length cs) Starting\<rparr>"
    using assms by (auto simp: execute_start_def Let_def split: option.splits if_splits)
  from start_cores_eq [OF r]
  show "n \<le> 16" "machine s = ?v" "unat n \<le> length sps"
    "cores s = map (\<lambda>i. new_core (machine s) (sps ! i) i) [0..<unat n]"
    "phases s = replicate (unat n) Starting"
    by (simp_all add: s n)
qed

lemma execute_start_ok:
  assumes "execute_start vm n sps created tr = Inr (Started s)"
  shows "sys_ok (vm\<lparr>numProcessors := n, trace := tr\<rparr>) sps (unat n) s"
  using execute_start_cases [OF assms] by (simp add: sys_ok_def core_ok_def new_core_def)

lemma reachable_ok:
  "reachable s0 s \<Longrightarrow> sys_ok vm0 sps n s0 \<Longrightarrow> sys_ok vm0 sps n s"
proof (induction rule: reachable.induct)
  case (more s s')
  from more.IH [OF more.prems] have ok: "sys_ok vm0 sps n s" .
  from more.hyps(2) obtain i where "i < length (cores s)" "core_step i s = Inr s'"
    by (rule sys_stepE)
  moreover have "length (cores s) = n" using ok by (simp add: sys_ok_def)
  ultimately show ?case using core_step_ok [OF ok] by blast
qed

text \<open>C13: whatever the interleaving, every state of a started system keeps the configuration: each
  core has its own number and stack base, a running core has status 1 and a finished one a
  documented termination code, the machine's program bounds, entry point and symbols are those of
  the start, the number of processors is the one asked for, and no word outside the memory is
  touched.\<close>

theorem execute_invariant:
  assumes "execute_start vm n initialSP created tr = Inr (Started s0)" "reachable s0 s"
  shows "length (cores s) = unat n \<and> same_config (vm\<lparr>numProcessors := n, trace := tr\<rparr>) (machine s) \<and>
    (\<forall>i < unat n. pid (cores s ! i) = of_nat i \<and> stack (cores s ! i) = initialSP ! i \<and>
       (if phases s ! i = Finished then status (cores s ! i) \<in> term_codes else status (cores s ! i) = 1))"
  using reachable_ok [OF assms(2) execute_start_ok [OF assms(1)]]
  by (auto simp: sys_ok_def core_ok_def)

lemma execute_start_one:
  assumes "0 < length sps" "created 0"
  shows "execute_start vm 1 sps created tr = Inr (Started \<lparr>machine = vm\<lparr>numProcessors := 1, trace := tr\<rparr>,
     cores = [new_core (vm\<lparr>numProcessors := 1, trace := tr\<rparr>) (sps ! 0) 0], phases = [Starting]\<rparr>)"
  using assms by (simp add: execute_start_def aget_def Let_def)

text \<open>The witness: one processor that halts at once.\<close>

theorem execute_invariant_witness:
  "\<exists>s. reachable \<lparr>machine = ex_vm [0], cores = [new_core (ex_vm [0]) 100 0], phases = [Starting]\<rparr> s \<and>
     execute_finish s = Some [0] \<and> length (cores s) = 1 \<and> stack (cores s ! 0) = 100"
proof -
  let ?v = "ex_vm [0]"
  let ?s0 = "\<lparr>machine = ?v, cores = [new_core ?v 100 0], phases = [Starting]\<rparr>"
  have v: "?v\<lparr>numProcessors := 1, trace := False\<rparr> = ?v" by (simp add: ex_vm_def)
  have start: "execute_start ?v 1 [100] (\<lambda>_. True) False = Inr (Started ?s0)"
    using execute_start_one [of "[100]" "\<lambda>_. True" ?v False] by (simp add: v)
  define c where "c = setr (stop (fde_start (new_core ?v 100 0) ?v) 0) PC 1"
  define s where "s = \<lparr>machine = ?v, cores = [c], phases = [Finished]\<rparr>"
  have x: "execute_word (fde_start (new_core ?v 100 0) ?v) ?v 0 = Inr (c, ?v, False)"
    by (simp add: execute_word_def exec_switch_def vm_ins_def c_def fde_start_def
        NORMAL_TERMINATION_def ex_vm_def)
  have f: "fetch ?v (reg (fde_start (new_core ?v 100 0) ?v) PC) = Inr 0"
    by (simp add: fetch_def fde_start_def ex_vm_def MEM_SIZE_def)
  have "run_sched [0, 0, 0] ?s0 = Inr s"
    by (simp add: core_step_def f x s_def)
  then have r: "reachable ?s0 s" using run_sched_reachable [OF reachable.init] by blast
  have "status c = 0" by (simp add: c_def)
  then show ?thesis
    using r execute_invariant [OF start r] by (auto simp: execute_finish_def s_def)
qed

text \<open>C23: cores are isolated: a step of core \<open>i\<close> changes neither the registers, the status nor the
  phase of another core, and it changes memory only when it executes an instruction that writes
  memory and goes on.\<close>

theorem core_isolation:
  assumes "core_step i s = Inr s'" "i < length (cores s)" "length (phases s) = length (cores s)"
  shows "(\<forall>j. j \<noteq> i \<longrightarrow> cores s' ! j = cores s ! j \<and> phases s' ! j = phases s ! j) \<and>
    (machine s' \<noteq> machine s \<longrightarrow>
      (\<exists>w. phases s ! i = Executing w \<and> writes_memory w \<and> phases s' ! i = Fetching))"
proof -
  have "\<exists>w. phases s ! i = Executing w \<and> writes_memory w \<and> phases s' ! i = Fetching"
    if m: "machine s' \<noteq> machine s"
  proof (cases "phases s ! i")
    case (Executing w)
    then obtain c m ok where e: "execute_word (cores s ! i) (machine s) w = Inr (c, m, ok)"
      and s': "s' = \<lparr>machine = m, cores = (cores s)[i := c],
        phases = (phases s)[i := (if ok then Fetching else Finished)]\<rparr>"
      using assms(1) by (auto simp: core_step_def)
    obtain c' t where x: "exec_switch (cores s ! i) (machine s) (reg (cores s ! i) PC + 1) w = Inr (c', m, t, ok)"
      using e by (auto simp: execute_word_def)
    have "ok" using exec_switch_stopped x m s' by fastforce
    moreover have "writes_memory w" using exec_switch_reads [OF x] m s' by auto
    ultimately show ?thesis using Executing assms by (simp add: s')
  qed (use assms m in \<open>auto simp: core_step_def\<close>)
  then show ?thesis using core_step_frame [OF assms(1) assms(3) assms(2)] by blast
qed

theorem core_isolation_witness:
  "\<exists>s s'. core_step 0 s = Inr s' \<and> length (cores s) = 2 \<and> cores s' ! 1 = cores s ! 1"
proof -
  let ?v = "ex_vm [0]"
  let ?s = "\<lparr>machine = ?v, cores = [new_core ?v 100 0, new_core ?v 90 1], phases = [Starting, Starting]\<rparr>"
  obtain s' where st: "core_step 0 ?s = Inr s'" by (simp add: core_step_def)
  have "cores s' ! 1 = cores ?s ! 1" using core_isolation [OF st] by simp
  with st show ?thesis by (intro exI [of _ ?s] exI [of _ s']) simp
qed

section \<open>A core left to run\<close>

lemma fde_loop_reach:
  "fde_loop fuel (cores s ! i) (machine s) = Inr (Some (c', m')) \<Longrightarrow> reachable s0 s \<Longrightarrow> i < length (cores s) \<Longrightarrow>
     length (phases s) = length (cores s) \<Longrightarrow> phases s ! i = Fetching \<Longrightarrow>
     reachable s0 \<lparr>machine = m', cores = (cores s)[i := c'], phases = (phases s)[i := Finished]\<rparr>"
proof (induction fuel arbitrary: s)
  case (Suc fuel)
  note len = Suc.prems(3,4)
  from Suc.prems(1) obtain w c1 m1 ok where f: "fetch (machine s) (reg (cores s ! i) PC) = Inr w"
    and e: "execute_word (cores s ! i) (machine s) w = Inr (c1, m1, ok)"
    and rest: "if ok then fde_loop fuel c1 m1 = Inr (Some (c', m')) else (c1, m1) = (c', m')"
    by (auto simp: executeInstruction_def split: if_splits)
  let ?s1 = "s\<lparr>phases := (phases s)[i := Executing w]\<rparr>"
  let ?s2 = "\<lparr>machine = m1, cores = (cores s)[i := c1], phases = (phases s)[i := (if ok then Fetching else Finished)]\<rparr>"
  have "sys_step s ?s1" by (rule sys_step.intros [of i]) (use Suc.prems f in \<open>simp_all add: core_step_def\<close>)
  then have r1: "reachable s0 ?s1" by (rule reachable.more [OF Suc.prems(2)])
  have "sys_step ?s1 ?s2" by (rule sys_step.intros [of i]) (use len e in \<open>simp_all add: core_step_def\<close>)
  then have r2: "reachable s0 ?s2" by (rule reachable.more [OF r1])
  show ?case
  proof (cases ok)
    case True
    then show ?thesis using Suc.IH [of ?s2] r2 rest len by simp
  qed (use r2 rest in simp)
qed simp

lemma fetchDecodeExecute_reach:
  assumes f: "fetchDecodeExecute fuel (cores s ! i) (machine s) = Inr (Some (c', m'))" and r: "reachable s0 s"
    and i: "i < length (cores s)" "length (phases s) = length (cores s)" "phases s ! i = Starting"
  shows "reachable s0 \<lparr>machine = m', cores = (cores s)[i := c'], phases = (phases s)[i := Finished]\<rparr>"
proof -
  let ?s = "s\<lparr>cores := (cores s)[i := fde_start (cores s ! i) (machine s)], phases := (phases s)[i := Fetching]\<rparr>"
  have "sys_step s ?s" by (rule sys_step.intros [of i]) (use i in \<open>simp_all add: core_step_def\<close>)
  then have "reachable s0 ?s" by (rule reachable.more [OF r])
  then show ?thesis using fde_loop_reach [of fuel ?s i c' m' s0] f i by (simp add: fetchDecodeExecute_def)
qed

section \<open>One processor\<close>

abbreviation one_core :: "vm \<Rightarrow> core \<Rightarrow> phase \<Rightarrow> sys" where
  "one_core m c p \<equiv> \<lparr>machine = m, cores = [c], phases = [p]\<rparr>"

lemma one_core_step:
  assumes "p \<noteq> Finished" "core_step 0 (one_core m c p) = Inr s'" "reachable s0 (one_core m c p)"
  shows "reachable s0 s'"
proof -
  have "sys_step (one_core m c p) s'"
    by (rule sys_step.intros [of 0]) (use assms in simp_all)
  with assms(3) show ?thesis by (rule reachable.more)
qed

lemma fde_loop_reachable:
  "fde_loop fuel c m = Inr (Some (c', m')) \<Longrightarrow> reachable s0 (one_core m c Fetching) \<Longrightarrow>
     reachable s0 (one_core m' c' Finished)"
  using fde_loop_reach [of fuel "one_core m c Fetching" 0 c' m' s0] by simp

text \<open>Where a system of one core is in the loop of its thread.\<close>

definition in_loop :: "core \<Rightarrow> vm \<Rightarrow> sys \<Rightarrow> bool" where
  "in_loop c0 m0 s \<longleftrightarrow> (\<exists>m c p. s = one_core m c p \<and>
     (case p of
        Starting \<Rightarrow> c = c0 \<and> m = m0
      | Fetching \<Rightarrow> \<exists>k. \<forall>fuel. fetchDecodeExecute (k + fuel) c0 m0 = fde_loop fuel c m
      | Executing w \<Rightarrow> fetch m (reg c PC) = Inr w \<and>
          (\<exists>k. \<forall>fuel. fetchDecodeExecute (k + fuel) c0 m0 = fde_loop fuel c m)
      | Finished \<Rightarrow> \<exists>k. fetchDecodeExecute k c0 m0 = Inr (Some (c, m))))"

lemma in_loop_Fetching:
  "\<forall>fuel. fetchDecodeExecute (k + fuel) c0 m0 = fde_loop fuel c m \<Longrightarrow> in_loop c0 m0 (one_core m c Fetching)"
  by (simp add: in_loop_def) (rule exI)

lemma in_loop_step:
  assumes s: "in_loop c0 m0 s" and st: "sys_step s s'"
  shows "in_loop c0 m0 s'"
proof -
  obtain m c p where e: "s = one_core m c p" using s by (auto simp: in_loop_def)
  from st have "core_step 0 s = Inr s'" "p \<noteq> Finished" by (auto elim!: sys_stepE simp: e)
  note st = this
  show ?thesis
  proof (cases p)
    case Starting
    then have "\<forall>fuel. fetchDecodeExecute (0 + fuel) c0 m0 = fde_loop fuel (fde_start c m) m"
      using s by (simp add: in_loop_def e fetchDecodeExecute_def)
    then show ?thesis using st Starting by (simp only: in_loop_def e) (auto simp: core_step_def intro!: exI [of _ 0])
  next
    case Fetching
    then obtain w where "fetch m (reg c PC) = Inr w" "s' = one_core m c (Executing w)"
      using st by (auto simp: e core_step_def)
    then show ?thesis using Fetching s by (simp add: in_loop_def e)
  next
    case (Executing w)
    then obtain c' m' ok where x: "execute_word c m w = Inr (c', m', ok)"
      and s': "s' = one_core m' c' (if ok then Fetching else Finished)"
      using st by (auto simp: e core_step_def)
    obtain k where f: "fetch m (reg c PC) = Inr w"
      and k: "\<And>fuel. fetchDecodeExecute (k + fuel) c0 m0 = fde_loop fuel c m"
      using s Executing by (auto simp: in_loop_def e)
    have next_loop: "fetchDecodeExecute (k + Suc fuel) c0 m0 =
        (if ok then fde_loop fuel c' m' else Inr (Some (c', m')))" for fuel
      unfolding k by (simp add: executeInstruction_def f x)
    show ?thesis
    proof (cases ok)
      case True
      then have "\<forall>fuel. fetchDecodeExecute (Suc k + fuel) c0 m0 = fde_loop fuel c' m'"
        using next_loop by simp
      then show ?thesis using True by (simp only: s' if_True) (rule in_loop_Fetching)
    next
      case False
      then show ?thesis using next_loop by (simp only: s' in_loop_def) (auto intro: exI [of _ "k + Suc 0"])
    qed
  qed (use st in simp)
qed

lemma in_loop_reachable: "reachable s0 s \<Longrightarrow> in_loop c0 m0 s0 \<Longrightarrow> in_loop c0 m0 s"
  by (induction rule: reachable.induct) (auto intro: in_loop_step)



end
