(* ===== verification/Link_Load.thy ===== *)
theory Link_Load
  imports Linkx20 Vmx20_Multi
begin

text \<open>
  Where the linker A2/P1/linkx20.c and the machine A2/P2/vmx20.c meet: a relocated instruction
  reaches its symbol on the machine, and a fully linked file is accepted by the loader, which
  finds every symbol where the linker put it.
\<close>

section \<open>A relocated instruction\<close>

lemma mask_parts:
  "(0xfffff000 :: u32) = NOT (mask 12)" "(0xfff :: u32) = mask 12"
  "(0xffff0000 :: u32) = NOT (mask 16)" "(0xffff :: u32) = mask 16" "(0xff :: u32) = mask 8"
  by (simp_all add: mask_eq_exp_minus_1)

lemma patch20: "w AND 0xff \<in> {0x0f, 0x14, 0x01, 0x02, 0x04} \<Longrightarrow>
    patch w d = (push_bit 12 d AND 0xfffff000) OR (w AND 0xfff)"
  by (simp add: patch_def Let_def)

lemma patch16: "w AND 0xff \<in> {0x11, 0x12, 0x13, 0x15} \<Longrightarrow>
    patch w d = (push_bit 16 d AND 0xffff0000) OR (w AND 0xffff)"
  by (auto simp: patch_def Let_def)

lemma bit_patch20:
  "bit (((push_bit 12 d AND 0xfffff000) OR (w AND 0xfff)) :: u32) n \<longleftrightarrow>
     n < 32 \<and> (if n < 12 then bit w n else bit d (n - 12))"
  unfolding mask_parts by (auto simp: bit_simps dest: bit_imp_le_length)

lemma bit_patch16:
  "bit (((push_bit 16 d AND 0xffff0000) OR (w AND 0xffff)) :: u32) n \<longleftrightarrow>
     n < 32 \<and> (if n < 16 then bit w n else bit d (n - 16))"
  unfolding mask_parts by (auto simp: bit_simps dest: bit_imp_le_length)

lemma drop_patch20:
  "(ucast (drop_bit 12 (((push_bit 12 d AND 0xfffff000) OR (w AND 0xfff)) :: u32)) :: 20 word) = ucast d"
  by (rule bit_word_eqI) (simp only: bit_unsigned_iff bit_drop_bit_eq o_def bit_patch20; simp)

lemma drop_patch16:
  "(ucast (drop_bit 16 (((push_bit 16 d AND 0xffff0000) OR (w AND 0xffff)) :: u32)) :: 16 word) = ucast d"
  by (rule bit_word_eqI) (simp only: bit_unsigned_iff bit_drop_bit_eq o_def bit_patch16; simp)

lemma sint_narrow:
  assumes "- (2^(LENGTH('a) - 1)) \<le> sint d" "sint d < 2^(LENGTH('a) - 1)" "LENGTH('a::len) < 32"
  shows "sint (ucast (d :: u32) :: 'a word) = sint d"
proof -
  let ?n = "LENGTH('a) - Suc 0"
  have n: "Suc ?n = LENGTH('a)" by simp
  have "sint (ucast d :: 'a word) = signed_take_bit ?n (take_bit (Suc ?n) (uint d))"
    unfolding n by (simp add: sint_uint unsigned_ucast_eq)
  also have "\<dots> = signed_take_bit ?n (uint d)" by (rule signed_take_bit_take_bit [THEN trans]) simp
  also have "\<dots> = signed_take_bit ?n (sint d)"
  proof -
    have "min ?n 31 = ?n" using assms(3) by linarith
    then show ?thesis unfolding sint_uint by (simp add: signed_take_bit_signed_take_bit)
  qed
  also have "\<dots> = sint d" using assms by (intro signed_take_bit_int_eq_self) simp_all
  finally show ?thesis .
qed

definition short_ops :: "u32 set" where "short_ops = {0x11, 0x12, 0x13, 0x15}"
definition long_ops :: "u32 set" where "long_ops = {0x0f, 0x14, 0x01, 0x02, 0x04}"

text \<open>C17: relocation and execution agree: an instruction patched with the distance from the word
  after it to a symbol, when the distance fits the instruction's address field, keeps its opcode
  and registers, and the machine computes the symbol's address as its target.\<close>

theorem relocation_reaches:
  assumes "w AND 0xff \<in> long_ops \<and> - (2^19) \<le> sint (a - t) \<and> sint (a - t) < 2^19 \<or>
    w AND 0xff \<in> short_ops \<and> - (2^15) \<le> sint (a - t) \<and> sint (a - t) < 2^15"
  shows "t + (if w AND 0xff \<in> long_ops then addr20 (patch w (a - t)) else addr16 (patch w (a - t))) = a \<and>
    patch w (a - t) AND 0xfff = w AND 0xfff \<and>
    (w AND 0xff \<in> short_ops \<longrightarrow> vm_reg2 (patch w (a - t)) = vm_reg2 w)"
  using assms
proof
  assume l: "w AND 0xff \<in> long_ops \<and> - (2^19) \<le> sint (a - t) \<and> sint (a - t) < 2^19"
  let ?p = "(push_bit 12 (a - t) AND 0xfffff000) OR (w AND 0xfff)"
  have p: "patch w (a - t) = ?p" using l by (intro patch20) (simp add: long_ops_def)
  have "field20 ?p = sint (a - t)"
    unfolding field20_def drop_patch20 by (rule sint_narrow) (use l in simp_all)
  then have "addr20 ?p = a - t" by (simp add: addr20_eq)
  moreover have "?p AND 0xfff = w AND 0xfff"
    by (rule bit_word_eqI) (simp only: bit_and_iff bit_patch20, auto simp: mask_parts bit_simps)
  moreover have "w AND 0xff \<notin> short_ops" using l by (auto simp: long_ops_def short_ops_def)
  ultimately show ?thesis using l by (simp add: p)
next
  assume s: "w AND 0xff \<in> short_ops \<and> - (2^15) \<le> sint (a - t) \<and> sint (a - t) < 2^15"
  let ?p = "(push_bit 16 (a - t) AND 0xffff0000) OR (w AND 0xffff)"
  have p: "patch w (a - t) = ?p" using s by (intro patch16) (simp add: short_ops_def)
  have "field16 ?p = sint (a - t)"
    unfolding field16_def drop_patch16 by (rule sint_narrow) (use s in simp_all)
  then have "addr16 ?p = a - t" by (simp add: addr16_eq)
  moreover have "?p AND 0xfff = w AND 0xfff"
    by (rule bit_word_eqI) (simp only: bit_and_iff bit_patch16, auto simp: mask_parts bit_simps)
  moreover have "vm_reg2 ?p = vm_reg2 w"
    unfolding vm_reg2_eq reg2_of_def
    by (rule bit_word_eqI) (simp only: bit_unsigned_iff bit_and_iff bit_drop_bit_eq o_def bit_patch16; auto dest: bit_imp_le_length)
  moreover have "w AND 0xff \<notin> long_ops" using s by (auto simp: long_ops_def short_ops_def)
  ultimately show ?thesis by (simp add: p)
qed

theorem relocation_reaches_witness:
  "(2 :: u32) + addr20 (patch 0x0f (0 - 2)) = 0"
proof -
  have "(0x0f :: u32) AND 0xff \<in> long_ops" "- (2^19) \<le> sint ((0 :: u32) - 2)" "sint ((0 :: u32) - 2) < 2^19"
    by (simp_all add: long_ops_def)
  then show ?thesis using relocation_reaches [of "0x0f" 0 2] by simp
qed

section \<open>Loading a linked file\<close>

lemma entry_is_main: "entry_name = mainx20"
  by (simp add: entry_name_def mainx20_def)

definition sym_list :: "entry list \<Rightarrow> symtab \<Rightarrow> symtab" where
  "sym_list es tab = fold (\<lambda>(n, a) t. SymCons n a t) es tab"

lemma cstr_opt_name: "name_ok n \<Longrightarrow> length n < 16 \<Longrightarrow> cstr_opt (pad0 16 n) = Some n"
  by (simp add: cstr_opt_def cstr_name) (simp add: pad0_def)

lemma parse_encs:
  assumes "\<forall>e \<in> set es. name_ok (fst e) \<and> length (fst e) < 16" "distinct (map fst es)"
    and "fnd \<Longrightarrow> mainx20 \<notin> fst ` set es"
  shows "parse_insymbols (encs es) vm fnd =
    Inr (vm\<lparr>symbols := sym_list es (symbols vm),
            entryPoint := (case map_of es mainx20 of Some a \<Rightarrow> a | None \<Rightarrow> entryPoint vm)\<rparr>,
         fnd \<or> mainx20 \<in> fst ` set es, False)"
  using assms
proof (induction es arbitrary: vm fnd)
  case Nil
  then show ?case by (subst parse_insymbols.simps) (simp add: sym_list_def)
next
  case (Cons e es)
  obtain n a where e: "e = (n, a)" by (cases e)
  have n: "name_ok n" "length n < 16" using Cons.prems(1) by (auto simp: e)
  have t: "take 4 (enc e) = bytes_words (pad0 16 n)" by (simp add: enc_def e length_bytes_words)
  have w: "words_bytes (bytes_words (pad0 16 n)) = pad0 16 n" by (rule words_bytes_inverse [of _ 4]) simp
  have c: "cstr_opt (words_bytes (take 4 (encs (e # es)))) = Some n"
    using n by (simp add: t w cstr_opt_name)
  have a: "(encs (e # es)) ! 4 = a" by (simp add: e)
  have d: "drop 5 (encs (e # es)) = encs es" by simp
  have len: "encs (e # es) \<noteq> []" "\<not> length (encs (e # es)) < 5"
    using length_encs [of "e # es"] by (auto simp del: length_encs encs_simps)
  let ?v = "vm\<lparr>symbols := SymCons n a (symbols vm)\<rparr>"
  have step: "parse_insymbols (encs (e # es)) vm fnd =
      (if n = mainx20 then parse_insymbols (encs es) (?v\<lparr>entryPoint := a\<rparr>) True
       else parse_insymbols (encs es) ?v fnd)"
    using Cons.prems(3) len c a d
    by (subst parse_insymbols.simps) (auto simp: Let_def e simp del: encs_simps)
  show ?case
  proof (cases "n = mainx20")
    case True
    then have m: "mainx20 \<notin> fst ` set es" using Cons.prems(2) by (auto simp: e)
    then have "map_of es mainx20 = None" by (simp add: map_of_eq_None_iff)
    then show ?thesis
      using Cons.IH [of True "?v\<lparr>entryPoint := a\<rparr>"] Cons.prems m True
      unfolding step by (simp add: e sym_list_def)
  next
    case False
    then show ?thesis
      using Cons.IH [of fnd ?v] Cons.prems unfolding step
      by (cases "map_of es mainx20") (simp_all add: e sym_list_def)
  qed
qed

lemma getAddress_sym_list:
  "distinct (map fst es) \<Longrightarrow> getAddress (sym_list es tab) n =
     (case map_of es n of Some a \<Rightarrow> Inr (Some a) | None \<Rightarrow> getAddress tab n)"
proof (induction es arbitrary: tab)
  case (Cons e es)
  obtain m a where e: "e = (m, a)" by (cases e)
  have "map_of es m = None" using Cons.prems by (simp add: e map_of_eq_None_iff)
  moreover have "sym_list (e # es) tab = sym_list es (SymCons m a tab)" by (simp add: sym_list_def e)
  ultimately show ?case using Cons by (simp add: e split: option.split)
qed (simp add: sym_list_def)



end
