(* ===== verification/Vmx20_Spinlock.thy ===== *)
theory Vmx20_Spinlock
  imports Vmx20_Multi
begin

text \<open>
  The program A2/P2/test/test_counter_lock.asm on the multiprocessor: up to sixteen cores add 10000
  each to a counter that a spin lock protects.  The theorem says that the lock works: when all
  cores have halted the counter is 10000 times their number, whatever the interleaving.
\<close>

section \<open>The program\<close>

text \<open>Its words as the assembler leaves them: \<open>count\<close> at 0, \<open>lock\<close> at 1, \<open>mainx20\<close> at 2, \<open>loop\<close> at 6,
  \<open>add\<close> at 11 and \<open>end\<close> at 18.\<close>

definition lock_prog :: "u32 list" where
  "lock_prog = [0, 0xffffffff, 0x02710403, 0x00001103, 0x00000a16, 0x00000014, 0xfffff803, 0xfffff903,
     0xfff8a915, 0x00019813, 0xffffb014, 0xffff4001, 0x0000100b, 0xffff2002, 0x0000140c, 0xfffff903,
     0xffff0902, 0xfff45412, 0]"

lemma field20_eval: "field20 w = sint (signed_drop_bit 12 w)"
  by (simp add: sint_shift12)

lemma field16_eval: "field16 w = sint (signed_drop_bit 16 w)"
  by (simp add: sint_shift16)

lemma lock_addr:
  "addr20 0x02710403 = 10000" "addr20 0x00001103 = 1" "addr20 0x00000014 = 0" "addr20 0xfffff803 = - 1"
  "addr20 0xfffff903 = - 1" "addr16 0xfff8a915 = - 8" "addr16 0x00019813 = 1" "addr20 0xffffb014 = - 5"
  "addr20 0xffff4001 = - 12" "addr20 0xffff2002 = - 14" "addr20 0xffff0902 = - 16" "addr16 0xfff45412 = - 12"
  by (simp_all add: addr20_eq addr16_eq field20_def field16_def)

lemma lock_regs:
  "vm_reg1 0x02710403 = 4" "vm_reg1 0x00001103 = 1" "vm_reg1 0x00000a16 = 10" "vm_reg1 0xfffff803 = 8"
  "vm_reg1 0xfffff903 = 9" "vm_reg1 0xfff8a915 = 9" "vm_reg2 0xfff8a915 = 10" "vm_reg1 0x00019813 = 8"
  "vm_reg2 0x00019813 = 9" "vm_reg1 0xffff4001 = 0" "vm_reg1 0x0000100b = 0" "vm_reg2 0x0000100b = 1"
  "vm_reg1 0xffff2002 = 0" "vm_reg1 0x0000140c = 4" "vm_reg2 0x0000140c = 1" "vm_reg1 0xffff0902 = 9"
  "vm_reg1 0xfff45412 = 4" "vm_reg2 0xfff45412 = 5"
  by (simp_all add: vm_reg1_eq vm_reg2_eq reg1_of_def reg2_of_def)

lemma lock_exec:
  "reg c PC = 2 \<Longrightarrow> execute_word c m 0x02710403 = Inr (setr (setr c 4 10000) PC 3, m, True)"
  "reg c PC = 3 \<Longrightarrow> execute_word c m 0x00001103 = Inr (setr (setr c 1 1) PC 4, m, True)"
  "reg c PC = 4 \<Longrightarrow> execute_word c m 0x00000a16 = Inr (setr (setr c 10 (pid c)) PC 5, m, True)"
  "reg c PC = 5 \<Longrightarrow> execute_word c m 0x00000014 = Inr (setr c PC 6, m, True)"
  "reg c PC = 6 \<Longrightarrow> execute_word c m 0xfffff803 = Inr (setr (setr c 8 (- 1)) PC 7, m, True)"
  "reg c PC = 7 \<Longrightarrow> execute_word c m 0xfffff903 = Inr (setr (setr c 9 (- 1)) PC 8, m, True)"
  "reg c PC = 8 \<Longrightarrow> execute_word c m 0xfff8a915 =
     (if reg c 9 = memory m 1
      then Inr (setr c PC 9, m\<lparr>memory := (memory m)(1 := reg c 10)\<rparr>, True)
      else Inr (setr (setr c 9 (memory m 1)) PC 9, m, True))"
  "reg c PC = 9 \<Longrightarrow> execute_word c m 0x00019813 = Inr (setr c PC (if reg c 8 = reg c 9 then 11 else 10), m, True)"
  "reg c PC = 10 \<Longrightarrow> execute_word c m 0xffffb014 = Inr (setr c PC 6, m, True)"
  "reg c PC = 11 \<Longrightarrow> execute_word c m 0xffff4001 = Inr (setr (setr c 0 (memory m 0)) PC 12, m, True)"
  "reg c PC = 12 \<Longrightarrow> execute_word c m 0x0000100b = Inr (setr (setr c 0 (reg c 0 + reg c 1)) PC 13, m, True)"
  "reg c PC = 13 \<Longrightarrow> execute_word c m 0xffff2002 =
     Inr (setr c PC 14, m\<lparr>memory := (memory m)(0 := reg c 0)\<rparr>, True)"
  "reg c PC = 14 \<Longrightarrow> execute_word c m 0x0000140c = Inr (setr (setr c 4 (reg c 4 - reg c 1)) PC 15, m, True)"
  "reg c PC = 15 \<Longrightarrow> execute_word c m 0xfffff903 = Inr (setr (setr c 9 (- 1)) PC 16, m, True)"
  "reg c PC = 16 \<Longrightarrow> execute_word c m 0xffff0902 =
     Inr (setr c PC 17, m\<lparr>memory := (memory m)(1 := reg c 9)\<rparr>, True)"
  "reg c PC = 17 \<Longrightarrow> execute_word c m 0xfff45412 =
     Inr (setr c PC (if sint (reg c 5) < sint (reg c 4) then 6 else 18), m, True)"
  "reg c PC = 18 \<Longrightarrow> execute_word c m 0 = Inr (setr (stop c NORMAL_TERMINATION) PC 19, m, False)"
  by (simp_all add: execute_word_def exec_switch_def vm_ins_def exec_ldimm_def exec_getpid_def exec_jmp_def
      exec_cmpxchg_def exec_beq_def exec_load_def exec_addi_def exec_store_def exec_subi_def exec_bgt_def
      Let_def lock_addr lock_regs getWord_in putWord_in MEM_SIZE_def)


section \<open>The invariant of one core\<close>

text \<open>A core is in the critical section between a successful \<open>cmpxchg\<close> and the store that frees the
  lock; \<open>done\<close> counts the additions it has stored.\<close>

definition holder :: "core \<Rightarrow> bool" where
  "holder c \<longleftrightarrow> 11 \<le> reg c PC \<and> reg c PC \<le> 16 \<or> reg c PC = 9 \<and> reg c 9 = - 1"

definition additions :: "core \<Rightarrow> nat" where
  "additions c = (if reg c PC \<le> 2 then 0
     else if reg c PC = 14 then 10001 - unat (reg c 4) else 10000 - unat (reg c 4))"

definition regs_ok :: "nat \<Rightarrow> core \<Rightarrow> bool" where
  "regs_ok i c \<longleftrightarrow> pid c = of_nat i \<and> reg c 5 = 0 \<and>
     (3 \<le> reg c PC \<longrightarrow> reg c 4 \<le> 10000) \<and> (3 \<le> reg c PC \<and> reg c PC \<le> 14 \<longrightarrow> 0 < reg c 4) \<and>
     (15 \<le> reg c PC \<longrightarrow> reg c 4 < 10000) \<and> (18 \<le> reg c PC \<longrightarrow> reg c 4 = 0) \<and>
     (4 \<le> reg c PC \<longrightarrow> reg c 1 = 1) \<and> (5 \<le> reg c PC \<longrightarrow> reg c 10 = of_nat i) \<and>
     (7 \<le> reg c PC \<and> reg c PC \<le> 9 \<longrightarrow> reg c 8 = - 1) \<and>
     (reg c PC = 8 \<or> reg c PC = 16 \<longrightarrow> reg c 9 = - 1)"

definition phase_ok :: "core \<Rightarrow> phase \<Rightarrow> bool" where
  "phase_ok c p = (case p of
     Starting \<Rightarrow> reg c PC = 0
   | Fetching \<Rightarrow> 2 \<le> reg c PC \<and> reg c PC \<le> 18
   | Executing w \<Rightarrow> 2 \<le> reg c PC \<and> reg c PC \<le> 18 \<and> w = lock_prog ! unat (reg c PC)
   | Finished \<Rightarrow> reg c PC = 19 \<and> status c = 0)"

definition data_ok :: "core \<Rightarrow> u32 \<Rightarrow> bool" where
  "data_ok c count \<longleftrightarrow> (reg c PC = 12 \<longrightarrow> reg c 0 = count) \<and> (reg c PC = 13 \<longrightarrow> reg c 0 = count + 1)"

text \<open>What one instruction does to the core, the counter and the lock.\<close>

definition lock_effect :: "nat \<Rightarrow> core \<Rightarrow> vm \<Rightarrow> core \<Rightarrow> vm \<Rightarrow> bool \<Rightarrow> bool" where
  "lock_effect i c m c' m' ok \<longleftrightarrow>
     regs_ok i c' \<and> phase_ok c' (if ok then Fetching else Finished) \<and> data_ok c' (memory m' 0) \<and>
     (\<forall>a. 2 \<le> a \<longrightarrow> memory m' a = memory m a) \<and> entryPoint m' = entryPoint m \<and>
     additions c \<le> additions c' \<and>
     memory m' 0 = memory m 0 + of_nat (additions c' - additions c) \<and>
     (\<not> holder c \<longrightarrow> memory m' 0 = memory m 0) \<and>
     (memory m' 1 = memory m 1 \<and> holder c' = holder c \<or>
      memory m 1 = - 1 \<and> \<not> holder c \<and> holder c' \<and> memory m' 1 = of_nat i \<or>
      holder c \<and> \<not> holder c' \<and> memory m' 1 = - 1)"

lemma pc_cases:
  assumes "2 \<le> (x :: u32)" "x \<le> 18"
  shows "x \<in> {2, 3, 4, 5, 6, 7, 8, 9, 10, 11, 12, 13, 14, 15, 16, 17, 18}"
proof -
  define n where "n = unat x"
  have x: "x = of_nat n" by (simp add: n_def)
  have "2 \<le> n" "n \<le> 18" using assms by (simp_all add: word_le_nat_alt n_def)
  then have "n \<in> {2, 3, 4, 5, 6, 7, 8, 9, 10, 11, 12, 13, 14, 15, 16, 17, 18}"
    unfolding insert_iff empty_iff by presburger
  then show ?thesis by (auto simp: x)
qed

lemma pos_sint: "(r :: u32) < 10000 \<Longrightarrow> (0 < sint r) = (r \<noteq> 0)"
proof -
  assume "r < 10000"
  then have u: "uint r < 10000" by (simp add: word_less_def)
  then have "sint r = uint r"
    unfolding sint_uint
    by (intro signed_take_bit_int_eq_self order_trans [OF _ uint_ge_0]) simp_all
  moreover have "0 < uint r \<longleftrightarrow> r \<noteq> 0"
    using uint_ge_0 [of r] uint_0_iff [of r] by linarith
  ultimately show ?thesis by simp
qed

lemma r4_dec:
  assumes "0 < r" "(r :: u32) \<le> 10000"
  shows "r - 1 < 10000" "unat (r - 1) = unat r - 1" "0 < unat r" "unat r \<le> 10000"
proof -
  show u: "0 < unat r" "unat r \<le> 10000" using assms by (simp_all add: word_less_nat_alt word_le_nat_alt)
  then show "unat (r - 1) = unat r - 1" by (simp add: unat_sub word_le_nat_alt)
  then show "r - 1 < 10000" using u by (simp add: word_less_nat_alt)
qed

lemmas lock_defs = lock_effect_def regs_ok_def phase_ok_def data_ok_def holder_def additions_def

lemma lock_prog_nth:
  "lock_prog ! 2 = 0x02710403" "lock_prog ! 3 = 0x00001103" "lock_prog ! 4 = 0x00000a16"
  "lock_prog ! 5 = 0x00000014" "lock_prog ! 6 = 0xfffff803" "lock_prog ! 7 = 0xfffff903"
  "lock_prog ! 8 = 0xfff8a915" "lock_prog ! 9 = 0x00019813" "lock_prog ! 10 = 0xffffb014"
  "lock_prog ! 11 = 0xffff4001" "lock_prog ! 12 = 0x0000100b" "lock_prog ! 13 = 0xffff2002"
  "lock_prog ! 14 = 0x0000140c" "lock_prog ! 15 = 0xfffff903" "lock_prog ! 16 = 0xffff0902"
  "lock_prog ! 17 = 0xfff45412" "lock_prog ! 18 = 0"
  by (simp_all add: lock_prog_def)

lemma not_2_le_1 [simp]: "\<not> 2 \<le> (1 :: u32)"
  by (simp add: word_le_nat_alt)

lemma not_PC [simp]: "0 \<noteq> PC" "1 \<noteq> PC" "4 \<noteq> PC" "5 \<noteq> PC" "8 \<noteq> PC" "9 \<noteq> PC" "10 \<noteq> PC"
  "PC \<noteq> 0" "PC \<noteq> 1" "PC \<noteq> 4" "PC \<noteq> 5" "PC \<noteq> 8" "PC \<noteq> 9" "PC \<noteq> 10"
  by (simp_all add: PC_def)

lemma eff_2:
  assumes "reg c PC = 2" "regs_ok i c" "data_ok c (memory m 0)" "i < 16"
  and e: "execute_word c m (lock_prog ! 2) = Inr (c', m', ok)"
  shows "lock_effect i c m c' m' ok"
  using assms unfolding lock_prog_nth
  by (simp add: lock_exec) (clarsimp simp: lock_defs NORMAL_TERMINATION_def)

lemma eff_3:
  assumes "reg c PC = 3" "regs_ok i c" "data_ok c (memory m 0)" "i < 16"
  and e: "execute_word c m (lock_prog ! 3) = Inr (c', m', ok)"
  shows "lock_effect i c m c' m' ok"
  using assms unfolding lock_prog_nth
  by (simp add: lock_exec) (clarsimp simp: lock_defs NORMAL_TERMINATION_def)

lemma eff_4:
  assumes "reg c PC = 4" "regs_ok i c" "data_ok c (memory m 0)" "i < 16"
  and e: "execute_word c m (lock_prog ! 4) = Inr (c', m', ok)"
  shows "lock_effect i c m c' m' ok"
  using assms unfolding lock_prog_nth
  by (simp add: lock_exec) (clarsimp simp: lock_defs NORMAL_TERMINATION_def)

lemma eff_5:
  assumes "reg c PC = 5" "regs_ok i c" "data_ok c (memory m 0)" "i < 16"
  and e: "execute_word c m (lock_prog ! 5) = Inr (c', m', ok)"
  shows "lock_effect i c m c' m' ok"
  using assms unfolding lock_prog_nth
  by (simp add: lock_exec) (clarsimp simp: lock_defs NORMAL_TERMINATION_def)

lemma eff_6:
  assumes "reg c PC = 6" "regs_ok i c" "data_ok c (memory m 0)" "i < 16"
  and e: "execute_word c m (lock_prog ! 6) = Inr (c', m', ok)"
  shows "lock_effect i c m c' m' ok"
  using assms unfolding lock_prog_nth
  by (simp add: lock_exec) (clarsimp simp: lock_defs NORMAL_TERMINATION_def)

lemma eff_7:
  assumes "reg c PC = 7" "regs_ok i c" "data_ok c (memory m 0)" "i < 16"
  and e: "execute_word c m (lock_prog ! 7) = Inr (c', m', ok)"
  shows "lock_effect i c m c' m' ok"
  using assms unfolding lock_prog_nth
  by (simp add: lock_exec) (clarsimp simp: lock_defs NORMAL_TERMINATION_def)

lemma eff_9:
  assumes "reg c PC = 9" "regs_ok i c" "data_ok c (memory m 0)" "i < 16"
  and e: "execute_word c m (lock_prog ! 9) = Inr (c', m', ok)"
  shows "lock_effect i c m c' m' ok"
proof -
  have "reg c 8 = - 1" using assms by (simp add: regs_ok_def)
  then have "c' = setr c PC (if reg c 9 = - 1 then 11 else 10)" "m' = m" "ok"
    using e assms(1) unfolding lock_prog_nth by (auto simp: lock_exec)
  then show ?thesis using assms by (cases "reg c 9 = - 1") (simp_all add: lock_defs)
qed

lemma eff_10:
  assumes "reg c PC = 10" "regs_ok i c" "data_ok c (memory m 0)" "i < 16"
  and e: "execute_word c m (lock_prog ! 10) = Inr (c', m', ok)"
  shows "lock_effect i c m c' m' ok"
  using assms unfolding lock_prog_nth
  by (simp add: lock_exec) (clarsimp simp: lock_defs NORMAL_TERMINATION_def)

lemma eff_11:
  assumes "reg c PC = 11" "regs_ok i c" "data_ok c (memory m 0)" "i < 16"
  and e: "execute_word c m (lock_prog ! 11) = Inr (c', m', ok)"
  shows "lock_effect i c m c' m' ok"
  using assms unfolding lock_prog_nth
  by (simp add: lock_exec) (clarsimp simp: lock_defs NORMAL_TERMINATION_def)

lemma eff_12:
  assumes "reg c PC = 12" "regs_ok i c" "data_ok c (memory m 0)" "i < 16"
  and e: "execute_word c m (lock_prog ! 12) = Inr (c', m', ok)"
  shows "lock_effect i c m c' m' ok"
  using assms unfolding lock_prog_nth
  by (simp add: lock_exec) (clarsimp simp: lock_defs NORMAL_TERMINATION_def)

lemma eff_15:
  assumes "reg c PC = 15" "regs_ok i c" "data_ok c (memory m 0)" "i < 16"
  and e: "execute_word c m (lock_prog ! 15) = Inr (c', m', ok)"
  shows "lock_effect i c m c' m' ok"
  using assms unfolding lock_prog_nth
  by (simp add: lock_exec) (clarsimp simp: lock_defs NORMAL_TERMINATION_def)

lemma eff_18:
  assumes "reg c PC = 18" "regs_ok i c" "data_ok c (memory m 0)" "i < 16"
  and e: "execute_word c m (lock_prog ! 18) = Inr (c', m', ok)"
  shows "lock_effect i c m c' m' ok"
  using assms unfolding lock_prog_nth
  by (simp add: lock_exec) (clarsimp simp: lock_defs NORMAL_TERMINATION_def)

lemma eff_8:
  assumes pc: "reg c PC = 8" and r: "regs_ok i c" and e: "execute_word c m (lock_prog ! 8) = Inr (c', m', ok)"
  shows "lock_effect i c m c' m' ok"
proof -
  have r9: "reg c 9 = - 1" "reg c 10 = of_nat i" "reg c 8 = - 1" using pc r by (simp_all add: regs_ok_def)
  show ?thesis
  proof (cases "memory m 1 = - 1")
    case True
    then have "c' = setr c PC 9" "m' = m\<lparr>memory := (memory m)(1 := of_nat i)\<rparr>" "ok"
      using e r9 pc unfolding lock_prog_nth by (auto simp: lock_exec)
    then show ?thesis using pc r r9 True by (simp add: lock_defs)
  next
    case False
    then have "c' = setr (setr c 9 (memory m 1)) PC 9" "m' = m" "ok"
      using e r9 pc unfolding lock_prog_nth by (auto simp: lock_exec)
    then show ?thesis using pc r r9 False by (simp add: lock_defs)
  qed
qed

lemma eff_13:
  assumes pc: "reg c PC = 13" and r: "regs_ok i c" and d: "data_ok c (memory m 0)"
    and e: "execute_word c m (lock_prog ! 13) = Inr (c', m', ok)"
  shows "lock_effect i c m c' m' ok"
proof -
  have x: "c' = setr c PC 14" "m' = m\<lparr>memory := (memory m)(0 := memory m 0 + 1)\<rparr>" "ok"
    using e pc d unfolding lock_prog_nth by (auto simp: lock_exec data_ok_def)
  have "0 < reg c 4" "reg c 4 \<le> 10000" using pc r by (simp_all add: regs_ok_def)
  note r4 = r4_dec [OF this]
  have "additions c = 10000 - unat (reg c 4)" "additions c' = 10001 - unat (reg c 4)"
    using pc by (simp_all add: additions_def x)
  then have a: "additions c' = Suc (additions c)" using r4 by simp
  have "regs_ok i c'" "phase_ok c' Fetching" "data_ok c' (memory m' 0)" "holder c" "holder c'"
    using pc r by (simp_all add: x lock_defs)
  then show ?thesis unfolding lock_effect_def a using x by auto
qed

lemma eff_14:
  assumes pc: "reg c PC = 14" and r: "regs_ok i c"
    and e: "execute_word c m (lock_prog ! 14) = Inr (c', m', ok)"
  shows "lock_effect i c m c' m' ok"
proof -
  have x: "c' = setr (setr c 4 (reg c 4 - 1)) PC 15" "m' = m" "ok"
    using e pc r unfolding lock_prog_nth by (auto simp: lock_exec regs_ok_def)
  have "0 < reg c 4" "reg c 4 \<le> 10000" using pc r by (simp_all add: regs_ok_def)
  note r4 = r4_dec [OF this]
  have "additions c = 10001 - unat (reg c 4)" "additions c' = 10000 - unat (reg c 4 - 1)"
    using pc by (simp_all add: additions_def x)
  then have a: "additions c' = additions c" using r4 by simp
  have "regs_ok i c'" "phase_ok c' Fetching" "data_ok c' (memory m' 0)" "holder c" "holder c'"
    using pc r r4 by (simp_all add: x lock_defs)
  then show ?thesis unfolding lock_effect_def a using x by auto
qed

lemma eff_16:
  assumes pc: "reg c PC = 16" and r: "regs_ok i c"
    and e: "execute_word c m (lock_prog ! 16) = Inr (c', m', ok)"
  shows "lock_effect i c m c' m' ok"
proof -
  have "c' = setr c PC 17" "m' = m\<lparr>memory := (memory m)(1 := - 1)\<rparr>" "ok"
    using e pc r unfolding lock_prog_nth by (auto simp: lock_exec regs_ok_def)
  then show ?thesis using pc r by (simp add: lock_defs)
qed

lemma eff_17:
  assumes pc: "reg c PC = 17" and r: "regs_ok i c"
    and e: "execute_word c m (lock_prog ! 17) = Inr (c', m', ok)"
  shows "lock_effect i c m c' m' ok"
proof -
  have r4: "reg c 4 < 10000" "reg c 5 = 0" using pc r by (simp_all add: regs_ok_def)
  then have "c' = setr c PC (if reg c 4 \<noteq> 0 then 6 else 18)" "m' = m" "ok"
    using e pc unfolding lock_prog_nth by (auto simp: lock_exec pos_sint)
  then show ?thesis using pc r r4
    by (cases "reg c 4 = 0") (simp_all add: lock_defs word_gt_0)
qed

lemma lock_step_effect:
  assumes p: "phase_ok c (Executing w)" and r: "regs_ok i c" and d: "data_ok c (memory m 0)" and i: "i < 16"
    and e: "execute_word c m w = Inr (c', m', ok)"
  shows "lock_effect i c m c' m' ok"
proof -
  have w: "w = lock_prog ! unat (reg c PC)" and b: "2 \<le> reg c PC" "reg c PC \<le> 18"
    using p by (simp_all add: phase_ok_def)
  note pre = r d i
  from pc_cases [OF b] e show ?thesis
    by (auto simp: w eff_2 [OF _ pre] eff_3 [OF _ pre] eff_4 [OF _ pre] eff_5 [OF _ pre] eff_6 [OF _ pre]
        eff_7 [OF _ pre] eff_9 [OF _ pre] eff_10 [OF _ pre] eff_11 [OF _ pre] eff_12 [OF _ pre]
        eff_15 [OF _ pre] eff_18 [OF _ pre] eff_8 [OF _ r] eff_13 [OF _ r d] eff_14 [OF _ r]
        eff_16 [OF _ r] eff_17 [OF _ r])
qed


section \<open>The invariant of the system\<close>

definition lock_inv :: "nat \<Rightarrow> sys \<Rightarrow> bool" where
  "lock_inv n s \<longleftrightarrow> n \<le> 16 \<and> length (cores s) = n \<and> length (phases s) = n \<and> entryPoint (machine s) = 2 \<and>
     (\<forall>a. 2 \<le> a \<and> a \<le> 18 \<longrightarrow> memory (machine s) a = lock_prog ! unat a) \<and>
     (\<forall>i < n. regs_ok i (cores s ! i) \<and> phase_ok (cores s ! i) (phases s ! i) \<and>
        data_ok (cores s ! i) (memory (machine s) 0) \<and>
        (holder (cores s ! i) \<longrightarrow> memory (machine s) 1 = of_nat i)) \<and>
     memory (machine s) 0 = of_nat (\<Sum>i < n. additions (cores s ! i))"

lemma unat_pid: "i \<le> 16 \<Longrightarrow> unat (of_nat i :: u32) = i"
  unfolding unat_of_nat by (intro mod_less) simp

lemma pid_inj: "i < 16 \<Longrightarrow> j < 16 \<Longrightarrow> (of_nat i :: u32) = of_nat j \<Longrightarrow> i = j"
  by (metis unat_pid less_imp_le)

lemma pid_not_free: "i < 16 \<Longrightarrow> (of_nat i :: u32) \<noteq> - 1"
proof
  assume "i < 16" "(of_nat i :: u32) = - 1"
  then have "(of_nat (Suc i) :: u32) = 0" by simp
  then show False using unat_pid [of "Suc i"] \<open>i < 16\<close> by (simp del: of_nat_Suc)
qed

lemma data_ok_holder: "data_ok c x \<Longrightarrow> \<not> data_ok c y \<Longrightarrow> holder c"
  by (auto simp: data_ok_def holder_def)

lemma lock_inv_exec:
  assumes inv: "lock_inv n s" and i: "i < n" and p: "phases s ! i = Executing w"
    and e: "execute_word (cores s ! i) (machine s) w = Inr (c', m', ok)"
  shows "lock_inv n \<lparr>machine = m', cores = (cores s)[i := c'],
    phases = (phases s)[i := (if ok then Fetching else Finished)]\<rparr>"
proof -
  let ?m = "machine s" and ?c = "\<lambda>j. cores s ! j"
  have n: "n \<le> 16" and len: "length (cores s) = n" "length (phases s) = n"
    and prog: "\<And>a. 2 \<le> a \<Longrightarrow> a \<le> 18 \<Longrightarrow> memory ?m a = lock_prog ! unat a"
    and ok: "\<And>j. j < n \<Longrightarrow> regs_ok j (?c j) \<and> phase_ok (?c j) (phases s ! j) \<and> data_ok (?c j) (memory ?m 0)"
    and lock: "\<And>j. j < n \<Longrightarrow> holder (?c j) \<Longrightarrow> memory ?m 1 = of_nat j"
    and sum: "memory ?m 0 = of_nat (\<Sum>j < n. additions (?c j))" and ep: "entryPoint ?m = 2"
    using inv by (auto simp: lock_inv_def)
  have "lock_effect i (?c i) ?m c' m' ok"
    using lock_step_effect [OF _ _ _ _ e] ok [OF i] n i p by simp
  then have own: "regs_ok i c'" "phase_ok c' (if ok then Fetching else Finished)" "data_ok c' (memory m' 0)"
    and frame: "\<And>a. 2 \<le> a \<Longrightarrow> memory m' a = memory ?m a" "entryPoint m' = entryPoint ?m"
    and grows: "additions (?c i) \<le> additions c'"
      "memory m' 0 = memory ?m 0 + of_nat (additions c' - additions (?c i))"
    and count: "\<not> holder (?c i) \<Longrightarrow> memory m' 0 = memory ?m 0"
    and change: "memory m' 1 = memory ?m 1 \<and> holder c' = holder (?c i) \<or>
      memory ?m 1 = - 1 \<and> \<not> holder (?c i) \<and> holder c' \<and> memory m' 1 = of_nat i \<or>
      holder (?c i) \<and> \<not> holder c' \<and> memory m' 1 = - 1"
    by (auto simp: lock_effect_def)
  have other: "data_ok (?c j) (memory m' 0) \<and> (holder (?c j) \<longrightarrow> memory m' 1 = of_nat j)"
    if j: "j < n" "j \<noteq> i" for j
  proof -
    have excl: "\<not> (holder (?c i) \<and> holder (?c j))"
      using lock [OF i] lock [OF j(1)] pid_inj [of i j] n i j by auto
    have "data_ok (?c j) (memory m' 0)"
      using data_ok_holder [of "?c j"] ok [OF j(1)] excl count by metis
    moreover have "holder (?c j) \<longrightarrow> memory m' 1 = of_nat j"
      using change lock [OF j(1)] excl pid_not_free [of j] n j(1) by force
    ultimately show ?thesis by blast
  qed
  have new: "holder c' \<longrightarrow> memory m' 1 = of_nat i" using change lock [OF i] by auto
  let ?new = "(cores s)[i := c']"
  have "(\<Sum>j < n. additions (?new ! j)) = additions c' + (\<Sum>j \<in> {..<n} - {i}. additions (?c j))"
    using i len by (subst sum.remove [of _ i]) (auto intro!: sum.cong)
  also have "\<dots> = (\<Sum>j < n. additions (?c j)) + (additions c' - additions (?c i))"
    using i grows(1) by (subst (2) sum.remove [of _ i]) auto
  finally have total: "memory m' 0 = of_nat (\<Sum>j < n. additions (?new ! j))"
    by (simp add: grows(2) sum)
  show ?thesis
    unfolding lock_inv_def
    using n len prog frame ep ok own other new total i by (auto simp: nth_list_update)
qed

lemma lock_inv_step:
  assumes inv: "lock_inv n s" and i: "i < n" and st: "core_step i s = Inr s'"
  shows "lock_inv n s'"
proof (cases "phases s ! i")
  case Starting
  then have s': "s' = s\<lparr>cores := (cores s)[i := fde_start (cores s ! i) (machine s)],
      phases := (phases s)[i := Fetching]\<rparr>"
    using st by (simp add: core_step_def)
  have c: "regs_ok i (cores s ! i)" "reg (cores s ! i) PC = 0" and ep: "entryPoint (machine s) = 2"
    and len: "length (cores s) = n" "length (phases s) = n"
    using inv i Starting by (auto simp: lock_inv_def phase_ok_def)
  let ?c = "fde_start (cores s ! i) (machine s)"
  have c': "regs_ok i ?c" "phase_ok ?c Fetching" "data_ok ?c x" "\<not> holder ?c" "additions ?c = 0"
    "additions (cores s ! i) = 0" for x
    using c ep by (simp_all add: lock_defs fde_start_def)
  have "additions ((cores s)[i := ?c] ! j) = additions (cores s ! j)" for j
    using c' i len by (cases "j = i") simp_all
  then show ?thesis using inv i c' len by (auto simp: s' lock_inv_def nth_list_update)
next
  case Fetching
  then have b: "2 \<le> reg (cores s ! i) PC" "reg (cores s ! i) PC \<le> 18"
    using inv i by (auto simp: lock_inv_def phase_ok_def)
  obtain w where w: "fetch (machine s) (reg (cores s ! i) PC) = Inr w"
    and s': "s' = s\<lparr>phases := (phases s)[i := Executing w]\<rparr>"
    using st Fetching by (auto simp: core_step_def)
  have "w = lock_prog ! unat (reg (cores s ! i) PC)"
    using w b inv by (auto simp: fetch_def lock_inv_def split: if_splits)
  then have "phase_ok (cores s ! i) (Executing w)" using b by (simp add: phase_ok_def)
  then show ?thesis using inv i by (auto simp: s' lock_inv_def nth_list_update)
next
  case (Executing w)
  then show ?thesis using st lock_inv_exec [OF inv i Executing] by (auto simp: core_step_def)
next
  case Finished
  then show ?thesis using st inv by (simp add: core_step_def)
qed

text \<open>The program loaded: its words at address 0, the entry point at \<open>mainx20\<close>, all registers 0.\<close>

definition lock_loaded :: "vm \<Rightarrow> bool" where
  "lock_loaded vm \<longleftrightarrow> vreg vm = (\<lambda>_. 0) \<and> entryPoint vm = 2 \<and>
     (\<forall>a \<le> 18. memory vm a = lock_prog ! unat a)"

lemma lock_inv_start:
  assumes "execute_start vm n sps created tr = Inr (Started s0)" "lock_loaded vm"
  shows "lock_inv (unat n) s0"
proof -
  note s0 = execute_start_cases [OF assms(1)]
  have n: "unat n \<le> 16" using s0(1) by (simp add: word_le_nat_alt)
  have c: "regs_ok i (new_core (machine s0) x i)" "phase_ok (new_core (machine s0) x i) Starting"
    "data_ok (new_core (machine s0) x i) y" "\<not> holder (new_core (machine s0) x i)"
    "additions (new_core (machine s0) x i) = 0" for i x y
    using assms(2) by (simp_all add: lock_defs new_core_def s0(2) lock_loaded_def SP_def PC_def)
  have "memory vm 0 = 0" using assms(2) by (simp add: lock_loaded_def lock_prog_def)
  then show ?thesis
    using assms(2) n by (simp add: lock_inv_def s0(4) s0(5) c) (simp add: s0(2) lock_loaded_def)
qed

lemma lock_inv_reachable: "reachable s0 s \<Longrightarrow> lock_inv n s0 \<Longrightarrow> lock_inv n s"
proof (induction rule: reachable.induct)
  case (more s s')
  from more.IH [OF more.prems] have inv: "lock_inv n s" .
  from more.hyps(2) obtain i where "i < length (cores s)" "core_step i s = Inr s'"
    by (rule sys_stepE)
  moreover have "length (cores s) = n" using inv by (simp add: lock_inv_def)
  ultimately show ?case using lock_inv_step [OF inv] by blast
qed

section \<open>The theorems\<close>

lemma lock_step_total:
  assumes "lock_inv n s" "i < n"
  shows "\<exists>s'. core_step i s = Inr s'"
proof (cases "phases s ! i")
  case Fetching
  then have "reg (cores s ! i) PC \<le> 18" using assms by (auto simp: lock_inv_def phase_ok_def)
  then have "\<not> MEM_SIZE \<le> reg (cores s ! i) PC" by (simp add: word_le_nat_alt MEM_SIZE_def)
  then show ?thesis using Fetching by (simp add: core_step_def fetch_def)
next
  case (Executing w)
  let ?c = "cores s ! i"
  have w: "w = lock_prog ! unat (reg ?c PC)" and b: "2 \<le> reg ?c PC" "reg ?c PC \<le> 18"
    using assms Executing by (auto simp: lock_inv_def phase_ok_def)
  have "\<exists>c' m' ok. execute_word ?c (machine s) w = Inr (c', m', ok)"
    using pc_cases [OF b] unfolding w by (auto simp: lock_prog_nth lock_exec)
  then show ?thesis using Executing by (auto simp: core_step_def)
qed (simp_all add: core_step_def)


lemma lock_counts:
  assumes inv: "lock_inv n s" and f: "execute_finish s = Some codes"
  shows "memory (machine s) 0 = of_nat (n * 10000) \<and> codes = replicate n 0"
proof -
  have len: "length (cores s) = n" "length (phases s) = n"
    and sum: "memory (machine s) 0 = of_nat (\<Sum>i < n. additions (cores s ! i))"
    using inv by (auto simp: lock_inv_def)
  have fin: "phases s ! i = Finished" if "i < n" for i
    using f that len by (auto simp: execute_finish_def list_all_length split: if_splits)
  have c: "additions (cores s ! i) = 10000 \<and> status (cores s ! i) = 0" if "i < n" for i
  proof -
    have "regs_ok i (cores s ! i)" "phase_ok (cores s ! i) Finished"
      using inv that fin [OF that] by (auto simp: lock_inv_def)
    then show ?thesis by (simp add: regs_ok_def phase_ok_def additions_def)
  qed
  then have "memory (machine s) 0 = of_nat (n * 10000)" unfolding sum by simp
  moreover have "codes = replicate n 0"
    using f c len by (auto simp: execute_finish_def list_eq_iff_nth_eq split: if_splits)
  ultimately show ?thesis by simp
qed

text \<open>C1: no addition is lost: when every core has halted, the counter is 10000 times the number of
  cores and every core reports normal termination, whatever the interleaving was.\<close>

theorem spinlock_counts:
  assumes "execute_start vm n sps created tr = Inr (Started s0)" "lock_loaded vm" "reachable s0 s"
    and "execute_finish s = Some codes"
  shows "memory (machine s) 0 = 10000 * n \<and> codes = replicate (unat n) 0"
  using lock_counts [OF lock_inv_reachable [OF assms(3) lock_inv_start [OF assms(1,2)]] assms(4)]
  by (simp add: mult.commute)

section \<open>One core runs to the end\<close>

definition lock_text :: "vm \<Rightarrow> bool" where
  "lock_text m \<longleftrightarrow> (\<forall>a. 2 \<le> a \<and> a \<le> 18 \<longrightarrow> memory m a = lock_prog ! unat a)"

definition steps_to :: "nat \<Rightarrow> core \<Rightarrow> vm \<Rightarrow> core \<Rightarrow> vm \<Rightarrow> bool" where
  "steps_to k c m c' m' \<longleftrightarrow> (\<forall>fuel. fde_loop (k + fuel) c m = fde_loop fuel c' m')"

lemma steps_to_trans: "steps_to a c m c1 m1 \<Longrightarrow> steps_to b c1 m1 c2 m2 \<Longrightarrow> steps_to (a + b) c m c2 m2"
  by (simp add: steps_to_def add.assoc)

lemma lock_instruction:
  assumes "lock_text m" "2 \<le> reg c PC" "reg c PC \<le> 18"
  shows "executeInstruction c m (reg c PC) = execute_word c m (lock_prog ! unat (reg c PC))"
proof -
  have "\<not> MEM_SIZE \<le> reg c PC" using assms(3) by (simp add: word_le_nat_alt MEM_SIZE_def)
  then show ?thesis using assms by (simp add: executeInstruction_def fetch_def lock_text_def)
qed

lemma steps_one:
  assumes "lock_text m" "2 \<le> reg c PC" "reg c PC \<le> 18"
    "execute_word c m (lock_prog ! unat (reg c PC)) = Inr (c', m', True)"
  shows "steps_to 1 c m c' m'"
  using lock_instruction [OF assms(1-3)] assms(4) by (simp add: steps_to_def)

text \<open>At the head of the loop, the lock free, with \<open>k\<close> additions to do.\<close>

definition at_loop :: "nat \<Rightarrow> core \<Rightarrow> vm \<Rightarrow> bool" where
  "at_loop k c m \<longleftrightarrow> lock_text m \<and> memory m 1 = - 1 \<and> reg c PC = 6 \<and> reg c 4 = of_nat k \<and>
     reg c 1 = 1 \<and> reg c 5 = 0"

lemma lock_text_put:
  "lock_text m \<Longrightarrow> lock_text (m\<lparr>memory := (memory m)(0 := x)\<rparr>)"
  "lock_text m \<Longrightarrow> lock_text (m\<lparr>memory := (memory m)(1 := x)\<rparr>)"
  by (auto simp: lock_text_def)

lemma loop_round:
  assumes a: "at_loop (Suc k) c m" and k: "k < 10000"
  shows "\<exists>c' m'. steps_to 11 c m c' m' \<and> (if k = 0 then lock_text m' \<and> memory m' 1 = - 1 \<and> reg c' PC = 18 else at_loop k c' m')"
proof -
  have t: "lock_text m" and l: "memory m 1 = - 1" and r: "reg c PC = 6" "reg c 4 = of_nat (Suc k)" "reg c 1 = 1" "reg c 5 = 0"
    using a by (auto simp: at_loop_def)
  define c1 where "c1 = setr (setr c 8 (- 1)) PC 7"
  define c2 where "c2 = setr (setr c1 9 (- 1)) PC 8"
  define m3 where "m3 = m\<lparr>memory := (memory m)(1 := reg c 10)\<rparr>"
  define c3 where "c3 = setr c2 PC 9"
  define c4 where "c4 = setr c3 PC 11"
  define c5 where "c5 = setr (setr c4 0 (memory m3 0)) PC 12"
  define c6 where "c6 = setr (setr c5 0 (reg c5 0 + reg c5 1)) PC 13"
  define m7 where "m7 = m3\<lparr>memory := (memory m3)(0 := reg c6 0)\<rparr>"
  define c7 where "c7 = setr c6 PC 14"
  define c8 where "c8 = setr (setr c7 4 (of_nat k)) PC 15"
  define c9 where "c9 = setr (setr c8 9 (- 1)) PC 16"
  define m10 where "m10 = m7\<lparr>memory := (memory m7)(1 := - 1)\<rparr>"
  define c10 where "c10 = setr c9 PC 17"
  define c11 where "c11 = setr c10 PC (if k = 0 then 18 else 6)"
  note defs = c1_def c2_def c3_def c4_def c5_def c6_def c7_def c8_def c9_def c10_def c11_def
  have t3: "lock_text m3" unfolding m3_def by (rule lock_text_put [OF t])
  have t7: "lock_text m7" unfolding m7_def by (rule lock_text_put [OF t3])
  have t10: "lock_text m10" unfolding m10_def by (rule lock_text_put [OF t7])
  have kk: "unat (of_nat k :: u32) = k" unfolding unat_of_nat using k by (intro mod_less) simp
  then have lt: "(of_nat k :: u32) < 10000" and z: "(of_nat k :: u32) = 0 \<longleftrightarrow> k = 0"
    using k by (simp_all add: word_less_nat_alt flip: unat_eq_0)
  have s1: "steps_to 1 c m c1 m" by (rule steps_one [OF t]) (simp_all add: r lock_prog_nth lock_exec defs)
  have s2: "steps_to 1 c1 m c2 m" by (rule steps_one [OF t]) (simp_all add: lock_prog_nth lock_exec defs)
  have s3: "steps_to 1 c2 m c3 m3" by (rule steps_one [OF t]) (simp_all add: lock_prog_nth lock_exec defs l m3_def)
  have s4: "steps_to 1 c3 m3 c4 m3" by (rule steps_one [OF t3]) (simp_all add: lock_prog_nth lock_exec defs)
  have s5: "steps_to 1 c4 m3 c5 m3" by (rule steps_one [OF t3]) (simp_all add: lock_prog_nth lock_exec defs)
  have s6: "steps_to 1 c5 m3 c6 m3" by (rule steps_one [OF t3]) (simp_all add: lock_prog_nth lock_exec defs)
  have s7: "steps_to 1 c6 m3 c7 m7" by (rule steps_one [OF t3]) (simp_all add: lock_prog_nth lock_exec defs m7_def)
  have s8: "steps_to 1 c7 m7 c8 m7" by (rule steps_one [OF t7]) (simp_all add: lock_prog_nth lock_exec defs r)
  have s9: "steps_to 1 c8 m7 c9 m7" by (rule steps_one [OF t7]) (simp_all add: lock_prog_nth lock_exec defs)
  have s10: "steps_to 1 c9 m7 c10 m10" by (rule steps_one [OF t7]) (simp_all add: lock_prog_nth lock_exec defs m10_def)
  have s11: "steps_to 1 c10 m10 c11 m10"
    by (rule steps_one [OF t10]) (simp_all add: lock_prog_nth lock_exec defs r pos_sint [OF lt] z)
  have "steps_to 11 c m c11 m10"
    using steps_to_trans [OF s1 steps_to_trans [OF s2 steps_to_trans [OF s3 steps_to_trans [OF s4
      steps_to_trans [OF s5 steps_to_trans [OF s6 steps_to_trans [OF s7 steps_to_trans [OF s8
      steps_to_trans [OF s9 steps_to_trans [OF s10 s11]]]]]]]]]]
    by (simp add: eval_nat_numeral)
  moreover have "if k = 0 then lock_text m10 \<and> memory m10 1 = - 1 \<and> reg c11 PC = 18 else at_loop k c11 m10"
    using t10 r by (simp add: at_loop_def defs m10_def)
  ultimately show ?thesis by blast
qed

lemma loop_ends:
  "at_loop (Suc k) c m \<Longrightarrow> k < 10000 \<Longrightarrow> \<exists>fuel c' m'. fde_loop fuel c m = Inr (Some (c', m')) \<and> lock_text m' \<and> memory m' 1 = - 1"
proof (induction k arbitrary: c m)
  case 0
  then obtain c1 m1 where s: "steps_to 11 c m c1 m1" and e: "lock_text m1" "reg c1 PC = 18" and l: "memory m1 1 = - 1"
    using loop_round [of 0 c m] by auto
  have "fde_loop (11 + Suc 0) c m = Inr (Some (setr (stop c1 NORMAL_TERMINATION) PC 19, m1))"
    unfolding s [unfolded steps_to_def, rule_format]
    using lock_instruction [OF e(1), of c1] e(2) by (simp add: lock_prog_nth lock_exec)
  then show ?case using e(1) l by blast
next
  case (Suc k)
  then obtain c1 m1 where s: "steps_to 11 c m c1 m1" and e: "at_loop (Suc k) c1 m1"
    using loop_round [of "Suc k" c m] by auto
  then obtain fuel c' m' where "fde_loop fuel c1 m1 = Inr (Some (c', m'))" and l: "lock_text m'" "memory m' 1 = - 1"
    using Suc.IH [OF e] Suc.prems by auto
  then have "fde_loop (11 + fuel) c m = Inr (Some (c', m'))" using s by (simp add: steps_to_def)
  then show ?case using l by blast
qed

lemma lock_core_ends:
  assumes t: "lock_text vm" and l: "memory vm 1 = - 1" and ld: "entryPoint vm = 2" and z: "reg cpu 5 = 0"
  shows "\<exists>fuel c m. fetchDecodeExecute fuel cpu vm = Inr (Some (c, m)) \<and> lock_text m \<and> memory m 1 = - 1"
proof -
  define c0 where "c0 = fde_start cpu vm"
  define c1 where "c1 = setr (setr c0 4 10000) PC 3"
  define c2 where "c2 = setr (setr c1 1 1) PC 4"
  define c3 where "c3 = setr (setr c2 10 (pid c2)) PC 5"
  define c4 where "c4 = setr c3 PC 6"
  note defs = c1_def c2_def c3_def c4_def
  have c0: "reg c0 PC = 2" "reg c0 5 = 0" by (simp_all add: c0_def fde_start_def ld z SP_def)
  have s1: "steps_to 1 c0 vm c1 vm" by (rule steps_one [OF t]) (simp_all add: c0 lock_prog_nth lock_exec defs)
  have s2: "steps_to 1 c1 vm c2 vm" by (rule steps_one [OF t]) (simp_all add: lock_prog_nth lock_exec defs)
  have s3: "steps_to 1 c2 vm c3 vm" by (rule steps_one [OF t]) (simp_all add: lock_prog_nth lock_exec defs)
  have s4: "steps_to 1 c3 vm c4 vm" by (rule steps_one [OF t]) (simp_all add: lock_prog_nth lock_exec defs)
  have s: "steps_to 4 c0 vm c4 vm"
    using steps_to_trans [OF s1 steps_to_trans [OF s2 steps_to_trans [OF s3 s4]]] by (simp add: eval_nat_numeral)
  have "at_loop (Suc 9999) c4 vm" using t l c0 by (simp add: at_loop_def defs)
  then obtain fuel c m where "fde_loop fuel c4 vm = Inr (Some (c, m))" "lock_text m" "memory m 1 = - 1"
    using loop_ends by fastforce
  then have "fetchDecodeExecute (4 + fuel) cpu vm = Inr (Some (c, m)) \<and> lock_text m \<and> memory m 1 = - 1"
    using s by (simp add: steps_to_def fetchDecodeExecute_def c0_def)
  then show ?thesis by blast
qed

lemma lock_runs_to_end:
  assumes "lock_loaded vm"
  shows "\<exists>fuel c m. fetchDecodeExecute fuel (new_core vm sp 0) vm = Inr (Some (c, m))"
proof -
  have "lock_text vm" "memory vm 1 = - 1" "entryPoint vm = 2" "reg (new_core vm sp 0) 5 = 0"
    using assms by (auto simp: lock_loaded_def lock_text_def lock_prog_def new_core_def SP_def)
  then show ?thesis using lock_core_ends by blast
qed

lemma lock_inv_first:
  assumes "lock_loaded vm"
  shows "lock_inv 1 (one_core vm (new_core vm sp 0) Starting)"
proof -
  have "memory vm 0 = 0" using assms by (simp add: lock_loaded_def lock_prog_def)
  then show ?thesis
    using assms by (simp add: lock_inv_def lock_loaded_def lock_defs new_core_def SP_def PC_def)
qed

lemma one_core_runs:
  assumes "fetchDecodeExecute fuel c m = Inr (Some (c', m'))"
  shows "reachable (one_core m c Starting) (one_core m' c' Finished)"
proof -
  have "reachable (one_core m c Starting) (one_core m (fde_start c m) Fetching)"
    by (rule one_core_step [OF _ _ reachable.init]) (simp_all add: core_step_def)
  then show ?thesis using assms fde_loop_reachable by (simp add: fetchDecodeExecute_def)
qed

text \<open>On one processor the program terminates with the right answer: with enough fuel the loop
  of the thread returns, the counter is 10000 and the core has terminated normally.\<close>

theorem spinlock_single_terminates:
  assumes "lock_loaded vm"
  shows "\<exists>fuel c m. fetchDecodeExecute fuel (new_core vm sp 0) vm = Inr (Some (c, m)) \<and>
     memory m 0 = 10000 \<and> status c = NORMAL_TERMINATION"
proof -
  obtain fuel c m where r: "fetchDecodeExecute fuel (new_core vm sp 0) vm = Inr (Some (c, m))"
    using lock_runs_to_end [OF assms] by blast
  let ?s0 = "one_core vm (new_core vm sp 0) Starting" and ?s = "one_core m c Finished"
  have "lock_inv 1 ?s"
    by (rule lock_inv_reachable [OF one_core_runs [OF r] lock_inv_first [OF assms]])
  moreover have "execute_finish ?s = Some [status c]" by (simp add: execute_finish_def)
  ultimately have "memory m 0 = 10000" "status c = 0" using lock_counts [of 1 ?s "[status c]"] by auto
  then show ?thesis using r by (auto simp: NORMAL_TERMINATION_def)
qed

section \<open>The processors one after the other\<close>

lemma lock_run_cores:
  assumes st: "execute_start vm p sps created tr = Inr (Started s0)" "lock_loaded vm" and k: "k \<le> unat p"
  shows "\<exists>s. reachable s0 s \<and> (\<forall>i < k. phases s ! i = Finished) \<and> lock_text (machine s) \<and> memory (machine s) 1 = - 1 \<and>
    (\<forall>i. k \<le> i \<longrightarrow> i < unat p \<longrightarrow> phases s ! i = Starting \<and> cores s ! i = cores s0 ! i)"
  using k
proof (induction k)
  case 0
  have "lock_text vm" "memory vm 1 = - 1" using st(2) by (auto simp: lock_loaded_def lock_text_def lock_prog_def)
  then have "lock_text (machine s0) \<and> memory (machine s0) 1 = - 1 \<and> (\<forall>i < unat p. phases s0 ! i = Starting)"
    using execute_start_cases [OF st(1)] by (simp add: lock_text_def)
  then show ?case using reachable.init [of s0] by auto
next
  case (Suc k)
  then obtain s where r: "reachable s0 s" and fin: "\<forall>i < k. phases s ! i = Finished"
    and t: "lock_text (machine s)" "memory (machine s) 1 = - 1"
    and rest: "\<And>i. k \<le> i \<Longrightarrow> i < unat p \<Longrightarrow> phases s ! i = Starting \<and> cores s ! i = cores s0 ! i"
    by auto
  have inv: "lock_inv (unat p) s" by (rule lock_inv_reachable [OF r lock_inv_start [OF st]])
  then have len: "length (cores s) = unat p" "length (phases s) = unat p" and ep: "entryPoint (machine s) = 2"
    by (auto simp: lock_inv_def)
  have kp: "k < unat p" using Suc.prems by simp
  have "reg (cores s ! k) 5 = 0"
    using rest [of k] kp execute_start_cases [OF st(1)] st(2) by (simp add: new_core_def lock_loaded_def SP_def)
  then obtain fuel c m where f: "fetchDecodeExecute fuel (cores s ! k) (machine s) = Inr (Some (c, m))"
    and m: "lock_text m" "memory m 1 = - 1"
    using lock_core_ends [OF t ep] by blast
  let ?s = "\<lparr>machine = m, cores = (cores s)[k := c], phases = (phases s)[k := Finished]\<rparr>"
  have "reachable s0 ?s"
    by (rule fetchDecodeExecute_reach [OF f r]) (use len kp rest in simp_all)
  moreover have "\<forall>i < Suc k. phases ?s ! i = Finished" using fin len kp by (auto simp: less_Suc_eq nth_list_update)
  moreover have "\<forall>i. Suc k \<le> i \<longrightarrow> i < unat p \<longrightarrow> phases ?s ! i = Starting \<and> cores ?s ! i = cores s0 ! i"
    using rest by auto
  ultimately show ?case using m by (intro exI [of _ ?s]) simp
qed

text \<open>Some interleaving ends the program, for every number of processors.\<close>

lemma lock_can_finish:
  assumes "execute_start vm p sps created tr = Inr (Started s0)" "lock_loaded vm"
  shows "\<exists>s codes. reachable s0 s \<and> execute_finish s = Some codes"
proof -
  obtain s where r: "reachable s0 s" and f: "\<forall>i < unat p. phases s ! i = Finished"
    using lock_run_cores [OF assms order_refl] by blast
  have "lock_inv (unat p) s" by (rule lock_inv_reachable [OF r lock_inv_start [OF assms]])
  then have "length (phases s) = unat p" by (simp add: lock_inv_def)
  then show ?thesis using r f by (auto simp: execute_finish_def list_all_length)
qed

section \<open>Witnesses\<close>

definition lock_vm :: vm where
  "lock_vm = (ex_vm lock_prog)\<lparr>entryPoint := 2\<rparr>"

lemma le_18: "(a :: u32) \<le> 18 \<Longrightarrow> unat a < 19"
  by (simp add: word_le_nat_alt)

lemma lock_vm_loaded: "lock_loaded lock_vm"
proof -
  have "length lock_prog = 19" by (simp add: lock_prog_def)
  then show ?thesis using le_18 by (simp add: lock_loaded_def lock_vm_def ex_vm_def)
qed

lemma lock_vm_start:
  "execute_start lock_vm 1 [100] (\<lambda>_. True) False = Inr (Started (one_core lock_vm (new_core lock_vm 100 0) Starting))"
proof -
  have "lock_vm\<lparr>numProcessors := 1, trace := False\<rparr> = lock_vm" by (simp add: lock_vm_def ex_vm_def)
  then show ?thesis using execute_start_one [of "[100]" "\<lambda>_. True" lock_vm False] by simp
qed

theorem spinlock_single_terminates_witness:
  "\<exists>fuel c m. fetchDecodeExecute fuel (new_core lock_vm 100 0) lock_vm = Inr (Some (c, m)) \<and>
     memory m 0 = 10000 \<and> status c = NORMAL_TERMINATION"
  by (rule spinlock_single_terminates [OF lock_vm_loaded])

theorem spinlock_counts_witness:
  "\<exists>s. reachable (one_core lock_vm (new_core lock_vm 100 0) Starting) s \<and>
     execute_finish s \<noteq> None \<and> memory (machine s) 0 = 10000"
proof -
  obtain fuel c m where r: "fetchDecodeExecute fuel (new_core lock_vm 100 0) lock_vm = Inr (Some (c, m))"
    using lock_runs_to_end [OF lock_vm_loaded] by blast
  have "execute_finish (one_core m c Finished) = Some [status c]" by (simp add: execute_finish_def)
  then show ?thesis
    using spinlock_counts [OF lock_vm_start lock_vm_loaded one_core_runs [OF r]] one_core_runs [OF r] by auto
qed

text \<open>A core that has just taken the lock.\<close>

lemma one_core_executes:
  assumes "reachable s0 (one_core m c Fetching)" "lock_text m" "2 \<le> reg c PC" "reg c PC \<le> 18"
    "execute_word c m (lock_prog ! unat (reg c PC)) = Inr (c', m', True)"
  shows "reachable s0 (one_core m' c' Fetching)"
proof -
  have "\<not> MEM_SIZE \<le> reg c PC" using assms(4) by (simp add: word_le_nat_alt MEM_SIZE_def)
  then have "reachable s0 (one_core m c (Executing (lock_prog ! unat (reg c PC))))"
    by (intro one_core_step [OF _ _ assms(1)])
      (use assms(2-4) in \<open>simp_all add: core_step_def fetch_def lock_text_def\<close>)
  then show ?thesis by (rule one_core_step [rotated 2]) (use assms(5) in \<open>simp_all add: core_step_def\<close>)
qed

lemma lock_vm_taken:
  "\<exists>m c. reachable (one_core lock_vm (new_core lock_vm 100 0) Starting) (one_core m c Fetching) \<and> holder c"
proof -
  let ?R = "reachable (one_core lock_vm (new_core lock_vm 100 0) Starting)"
  define c0 where "c0 = fde_start (new_core lock_vm 100 0) lock_vm"
  define c1 where "c1 = setr (setr c0 4 10000) PC 3"
  define c2 where "c2 = setr (setr c1 1 1) PC 4"
  define c3 where "c3 = setr (setr c2 10 (pid c2)) PC 5"
  define c4 where "c4 = setr c3 PC 6"
  define c5 where "c5 = setr (setr c4 8 (- 1)) PC 7"
  define c6 where "c6 = setr (setr c5 9 (- 1)) PC 8"
  define c7 where "c7 = setr c6 PC 9"
  note defs = c1_def c2_def c3_def c4_def c5_def c6_def c7_def
  let ?v = lock_vm
  have t: "lock_text ?v" and ep: "entryPoint ?v = 2"
    using lock_vm_loaded by (auto simp: lock_loaded_def lock_text_def)
  have l: "memory ?v 1 = - 1" by (simp add: lock_vm_def ex_vm_def lock_prog_def)
  have pc: "reg c0 PC = 2" by (simp add: c0_def fde_start_def ep)
  have r0: "?R (one_core ?v c0 Fetching)"
    unfolding c0_def by (rule one_core_step [OF _ _ reachable.init]) (simp_all add: core_step_def)
  have r1: "?R (one_core ?v c1 Fetching)" by (rule one_core_executes [OF r0 t]) (simp_all add: pc lock_prog_nth lock_exec defs)
  have r2: "?R (one_core ?v c2 Fetching)" by (rule one_core_executes [OF r1 t]) (simp_all add: lock_prog_nth lock_exec defs)
  have r3: "?R (one_core ?v c3 Fetching)" by (rule one_core_executes [OF r2 t]) (simp_all add: lock_prog_nth lock_exec defs)
  have r4: "?R (one_core ?v c4 Fetching)" by (rule one_core_executes [OF r3 t]) (simp_all add: lock_prog_nth lock_exec defs)
  have r5: "?R (one_core ?v c5 Fetching)" by (rule one_core_executes [OF r4 t]) (simp_all add: lock_prog_nth lock_exec defs)
  have r6: "?R (one_core ?v c6 Fetching)" by (rule one_core_executes [OF r5 t]) (simp_all add: lock_prog_nth lock_exec defs)
  have "\<exists>m. ?R (one_core m c7 Fetching)"
    by (rule exI, rule one_core_executes [OF r6 t]) (simp_all add: lock_prog_nth lock_exec defs l)
  moreover have "holder c7" by (simp add: holder_def defs)
  ultimately show ?thesis by blast
qed


end
