(* ===== verification/Testvm.thy ===== *)
theory Testvm
  imports Vmx20_Spinlock
begin

text \<open>
  The driver A2/P2/testvm.c: its arguments, the start of the machine and the table it prints after
  the processors have ended, as functions to the standard output and the exit. How the C library
  turns the text of a float into a float and back is given by \<open>to_float\<close> (\<open>atof\<close> and the
  conversion) and \<open>show_float\<close> (\<open>%8f\<close>). Messages on stderr and the trace are left out.
\<close>

section \<open>Numbers in arguments\<close>

definition is_digit :: "char \<Rightarrow> bool" where
  "is_digit c \<longleftrightarrow> 48 \<le> (of_char c :: nat) \<and> (of_char c :: nat) \<le> 57"

definition is_space :: "char \<Rightarrow> bool" where
  "is_space c \<longleftrightarrow> (of_char c :: nat) \<in> {9, 10, 11, 12, 13, 32}"

definition digits_value :: "string \<Rightarrow> int" where
  "digits_value s = foldl (\<lambda>v c. 10 * v + (of_char c - 48)) 0 (takeWhile is_digit s)"

text \<open>
  What \<open>%d\<close> and \<open>atoi\<close> read: blanks, a sign, digits. The standard leaves a number outside the range of
  an \<open>int\<close> open; this is what glibc does, which stops at the ends of a \<open>long\<close> and keeps its low 32 bits.
\<close>

definition long_int :: "int \<Rightarrow> int" where
  "long_int i = sint (word_of_int (max (- (2 ^ 63)) (min (2 ^ 63 - 1) i)) :: u32)"

definition scan_int :: "string \<Rightarrow> int option" where
  "scan_int s =
     (let s = dropWhile is_space s;
          neg = (s \<noteq> [] \<and> hd s = CHR ''-'');
          s = (if s \<noteq> [] \<and> (hd s = CHR ''-'' \<or> hd s = CHR ''+'') then tl s else s)
      in if s = [] \<or> \<not> is_digit (hd s) then None
         else Some (long_int (if neg then - digits_value s else digits_value s)))"

definition atoi :: "string \<Rightarrow> u32" where
  "atoi s = (case scan_int s of None \<Rightarrow> 0 | Some i \<Rightarrow> word_of_int i)"

section \<open>Arguments\<close>

record driver =
  d_vm :: vm
  d_processors :: int
  d_trace :: bool
  d_print :: "string list"
  d_out :: string

definition out :: "string \<Rightarrow> driver \<Rightarrow> driver" where
  "out t d = d\<lparr>d_out := d_out d @ t\<rparr>"

definition label_bytes :: "string \<Rightarrow> u8 list" where
  "label_bytes s = map of_char s"

definition failAddr :: "string \<Rightarrow> string" where
  "failAddr arg = ''failed to retrieve address for '' @ arg @ nl"

definition failGet :: "u32 \<Rightarrow> string" where
  "failGet addr = ''failed to get word at addr '' @ fmt_d addr @ nl"

definition failPut :: "u32 \<Rightarrow> string" where
  "failPut addr = ''failed to put word at addr '' @ fmt_d addr @ nl"

text \<open>An option: \<open>-t\<close>, or \<open>-p\<close> with a number; a text that is no number leaves the number of processors.\<close>

definition option_arg :: "string \<Rightarrow> driver \<Rightarrow> driver res" where
  "option_arg arg d =
     (if arg = ''-t'' then Inr (out (''Option trace (-t)'' @ nl) (d\<lparr>d_trace := True\<rparr>))
      else if take 2 arg = ''-p'' \<and> 2 < length arg then
        let p = (case scan_int (drop 2 arg) of None \<Rightarrow> d_processors d | Some i \<Rightarrow> i);
            d = out (''Option processors: '' @ dec_int p @ '' (-p'' @ dec_int p @ '')'' @ nl) (d\<lparr>d_processors := p\<rparr>)
        in if p \<le> 0 then Inl (ExitCode 50) else Inr d
      else Inl (ExitCode 50))"

definition assign_arg :: "(string \<Rightarrow> u32) \<Rightarrow> string \<Rightarrow> driver \<Rightarrow> driver res" where
  "assign_arg to_float arg d =
     (let label = takeWhile (\<lambda>c. c \<noteq> CHR ''='') arg; split = tl (dropWhile (\<lambda>c. c \<noteq> CHR ''='') arg);
          word = (if CHR ''f'' \<in> set split \<or> CHR ''.'' \<in> set split then to_float split else atoi split)
      in bindR (getAddress (symbols (d_vm d)) (label_bytes label)) (\<lambda>r.
         case r of None \<Rightarrow> Inr (out (failAddr label) d)
         | Some addr \<Rightarrow> (case putWord (d_vm d) addr word of (vm, ok) \<Rightarrow>
             Inr (if ok then d\<lparr>d_vm := vm\<rparr> else out (failPut addr) d))))"

fun arg_loop :: "(string \<Rightarrow> u32) \<Rightarrow> string list \<Rightarrow> driver \<Rightarrow> driver res" where
  "arg_loop to_float [] d = Inr d"
| "arg_loop to_float (arg # args) d =
     bindR (if take 1 arg = ''-'' then option_arg arg d
            else if CHR ''='' \<notin> set arg then Inr (d\<lparr>d_print := d_print d @ [arg]\<rparr>)
            else assign_arg to_float arg d) (arg_loop to_float args)"

section \<open>Start and results\<close>

text \<open>The array of sixteen stack pointers is filled for every processor.\<close>

definition initial_sps :: "int \<Rightarrow> u32 list res" where
  "initial_sps processors =
     (if 16 < processors then Inl OutOfBounds
      else Inr (map (\<lambda>i. if int i < processors then testvm_initialSP i else 0) [0..<16]))"

definition testvm_start ::
  "(string \<Rightarrow> u32) \<Rightarrow> (nat \<Rightarrow> bool) \<Rightarrow> bool \<Rightarrow> bool \<Rightarrow> bool \<Rightarrow> vm \<Rightarrow> u8 list option \<Rightarrow> string list \<Rightarrow> (driver \<times> sys) res" where
  "testvm_start to_float created vm_ok memory_ok locks_ok junk file argv =
     (if length argv < 2 then Inl (ExitCode 1)
      else bindR (initVm vm_ok memory_ok locks_ok junk) (\<lambda>(handle, err).
      case handle of None \<Rightarrow> Inl (ExitCode err)
      | Some vm \<Rightarrow> bindR (loadExecutableFile vm file err) (\<lambda>(vm, ok, err).
      if \<not> ok then Inl (ExitCode err)
      else bindR (arg_loop to_float (drop 2 argv) \<lparr>d_vm = vm, d_processors = 1, d_trace = False, d_print = [], d_out = []\<rparr>) (\<lambda>d.
      bindR (initial_sps (d_processors d)) (\<lambda>sps.
      bindR (execute_start (d_vm d) (word_of_int (d_processors d)) sps created (d_trace d)) (\<lambda>st.
      case st of Started s \<Rightarrow> Inr (d, s) | _ \<Rightarrow> Inl (ExitCode 50)))))))"

fun result_lines :: "(u32 \<Rightarrow> string) \<Rightarrow> vm \<Rightarrow> string list \<Rightarrow> string res" where
  "result_lines show_float vm [] = Inr []"
| "result_lines show_float vm (arg # args) =
     bindR (getAddress (symbols vm) (label_bytes arg)) (\<lambda>r.
     bindR (result_lines show_float vm args) (\<lambda>rest.
     Inr ((case r of None \<Rightarrow> failAddr arg
       | Some addr \<Rightarrow> (case getWord vm addr 0 of (wordx, ok) \<Rightarrow>
           if \<not> ok then failGet addr
           else ''['' @ prec 3 (hex_nat (unat addr)) @ ''] '' @ fill_left 16 arg @ '': 0x'' @ prec 8 (hex_nat (unat wordx)) @ '' ''
             @ fill_left 10 (fmt_d wordx) @ '' '' @ show_float wordx @ nl)) @ rest)))"

text \<open>After the processors have ended: what has been printed, and \<open>cleanup\<close>.\<close>

definition testvm_finish :: "(u32 \<Rightarrow> string) \<Rightarrow> driver \<Rightarrow> sys \<Rightarrow> string res" where
  "testvm_finish show_float d s =
     bindR (if d_print d = [] then Inr []
            else bindR (result_lines show_float (machine s) (d_print d)) (\<lambda>t.
              Inr (''====================== RESULTS ======================='' @ nl
                @ ''[###]            Label:     Hex      Decimal    Float '' @ nl
                @ ''------------------------------------------------------'' @ nl @ t))) (\<lambda>t.
     bindR (cleanup (symbols (machine s))) (\<lambda>_. Inr (d_out d @ t)))"

section \<open>The lock program under the driver\<close>

text \<open>\<open>test_counter_lock\<close> as an executable file: its two symbols and its words.\<close>

definition lock_file :: "u8 list" where
  "lock_file = words_bytes [10, 0, 19] @ pad0 16 (label_bytes ''count'') @ words_bytes [0] @ pad0 16 mainx20 @ words_bytes [2]
     @ words_bytes lock_prog"

definition lock_symbols :: "symtab \<Rightarrow> symtab" where
  "lock_symbols rest = SymCons mainx20 2 (SymCons (label_bytes ''count'') 0 rest)"

lemma lock_words:
  "bytes_words lock_file = [10, 0, 19] @ bytes_words (pad0 16 (label_bytes ''count'')) @ [0] @ bytes_words (pad0 16 mainx20) @ [2] @ lock_prog"
  by code_simp

lemma label_count: "label_bytes ''count'' = [99, 111, 117, 110, 116]"
  by code_simp

lemma lock_names:
  "length (bytes_words (pad0 16 (label_bytes ''count''))) = 4" "length (bytes_words (pad0 16 mainx20)) = 4"
  "cstr_opt (words_bytes (bytes_words (pad0 16 (label_bytes ''count'')))) = Some (label_bytes ''count'')"
  "cstr_opt (words_bytes (bytes_words (pad0 16 mainx20))) = Some mainx20"
  "label_bytes ''count'' \<noteq> mainx20" "mainx20 \<noteq> label_bytes ''count''"
  by code_simp+

lemma length_lock_prog: "length lock_prog = 19"
  by (simp add: lock_prog_def)

lemma lock_symbols_read:
  "parse_insymbols (bytes_words (pad0 16 (label_bytes ''count'')) @ 0 # bytes_words (pad0 16 mainx20) @ [2]) vm False =
     Inr (vm\<lparr>symbols := lock_symbols (symbols vm), entryPoint := 2\<rparr>, True, False)"
  by (simp add: parse_insymbols.simps lock_names lock_symbols_def nth_append Let_def)

lemma lock_file_loads:
  "loadExecutableFile vm (Some lock_file) 0 = Inr (vm\<lparr>
     memory := (\<lambda>a. if unat a < 19 then lock_prog ! unat a else memory vm a), progEnd := 19,
     symbols := lock_symbols (symbols vm), entryPoint := 2\<rparr>, True, 0)"
proof -
  have h: "file_word lock_file 0 = 10" "file_word lock_file 1 = 0" "file_word lock_file 2 = 19"
    by (simp_all add: file_word_def file_words_def lock_words)
  have s: "file_words lock_file 3 10 = bytes_words (pad0 16 (label_bytes ''count'')) @ 0 # bytes_words (pad0 16 mainx20) @ [2]"
    by (simp add: file_words_def lock_words lock_names)
  have c: "drop 13 (bytes_words lock_file) = lock_prog"
    by (simp add: lock_words lock_names)
  have t: "take 19 lock_prog = lock_prog" by (simp add: length_lock_prog)
  have len: "length (bytes_words lock_file) = 32" by (simp add: lock_words lock_names length_lock_prog)
  show ?thesis
    unfolding loadExecutableFile_def option.case h
    by (simp add: s c t len length_lock_prog MEM_SIZE_def lock_symbols_read lock_names Let_def cong: if_cong)
qed

text \<open>The driver's start on this file with \<open>-p\<close> and a number.\<close>

lemma digit_char: "d < 10 \<Longrightarrow> is_digit (char_of (48 + d)) \<and> (of_char (char_of (48 + d :: nat)) :: int) = 48 + int d"
proof -
  assume d: "d < 10"
  have "(of_char (char_of (48 + d)) :: nat) = 48 + d" using d by (simp add: of_char_of)
  moreover have "(of_char c :: int) = int (of_char c :: nat)" for c by (cases c) (simp add: of_char_def)
  ultimately show ?thesis using d by (simp add: is_digit_def)
qed

lemma dec_nat_digits: "(\<forall>c \<in> set (dec_nat n). is_digit c) \<and> foldl (\<lambda>v c. 10 * v + (of_char c - 48)) 0 (dec_nat n) = int n \<and> dec_nat n \<noteq> []"
proof (induction n rule: dec_nat.induct)
  case (1 n)
  show ?case
  proof (cases "n < 10")
    case True
    then show ?thesis using digit_char [of n] by (simp add: dec_nat.simps [of n])
  next
    case False
    then have "dec_nat n = dec_nat (n div 10) @ [char_of (48 + n mod 10)]" by (simp add: dec_nat.simps [of n])
    moreover have "10 * int (n div 10) + int (n mod 10) = int n" by (simp add: zdiv_int zmod_int)
    ultimately show ?thesis using 1 [OF False] digit_char [of "n mod 10"] by auto
  qed
qed

lemma scan_dec: "n < 2 ^ 31 \<Longrightarrow> scan_int (dec_nat n) = Some (int n)"
proof -
  assume n: "n < 2 ^ 31"
  have long: "long_int (int n) = int n"
  proof -
    have "max (- (2 ^ 63)) (min (2 ^ 63 - 1) (int n)) = int n" using n by simp
    moreover have "sint (word_of_int (int n) :: u32) = int n" using n by (simp add: signed_of_nat signed_take_bit_int_eq_self)
    ultimately show ?thesis by (simp only: long_int_def)
  qed
  let ?s = "dec_nat n"
  have d: "\<forall>c \<in> set ?s. is_digit c" and v: "foldl (\<lambda>v c. 10 * v + (of_char c - 48)) 0 ?s = int n" and ne: "?s \<noteq> []"
    using dec_nat_digits [of n] by blast+
  have h: "is_digit (hd ?s)" using d ne by simp
  have "\<not> is_space (hd ?s)" "hd ?s \<noteq> CHR ''-''" "hd ?s \<noteq> CHR ''+''"
    using h by (auto simp: is_digit_def is_space_def)
  moreover from this have "dropWhile is_space ?s = ?s" using ne by (cases ?s) auto
  moreover have "digits_value ?s = int n"
  proof -
    have "takeWhile is_digit ?s = ?s" using d by simp
    then show ?thesis unfolding digits_value_def by (simp only: v)
  qed
  ultimately show ?thesis using h ne long by (simp add: scan_int_def Let_def)
qed

definition lock_args :: "nat \<Rightarrow> string list" where
  "lock_args n = [''testvm'', ''test_lock.exe'', ''-p'' @ dec_nat n, ''count'']"

definition option_line :: "nat \<Rightarrow> string" where
  "option_line n = ''Option processors: '' @ dec_nat n @ '' (-p'' @ dec_nat n @ '')'' @ nl"

lemma lock_arg_loop:
  assumes "0 < n" "n \<le> 16"
  shows "arg_loop tf (drop 2 (lock_args n)) \<lparr>d_vm = vm, d_processors = 1, d_trace = False, d_print = [], d_out = []\<rparr> =
    Inr \<lparr>d_vm = vm, d_processors = int n, d_trace = False, d_print = [''count''], d_out = option_line n\<rparr>"
proof -
  have ne: "dec_nat n \<noteq> []" using dec_nat_digits [of n] by blast
  have "dec_int (int n) = dec_nat n" by (simp add: dec_int_def)
  then have "option_arg (''-p'' @ dec_nat n) \<lparr>d_vm = vm, d_processors = 1, d_trace = False, d_print = [], d_out = []\<rparr> =
    Inr \<lparr>d_vm = vm, d_processors = int n, d_trace = False, d_print = [], d_out = option_line n\<rparr>"
    using assms ne by (simp add: option_arg_def scan_dec out_def option_line_def Let_def)
  then show ?thesis by (simp add: lock_args_def)
qed

text \<open>What the driver prints for the program on \<open>n\<close> processors.\<close>

definition lock_output :: "(u32 \<Rightarrow> string) \<Rightarrow> nat \<Rightarrow> string" where
  "lock_output show_float n = option_line n
     @ ''====================== RESULTS ======================='' @ nl
     @ ''[###]            Label:     Hex      Decimal    Float '' @ nl
     @ ''------------------------------------------------------'' @ nl
     @ ''[000]            count: 0x'' @ prec 8 (hex_nat (n * 10000)) @ '' '' @ fill_left 10 (dec_nat (n * 10000)) @ '' ''
     @ show_float (of_nat (n * 10000)) @ nl"

lemma lock_driver:
  assumes n: "0 < n" "n \<le> 16" and c: "\<forall>i. created i" and j: "symbols junk = SymNull"
  shows "\<exists>d s0. testvm_start tf created True True True junk (Some lock_file) (lock_args n) = Inr (d, s0) \<and>
    (\<exists>s codes. reachable s0 s \<and> execute_finish s = Some codes) \<and>
    (\<forall>s codes. reachable s0 s \<longrightarrow> execute_finish s = Some codes \<longrightarrow>
       testvm_finish show_float d s = Inr (lock_output show_float n) \<and> codes = replicate n 0)"
proof -
  define vm1 where "vm1 = junk\<lparr>vreg := (\<lambda>_. 0)\<rparr>"
  define vm2 where "vm2 = vm1\<lparr>memory := (\<lambda>a. if unat a < 19 then lock_prog ! unat a else memory vm1 a), progEnd := 19,
     symbols := lock_symbols (symbols vm1), entryPoint := 2\<rparr>"
  define d where "d = \<lparr>d_vm = vm2, d_processors = int n, d_trace = False, d_print = [''count''], d_out = option_line n\<rparr>"
  define sps where "sps = map (\<lambda>i. if int i < int n then testvm_initialSP i else 0) [0..<16]"
  define p where "p = (word_of_int (int n) :: u32)"
  have p: "unat p = n" using n by (simp add: p_def unat_of_nat)
  have p16: "\<not> 16 < p" using n p by (simp add: word_less_nat_alt)
  have cs: "\<exists>cs. start_cores v sps created i k acc = Inr (Some cs, i + k)" if "i + k \<le> 16" for v i k acc
    using that
  proof (induction k arbitrary: i acc)
    case (Suc k)
    have ci: "created i" using c by blast
    have "i < length sps" using Suc.prems by (simp add: sps_def)
    then have g: "aget sps i = Inr (sps ! i)" by (simp add: aget_def)
    have "Suc i + k \<le> 16" using Suc.prems by simp
    from Suc.IH [OF this, of "acc @ [new_core v (sps ! i) i]"] show ?case using ci by (simp add: g)
  qed simp
  obtain s0 where s0: "execute_start vm2 p sps created False = Inr (Started s0)"
    using cs [of 0 n "vm2\<lparr>numProcessors := p, trace := False\<rparr>" "[]"] n p p16 by (auto simp: execute_start_def Let_def)
  have st: "testvm_start tf created True True True junk (Some lock_file) (lock_args n) = Inr (d, s0)"
  proof -
    have i: "initVm True True True junk = Inr (Some vm1, 0)" by (simp add: initVm_def vm1_def NORMAL_TERMINATION_def)
    have l: "loadExecutableFile vm1 (Some lock_file) 0 = Inr (vm2, True, 0)" unfolding vm2_def by (rule lock_file_loads)
    have a: "arg_loop tf (drop 2 (lock_args n)) \<lparr>d_vm = vm2, d_processors = 1, d_trace = False, d_print = [], d_out = []\<rparr> = Inr d"
      unfolding d_def by (rule lock_arg_loop [OF n])
    have sp: "initial_sps (int n) = Inr sps" using n by (simp add: initial_sps_def sps_def)
    have len: "\<not> length (lock_args n) < 2" by (simp add: lock_args_def)
    show ?thesis unfolding testvm_start_def i
      using len l a sp s0 by (simp add: d_def p_def)
  qed
  have ll: "lock_loaded vm2"
  proof -
    have "unat a < 19" if "a \<le> (18 :: u32)" for a using that by (simp add: word_le_nat_alt)
    then show ?thesis by (simp add: lock_loaded_def vm2_def vm1_def)
  qed
  have "testvm_finish show_float d s = Inr (lock_output show_float n) \<and> codes = replicate n 0"
    if r: "reachable s0 s" and f: "execute_finish s = Some codes" for s codes
  proof -
    have m: "memory (machine s) 0 = of_nat (n * 10000)" "codes = replicate n 0"
      using lock_counts [OF lock_inv_reachable [OF r lock_inv_start [OF s0 ll]] f] p by simp_all
    have "same_config (vm2\<lparr>numProcessors := p, trace := False\<rparr>) (machine s)"
      using reachable_ok [OF r execute_start_ok [OF s0]] by (auto simp: sys_ok_def)
    then have sy: "symbols (machine s) = SymCons mainx20 2 (SymCons (label_bytes ''count'') 0 SymNull)"
      using same_config_fields j by (fastforce simp: vm2_def vm1_def lock_symbols_def)
    define w where "w = (of_nat (n * 10000) :: u32)"
    have mw: "memory (machine s) 0 = w" using m(1) by (simp only: w_def)
    have u: "unat w = n * 10000" using n by (simp add: w_def unat_of_nat del: of_nat_mult)
    have "sint w = int (n * 10000)"
      using n by (simp add: w_def signed_of_nat signed_take_bit_int_eq_self del: of_nat_mult)
    then have "fmt_d w = dec_int (int (n * 10000))" by (simp only: fmt_d_def)
    then have fd: "fmt_d w = dec_nat (n * 10000)" unfolding dec_int_def by (simp only: of_nat_less_0_iff if_False nat_int)
    have h0: "prec 3 (hex_nat 0) = ''000''" "fill_left 16 ''count'' = ''           count''" by code_simp+
    have "testvm_finish show_float d s = Inr (lock_output show_float n)"
      unfolding testvm_finish_def d_def sy lock_output_def w_def [symmetric]
      by (simp add: lock_names getWord_def MEM_SIZE_def sy u fd h0 mw)
    then show ?thesis using m(2) by blast
  qed
  then show ?thesis using st lock_can_finish [OF s0 ll] by blast
qed



end
