(* ===== verification/Vmx20_Single.thy ===== *)
theory Vmx20_Single
  imports Vmx20_Multi
begin

text \<open>
  The earlier machine A2/P2backup/vmx20.c: one processor, twelve instructions, more memory.  The
  last theorems relate its instructions and its runs to the machine of \<open>Vmx20_Exec\<close>.
\<close>

section \<open>State and loader\<close>

definition MEM_SIZE_v1 :: u32 where
  "MEM_SIZE_v1 = 0xfffff"

record vm_v1 =
  reg_v1 :: "4 word \<Rightarrow> u32"
  memory_v1 :: "u32 \<Rightarrow> u32"
  entry_point :: u32
  prog_end :: u32
  symbols_v1 :: symtab

text \<open>\<open>initVm\<close>: \<open>junk\<close> is what \<open>malloc\<close> left in the structure.\<close>

definition initVm_v1 :: "bool \<Rightarrow> bool \<Rightarrow> vm_v1 \<Rightarrow> vm_v1 option \<times> int" where
  "initVm_v1 vm_ok memory_ok junk =
     (if \<not> vm_ok then (None, INITIALIZE_FAILURE)
      else if \<not> memory_ok then (None, INITIALIZE_FAILURE)
      else (Some (junk\<lparr>reg_v1 := (\<lambda>_. 0)\<rparr>), NORMAL_TERMINATION))"

definition getAddress_v1 :: "vm_v1 \<Rightarrow> u8 list \<Rightarrow> u32 option res" where
  "getAddress_v1 vm label = getAddress (symbols_v1 vm) label"

definition getWord_v1 :: "vm_v1 \<Rightarrow> u32 \<Rightarrow> u32 \<Rightarrow> u32 \<times> bool" where
  "getWord_v1 vm addr outWord = (if addr \<ge> MEM_SIZE_v1 then (outWord, False) else (memory_v1 vm addr, True))"

definition putWord_v1 :: "vm_v1 \<Rightarrow> u32 \<Rightarrow> u32 \<Rightarrow> vm_v1 \<times> bool" where
  "putWord_v1 vm addr word =
     (if addr \<ge> MEM_SIZE_v1 then (vm, False) else (vm\<lparr>memory_v1 := (memory_v1 vm)(addr := word)\<rparr>, True))"

text \<open>\<open>strstr(filename, ".exe")\<close> is at the end: the first occurrence is the suffix.\<close>

fun first_exe :: "string \<Rightarrow> string option" where
  "first_exe [] = None"
| "first_exe (c # cs) = (if take 4 (c # cs) = ''.exe'' then Some (drop 4 (c # cs)) else first_exe cs)"

text \<open>The loop over the insymbols; there is no test for a second or a missing entry point.\<close>

function parse_insymbols_v1 :: "u32 list \<Rightarrow> vm_v1 \<Rightarrow> vm_v1 res" where
  "parse_insymbols_v1 buf vm =
     (if buf = [] then Inr vm
      else if length buf < 5 then Inl OutOfBounds
      else (case cstr_opt (words_bytes (take 4 buf)) of
              None \<Rightarrow> Inl OutOfBounds
            | Some name \<Rightarrow>
                (let address = buf ! 4;
                     vm = vm\<lparr>symbols_v1 := SymCons name address (symbols_v1 vm)\<rparr>
                 in parse_insymbols_v1 (drop 5 buf) (if name = mainx20 then vm\<lparr>entry_point := address\<rparr> else vm))))"
  by pat_completeness auto
termination by (relation "measure (\<lambda>(buf, vm). length buf)") auto

declare parse_insymbols_v1.simps [simp del]

definition loadExecutableFile_v1 ::
  "vm_v1 option \<Rightarrow> string \<Rightarrow> u8 list option \<Rightarrow> int \<Rightarrow> (vm_v1 option \<times> bool \<times> int) res" where
  "loadExecutableFile_v1 handle filename file err =
     (if first_exe filename \<noteq> Some [] then Inr (handle, False, FILE_IS_NOT_VALID)
      else case file of None \<Rightarrow> Inr (handle, False, FILE_NOT_FOUND)
      | Some bs \<Rightarrow> (case handle of None \<Rightarrow> Inr (None, False, - 99)
      | Some vm \<Rightarrow>
         (let len0 = sint (file_word bs 0); len1 = sint (file_word bs 1);
              len2 = sint (file_word bs 2) in
          if len1 \<noteq> 0 then Inr (handle, False, FILE_CONTAINS_OUTSYMBOLS)
          else if len0 < 0 then Inl NullDeref
          else
           (let symbuffer = file_words bs 3 (nat len0);
                avail = drop (3 + nat len0) (bytes_words bs);
                code = (if len2 < 0 then avail else take (nat len2) avail) in
            if unat MEM_SIZE_v1 < length code then Inl OutOfBounds
            else
             (let vm = vm\<lparr>memory_v1 := (\<lambda>a. if unat a < length code then code ! unat a else memory_v1 vm a),
                          prog_end := of_nat (length code)\<rparr> in
              if int (length code) \<noteq> len2 then Inr (Some vm, False, - 98)
              else if length symbuffer < nat len0 then Inl WildPointer
              else bindR (parse_insymbols_v1 symbuffer vm) (\<lambda>vm. Inr (Some vm, True, err)))))))"

section \<open>Instructions\<close>

text \<open>The macros are applied to shifts of an unsigned word here: the shifts are logical.\<close>

definition EXTENDSIGN20_v1 :: "u32 \<Rightarrow> u32" where
  "EXTENDSIGN20_v1 x = (if drop_bit 19 x \<noteq> 0 then x OR 0xfff00000 else x)"

definition EXTENDSIGN16_v1 :: "u32 \<Rightarrow> u32" where
  "EXTENDSIGN16_v1 x = (if drop_bit 15 x \<noteq> 0 then x OR 0xffff0000 else x)"

definition set_reg_v1 :: "4 word \<Rightarrow> u32 \<Rightarrow> vm_v1 \<Rightarrow> vm_v1" where
  "set_reg_v1 r v vm = vm\<lparr>reg_v1 := (reg_v1 vm)(r := v)\<rparr>"

text \<open>\<open>"%8x (%8x + %8x)"\<close>.\<close>

definition range_info :: "u32 \<Rightarrow> u32 \<Rightarrow> string" where
  "range_info a b = fill_left 8 (hex_nat (unat (a + b))) @ '' ('' @ fill_left 8 (hex_nat (unat a)) @ '' + ''
     @ fill_left 8 (hex_nat (unat b)) @ '')''"

text \<open>The result: the machine, \<open>*term_code\<close>, the string \<open>*term_info\<close> (null after a halt) and
  \<open>success\<close>.\<close>

definition executeInstruction_v1 :: "vm_v1 \<Rightarrow> u32 \<Rightarrow> int \<Rightarrow> string option \<Rightarrow> vm_v1 \<times> int \<times> string option \<times> bool" where
  "executeInstruction_v1 vm word code info =
     (let reg1 = ucast (drop_bit 8 word AND 0xf) :: 4 word;
          reg2 = ucast (drop_bit 12 word AND 0xf) :: 4 word;
          op = word AND 0xff;
          addr20 = EXTENDSIGN20_v1 (drop_bit 12 word);
          addr16 = EXTENDSIGN16_v1 (drop_bit 16 word);
          r = reg_v1 vm;
          tPC = r PC + 1;
          ok = (\<lambda>vm tPC. (set_reg_v1 PC tPC vm, code, info, True));
          bad = (\<lambda>vm c i. (set_reg_v1 PC tPC vm, c, i, False))
      in if op = 0x00 then bad vm NORMAL_TERMINATION None
         else if op = 0x01 then ok (set_reg_v1 reg1 (fst (getWord_v1 vm (tPC + addr20) (r reg1))) vm) tPC
         else if op = 0x02 then ok (fst (putWord_v1 vm (tPC + addr20) (r reg1))) tPC
         else if op = 0x03 then ok (set_reg_v1 reg1 addr20 vm) tPC
         else if op = 0x04 then ok (set_reg_v1 reg1 (tPC + addr20) vm) tPC
         else if op = 0x05 then
           (if (scast (r reg2) :: u64) + ucast addr16 \<ge> ucast MEM_SIZE_v1
            then bad vm ADDRESS_OUT_OF_RANGE (Some (range_info (r reg2) addr16))
            else ok (set_reg_v1 reg1 (fst (getWord_v1 vm (r reg2 + addr16) (r reg1))) vm) tPC)
         else if op = 0x06 then
           (if (ucast reg2 :: u64) + ucast addr16 \<ge> ucast MEM_SIZE_v1
            then bad vm ADDRESS_OUT_OF_RANGE (Some (range_info (r reg2) addr16))
            else ok (fst (putWord_v1 vm (r reg2 + addr16) (r reg1))) tPC)
         else if op = 0x07 then ok (set_reg_v1 reg1 (f_add (r reg1) (r reg2)) vm) tPC
         else if op = 0x08 then ok (set_reg_v1 reg1 (f_sub (r reg1) (r reg2)) vm) tPC
         else if op = 0x0b then ok (set_reg_v1 reg1 (r reg1 + r reg2) vm) tPC
         else if op = 0x0c then ok (set_reg_v1 reg1 (r reg1 - r reg2) vm) tPC
         else if op = 0x14 then ok vm (tPC + addr20)
         else bad vm ILLEGAL_INSTRUCTION (Some (prec 2 (hex_nat (unat op)))))"

section \<open>Runs\<close>

text \<open>The loop of \<open>execute\<close>, with fuel: \<open>None\<close> when it has not returned. The PC indexes the array without
  a check; after an instruction it has to be inside the program.\<close>

fun run_v1 :: "nat \<Rightarrow> vm_v1 \<Rightarrow> int \<Rightarrow> string option \<Rightarrow> (vm_v1 \<times> int \<times> string option) option res" where
  "run_v1 0 vm code info = Inr None"
| "run_v1 (Suc n) vm code info =
     (if reg_v1 vm PC \<ge> MEM_SIZE_v1 then Inl OutOfBounds
      else (case executeInstruction_v1 vm (memory_v1 vm (reg_v1 vm PC)) code info of (vm, code, info, success) \<Rightarrow>
        if \<not> success then Inr (Some (vm, code, info))
        else if reg_v1 vm PC \<ge> prog_end vm then Inr (Some (vm, ADDRESS_OUT_OF_RANGE, Some (fmt_d (reg_v1 vm PC))))
        else run_v1 n vm code info))"

definition term_message :: "int \<Rightarrow> string option \<Rightarrow> string" where
  "term_message code info =
     (let i = (case info of None \<Rightarrow> [] | Some i \<Rightarrow> i) in
      if code = NORMAL_TERMINATION then ''Program halted from normal execution.'' @ nl
      else if code = ADDRESS_OUT_OF_RANGE then ''Error: Address '' @ i @ '' out of range.'' @ nl
      else if code = ILLEGAL_INSTRUCTION then ''Error: Illegal instruction 0x'' @ i @ ''.'' @ nl
      else ''Unknown termination code '' @ dec_int code @ ''.'' @ nl)"

text \<open>\<open>execute\<close> ignores its arguments but the handle; it prints a message and returns whether the
  program halted.\<close>

definition execute_v1 :: "nat \<Rightarrow> vm_v1 \<Rightarrow> (vm_v1 \<times> string \<times> bool) option res" where
  "execute_v1 fuel vm =
     bindR (run_v1 fuel (set_reg_v1 PC (entry_point vm) vm) 1 (Some [])) (\<lambda>r.
     Inr (map_option (\<lambda>(vm, code, info). (vm, term_message code info, code = 0)) r))"

definition disassemble_v1 :: "vm_v1 \<Rightarrow> u32 \<Rightarrow> int" where
  "disassemble_v1 vm address = 0"

definition cleanup_v1 :: "vm_v1 option \<Rightarrow> unit res" where
  "cleanup_v1 handle = (case handle of None \<Rightarrow> Inr () | Some vm \<Rightarrow> cleanup (symbols_v1 vm))"

section \<open>Agreement with the later machine\<close>

lemma one_bit: "(drop_bit 31 w :: u32) \<noteq> 0 \<longleftrightarrow> bit w 31"
proof -
  have "drop_bit 31 w AND 1 = drop_bit 31 w"
    by (rule bit_word_eqI) (auto simp: bit_simps dest: bit_imp_le_length)
  then show ?thesis using sign_bit_unsigned [of w] by simp
qed

lemma EXTENDSIGN20_v1_shift: "EXTENDSIGN20_v1 (drop_bit 12 w) = addr20 w"
proof -
  have "drop_bit 19 (drop_bit 12 w) = drop_bit 31 w" by simp
  then have "EXTENDSIGN20_v1 (drop_bit 12 w) = EXTENDBIT20 (drop_bit 12 w)"
    using sign_bit_unsigned [of w] one_bit [of w] by (simp add: EXTENDSIGN20_v1_def EXTENDBIT20_def)
  then show ?thesis by (simp add: EXTENDBIT20_shift addr20_def EXTENDSIGN20_shift)
qed

lemma EXTENDSIGN16_v1_shift: "EXTENDSIGN16_v1 (drop_bit 16 w) = addr16 w"
proof -
  have e: "drop_bit 15 (drop_bit 16 w) \<noteq> 0 \<longleftrightarrow> bit w 31" using one_bit [of w] by simp
  show ?thesis unfolding EXTENDSIGN16_v1_def e addr16_def EXTENDSIGN16_shift
  proof (rule bit_word_eqI)
    fix n assume n: "n < LENGTH(32)"
    consider "n < 15" | "n = 15" | "16 \<le> n" by linarith
    then show "bit (if bit w 31 then drop_bit 16 w OR 0xffff0000 else drop_bit 16 w) n = bit (signed_drop_bit 16 w) n"
      using n by cases (auto simp: bit_simps bit_hi16 not_le min_def simp del: bit_numeral_word_iff dest: bit_imp_le_length)
  qed
qed

text \<open>The later machine has less memory. The two are in the same state up to its end.\<close>

definition same_machine :: "vm_v1 \<Rightarrow> core \<Rightarrow> vm \<Rightarrow> bool" where
  "same_machine m c vm \<longleftrightarrow> reg c = reg_v1 m \<and> (\<forall>a < MEM_SIZE. memory vm a = memory_v1 m a)"

text \<open>An address that both machines have or both refuse.\<close>

definition both :: "u64 \<Rightarrow> bool" where
  "both a \<longleftrightarrow> a < ucast MEM_SIZE \<or> ucast MEM_SIZE_v1 \<le> a"

text \<open>The instructions on which the machines agree: those of the earlier one, without negative offsets,
  at addresses that both have or both refuse.\<close>

definition common :: "vm_v1 \<Rightarrow> u32 \<Rightarrow> bool" where
  "common m word \<longleftrightarrow>
     (let op = word AND 0xff; r2 = reg_v1 m (reg2_of word); tPC = reg_v1 m PC + 1 in
      op \<in> {0x00, 0x03, 0x04, 0x07, 0x08, 0x0b, 0x0c, 0x14} \<or>
      op \<in> {0x01, 0x02} \<and> both (ucast (tPC + addr20 word)) \<or>
      op = 0x05 \<and> \<not> bit word 31 \<and> both (scast r2 + ucast (addr16 word)) \<or>
      op = 0x06 \<and> \<not> bit word 31 \<and> both (ucast (r2 + addr16 word)))"

lemma both32: "both (ucast a) \<Longrightarrow> a < MEM_SIZE \<and> a < MEM_SIZE_v1 \<or> \<not> a < MEM_SIZE \<and> \<not> a < MEM_SIZE_v1"
  by (auto simp: both_def MEM_SIZE_def MEM_SIZE_v1_def word_less_nat_alt word_le_nat_alt unsigned_ucast_eq take_bit_nat_eq_self)

lemma scast_positive: "\<not> bit (r :: u32) 31 \<Longrightarrow> scast r = (ucast r :: u64)"
proof (rule bit_word_eqI)
  fix n assume b: "\<not> bit r 31" and n: "n < LENGTH(64)"
  consider "n < 31" | "n = 31" | "32 \<le> n" by linarith
  then show "bit (scast r :: u64) n = bit (ucast r :: u64) n"
    using b n by cases (auto simp: bit_simps min_def dest: bit_imp_le_length)
qed

lemma addr16_positive: "\<not> bit w 31 \<Longrightarrow> scast (addr16 w) = (ucast (addr16 w) :: u64)"
proof -
  assume b: "\<not> bit w 31"
  then have "addr16 w = drop_bit 16 w"
    using EXTENDSIGN16_v1_shift [of w] one_bit [of w] by (simp add: EXTENDSIGN16_v1_def)
  moreover have "scast (drop_bit 16 w) = (ucast (drop_bit 16 w) :: u64)"
    by (rule bit_word_eqI) (use b in \<open>auto simp: bit_simps min_def dest: bit_imp_le_length\<close>)
  ultimately show ?thesis by simp
qed

lemma sum_low: "(ucast ((scast (r :: u32) :: u64) + ucast (a :: u32)) :: u32) = r + a"
proof -
  have "take_bit 32 (signed_take_bit 31 x + take_bit 32 y) = take_bit 32 (x + y)" for x y :: int
  proof -
    have "take_bit 32 (signed_take_bit 31 x) = take_bit 32 x" by (simp add: take_bit_signed_take_bit)
    then have "take_bit 32 (signed_take_bit 31 x) + take_bit 32 (take_bit 32 y) = take_bit 32 x + take_bit 32 y" by simp
    then show ?thesis by (metis take_bit_add)
  qed
  then show ?thesis by transfer (simp add: min_def)
qed

lemma low_address: "(x :: u64) < ucast MEM_SIZE_v1 \<Longrightarrow> x = ucast (ucast x :: u32)"
proof -
  assume "x < ucast MEM_SIZE_v1"
  then have "unat x < 2 ^ 32" by (simp add: word_less_nat_alt MEM_SIZE_v1_def)
  then have "unat x = unat (ucast (ucast x :: u32) :: u64)"
    by (simp add: unsigned_ucast_eq unsigned_take_bit_eq take_bit_nat_eq_self)
  then show ?thesis by (rule unsigned_word_eqI)
qed

lemma mem_sizes: "(ucast MEM_SIZE :: u64) \<le> ucast MEM_SIZE_v1" "MEM_SIZE \<le> MEM_SIZE_v1"
  by (simp_all add: MEM_SIZE_def MEM_SIZE_v1_def)

text \<open>What an instruction of both machines has done.\<close>

definition agree :: "vm_v1 \<times> int \<times> string option \<times> bool \<Rightarrow> (core \<times> vm \<times> bool) res \<Rightarrow> bool" where
  "agree r q \<longleftrightarrow> (case (r, q) of
     ((m, code, info, success), Inr (c, vm, success')) \<Rightarrow>
        same_machine m c vm \<and> success' = success \<and> (\<not> success \<longrightarrow> status c = code)
   | _ \<Rightarrow> False)"

lemma same_regs: "same_machine m c vm \<Longrightarrow> same_machine (set_reg_v1 r v m) (setr c r v) vm"
  by (simp add: same_machine_def set_reg_v1_def setr_def)

lemma same_get: "same_machine m c vm \<Longrightarrow> both (ucast a) \<Longrightarrow> getWord vm a d = getWord_v1 m a d"
  using both32 [of a] by (auto simp: same_machine_def getWord_def getWord_v1_def not_less)

lemma same_put: "same_machine m c vm \<Longrightarrow> both (ucast a) \<Longrightarrow> same_machine (fst (putWord_v1 m a w)) c (fst (putWord vm a w))"
  using both32 [of a] by (auto simp: same_machine_def putWord_def putWord_v1_def not_less)

lemma same_stop: "same_machine m c vm \<Longrightarrow> same_machine m (stop c k) vm"
  by (simp add: same_machine_def stop_def)

lemma agree_ok: "same_machine m c vm \<Longrightarrow> agree (set_reg_v1 PC t m, code, info, True) (Inr (setr c PC t, vm, True))"
  by (simp add: agree_def same_regs)

lemma agree_stop: "same_machine m c vm \<Longrightarrow> agree (set_reg_v1 PC t m, k, info, False) (Inr (setr (stop c k) PC t, vm, False))"
  by (simp add: agree_def same_regs same_stop)

lemma old_cases:
  fixes m word code info
  defines "op \<equiv> word AND 0xff" and "r \<equiv> reg_v1 m" and "r1 \<equiv> reg1_of word" and "r2 \<equiv> reg2_of word" and "t \<equiv> reg_v1 m PC + 1"
  shows
  "op = 0x00 \<Longrightarrow> executeInstruction_v1 m word code info = (set_reg_v1 PC t m, NORMAL_TERMINATION, None, False)"
  "op = 0x01 \<Longrightarrow> executeInstruction_v1 m word code info = (set_reg_v1 PC t (set_reg_v1 r1 (fst (getWord_v1 m (t + addr20 word) (r r1))) m), code, info, True)"
  "op = 0x02 \<Longrightarrow> executeInstruction_v1 m word code info = (set_reg_v1 PC t (fst (putWord_v1 m (t + addr20 word) (r r1))), code, info, True)"
  "op = 0x03 \<Longrightarrow> executeInstruction_v1 m word code info = (set_reg_v1 PC t (set_reg_v1 r1 (addr20 word) m), code, info, True)"
  "op = 0x04 \<Longrightarrow> executeInstruction_v1 m word code info = (set_reg_v1 PC t (set_reg_v1 r1 (t + addr20 word) m), code, info, True)"
  "op = 0x05 \<Longrightarrow> executeInstruction_v1 m word code info =
     (if (scast (r r2) :: u64) + ucast (addr16 word) \<ge> ucast MEM_SIZE_v1
      then (set_reg_v1 PC t m, ADDRESS_OUT_OF_RANGE, Some (range_info (r r2) (addr16 word)), False)
      else (set_reg_v1 PC t (set_reg_v1 r1 (fst (getWord_v1 m (r r2 + addr16 word) (r r1))) m), code, info, True))"
  "op = 0x06 \<Longrightarrow> executeInstruction_v1 m word code info =
     (if (ucast r2 :: u64) + ucast (addr16 word) \<ge> ucast MEM_SIZE_v1
      then (set_reg_v1 PC t m, ADDRESS_OUT_OF_RANGE, Some (range_info (r r2) (addr16 word)), False)
      else (set_reg_v1 PC t (fst (putWord_v1 m (r r2 + addr16 word) (r r1))), code, info, True))"
  "op = 0x07 \<Longrightarrow> executeInstruction_v1 m word code info = (set_reg_v1 PC t (set_reg_v1 r1 (f_add (r r1) (r r2)) m), code, info, True)"
  "op = 0x08 \<Longrightarrow> executeInstruction_v1 m word code info = (set_reg_v1 PC t (set_reg_v1 r1 (f_sub (r r1) (r r2)) m), code, info, True)"
  "op = 0x0b \<Longrightarrow> executeInstruction_v1 m word code info = (set_reg_v1 PC t (set_reg_v1 r1 (r r1 + r r2) m), code, info, True)"
  "op = 0x0c \<Longrightarrow> executeInstruction_v1 m word code info = (set_reg_v1 PC t (set_reg_v1 r1 (r r1 - r r2) m), code, info, True)"
  "op = 0x14 \<Longrightarrow> executeInstruction_v1 m word code info = (set_reg_v1 PC (t + addr20 word) m, code, info, True)"
  unfolding executeInstruction_v1_def Let_def EXTENDSIGN20_v1_shift EXTENDSIGN16_v1_shift reg1_of_def [symmetric] reg2_of_def [symmetric]
    op_def [symmetric] r_def r1_def r2_def t_def
  by simp_all

lemma new_cases:
  fixes word :: u32
  defines "op \<equiv> word AND 0xff"
  shows "op = 0x00 \<Longrightarrow> exec_switch c vm t word = Inr (stop c NORMAL_TERMINATION, vm, t, False)"
  "op = 0x01 \<Longrightarrow> exec_switch c vm t word = exec_load c vm t word" "op = 0x02 \<Longrightarrow> exec_switch c vm t word = exec_store c vm t word"
  "op = 0x03 \<Longrightarrow> exec_switch c vm t word = exec_ldimm c vm t word" "op = 0x04 \<Longrightarrow> exec_switch c vm t word = exec_ldaddr c vm t word"
  "op = 0x05 \<Longrightarrow> exec_switch c vm t word = exec_ldind c vm t word" "op = 0x06 \<Longrightarrow> exec_switch c vm t word = exec_stind c vm t word"
  "op = 0x07 \<Longrightarrow> exec_switch c vm t word = exec_float f_add c vm t word" "op = 0x08 \<Longrightarrow> exec_switch c vm t word = exec_float f_sub c vm t word"
  "op = 0x0b \<Longrightarrow> exec_switch c vm t word = exec_addi c vm t word" "op = 0x0c \<Longrightarrow> exec_switch c vm t word = exec_subi c vm t word"
  "op = 0x14 \<Longrightarrow> exec_switch c vm t word = exec_jmp c vm t word"
  unfolding exec_switch_def op_def [symmetric] by (simp_all add: vm_ins_def)

lemma scast_sum_positive:
  assumes "\<not> bit w 31"
  shows "(ucast (r :: 4 word) :: u64) + scast (addr16 w) < ucast MEM_SIZE" "(ucast r :: u64) + ucast (addr16 w) < ucast MEM_SIZE_v1"
proof -
  have a: "addr16 w = drop_bit 16 w"
    using EXTENDSIGN16_v1_shift [of w] one_bit [of w] assms by (simp add: EXTENDSIGN16_v1_def)
  have "unat (drop_bit 16 w) < 2 ^ 16"
    using unsigned_less [where ?'a = nat and w = w] by (simp add: drop_bit_eq_div unat_div div_less_iff_less_mult)
  then have u: "unat (ucast (addr16 w) :: u64) < 2 ^ 16" using a by (simp add: unsigned_ucast_eq take_bit_nat_eq_self)
  have v: "unat (ucast r :: u64) < 16"
    using unsigned_less [where ?'a = nat and w = r] by (simp add: unsigned_ucast_eq take_bit_nat_eq_self)
  have "unat ((ucast r :: u64) + ucast (addr16 w)) = unat (ucast r :: u64) + unat (ucast (addr16 w) :: u64)"
    using u v by (subst unat_add_lem [THEN iffD1]) simp_all
  then have "unat ((ucast r :: u64) + ucast (addr16 w)) < 2 ^ 17" using u v by simp
  then show "(ucast r :: u64) + scast (addr16 w) < ucast MEM_SIZE" "(ucast r :: u64) + ucast (addr16 w) < ucast MEM_SIZE_v1"
    by (simp_all add: addr16_positive [OF assms] word_less_nat_alt MEM_SIZE_def MEM_SIZE_v1_def)
qed

lemma instruction_agrees_spec:
  assumes s: "same_machine m c vm" and cm: "common m word"
  shows "agree (executeInstruction_v1 m word code info) (execute_word c vm word)"
proof -
  let ?t = "reg_v1 m PC + 1"
  have r: "reg c = reg_v1 m" using s by (simp add: same_machine_def)
  have r1: "vm_reg1 word = reg1_of word" "vm_reg2 word = reg2_of word" by (rule vm_reg1_eq vm_reg2_eq)+
  have sw: "execute_word c vm word = bindR (exec_switch c vm ?t word) (\<lambda>(cpu, vm, tPC, success). Inr (setr cpu PC tPC, vm, success))"
    by (simp add: execute_word_def r)
  note new = exec_load_def exec_store_def exec_ldimm_def exec_ldaddr_def exec_float_def exec_addi_def exec_subi_def exec_jmp_def Let_def r1 r
  from cm consider "word AND 0xff = 0x00" | "word AND 0xff = 0x03" | "word AND 0xff = 0x04" | "word AND 0xff = 0x07"
    | "word AND 0xff = 0x08" | "word AND 0xff = 0x0b" | "word AND 0xff = 0x0c" | "word AND 0xff = 0x14"
    | "word AND 0xff = 0x01" "both (ucast (?t + addr20 word))" | "word AND 0xff = 0x02" "both (ucast (?t + addr20 word))"
    | "word AND 0xff = 0x05" "\<not> bit word 31" "both (scast (reg_v1 m (reg2_of word)) + ucast (addr16 word))"
    | "word AND 0xff = 0x06" "\<not> bit word 31" "both (ucast (reg_v1 m (reg2_of word) + addr16 word))"
    unfolding common_def Let_def by blast
  then show ?thesis
  proof cases
    case 1 show ?thesis unfolding sw old_cases(1) [OF 1] new_cases(1) [OF 1] by (simp add: agree_stop s)
  next
    case 2 show ?thesis unfolding sw old_cases(4) [OF 2] new_cases(4) [OF 2] by (simp add: new agree_ok same_regs s)
  next
    case 3 show ?thesis unfolding sw old_cases(5) [OF 3] new_cases(5) [OF 3] by (simp add: new agree_ok same_regs s)
  next
    case 4 show ?thesis unfolding sw old_cases(8) [OF 4] new_cases(8) [OF 4] by (simp add: new agree_ok same_regs s)
  next
    case 5 show ?thesis unfolding sw old_cases(9) [OF 5] new_cases(9) [OF 5] by (simp add: new agree_ok same_regs s)
  next
    case 6 show ?thesis unfolding sw old_cases(10) [OF 6] new_cases(10) [OF 6] by (simp add: new agree_ok same_regs s)
  next
    case 7 show ?thesis unfolding sw old_cases(11) [OF 7] new_cases(11) [OF 7] by (simp add: new agree_ok same_regs s)
  next
    case 8 show ?thesis unfolding sw old_cases(12) [OF 8] new_cases(12) [OF 8] by (simp add: new agree_ok same_regs s)
  next
    case 9 show ?thesis unfolding sw old_cases(2) [OF 9(1)] new_cases(2) [OF 9(1)]
      by (simp add: new agree_ok same_regs same_get [OF s 9(2)] s)
  next
    case 10 show ?thesis unfolding sw old_cases(3) [OF 10(1)] new_cases(3) [OF 10(1)]
      by (simp add: new agree_ok same_put [OF s 10(2)])
  next
    case 11
    let ?x = "(scast (reg_v1 m (reg2_of word)) :: u64) + ucast (addr16 word)"
    have ld: "exec_ldind c vm ?t word =
       (if ?x \<ge> ucast MEM_SIZE then Inr (stop c ADDRESS_OUT_OF_RANGE, vm, ?t, False)
        else Inr (setr c (reg1_of word) (fst (getWord vm (reg_v1 m (reg2_of word) + addr16 word) (reg_v1 m (reg1_of word)))), vm, ?t, True))"
      by (simp add: exec_ldind_def Let_def r1 r addr16_positive [OF 11(2)])
    show ?thesis
    proof (cases "ucast MEM_SIZE_v1 \<le> ?x")
      case True
      then have "ucast MEM_SIZE \<le> ?x" using mem_sizes(1) by (rule order_trans [rotated])
      then show ?thesis using True unfolding sw old_cases(6) [OF 11(1)] new_cases(6) [OF 11(1)] ld by (simp add: agree_stop s)
    next
      case False
      then have l: "\<not> ucast MEM_SIZE \<le> ?x" using 11(3) by (auto simp: both_def)
      have "?x = ucast (reg_v1 m (reg2_of word) + addr16 word)"
        using low_address [of ?x] False by (simp add: sum_low)
      then have b: "both (ucast (reg_v1 m (reg2_of word) + addr16 word))" using 11(3) by simp
      show ?thesis using l False unfolding sw old_cases(6) [OF 11(1)] new_cases(6) [OF 11(1)] ld
        by (simp add: agree_ok same_regs same_get [OF s b] s)
    qed
  next
    case 12
    have p: "\<not> ucast MEM_SIZE \<le> (ucast (reg2_of word) :: u64) + scast (addr16 word)"
        "\<not> ucast MEM_SIZE_v1 \<le> (ucast (reg2_of word) :: u64) + ucast (addr16 word)"
      using scast_sum_positive [OF 12(2)] by (simp_all only: not_le)
    show ?thesis using p unfolding sw old_cases(7) [OF 12(1)] new_cases(7) [OF 12(1)] exec_stind_def Let_def r1 r
      by (simp add: agree_ok same_put [OF s 12(3)])
  qed
qed

text \<open>A run in which every instruction is common to both machines.\<close>

fun common_run :: "nat \<Rightarrow> vm_v1 \<Rightarrow> bool" where
  "common_run 0 m = True"
| "common_run (Suc n) m \<longleftrightarrow>
     common m (memory_v1 m (reg_v1 m PC)) \<and>
     (case executeInstruction_v1 m (memory_v1 m (reg_v1 m PC)) 0 None of (m', code, info, success) \<Rightarrow> success \<longrightarrow> common_run n m')"

lemma old_state: "fst (executeInstruction_v1 m w code info) = fst (executeInstruction_v1 m w code' info')"
  "snd (snd (snd (executeInstruction_v1 m w code info))) = snd (snd (snd (executeInstruction_v1 m w code' info')))"
  unfolding executeInstruction_v1_def Let_def by (simp_all split: if_splits)

lemma old_prog_end: "prog_end (fst (executeInstruction_v1 m w code info)) = prog_end m"
  unfolding executeInstruction_v1_def Let_def set_reg_v1_def putWord_v1_def by (simp split: if_splits)

lemma old_codes: "executeInstruction_v1 m w code info = (m', code', info', False) \<Longrightarrow> code' \<in> {NORMAL_TERMINATION, ADDRESS_OUT_OF_RANGE, ILLEGAL_INSTRUCTION}"
  unfolding executeInstruction_v1_def Let_def by (auto split: if_splits)

lemma run_agrees:
  "same_machine m c vm \<Longrightarrow> common_run n m \<Longrightarrow> prog_end m \<le> MEM_SIZE \<Longrightarrow> reg_v1 m PC < MEM_SIZE \<Longrightarrow>
   run_v1 n m code info = Inr (Some (m', NORMAL_TERMINATION, info')) \<Longrightarrow>
   \<exists>c' vm'. fde_loop n c vm = Inr (Some (c', vm')) \<and> same_machine m' c' vm' \<and> status c' = NORMAL_TERMINATION"
proof (induction n arbitrary: m c vm code info)
  case (Suc n)
  let ?w = "memory_v1 m (reg_v1 m PC)"
  have r: "reg c = reg_v1 m" and w: "memory vm (reg c PC) = ?w"
    using Suc.prems(1,4) by (simp_all add: same_machine_def)
  have f: "fetch vm (reg c PC) = Inr ?w" using Suc.prems(4) r w by (simp add: fetch_def)
  obtain k co i su where e: "executeInstruction_v1 m ?w code info = (k, co, i, su)" by (cases "executeInstruction_v1 m ?w code info") auto
  have cm: "common m ?w" using Suc.prems(2) by simp
  from instruction_agrees_spec [OF Suc.prems(1) cm, of code info] obtain c1 vm1 where
    n: "execute_word c vm ?w = Inr (c1, vm1, su)" and s1: "same_machine k c1 vm1" and st: "\<not> su \<longrightarrow> status c1 = co"
    unfolding e agree_def by (auto split: sum.splits)
  have x: "executeInstruction c vm (reg c PC) = Inr (c1, vm1, su)" using f n by (simp add: executeInstruction_def)
  have lt: "\<not> MEM_SIZE_v1 \<le> reg_v1 m PC" using Suc.prems(4) mem_sizes(2) by (simp add: not_le less_le_trans)
  show ?case
  proof (cases su)
    case False
    then have "k = m'" "co = NORMAL_TERMINATION" using Suc.prems(5) e lt by simp_all
    then show ?thesis using x s1 st False by simp
  next
    case True
    have pe: "prog_end k = prog_end m" using old_prog_end [of m ?w code info] e by simp
    have np: "\<not> prog_end k \<le> reg_v1 k PC"
      using Suc.prems(5) e lt True by (auto simp: error_codes)
    then have run: "run_v1 n k co i = Inr (Some (m', NORMAL_TERMINATION, info'))" using Suc.prems(5) e lt True by simp
    have "common_run n k"
      using Suc.prems(2) old_state [of m ?w code info 0 None] e True by (auto split: prod.splits)
    moreover have "reg_v1 k PC < MEM_SIZE" using np pe Suc.prems(3) by (simp add: not_le less_le_trans)
    ultimately show ?thesis
      using Suc.IH [OF s1 _ _ _ run] pe Suc.prems(3) x True by simp
  qed
qed simp


text \<open>The program \<open>ldimm r1, 5; ldimm r2, 7; addi r1, r2; halt\<close>.\<close>

definition add_code :: "u32 \<Rightarrow> u32" where
  "add_code a = (if a = 0 then 0x5103 else if a = 1 then 0x7203 else if a = 2 then 0x210b else 0)"

definition add_vm_v1 :: vm_v1 where
  "add_vm_v1 = \<lparr>reg_v1 = (\<lambda>_. 0), memory_v1 = add_code, entry_point = 0, prog_end = 4, symbols_v1 = SymNull\<rparr>"

definition add_vm :: vm where
  "add_vm = \<lparr>vreg = (\<lambda>_. 0), memory = add_code, entryPoint = 0, progEnd = 4, numProcessors = 1, trace = False, symbols = SymNull\<rparr>"

definition add_core :: core where
  "add_core = \<lparr>reg = (\<lambda>_. 0), stack = 0, status = 1, pid = 0\<rparr>"

lemma add_step:
  "executeInstruction_v1 m 0x5103 k i = (set_reg_v1 PC (reg_v1 m PC + 1) (set_reg_v1 1 5 m), k, i, True)"
  "executeInstruction_v1 m 0x7203 k i = (set_reg_v1 PC (reg_v1 m PC + 1) (set_reg_v1 2 7 m), k, i, True)"
  "executeInstruction_v1 m 0x210b k i = (set_reg_v1 PC (reg_v1 m PC + 1) (set_reg_v1 1 (reg_v1 m 1 + reg_v1 m 2) m), k, i, True)"
  "executeInstruction_v1 m 0 k i = (set_reg_v1 PC (reg_v1 m PC + 1) m, NORMAL_TERMINATION, None, False)"
proof -
  have a: "addr20 0x5103 = 5" "addr20 0x7203 = 7" by code_simp+
  have r: "reg1_of 0x5103 = 1" "reg1_of 0x7203 = 2" "reg1_of 0x210b = 1" "reg2_of 0x210b = 2"
    by code_simp+
  show "executeInstruction_v1 m 0x5103 k i = (set_reg_v1 PC (reg_v1 m PC + 1) (set_reg_v1 1 5 m), k, i, True)"
    by (subst old_cases(4)) (simp_all add: a r)
  show "executeInstruction_v1 m 0x7203 k i = (set_reg_v1 PC (reg_v1 m PC + 1) (set_reg_v1 2 7 m), k, i, True)"
    by (subst old_cases(4)) (simp_all add: a r)
  show "executeInstruction_v1 m 0x210b k i = (set_reg_v1 PC (reg_v1 m PC + 1) (set_reg_v1 1 (reg_v1 m 1 + reg_v1 m 2) m), k, i, True)"
    by (subst old_cases(10)) (simp_all add: r)
  show "executeInstruction_v1 m 0 k i = (set_reg_v1 PC (reg_v1 m PC + 1) m, NORMAL_TERMINATION, None, False)"
    by (subst old_cases(1)) simp_all
qed

lemma PC_regs: "(1 :: 4 word) \<noteq> PC" "(2 :: 4 word) \<noteq> PC" by (simp_all add: PC_def)

lemma low_pcs: "\<not> (0xfffff :: u32) \<le> 1" "\<not> (4 :: u32) \<le> 1" by (simp_all add: word_le_nat_alt)

lemmas add_eval = low_pcs add_vm_v1_def add_code_def set_reg_v1_def add_step MEM_SIZE_v1_def PC_regs PC_regs [symmetric]

lemma four: "(4 :: nat) = Suc (Suc (Suc (Suc 0)))" by simp

lemma add_run: "\<exists>m' msg. execute_v1 4 add_vm_v1 = Inr (Some (m', msg, True)) \<and> reg_v1 m' 1 = 12"
  unfolding four by (simp add: execute_v1_def add_eval error_codes)

lemma add_common: "common_run 4 (set_reg_v1 PC (entry_point add_vm_v1) add_vm_v1)"
  unfolding four by (simp add: add_eval common_def)


text \<open>A negative offset: the earlier machine computes the sum of a 64-bit register and an unsigned offset,
  and refuses; the later one loads.\<close>

lemma ldind_negative_refused:
  assumes "word AND 0xff = 0x05" "bit word 31" "\<not> bit (reg_v1 m (reg2_of word)) 31"
  shows "executeInstruction_v1 m word code info =
    (set_reg_v1 PC (reg_v1 m PC + 1) m, ADDRESS_OUT_OF_RANGE, Some (range_info (reg_v1 m (reg2_of word)) (addr16 word)), False)"
proof -
  let ?r = "reg_v1 m (reg2_of word)"
  have "addr16 word = drop_bit 16 word OR 0xffff0000"
    using assms(2) EXTENDSIGN16_v1_shift [of word] one_bit [of word] by (simp add: EXTENDSIGN16_v1_def)
  then have "bit (addr16 word) 31" by (simp add: bit_simps bit_hi16)
  then have "bit (unat (addr16 word)) 31" by (simp add: bit_unsigned_iff)
  then have "odd (unat (addr16 word) div 2 ^ 31)" by (simp add: bit_iff_odd)
  then have "unat (addr16 word) div 2 ^ 31 \<noteq> 0" by (metis even_zero)
  then have a: "2 ^ 31 \<le> unat (addr16 word)" by (simp add: div_eq_0_iff)
  have u: "unat (ucast x :: u64) = unat x" "unat x < 2 ^ 32" for x :: u32
    using unsigned_less [where ?'a = nat and w = x] by (simp_all add: unsigned_ucast_eq take_bit_nat_eq_self)
  have "unat ((scast ?r :: u64) + ucast (addr16 word)) = unat ?r + unat (addr16 word)"
    using u(2) [of ?r] u(2) [of "addr16 word"] unfolding scast_positive [OF assms(3)]
    by (subst unat_add_lem [THEN iffD1]) (simp_all add: u(1))
  then have "(ucast MEM_SIZE_v1 :: u64) \<le> scast ?r + ucast (addr16 word)"
    using a by (simp add: word_le_nat_alt MEM_SIZE_v1_def)
  then show ?thesis using old_cases(6) [OF assms(1)] by simp
qed

end
