(* ===== verification/Testvm_Single.thy ===== *)
theory Testvm_Single
  imports Testvm Vmx20_Single
begin

text \<open>
  The driver A2/P2backup/testvm.c of the earlier machine, which knows no options, runs the machine in the same process and
  prints its table always. The last theorem runs a program that adds two numbers from the command line.
\<close>

section \<open>Arguments\<close>

record driver_v1 =
  o_vm :: vm_v1
  o_print :: "string list"
  o_out :: string

definition put_line :: "u32 \<Rightarrow> string \<Rightarrow> u32 \<Rightarrow> string" where
  "put_line word arg addr = ''Put word 0x'' @ hex_nat (unat word) @ '' at '' @ arg @ '' ('' @ fmt_d addr @ '')'' @ nl"

definition assign_arg_v1 :: "(string \<Rightarrow> u32) \<Rightarrow> string \<Rightarrow> driver_v1 \<Rightarrow> driver_v1 res" where
  "assign_arg_v1 to_float arg d =
     (let label = takeWhile (\<lambda>c. c \<noteq> CHR ''='') arg; split = tl (dropWhile (\<lambda>c. c \<noteq> CHR ''='') arg);
          word = (if CHR ''f'' \<in> set split \<or> CHR ''.'' \<in> set split then to_float split else atoi split)
      in bindR (getAddress_v1 (o_vm d) (label_bytes label)) (\<lambda>r.
         case r of None \<Rightarrow> Inr (d\<lparr>o_out := o_out d @ failAddr label\<rparr>)
         | Some addr \<Rightarrow> (case putWord_v1 (o_vm d) addr word of (vm, ok) \<Rightarrow>
             Inr (if ok then d\<lparr>o_vm := vm, o_out := o_out d @ put_line word label addr\<rparr>
                  else d\<lparr>o_out := o_out d @ failPut addr\<rparr>))))"

fun arg_loop_v1 :: "(string \<Rightarrow> u32) \<Rightarrow> string list \<Rightarrow> driver_v1 \<Rightarrow> driver_v1 res" where
  "arg_loop_v1 to_float [] d = Inr d"
| "arg_loop_v1 to_float (arg # args) d =
     bindR (if CHR ''='' \<notin> set arg then Inr (d\<lparr>o_print := o_print d @ [arg]\<rparr>)
            else assign_arg_v1 to_float arg d) (arg_loop_v1 to_float args)"

section \<open>The driver\<close>

fun result_lines_v1 :: "(u32 \<Rightarrow> string) \<Rightarrow> vm_v1 \<Rightarrow> string list \<Rightarrow> string res" where
  "result_lines_v1 show_float vm [] = Inr []"
| "result_lines_v1 show_float vm (arg # args) =
     bindR (getAddress_v1 vm (label_bytes arg)) (\<lambda>r.
     bindR (result_lines_v1 show_float vm args) (\<lambda>rest.
     Inr ((case r of None \<Rightarrow> failAddr arg
       | Some addr \<Rightarrow> (case getWord_v1 vm addr 0 of (wordx, ok) \<Rightarrow>
           if \<not> ok then failGet addr
           else ''['' @ prec 3 (hex_nat (unat addr)) @ ''] '' @ fill_left 16 arg @ '': 0x'' @ prec 8 (hex_nat (unat wordx)) @ '' ''
             @ fill_left 10 (fmt_d wordx) @ '' '' @ show_float wordx @ nl)) @ rest)))"

definition table_head_v1 :: string where
  "table_head_v1 = ''======================================================'' @ nl
     @ ''[###]            Label:     Hex      Decimal    Float '' @ nl
     @ ''------------------------------------------------------'' @ nl"

text \<open>\<open>main\<close>, with fuel for the machine; \<open>None\<close> when it has not returned. The code of the exit after a failed \<open>execute\<close> is the
  \<open>err\<close> that the loader has left.\<close>

definition testvm_v1 :: "nat \<Rightarrow> (string \<Rightarrow> u32) \<Rightarrow> (u32 \<Rightarrow> string) \<Rightarrow> bool \<Rightarrow> bool \<Rightarrow> vm_v1 \<Rightarrow> u8 list option \<Rightarrow> string list \<Rightarrow> string option res" where
  "testvm_v1 fuel to_float show_float vm_ok memory_ok junk file argv =
     (if length argv < 2 then Inl (ExitCode 1)
      else case initVm_v1 vm_ok memory_ok junk of (handle, err) \<Rightarrow>
      if err \<noteq> 0 then Inl (ExitCode err)
      else bindR (loadExecutableFile_v1 handle (argv ! 1) file err) (\<lambda>(handle, ok, err).
      if \<not> ok then Inl (ExitCode err)
      else case handle of None \<Rightarrow> Inl NullDeref
      | Some vm \<Rightarrow> bindR (arg_loop_v1 to_float (drop 2 argv) \<lparr>o_vm = vm, o_print = [], o_out = []\<rparr>) (\<lambda>d.
      bindR (execute_v1 fuel (o_vm d)) (\<lambda>r.
      case r of None \<Rightarrow> Inr None
      | Some (vm, message, success) \<Rightarrow>
          if \<not> success then Inl (ExitCode err)
          else bindR (result_lines_v1 show_float vm (o_print d)) (\<lambda>t.
            bindR (cleanup_v1 (Some vm)) (\<lambda>_. Inr (Some (o_out d @ table_head_v1 @ t))))))))"

section \<open>A program\<close>

text \<open>\<open>load r1, a; load r2, b; addi r1, r2; store r1, c; halt\<close>, with the variables a, b and c behind it.\<close>

definition sum_prog :: "u32 list" where
  "sum_prog = [0x4101, 0x4201, 0x210b, 0x3102, 0, 0, 0, 0]"

definition sum_file :: "u8 list" where
  "sum_file = words_bytes [20, 0, 8] @ pad0 16 mainx20 @ words_bytes [0] @ pad0 16 (label_bytes ''a'') @ words_bytes [5]
     @ pad0 16 (label_bytes ''b'') @ words_bytes [6] @ pad0 16 (label_bytes ''c'') @ words_bytes [7] @ words_bytes sum_prog"

definition sum_symbols :: symtab where
  "sum_symbols = SymCons (label_bytes ''c'') 7 (SymCons (label_bytes ''b'') 6 (SymCons (label_bytes ''a'') 5
     (SymCons mainx20 0 SymNull)))"

definition sum_entries :: "u32 list" where
  "sum_entries = bytes_words (pad0 16 mainx20) @ [0] @ bytes_words (pad0 16 (label_bytes ''a'')) @ [5] @
     bytes_words (pad0 16 (label_bytes ''b'')) @ [6] @ bytes_words (pad0 16 (label_bytes ''c'')) @ [7]"

lemma sum_words: "bytes_words sum_file = [20, 0, 8] @ sum_entries @ sum_prog"
  by code_simp

lemma sum_names:
  "length (bytes_words (pad0 16 mainx20)) = 4" "cstr_opt (words_bytes (bytes_words (pad0 16 mainx20))) = Some mainx20"
  "x \<in> {''a'', ''b'', ''c''} \<Longrightarrow> length (bytes_words (pad0 16 (label_bytes x))) = 4"
  "x \<in> {''a'', ''b'', ''c''} \<Longrightarrow> cstr_opt (words_bytes (bytes_words (pad0 16 (label_bytes x)))) = Some (label_bytes x)"
  "x \<in> {''a'', ''b'', ''c''} \<Longrightarrow> label_bytes x \<noteq> mainx20"
proof -
  show "length (bytes_words (pad0 16 mainx20)) = 4" "cstr_opt (words_bytes (bytes_words (pad0 16 mainx20))) = Some mainx20"
    by code_simp+
  have "list_all (\<lambda>x. length (bytes_words (pad0 16 (label_bytes x))) = 4 \<and>
      cstr_opt (words_bytes (bytes_words (pad0 16 (label_bytes x)))) = Some (label_bytes x) \<and> label_bytes x \<noteq> mainx20) [''a'', ''b'', ''c'']"
    by code_simp
  then show "x \<in> {''a'', ''b'', ''c''} \<Longrightarrow> length (bytes_words (pad0 16 (label_bytes x))) = 4"
    "x \<in> {''a'', ''b'', ''c''} \<Longrightarrow> cstr_opt (words_bytes (bytes_words (pad0 16 (label_bytes x)))) = Some (label_bytes x)"
    "x \<in> {''a'', ''b'', ''c''} \<Longrightarrow> label_bytes x \<noteq> mainx20" by auto
qed

lemma sum_read:
  "symbols_v1 vm = SymNull \<Longrightarrow> parse_insymbols_v1 sum_entries vm = Inr (vm\<lparr>symbols_v1 := sum_symbols, entry_point := 0\<rparr>)"
  by (simp add: sum_entries_def parse_insymbols_v1.simps sum_names sum_symbols_def nth_append Let_def)

lemma sum_loads:
  assumes "symbols_v1 vm = SymNull"
  shows "loadExecutableFile_v1 (Some vm) ''sum.exe'' (Some sum_file) 0 = Inr (Some (vm\<lparr>
     memory_v1 := (\<lambda>a. if unat a < 8 then sum_prog ! unat a else memory_v1 vm a), prog_end := 8,
     symbols_v1 := sum_symbols, entry_point := 0\<rparr>), True, 0)"
proof -
  have h: "file_word sum_file 0 = 20" "file_word sum_file 1 = 0" "file_word sum_file 2 = 8"
    by (simp_all add: file_word_def file_words_def sum_words)
  have e: "length sum_entries = 20" by (simp add: sum_entries_def sum_names)
  have p: "length sum_prog = 8" by (simp add: sum_prog_def)
  have s: "file_words sum_file 3 20 = sum_entries" by (simp add: file_words_def sum_words e)
  have c: "drop 23 (bytes_words sum_file) = sum_prog" by (simp add: sum_words e)
  have t: "take 8 sum_prog = sum_prog" by (simp add: p)
  have l: "length (bytes_words sum_file) = 31" by (simp add: sum_words e p)
  have f: "first_exe ''sum.exe'' = Some []" by code_simp
  show ?thesis
    unfolding loadExecutableFile_v1_def option.case h f
    using assms by (simp add: s c t e p l MEM_SIZE_v1_def sum_read Let_def cong: if_cong)
qed


text \<open>An argument with a number.\<close>

lemma number_arg:
  assumes n: "n < 2 ^ 31" and l: "c \<noteq> CHR ''=''" and a: "getAddress (symbols_v1 (o_vm d)) (label_bytes [c]) = Inr (Some addr)"
    and m: "addr < MEM_SIZE_v1"
  shows "arg_loop_v1 tf ((c # CHR ''='' # dec_nat n) # args) d =
    arg_loop_v1 tf args (d\<lparr>o_vm := (o_vm d)\<lparr>memory_v1 := (memory_v1 (o_vm d))(addr := of_nat n)\<rparr>,
      o_out := o_out d @ put_line (of_nat n) [c] addr\<rparr>)"
proof -
  have d: "\<forall>x \<in> set (dec_nat n). is_digit x" using dec_nat_digits [of n] by blast
  have "\<not> is_digit CHR ''f''" "\<not> is_digit CHR ''.''" by code_simp+
  then have "CHR ''f'' \<notin> set (dec_nat n)" "CHR ''.'' \<notin> set (dec_nat n)" using d by blast+
  moreover have "atoi (dec_nat n) = of_nat n" using scan_dec [OF n] by (simp add: atoi_def)
  moreover have "\<not> MEM_SIZE_v1 \<le> addr" using m by (simp add: not_le)
  ultimately show ?thesis using l a by (simp add: assign_arg_v1_def getAddress_v1_def putWord_v1_def Let_def)
qed

lemma sum_found:
  "getAddress sum_symbols (label_bytes ''a'') = Inr (Some 5)" "getAddress sum_symbols (label_bytes ''b'') = Inr (Some 6)"
  "getAddress sum_symbols (label_bytes ''c'') = Inr (Some 7)"
  by code_simp+

text \<open>The run of the program.\<close>

definition holds_sum :: "u32 \<Rightarrow> u32 \<Rightarrow> vm_v1 \<Rightarrow> bool" where
  "holds_sum x y m \<longleftrightarrow> (\<forall>a < 5. memory_v1 m a = sum_prog ! unat a) \<and> memory_v1 m 5 = x \<and> memory_v1 m 6 = y \<and>
     prog_end m = 8 \<and> entry_point m = 0"

lemma sum_fields:
  "addr20 0x4101 = 4" "addr20 0x4201 = 4" "addr20 0x3102 = 3" "reg1_of 0x4101 = 1" "reg1_of 0x4201 = 2" "reg1_of 0x210b = 1"
  "reg2_of 0x210b = 2" "reg1_of 0x3102 = 1"
  by code_simp+

lemma sum_steps:
  "executeInstruction_v1 m 0x4101 k i = (set_reg_v1 PC (reg_v1 m PC + 1) (set_reg_v1 1 (fst (getWord_v1 m (reg_v1 m PC + 1 + 4) (reg_v1 m 1))) m), k, i, True)"
  "executeInstruction_v1 m 0x4201 k i = (set_reg_v1 PC (reg_v1 m PC + 1) (set_reg_v1 2 (fst (getWord_v1 m (reg_v1 m PC + 1 + 4) (reg_v1 m 2))) m), k, i, True)"
  "executeInstruction_v1 m 0x210b k i = (set_reg_v1 PC (reg_v1 m PC + 1) (set_reg_v1 1 (reg_v1 m 1 + reg_v1 m 2) m), k, i, True)"
  "executeInstruction_v1 m 0x3102 k i = (set_reg_v1 PC (reg_v1 m PC + 1) (fst (putWord_v1 m (reg_v1 m PC + 1 + 3) (reg_v1 m 1))), k, i, True)"
  "executeInstruction_v1 m 0 k i = (set_reg_v1 PC (reg_v1 m PC + 1) m, NORMAL_TERMINATION, None, False)"
  using old_cases(2) [of "0x4101" m k i] old_cases(2) [of "0x4201" m k i] old_cases(10) [of "0x210b" m k i]
    old_cases(3) [of "0x3102" m k i] old_cases(1) [of 0 m k i]
  by (simp_all add: sum_fields)

lemma sum_runs:
  assumes "holds_sum x y m"
  shows "\<exists>m' msg. execute_v1 5 m = Inr (Some (m', msg, True)) \<and> memory_v1 m' 7 = x + y \<and> symbols_v1 m' = symbols_v1 m"
proof -
  have w: "memory_v1 m 0 = 0x4101" "memory_v1 m 1 = 0x4201" "memory_v1 m 2 = 0x210b" "memory_v1 m 3 = 0x3102" "memory_v1 m 4 = 0"
    using assms by (simp_all add: holds_sum_def sum_prog_def)
  have five: "(5 :: nat) = Suc (Suc (Suc (Suc (Suc 0))))" by simp
  have pc: "\<not> (0xfffff :: u32) \<le> 1" "\<not> (8 :: u32) \<le> 1" by (simp_all add: word_le_nat_alt)
  show ?thesis
    unfolding five using assms
    by (simp add: execute_v1_def w pc sum_steps set_reg_v1_def getWord_v1_def putWord_v1_def holds_sum_def MEM_SIZE_v1_def
        PC_regs PC_regs [symmetric] error_codes)
qed

theorem old_driver_adds:
  assumes n: "x < 2 ^ 31" "y < 2 ^ 31" and j: "symbols_v1 junk = SymNull"
  shows "testvm_v1 5 tf sf True True junk (Some sum_file) [''testvm'', ''sum.exe'', ''a='' @ dec_nat x, ''b='' @ dec_nat y, ''c''] =
    Inr (Some (put_line (of_nat x) ''a'' 5 @ put_line (of_nat y) ''b'' 6 @ table_head_v1 @
      ''[007]                c: 0x'' @ prec 8 (hex_nat (unat (of_nat (x + y) :: u32))) @ '' '' @
      fill_left 10 (fmt_d (of_nat (x + y))) @ '' '' @ sf (of_nat (x + y)) @ nl))"
proof -
  define m where "m = junk\<lparr>reg_v1 := (\<lambda>_. 0), memory_v1 := (\<lambda>a. if unat a < 8 then sum_prog ! unat a else memory_v1 junk a), prog_end := 8,
     symbols_v1 := sum_symbols, entry_point := 0\<rparr>"
  let ?d = "\<lparr>o_vm = m, o_print = [], o_out = []\<rparr>"
  define m1 where "m1 = m\<lparr>memory_v1 := (memory_v1 m)(5 := of_nat x, 6 := of_nat y)\<rparr>"
  have load: "loadExecutableFile_v1 (Some (junk\<lparr>reg_v1 := (\<lambda>_. 0)\<rparr>)) ''sum.exe'' (Some sum_file) 0 = Inr (Some m, True, 0)"
    using sum_loads [of "junk\<lparr>reg_v1 := (\<lambda>_. 0)\<rparr>"] j by (simp add: m_def cong: if_cong)
  have args: "arg_loop_v1 tf [''a='' @ dec_nat x, ''b='' @ dec_nat y, ''c''] ?d = Inr \<lparr>o_vm = m1, o_print = [''c''],
      o_out = put_line (of_nat x) ''a'' 5 @ put_line (of_nat y) ''b'' 6\<rparr>"
    using number_arg [OF n(1), of "CHR ''a''" ?d 5] number_arg [OF n(2), of "CHR ''b''" _ 6] sum_found
    by (simp add: m_def m1_def MEM_SIZE_v1_def)
  have "holds_sum (of_nat x) (of_nat y) m1"
    by (simp add: holds_sum_def m1_def m_def word_less_nat_alt)
  then obtain m' msg where run: "execute_v1 5 m1 = Inr (Some (m', msg, True))" "memory_v1 m' 7 = of_nat (x + y)"
    "symbols_v1 m' = sum_symbols" using sum_runs by (fastforce simp: m1_def m_def)
  have t: "prec 3 (hex_nat 7) = ''007''" "fill_left 16 ''c'' = ''               c''" by code_simp+
  define z where "z = (of_nat (x + y) :: u32)"
  have line: "result_lines_v1 sf m' [''c''] = Inr (''[007]                c: 0x'' @ prec 8 (hex_nat (unat z)) @ '' '' @
      fill_left 10 (fmt_d z) @ '' '' @ sf z @ nl)"
    using run(2,3) by (simp add: z_def [symmetric] getAddress_v1_def getWord_v1_def MEM_SIZE_v1_def sum_found t del: of_nat_add)
  have "cleanup_v1 (Some m') = Inr ()" by (simp add: cleanup_v1_def run(3) sum_symbols_def)
  then show ?thesis
    unfolding z_def [symmetric] using load args run(1) line
    by (simp add: testvm_v1_def initVm_v1_def NORMAL_TERMINATION_def del: arg_loop_v1.simps result_lines_v1.simps)
qed

end
