(* ===== verification/Queue.thy ===== *)
theory Queue
  imports Prelude
begin

text \<open>
  The queue of A3/queue.c at the level of its pointers: a queue with the items it has allocated.
  An address is a natural number, \<open>malloc\<close> returns the next one that was never used, and a
  dereference of an address that is not allocated is the fault \<open>WildPointer\<close>, so that a dangling
  pointer shows.  Allocations succeed except in \<open>init_queue\<close>, where the code looks.  The interface
  \<open>fifo\<close> states what the thread library relies on.
\<close>

section \<open>Data\<close>

text \<open>\<open>qitem_t\<close>, and \<open>struct Queue\<close> with the allocated items.  \<open>None\<close> is the null pointer.\<close>

record qitem =
  item_data :: nat
  item_next :: "nat option"

record queue =
  q_front :: "nat option"
  q_back :: "nat option"
  q_cells :: "nat \<Rightarrow> qitem option"
  q_brk :: nat

definition deref :: "queue \<Rightarrow> nat option \<Rightarrow> qitem res" where
  "deref q p = (case p of None \<Rightarrow> Inl NullDeref
     | Some a \<Rightarrow> (case q_cells q a of None \<Rightarrow> Inl WildPointer | Some it \<Rightarrow> Inr it))"

section \<open>Operations\<close>

definition init_queue :: "bool \<Rightarrow> queue option \<times> int" where
  "init_queue malloc_ok =
     (if \<not> malloc_ok then (None, 1)
      else (Some \<lparr>q_front = None, q_back = None, q_cells = (\<lambda>_. None), q_brk = 0\<rparr>, 0))"

definition queue_not_empty :: "queue option \<Rightarrow> bool" where
  "queue_not_empty Q = (case Q of None \<Rightarrow> False | Some q \<Rightarrow> q_front q \<noteq> None)"

definition queue_push :: "queue \<Rightarrow> nat \<Rightarrow> queue res" where
  "queue_push q d =
     (let item = q_brk q;
          q = q\<lparr>q_cells := (q_cells q)(item \<mapsto> \<lparr>item_data = d, item_next = None\<rparr>), q_brk := Suc item\<rparr> in
      case q_back q of
        Some b \<Rightarrow> bindR (deref q (Some b)) (\<lambda>it.
          Inr (q\<lparr>q_cells := (q_cells q)(b \<mapsto> it\<lparr>item_next := Some item\<rparr>), q_back := Some item\<rparr>))
      | None \<Rightarrow> Inr (q\<lparr>q_front := Some item, q_back := Some item\<rparr>))"

text \<open>\<open>queue_peek\<close> returns the front item itself.\<close>

definition queue_peek :: "queue option \<Rightarrow> nat option" where
  "queue_peek Q = (case Q of None \<Rightarrow> None | Some q \<Rightarrow> if q_front q = None then None else q_front q)"

definition queue_pop :: "queue \<Rightarrow> (nat option \<times> queue) res" where
  "queue_pop q =
     (case q_front q of
        None \<Rightarrow> Inr (None, q)
      | Some item \<Rightarrow> bindR (deref q (Some item)) (\<lambda>it.
          let q = q\<lparr>q_front := item_next it\<rparr>;
              q = (if q_front q = None then q\<lparr>q_back := None\<rparr> else q)
          in Inr (Some (item_data it), q\<lparr>q_cells := (q_cells q)(item := None)\<rparr>)))"

definition iterator :: "queue option \<Rightarrow> nat option res" where
  "iterator Q = (case Q of None \<Rightarrow> Inl NullDeref | Some q \<Rightarrow> Inr (q_front q))"

definition next_item :: "queue \<Rightarrow> nat option \<Rightarrow> (nat option \<times> nat option) res" where
  "next_item q I =
     (case I of None \<Rightarrow> Inr (None, None)
      | Some item \<Rightarrow> bindR (deref q (Some item)) (\<lambda>it. Inr (Some (item_data it), item_next it)))"

text \<open>The loop of \<open>queue_remove\<close> from \<open>item\<close>, with fuel; a list of cells is shorter than the number
  of addresses ever used.\<close>

fun remove_loop :: "nat \<Rightarrow> queue \<Rightarrow> nat \<Rightarrow> nat option \<Rightarrow> nat option \<Rightarrow> (int \<times> queue) option res" where
  "remove_loop 0 q d prev item = Inr None"
| "remove_loop (Suc fuel) q d prev item =
     (case item of
        None \<Rightarrow> Inr (Some (1, q))
      | Some i \<Rightarrow> bindR (deref q (Some i)) (\<lambda>it.
          if item_data it = d then
            (if item = q_front q
             then Inr (Some (0, q\<lparr>q_front := item_next it, q_cells := (q_cells q)(i := None)\<rparr>))
             else (case prev of
                     None \<Rightarrow> Inl NullDeref
                   | Some p \<Rightarrow> bindR (deref q (Some p)) (\<lambda>pit.
                       Inr (Some (0, q\<lparr>q_cells := ((q_cells q)(p \<mapsto> pit\<lparr>item_next := item_next it\<rparr>))(i := None)\<rparr>)))))
          else remove_loop fuel q d item (item_next it)))"

definition queue_remove :: "queue option \<Rightarrow> nat \<Rightarrow> (int \<times> queue option) option res" where
  "queue_remove Q d =
     (case Q of
        None \<Rightarrow> Inr (Some (1, None))
      | Some q \<Rightarrow>
          if d = 0 then Inr (Some (1, Some q))
          else if q_front q = None then Inr (Some (1, Some q))
          else bindR (remove_loop (Suc (q_brk q)) q d (q_front q) (q_front q))
                 (\<lambda>r. Inr (map_option (\<lambda>(n, q). (n, Some q)) r)))"

text \<open>\<open>destroy_queue\<close>: the items that are still allocated afterwards, with fuel.\<close>

fun destroy_loop :: "nat \<Rightarrow> queue \<Rightarrow> queue option res" where
  "destroy_loop 0 q = Inr None"
| "destroy_loop (Suc fuel) q =
     (case q_front q of
        None \<Rightarrow> Inr (Some q)
      | Some item \<Rightarrow> bindR (deref q (Some item)) (\<lambda>it.
          destroy_loop fuel (q\<lparr>q_front := item_next it, q_cells := (q_cells q)(item := None)\<rparr>)))"

definition destroy_queue :: "queue option \<Rightarrow> (nat \<Rightarrow> qitem option) option res" where
  "destroy_queue Q =
     (case Q of None \<Rightarrow> Inr (Some (\<lambda>_. None))
      | Some q \<Rightarrow> bindR (destroy_loop (Suc (q_brk q)) q) (\<lambda>r. Inr (map_option q_cells r)))"

section \<open>The interface\<close>

text \<open>A program on a queue: each step pushes a value or pops; the popped values are collected.  The
  same program on a list is the specification.\<close>

fun run_queue :: "('q \<Rightarrow> 'a \<Rightarrow> 'q res) \<Rightarrow> ('q \<Rightarrow> ('a option \<times> 'q) res) \<Rightarrow> 'a option list \<Rightarrow> 'q \<Rightarrow>
    ('a option list \<times> 'q) res" where
  "run_queue push pop [] q = Inr ([], q)"
| "run_queue push pop (Some x # cs) q = bindR (push q x) (run_queue push pop cs)"
| "run_queue push pop (None # cs) q =
     bindR (pop q) (\<lambda>(y, q). bindR (run_queue push pop cs q) (\<lambda>(ys, q). Inr (y # ys, q)))"

fun run_list :: "'a option list \<Rightarrow> 'a list \<Rightarrow> 'a option list \<times> 'a list" where
  "run_list [] xs = ([], xs)"
| "run_list (Some x # cs) xs = run_list cs (xs @ [x])"
| "run_list (None # cs) [] = (let (ys, zs) = run_list cs [] in (None # ys, zs))"
| "run_list (None # cs) (x # xs) = (let (ys, zs) = run_list cs xs in (Some x # ys, zs))"

text \<open>A first-in first-out queue that never faults: \<open>rep q xs\<close> relates a queue to its contents.\<close>

locale fifo =
  fixes rep :: "'q \<Rightarrow> 'a list \<Rightarrow> bool"
    and push :: "'q \<Rightarrow> 'a \<Rightarrow> 'q res"
    and pop :: "'q \<Rightarrow> ('a option \<times> 'q) res"
  assumes push_rep: "rep q xs \<Longrightarrow> \<exists>q'. push q x = Inr q' \<and> rep q' (xs @ [x])"
    and pop_empty: "rep q [] \<Longrightarrow> pop q = Inr (None, q)"
    and pop_rep: "rep q (x # xs) \<Longrightarrow> \<exists>q'. pop q = Inr (Some x, q') \<and> rep q' xs"
begin

lemma run_simulates:
  "rep q xs \<Longrightarrow> \<exists>q'. run_queue push pop cs q = Inr (fst (run_list cs xs), q') \<and> rep q' (snd (run_list cs xs))"
proof (induction cs xs arbitrary: q rule: run_list.induct)
  case (2 x cs xs)
  then obtain q' where "push q x = Inr q'" "rep q' (xs @ [x])" using push_rep by blast
  then show ?case using 2(1) by simp
next
  case (3 cs)
  then show ?case using pop_empty [OF 3(2)] by (fastforce simp: split_beta)
next
  case (4 cs x xs)
  then obtain q' where "pop q = Inr (Some x, q')" "rep q' xs" using pop_rep by blast
  then show ?case using 4(1) by (fastforce simp: split_beta)
qed simp

end

section \<open>The items of a queue\<close>

text \<open>The items that the pointers from \<open>p\<close> pass, as addresses with their data.\<close>

fun chain :: "(nat \<Rightarrow> qitem option) \<Rightarrow> nat option \<Rightarrow> (nat \<times> nat) list \<Rightarrow> bool" where
  "chain c p [] = (p = None)"
| "chain c p ((a, d) # xs) = (p = Some a \<and> (\<exists>n. c a = Some \<lparr>item_data = d, item_next = n\<rparr> \<and> chain c n xs))"

text \<open>A well-formed queue: the items are distinct, exactly the allocated cells, and the back pointer
  is at the last one.\<close>

definition queue_items :: "queue \<Rightarrow> (nat \<times> nat) list \<Rightarrow> bool" where
  "queue_items q xs \<longleftrightarrow> chain (q_cells q) (q_front q) xs \<and> distinct (map fst xs) \<and>
     dom (q_cells q) = fst ` set xs \<and> (\<forall>a \<in> fst ` set xs. a < q_brk q) \<and>
     q_back q = (if xs = [] then None else Some (fst (last xs)))"

definition queue_rep :: "queue \<Rightarrow> nat list \<Rightarrow> bool" where
  "queue_rep q ds \<longleftrightarrow> (\<exists>xs. queue_items q xs \<and> map snd xs = ds)"

lemma chain_frame: "a \<notin> fst ` set xs \<Longrightarrow> chain (c(a := v)) p xs = chain c p xs"
  by (induction xs arbitrary: p) auto

lemma chain_append:
  "chain c p (xs @ [(a, d)]) \<Longrightarrow> distinct (map fst (xs @ [(a, d)])) \<Longrightarrow> b \<notin> fst ` set (xs @ [(a, d)]) \<Longrightarrow>
   c b = Some \<lparr>item_data = e, item_next = None\<rparr> \<Longrightarrow>
   chain (c(a \<mapsto> \<lparr>item_data = d, item_next = Some b\<rparr>)) p ((xs @ [(a, d)]) @ [(b, e)])"
proof (induction xs arbitrary: p)
  case (Cons x xs)
  then show ?case by (cases x) auto
qed auto

lemma chain_last: "chain c p (xs @ [(a, d)]) \<Longrightarrow> c a = Some \<lparr>item_data = d, item_next = None\<rparr>"
  by (induction xs arbitrary: p) auto

lemma push_items:
  assumes "queue_items q xs"
  shows "\<exists>q'. queue_push q d = Inr q' \<and> queue_items q' (xs @ [(q_brk q, d)])"
proof (cases xs rule: rev_cases)
  case Nil
  let ?q = "q\<lparr>q_cells := (q_cells q)(q_brk q \<mapsto> \<lparr>item_data = d, item_next = None\<rparr>), q_brk := Suc (q_brk q),
    q_front := Some (q_brk q), q_back := Some (q_brk q)\<rparr>"
  have "queue_push q d = Inr ?q" "queue_items ?q (xs @ [(q_brk q, d)])"
    using assms Nil by (auto simp: queue_items_def queue_push_def Let_def)
  then show ?thesis by blast
next
  case (snoc ys y)
  obtain b e where y: "y = (b, e)" by (cases y)
  let ?new = "q_brk q"
  let ?c = "(q_cells q)(?new \<mapsto> \<lparr>item_data = d, item_next = None\<rparr>)"
  have new: "?new \<notin> fst ` set xs" and ch: "chain (q_cells q) (q_front q) (ys @ [(b, e)])"
    and dist: "distinct (map fst (ys @ [(b, e)]))" and dom: "dom (q_cells q) = fst ` set xs"
    and lt: "\<forall>a \<in> fst ` set xs. a < ?new" and bk: "q_back q = Some b"
    using assms by (auto simp: queue_items_def snoc y)
  have cb: "q_cells q b = Some \<lparr>item_data = e, item_next = None\<rparr>" by (rule chain_last [OF ch])
  have bn: "b \<noteq> ?new" using new by (auto simp: snoc y)
  have ch': "chain ?c (q_front q) (ys @ [(b, e)])" using ch new by (simp add: chain_frame snoc y)
  have "chain (?c(b \<mapsto> \<lparr>item_data = e, item_next = Some ?new\<rparr>)) (q_front q) ((ys @ [(b, e)]) @ [(?new, d)])"
    by (rule chain_append [OF ch' dist]) (use new in \<open>simp_all add: snoc y\<close>)
  moreover have "queue_push q d = Inr (q\<lparr>q_cells := ?c(b \<mapsto> \<lparr>item_data = e, item_next = Some ?new\<rparr>),
      q_brk := Suc ?new, q_back := Some ?new\<rparr>)"
    using bn cb by (simp add: queue_push_def bk deref_def Let_def)
  ultimately show ?thesis
    using dist dom lt new by (auto simp: queue_items_def snoc y less_Suc_eq)
qed

lemma pop_items_empty: "queue_items q [] \<Longrightarrow> queue_pop q = Inr (None, q)"
  by (simp add: queue_items_def queue_pop_def)

lemma pop_items:
  assumes "queue_items q ((a, d) # xs)"
  shows "\<exists>q'. queue_pop q = Inr (Some d, q') \<and> queue_items q' xs"
proof -
  obtain n where c: "q_cells q a = Some \<lparr>item_data = d, item_next = n\<rparr>" "chain (q_cells q) n xs"
    and f: "q_front q = Some a" and na: "a \<notin> fst ` set xs"
    using assms by (auto simp: queue_items_def)
  have "n = None \<longleftrightarrow> xs = []" using c(2) by (cases xs) auto
  then show ?thesis
    using assms c f na chain_frame [OF na, of "q_cells q" None n]
    by (auto simp: queue_items_def queue_pop_def deref_def Let_def)
qed

interpretation lq: fifo queue_rep queue_push queue_pop
proof
  fix q xs x
  assume "queue_rep q xs"
  then show "\<exists>q'. queue_push q x = Inr q' \<and> queue_rep q' (xs @ [x])"
    using push_items by (fastforce simp: queue_rep_def)
next
  fix q assume "queue_rep q []"
  then show "queue_pop q = Inr (None, q)" by (auto simp: queue_rep_def pop_items_empty)
next
  fix q x xs assume "queue_rep q (x # xs)"
  then show "\<exists>q'. queue_pop q = Inr (Some x, q') \<and> queue_rep q' xs"
    using pop_items by (fastforce simp: queue_rep_def)
qed

lemma chain_unique: "chain c p xs \<Longrightarrow> chain c p ys \<Longrightarrow> xs = ys"
proof (induction xs arbitrary: p ys)
  case Nil
  then show ?case by (cases ys) auto
next
  case (Cons x xs)
  then show ?case by (cases x; cases ys) auto
qed

lemma queue_rep_unique: "queue_rep q xs \<Longrightarrow> queue_rep q ys \<Longrightarrow> xs = ys"
  using chain_unique by (fastforce simp: queue_rep_def queue_items_def)

lemma init_rep: "init_queue True = (Some q, 0) \<Longrightarrow> queue_rep q []"
  by (auto simp: init_queue_def queue_rep_def queue_items_def)

text \<open>C27: the pointer-level queue is a first-in first-out queue: any program of pushes and pops on a
  fresh queue never dereferences a bad pointer, pops exactly what the same program pops from a
  list, and leaves no cell allocated but those of the remaining values.\<close>

theorem queue_refines_list:
  assumes "init_queue True = (Some q0, 0)"
  shows "\<exists>q xs. run_queue queue_push queue_pop cs q0 = Inr (fst (run_list cs []), q) \<and>
    queue_items q xs \<and> map snd xs = snd (run_list cs [])"
  using lq.run_simulates [OF init_rep [OF assms], of cs] by (auto simp: queue_rep_def)

theorem queue_refines_list_witness:
  "\<exists>q. run_queue queue_push queue_pop [Some 7, Some 8, None, Some 9, None, None, None]
     \<lparr>q_front = None, q_back = None, q_cells = (\<lambda>_. None), q_brk = 0\<rparr> = Inr ([Some 7, Some 8, Some 9, None], q)"
proof -
  have "init_queue True = (Some \<lparr>q_front = None, q_back = None, q_cells = (\<lambda>_. None), q_brk = 0\<rparr>, 0)"
    by (simp add: init_queue_def)
  from queue_refines_list [OF this, of "[Some 7, Some 8, None, Some 9, None, None, None]"]
  show ?thesis by auto
qed


lemma queue_items_length: "queue_items q xs \<Longrightarrow> length xs < Suc (q_brk q)"
proof -
  assume q: "queue_items q xs"
  have "card (fst ` set xs) = length xs"
    using q by (simp add: queue_items_def distinct_card flip: set_map)
  moreover have "fst ` set xs \<subseteq> {..<q_brk q}" using q by (auto simp: queue_items_def)
  ultimately show ?thesis using card_mono [of "{..<q_brk q}" "fst ` set xs"] by simp
qed

section \<open>Removal\<close>

fun remove_first :: "nat \<Rightarrow> (nat \<times> nat) list \<Rightarrow> (nat \<times> nat) list" where
  "remove_first d [] = []"
| "remove_first d (x # xs) = (if snd x = d then xs else x # remove_first d xs)"

lemma remove_first_split: "d \<notin> snd ` set ys \<Longrightarrow> remove_first d (ys @ (a, d) # zs) = ys @ zs"
  by (induction ys) auto

lemma chain_split: "chain c p (ys @ zs) \<Longrightarrow> \<exists>n. chain c n zs"
  by (induction ys arbitrary: p) auto

lemma chain_unlink:
  "chain c p (ys @ (b, e) # (a, d) # zs) \<Longrightarrow> distinct (map fst (ys @ (b, e) # (a, d) # zs)) \<Longrightarrow>
   c a = Some \<lparr>item_data = d, item_next = n\<rparr> \<Longrightarrow>
   chain ((c(b \<mapsto> \<lparr>item_data = e, item_next = n\<rparr>))(a := None)) p (ys @ (b, e) # zs)"
proof (induction ys arbitrary: p)
  case Nil
  let ?c = "c(b \<mapsto> \<lparr>item_data = e, item_next = n\<rparr>)"
  have "b \<notin> fst ` set zs" "a \<notin> fst ` set zs" "a \<noteq> b" "chain c n zs" "p = Some b" using Nil by auto
  then have "chain (?c(a := None)) n zs" by (simp only: chain_frame simp_thms)
  moreover have "(?c(a := None)) b = Some \<lparr>item_data = e, item_next = n\<rparr>" using \<open>a \<noteq> b\<close> by simp
  ultimately show ?case using \<open>p = Some b\<close> by (simp del: fun_upd_apply)
next
  case (Cons y ys)
  then show ?case by (cases y) auto
qed

text \<open>The loop at item \<open>rest\<close>, all before it in \<open>pre\<close> without a match.\<close>

lemma remove_loop_spec:
  assumes "queue_items q (pre @ rest)" "d \<notin> snd ` set pre" "length rest < fuel"
    and "chain (q_cells q) item rest" "prev = (if pre = [] then q_front q else Some (fst (last pre)))"
  shows "\<exists>q'. remove_loop fuel q d prev item = Inr (Some (if d \<in> snd ` set rest then 0 else 1, q')) \<and>
    (if d \<in> snd ` set rest
     then chain (q_cells q') (q_front q') (remove_first d (pre @ rest)) \<and>
       dom (q_cells q') = fst ` set (remove_first d (pre @ rest)) \<and> q_brk q' = q_brk q \<and> q_back q' = q_back q
     else q' = q)"
  using assms
proof (induction rest arbitrary: pre fuel prev item)
  case Nil
  then show ?case by (cases fuel) auto
next
  case (Cons x rest)
  obtain a e where x: "x = (a, e)" by (cases x)
  obtain f where fuel: "fuel = Suc f" using Cons.prems(3) by (cases fuel) auto
  obtain n where it: "item = Some a" "q_cells q a = Some \<lparr>item_data = e, item_next = n\<rparr>"
    and ch: "chain (q_cells q) n rest"
    using Cons.prems(4) by (auto simp: x)
  have full: "chain (q_cells q) (q_front q) (pre @ (a, e) # rest)"
    and dist: "distinct (map fst (pre @ (a, e) # rest))" and dom: "dom (q_cells q) = fst ` set (pre @ (a, e) # rest)"
    using Cons.prems(1) by (auto simp: queue_items_def x)
  show ?case
  proof (cases "e = d")
    case False
    have "\<exists>q'. remove_loop f q d item n = Inr (Some (if d \<in> snd ` set rest then 0 else 1, q')) \<and>
      (if d \<in> snd ` set rest
       then chain (q_cells q') (q_front q') (remove_first d ((pre @ [x]) @ rest)) \<and>
         dom (q_cells q') = fst ` set (remove_first d ((pre @ [x]) @ rest)) \<and> q_brk q' = q_brk q \<and> q_back q' = q_back q
       else q' = q)"
      by (rule Cons.IH) (use Cons.prems False ch it in \<open>auto simp: x fuel\<close>)
    then show ?thesis using False it
      by (cases "d \<in> snd ` set rest") (simp_all add: fuel x deref_def)
  next
    case True
    have rf: "remove_first d (pre @ (a, e) # rest) = pre @ rest"
      using Cons.prems(2) True by (simp add: remove_first_split)
    show ?thesis
    proof (cases pre rule: rev_cases)
      case Nil
      have "q_front q = Some a" using full Nil by simp
      then show ?thesis using True it rf ch dist dom Nil
        by (auto simp: fuel x deref_def chain_frame)
    next
      case (snoc ys y)
      obtain b g where y: "y = (b, g)" by (cases y)
      have nf: "q_front q \<noteq> Some a" using full dist by (cases ys) (auto simp: snoc y)
      obtain m where "chain (q_cells q) m ((b, g) # (a, e) # rest)"
        using chain_split [of "q_cells q" "q_front q" ys "(b, g) # (a, e) # rest"] full by (auto simp: snoc y)
      then have cb: "q_cells q b = Some \<lparr>item_data = g, item_next = Some a\<rparr>" by auto
      have "chain ((q_cells q)(b \<mapsto> \<lparr>item_data = g, item_next = n\<rparr>, a := None)) (q_front q) (ys @ (b, g) # rest)"
        by (rule chain_unlink) (use full dist it in \<open>auto simp: snoc y\<close>)
      then show ?thesis using True it rf dist dom cb nf Cons.prems(5)
        by (auto simp: fuel x deref_def snoc y)
    qed
  qed
qed

text \<open>\<open>queue_remove\<close> removes the first item with the given data, and is right unless that item is
  the last one: then it leaves the back pointer at the freed item, and the next push writes
  through it.\<close>

theorem queue_remove_spec:
  assumes "queue_items q xs" "d \<noteq> 0"
  shows "\<exists>n q'. queue_remove (Some q) d = Inr (Some (n, Some q')) \<and>
    (if d \<notin> snd ` set xs then n = 1 \<and> q' = q
     else n = 0 \<and>
       (if d \<in> snd ` set (butlast xs) then queue_items q' (remove_first d xs)
        else chain (q_cells q') (q_front q') (butlast xs) \<and> (\<forall>e. queue_push q' e = Inl WildPointer)))"
proof (cases "xs = []")
  case True
  then show ?thesis using assms by (auto simp: queue_items_def queue_remove_def)
next
  case False
  have len: "length xs < Suc (q_brk q)" by (rule queue_items_length [OF assms(1)])
  have ch: "chain (q_cells q) (q_front q) xs" using assms(1) by (simp add: queue_items_def)
  have fr: "q_front q \<noteq> None" using ch False by (cases xs) auto
  have "\<exists>q'. remove_loop (Suc (q_brk q)) q d (q_front q) (q_front q) =
      Inr (Some (if d \<in> snd ` set xs then 0 else 1, q')) \<and>
    (if d \<in> snd ` set xs
     then chain (q_cells q') (q_front q') (remove_first d ([] @ xs)) \<and>
       dom (q_cells q') = fst ` set (remove_first d ([] @ xs)) \<and> q_brk q' = q_brk q \<and> q_back q' = q_back q
     else q' = q)"
    by (rule remove_loop_spec) (use assms len ch in auto)
  then obtain q' where r: "remove_loop (Suc (q_brk q)) q d (q_front q) (q_front q) =
      Inr (Some (if d \<in> snd ` set xs then 0 else 1, q'))"
    and q': "if d \<in> snd ` set xs then chain (q_cells q') (q_front q') (remove_first d xs) \<and>
       dom (q_cells q') = fst ` set (remove_first d xs) \<and> q_brk q' = q_brk q \<and> q_back q' = q_back q
     else q' = q"
    unfolding append_Nil by blast
  have call: "queue_remove (Some q) d = Inr (Some (if d \<in> snd ` set xs then 0 else 1, Some q'))"
    unfolding queue_remove_def option.case r if_not_P [OF fr] using assms(2) by simp
  obtain ys a e where xs: "xs = ys @ [(a, e)]" using False by (cases xs rule: rev_cases) auto
  show ?thesis
  proof (cases "d \<in> snd ` set ys")
    case True
    then obtain us b vs where ys: "ys = us @ (b, d) # vs" "d \<notin> snd ` set us"
      using split_list_first_prop [of ys "\<lambda>p. snd p = d"] by fastforce
    have rf: "remove_first d xs = (us @ vs) @ [(a, e)]"
      using ys by (simp add: xs remove_first_split)
    have mem: "d \<in> snd ` set xs" "d \<in> snd ` set (butlast xs)" using True by (simp_all add: xs)
    have "queue_items q' ((us @ vs) @ [(a, e)])"
      using q' mem(1) assms(1) unfolding rf by (auto simp: xs queue_items_def ys)
    then show ?thesis using call mem unfolding rf by simp
  next
    case no: False
    show ?thesis
    proof (cases "e = d")
      case True
      have rf: "remove_first d xs = ys" using no True by (simp add: xs remove_first_split)
      have "q_back q' = Some a" "q_brk q' = q_brk q" "a < q_brk q" "a \<notin> dom (q_cells q')"
        using q' assms(1) True rf by (auto simp: queue_items_def xs)
      then have "queue_push q' f = Inl WildPointer" for f
        by (auto simp: queue_push_def deref_def Let_def domIff)
      then show ?thesis using call q' True no rf by (auto simp: xs)
    next
      case False
      then show ?thesis using call q' no by (auto simp: xs)
    qed
  qed
qed

theorem queue_remove_spec_witness:
  "\<exists>q q'. queue_remove (Some q) 8 = Inr (Some (0, Some q')) \<and> queue_push q' 9 = Inl WildPointer"
proof -
  let ?c = "[0 \<mapsto> \<lparr>item_data = 7, item_next = Some 1\<rparr>, 1 \<mapsto> \<lparr>item_data = 8, item_next = None\<rparr>]"
  let ?q = "\<lparr>q_front = Some 0, q_back = Some 1, q_cells = ?c, q_brk = 2\<rparr>"
  have "queue_items ?q [(0, 7), (1, 8)]" by (auto simp: queue_items_def)
  from queue_remove_spec [OF this, of 8] show ?thesis by auto
qed

section \<open>Destruction\<close>

lemma destroy_loop_spec:
  "chain (q_cells q) (q_front q) xs \<Longrightarrow> distinct (map fst xs) \<Longrightarrow> dom (q_cells q) = fst ` set xs \<Longrightarrow>
   length xs < fuel \<Longrightarrow> \<exists>q'. destroy_loop fuel q = Inr (Some q') \<and> q_cells q' = (\<lambda>_. None)"
proof (induction xs arbitrary: q fuel)
  case Nil
  then show ?case by (cases fuel) auto
next
  case (Cons x xs)
  obtain a d where x: "x = (a, d)" by (cases x)
  obtain f where f: "fuel = Suc f" using Cons.prems(4) by (cases fuel) auto
  obtain n where c: "q_cells q a = Some \<lparr>item_data = d, item_next = n\<rparr>" "chain (q_cells q) n xs"
    and fr: "q_front q = Some a" using Cons.prems(1) by (auto simp: x)
  have "\<exists>q'. destroy_loop f (q\<lparr>q_front := n, q_cells := (q_cells q)(a := None)\<rparr>) = Inr (Some q') \<and>
      q_cells q' = (\<lambda>_. None)"
    by (rule Cons.IH) (use Cons.prems c in \<open>auto simp: x f chain_frame dom_minus simp del: fun_upd_apply\<close>)
  then show ?case using c fr by (simp add: f deref_def)
qed

lemma destroy_queue_spec:
  assumes "queue_items q xs"
  shows "destroy_queue (Some q) = Inr (Some (\<lambda>_. None))"
proof -
  have "\<exists>q'. destroy_loop (Suc (q_brk q)) q = Inr (Some q') \<and> q_cells q' = (\<lambda>_. None)"
    by (rule destroy_loop_spec [of q xs]) (use assms queue_items_length [OF assms] in \<open>auto simp: queue_items_def\<close>)
  then show ?thesis by (auto simp: destroy_queue_def)
qed

text \<open>\<open>destroy_queue\<close> frees every item of a well-formed queue.\<close>

theorem destroy_queue_frees:
  assumes "queue_items q xs"
  shows "destroy_queue (Some q) = Inr (Some (\<lambda>_. None))"
  using destroy_queue_spec [OF assms] .

theorem destroy_queue_frees_witness:
  "destroy_queue (Some \<lparr>q_front = Some 0, q_back = Some 0, q_cells = [0 \<mapsto> \<lparr>item_data = 7, item_next = None\<rparr>],
     q_brk = 1\<rparr>) = Inr (Some (\<lambda>_. None))"
  by (rule destroy_queue_frees [of _ "[(0, 7)]"]) (auto simp: queue_items_def)

end
