(* ===== verification/Thread_Table.thy ===== *)
theory Thread_Table
  imports Queue
begin

text \<open>
  The thread control blocks of A3/thread.h and the thread table of A3/thread_table.c at the level
  of their pointers: a stack of handles in decreasing order of identifiers, each pointing to a
  control block that points back.  Control blocks and handles live in one heap; a dereference or
  a \<open>free\<close> of an address that is not allocated is the fault \<open>WildPointer\<close>.  The interface
  \<open>id_table\<close> states what the thread library relies on.
\<close>

section \<open>Data\<close>

datatype status = WORKING | WAITING | DONE

text \<open>\<open>tcb_t\<close>: the saved registers, the stack (0 is \<open>NULL\<close>) and the management fields.  A \<open>long\<close>
  identifier is kept as its 64 bits.\<close>

record tcb =
  tcb_rbx :: u64
  tcb_r12 :: u64
  tcb_r13 :: u64
  tcb_r14 :: u64
  tcb_r15 :: u64
  tcb_rbp :: u64
  tcb_rsp :: u64
  tcb_rip :: u64
  tcb_rdi :: u64
  tcb_rsi :: u64
  tcb_stack :: u64
  tcb_tid :: u64
  tcb_status :: status
  tcb_observer :: "nat option"
  tcb_handle :: "nat option"

text \<open>\<open>thandle_t\<close> and \<open>struct TABLE\<close>.\<close>

record thandle =
  th_tcb :: "nat option"
  th_id :: u64
  th_next :: "nat option"

record table =
  tab_head :: "nat option"
  tab_max_id :: u64
  tab_size :: u32

text \<open>The heap: control blocks, handles and the next address that was never used.\<close>

record heap =
  tcbs :: "nat \<Rightarrow> tcb option"
  handles :: "nat \<Rightarrow> thandle option"
  hbrk :: nat

definition get_cell :: "(nat \<Rightarrow> 'c option) \<Rightarrow> nat option \<Rightarrow> 'c res" where
  "get_cell cs p = (case p of None \<Rightarrow> Inl NullDeref
     | Some a \<Rightarrow> (case cs a of None \<Rightarrow> Inl WildPointer | Some c \<Rightarrow> Inr c))"

definition free_handle :: "'a heap_scheme \<Rightarrow> nat \<Rightarrow> 'a heap_scheme res" where
  "free_handle m h =
     (if handles m h = None then Inl WildPointer else Inr (m\<lparr>handles := (handles m)(h := None)\<rparr>))"

definition set_handle :: "nat \<Rightarrow> nat option \<Rightarrow> 'a heap_scheme \<Rightarrow> 'a heap_scheme" where
  "set_handle a h m = m\<lparr>tcbs := (tcbs m)(a := map_option (\<lambda>c. c\<lparr>tcb_handle := h\<rparr>) (tcbs m a))\<rparr>"

section \<open>Operations\<close>

text \<open>\<open>T\<close> is the pointer passed, \<open>ok\<close> whether \<open>malloc\<close> succeeds.\<close>

definition init_table :: "bool \<Rightarrow> bool \<Rightarrow> (int \<times> table option) res" where
  "init_table T_null ok =
     (if T_null then Inr (-1, None)
      else if \<not> ok then Inl (ExitCode (-1))
      else Inr (0, Some \<lparr>tab_head = None, tab_max_id = 0, tab_size = 0\<rparr>))"

definition put_tcb :: "bool \<Rightarrow> 'a heap_scheme \<Rightarrow> table option \<Rightarrow> nat option \<Rightarrow>
    (int \<times> 'a heap_scheme \<times> table option) res" where
  "put_tcb ok m tab p =
     (case (tab, p) of
        (Some t, Some a) \<Rightarrow>
          if \<not> ok then Inl (ExitCode (-1))
          else bindR (get_cell (tcbs m) (Some a)) (\<lambda>c.
            let h = hbrk m;
                id = tab_max_id t;
                m = m\<lparr>handles := (handles m)(h \<mapsto> \<lparr>th_tcb = Some a, th_id = id, th_next = tab_head t\<rparr>),
                      hbrk := Suc h\<rparr>;
                t = t\<lparr>tab_max_id := id + 1, tab_head := Some h, tab_size := tab_size t + 1\<rparr>
            in bindR (case tcb_handle c of None \<Rightarrow> Inr m | Some old \<Rightarrow> free_handle m old) (\<lambda>m.
              Inr (0, m\<lparr>tcbs := (tcbs m)(a \<mapsto> c\<lparr>tcb_tid := id, tcb_handle := Some h\<rparr>)\<rparr>, Some t)))
      | _ \<Rightarrow> Inr (-1, m, tab))"

text \<open>The search passes every handle with a greater identifier.  The loop of \<open>get_tcb_by_id\<close>, then
  the one of \<open>remove_tcb\<close>, which keeps the handle before.\<close>

fun get_loop :: "nat \<Rightarrow> 'a heap_scheme \<Rightarrow> nat option \<Rightarrow> u64 \<Rightarrow> nat option res" where
  "get_loop 0 m ptr target = Inl OutOfFuel"
| "get_loop (Suc fuel) m ptr target =
     (case ptr of None \<Rightarrow> Inr None
      | Some h \<Rightarrow> bindR (get_cell (handles m) (Some h)) (\<lambda>c.
          if th_id c > target then get_loop fuel m (th_next c) target else Inr (Some h)))"

definition get_tcb_by_id :: "'a heap_scheme \<Rightarrow> table option \<Rightarrow> u64 \<Rightarrow> nat option res" where
  "get_tcb_by_id m tab target =
     (case tab of None \<Rightarrow> Inl NullDeref
      | Some t \<Rightarrow> bindR (get_loop (Suc (hbrk m)) m (tab_head t) target) (\<lambda>ptr.
          case ptr of None \<Rightarrow> Inr None
          | Some h \<Rightarrow> bindR (get_cell (handles m) (Some h)) (\<lambda>c.
              if th_id c \<noteq> target then Inr None else Inr (th_tcb c))))"

definition get_tcb :: "'a heap_scheme \<Rightarrow> table option \<Rightarrow> nat option \<Rightarrow> nat option res" where
  "get_tcb m tab p =
     (case (tab, p) of
        (Some t, Some a) \<Rightarrow> bindR (get_cell (tcbs m) (Some a)) (\<lambda>c.
          if tcb_handle c = None then Inr None
          else bindR (get_cell (handles m) (tcb_handle c)) (\<lambda>h. get_tcb_by_id m tab (th_id h)))
      | _ \<Rightarrow> Inr None)"

definition pop_tcb :: "'a heap_scheme \<Rightarrow> table option \<Rightarrow> (nat option \<times> 'a heap_scheme \<times> table option) res" where
  "pop_tcb m tab =
     (case tab of None \<Rightarrow> Inr (None, m, tab)
      | Some t \<Rightarrow> (case tab_head t of None \<Rightarrow> Inr (None, m, tab)
        | Some ret \<Rightarrow> bindR (get_cell (handles m) (Some ret)) (\<lambda>c.
            let t = t\<lparr>tab_head := th_next c\<rparr> in
            bindR (get_cell (tcbs m) (th_tcb c)) (\<lambda>_.
            let m = set_handle (the (th_tcb c)) None m;
                t = t\<lparr>tab_size := tab_size t - 1\<rparr>
            in bindR (free_handle m ret) (\<lambda>m. Inr (th_tcb c, m, Some t))))))"

fun remove_tcb_loop :: "nat \<Rightarrow> 'a heap_scheme \<Rightarrow> nat option \<Rightarrow> nat option \<Rightarrow> u64 \<Rightarrow>
    (nat option \<times> nat option) res" where
  "remove_tcb_loop 0 m prev ptr target = Inl OutOfFuel"
| "remove_tcb_loop (Suc fuel) m prev ptr target =
     (case ptr of None \<Rightarrow> Inr (prev, None)
      | Some h \<Rightarrow> bindR (get_cell (handles m) (Some h)) (\<lambda>c.
          if th_id c > target then remove_tcb_loop fuel m (Some h) (th_next c) target
          else Inr (prev, Some h)))"

definition remove_tcb :: "'a heap_scheme \<Rightarrow> table option \<Rightarrow> nat option \<Rightarrow>
    (int \<times> 'a heap_scheme \<times> table option) res" where
  "remove_tcb m tab p =
     (case (tab, p) of
        (Some t, Some a) \<Rightarrow> bindR (get_cell (tcbs m) (Some a)) (\<lambda>c.
          if tcb_handle c = None then Inr (-1, m, tab)
          else bindR (get_cell (handles m) (tcb_handle c)) (\<lambda>th.
            let target = th_id th in
            bindR (remove_tcb_loop (Suc (hbrk m)) m None (tab_head t) target) (\<lambda>(prev, ptr).
            case ptr of None \<Rightarrow> Inr (-2, m, tab)
            | Some h \<Rightarrow> bindR (get_cell (handles m) (Some h)) (\<lambda>pc.
                if th_id pc \<noteq> target then Inr (-2, m, tab)
                else
                  let m = set_handle a None m in
                  bindR (case prev of
                      None \<Rightarrow> Inr (m, t\<lparr>tab_head := th_next pc\<rparr>)
                    | Some q \<Rightarrow> bindR (get_cell (handles m) (Some q)) (\<lambda>qc.
                        Inr (m\<lparr>handles := (handles m)(q \<mapsto> qc\<lparr>th_next := th_next pc\<rparr>)\<rparr>, t))) (\<lambda>(m, t).
                  bindR (free_handle m h) (\<lambda>m. Inr (0, m, Some (t\<lparr>tab_size := tab_size t - 1\<rparr>))))))))
      | _ \<Rightarrow> Inr (-1, m, tab))"

fun destroy_table_loop :: "nat \<Rightarrow> 'a heap_scheme \<Rightarrow> nat option \<Rightarrow> 'a heap_scheme res" where
  "destroy_table_loop 0 m head = Inl OutOfFuel"
| "destroy_table_loop (Suc fuel) m head =
     (case head of None \<Rightarrow> Inr m
      | Some h \<Rightarrow> bindR (get_cell (handles m) (Some h)) (\<lambda>c.
          bindR (case th_tcb c of None \<Rightarrow> Inr m
                 | Some a \<Rightarrow> bindR (get_cell (tcbs m) (Some a)) (\<lambda>_. Inr (set_handle a None m))) (\<lambda>m.
          bindR (free_handle m h) (\<lambda>m. destroy_table_loop fuel m (th_next c)))))"

definition destroy_table :: "'a heap_scheme \<Rightarrow> table option \<Rightarrow> (int \<times> 'a heap_scheme) res" where
  "destroy_table m tab =
     (case tab of None \<Rightarrow> Inr (-1, m)
      | Some t \<Rightarrow> bindR (destroy_table_loop (Suc (hbrk m)) m (tab_head t)) (\<lambda>m. Inr (0, m)))"

section \<open>The entries of a table\<close>

text \<open>An entry is a handle's address, its identifier and its control block.\<close>

type_synonym entry = "nat \<times> u64 \<times> nat"

abbreviation e_id :: "entry \<Rightarrow> u64" where "e_id \<equiv> \<lambda>e. fst (snd e)"
abbreviation e_tcb :: "entry \<Rightarrow> nat" where "e_tcb \<equiv> \<lambda>e. snd (snd e)"

fun hchain :: "(nat \<Rightarrow> thandle option) \<Rightarrow> nat option \<Rightarrow> entry list \<Rightarrow> bool" where
  "hchain c p [] = (p = None)"
| "hchain c p ((h, i, a) # xs) =
     (p = Some h \<and> (\<exists>n. c h = Some \<lparr>th_tcb = Some a, th_id = i, th_next = n\<rparr> \<and> hchain c n xs))"

text \<open>The control blocks of the entries point back, with their identifier.\<close>

definition linked :: "(nat \<Rightarrow> tcb option) \<Rightarrow> entry list \<Rightarrow> bool" where
  "linked ts xs \<longleftrightarrow> (\<forall>e \<in> set xs. \<exists>c. ts (e_tcb e) = Some c \<and> tcb_tid c = e_id e \<and> tcb_handle c = Some (fst e))"

definition table_rep :: "'a heap_scheme \<Rightarrow> table option \<Rightarrow> entry list \<Rightarrow> bool" where
  "table_rep m tab xs \<longleftrightarrow> (\<exists>t. tab = Some t \<and> hchain (handles m) (tab_head t) xs \<and>
     sorted_wrt (\<lambda>e e'. e_id e > e_id e') xs \<and> (\<forall>e \<in> set xs. e_id e < tab_max_id t) \<and>
     distinct (map fst xs) \<and> dom (handles m) = fst ` set xs \<and> (\<forall>e \<in> set xs. fst e < hbrk m) \<and>
     linked (tcbs m) xs \<and> tab_size t = of_nat (length xs))"

lemma hchain_frame: "h \<notin> fst ` set xs \<Longrightarrow> hchain (c(h := v)) p xs = hchain c p xs"
  by (induction xs arbitrary: p) auto

lemma linked_frame: "a \<notin> e_tcb ` set xs \<Longrightarrow> linked (ts(a := v)) xs = linked ts xs"
  by (auto simp: linked_def image_iff)

lemma linked_Cons: "linked ts ((h, i, a) # xs) \<longleftrightarrow>
    (\<exists>c. ts a = Some c \<and> tcb_tid c = i \<and> tcb_handle c = Some h) \<and> linked ts xs"
  by (auto simp: linked_def)

lemma linked_tcb_inj: "linked ts xs \<Longrightarrow> e \<in> set xs \<Longrightarrow> e' \<in> set xs \<Longrightarrow> e_tcb e = e_tcb e' \<Longrightarrow> e = e'"
  unfolding linked_def prod_eq_iff by (metis option.inject)

lemma table_rep_length: "table_rep m tab xs \<Longrightarrow> length xs < Suc (hbrk m)"
proof -
  assume t: "table_rep m tab xs"
  then have "card (fst ` set xs) = length xs" by (auto simp: table_rep_def distinct_card simp flip: set_map)
  moreover have "fst ` set xs \<subseteq> {..<hbrk m}" using t by (auto simp: table_rep_def)
  ultimately show ?thesis using card_mono [of "{..<hbrk m}" "fst ` set xs"] by simp
qed

lemma table_rep_cong:
  assumes "table_rep m tab xs" "handles m' = handles m" "hbrk m' \<ge> hbrk m" "linked (tcbs m') xs"
  shows "table_rep m' tab xs"
  using assms by (fastforce simp: table_rep_def)

text \<open>A change of control blocks that keeps identifiers and handles.\<close>

lemma linked_upd:
  assumes "linked ts xs" "ts a = Some c" "tcb_tid c' = tcb_tid c" "tcb_handle c' = tcb_handle c"
  shows "linked (ts(a \<mapsto> c')) xs"
  using assms by (auto simp: linked_def)

section \<open>Each operation on the entries\<close>

lemma get_loop_spec:
  "hchain (handles m) p xs \<Longrightarrow> length xs < fuel \<Longrightarrow>
   get_loop fuel m p target = Inr (map_option fst (find (\<lambda>e. e_id e \<le> target) xs))"
proof (induction xs arbitrary: p fuel)
  case Nil
  then show ?case by (cases fuel) auto
next
  case (Cons x xs)
  then show ?case by (cases x; cases fuel) (auto simp: get_cell_def not_le)
qed

lemma hchain_cell:
  "hchain c p xs \<Longrightarrow> (h, i, a) \<in> set xs \<Longrightarrow> \<exists>n. c h = Some \<lparr>th_tcb = Some a, th_id = i, th_next = n\<rparr>"
  by (induction xs arbitrary: p) auto

lemma sorted_find:
  "sorted_wrt (\<lambda>e e'. e_id e > e_id e') xs \<Longrightarrow>
   (case find (\<lambda>e. e_id e \<le> i) xs of None \<Rightarrow> None | Some e \<Rightarrow> if e_id e \<noteq> i then None else Some (e_tcb e)) =
   map_of (map snd xs) i"
proof (induction xs)
  case (Cons x xs)
  then show ?case
  proof (cases "e_id x < i")
    case True
    then have "i \<notin> fst ` set (map snd xs)" using Cons.prems by fastforce
    then show ?thesis using True by (auto simp: map_of_eq_None_iff [THEN iffD2])
  qed (auto simp: not_less)
qed simp

lemma get_tcb_by_id_rep:
  assumes "table_rep m tab xs"
  shows "get_tcb_by_id m tab i = Inr (map_of (map snd xs) i)"
proof -
  obtain t where t: "tab = Some t" "hchain (handles m) (tab_head t) xs" "sorted_wrt (\<lambda>e e'. e_id e > e_id e') xs"
    using assms by (auto simp: table_rep_def)
  have l: "get_loop (Suc (hbrk m)) m (tab_head t) i = Inr (map_option fst (find (\<lambda>e. e_id e \<le> i) xs))"
    by (rule get_loop_spec [OF t(2) table_rep_length [OF assms]])
  show ?thesis
  proof (cases "find (\<lambda>e. e_id e \<le> i) xs")
    case None
    then show ?thesis using l sorted_find [OF t(3), of i] by (simp add: get_tcb_by_id_def t(1) del: get_loop.simps)
  next
    case (Some e)
    obtain h j a where e: "e = (h, j, a)" by (cases e)
    have "e \<in> set xs" using Some by (auto simp: find_Some_iff)
    then obtain n where "handles m h = Some \<lparr>th_tcb = Some a, th_id = j, th_next = n\<rparr>"
      using hchain_cell [OF t(2)] e by blast
    then show ?thesis using l Some sorted_find [OF t(3), of i]
      by (auto simp: get_tcb_by_id_def t(1) get_cell_def e simp del: get_loop.simps)
  qed
qed

lemma word_less_Suc: "x + 1 \<noteq> 0 \<Longrightarrow> x < x + (1 :: 'a :: len word)"
proof -
  assume "x + 1 \<noteq> 0"
  then have "unat (x + 1) = Suc (unat x)" using unatSuc [of x] by (simp add: ac_simps)
  then show ?thesis by (simp add: word_less_nat_alt)
qed

lemma put_tcb_rep:
  assumes "table_rep m (Some t) xs" "tcbs m a = Some c" "tcb_handle c = None" "tab_max_id t + 1 \<noteq> 0"
  shows "\<exists>m' t'. put_tcb True m (Some t) (Some a) = Inr (0, m', Some t') \<and>
    table_rep m' (Some t') ((hbrk m, tab_max_id t, a) # xs) \<and>
    m' = m\<lparr>tcbs := (tcbs m)(a \<mapsto> c\<lparr>tcb_tid := tab_max_id t, tcb_handle := Some (hbrk m)\<rparr>),
          handles := handles m', hbrk := Suc (hbrk m)\<rparr> \<and> tab_max_id t' = tab_max_id t + 1"
proof -
  let ?h = "hbrk m" and ?i = "tab_max_id t"
  let ?hs = "(handles m)(?h \<mapsto> \<lparr>th_tcb = Some a, th_id = ?i, th_next = tab_head t\<rparr>)"
  let ?ts = "(tcbs m)(a \<mapsto> c\<lparr>tcb_tid := ?i, tcb_handle := Some ?h\<rparr>)"
  let ?m = "m\<lparr>handles := ?hs, hbrk := Suc ?h, tcbs := ?ts\<rparr>"
  let ?t = "t\<lparr>tab_max_id := ?i + 1, tab_head := Some ?h, tab_size := tab_size t + 1\<rparr>"
  have t: "hchain (handles m) (tab_head t) xs" "sorted_wrt (\<lambda>e e'. e_id e > e_id e') xs"
      "\<forall>e \<in> set xs. e_id e < ?i" "distinct (map fst xs)" "dom (handles m) = fst ` set xs"
      "\<forall>e \<in> set xs. fst e < ?h" "linked (tcbs m) xs" "tab_size t = of_nat (length xs)"
    using assms(1) unfolding table_rep_def by auto
  have a: "a \<notin> e_tcb ` set xs" using t(7) assms(2,3) by (fastforce simp: linked_def)
  have h: "?h \<notin> fst ` set xs" using t(6) by auto
  have lt: "?i < ?i + 1" using assms(4) by (rule word_less_Suc)
  have put: "put_tcb True m (Some t) (Some a) = Inr (0, ?m, Some ?t)"
    using assms by (simp add: put_tcb_def get_cell_def Let_def)
  have 1: "hchain ?hs (Some ?h) ((?h, ?i, a) # xs)" using t(1) h by (simp add: hchain_frame)
  have 2: "\<forall>e \<in> set ((?h, ?i, a) # xs). e_id e < ?i + 1" using t(3) lt by auto
  have 3: "dom ?hs = fst ` set ((?h, ?i, a) # xs)" using t(5) by simp
  have 4: "linked ?ts ((?h, ?i, a) # xs)" using t(7) a by (simp add: linked_Cons linked_frame)
  have "table_rep ?m (Some ?t) ((?h, ?i, a) # xs)"
    unfolding table_rep_def using 1 2 3 4 t(2-4,6,8) h by (auto simp: less_Suc_eq)
  then show ?thesis using put by (intro exI [of _ ?m] exI [of _ ?t]) simp
qed

lemma pop_tcb_empty: "table_rep m tab [] \<Longrightarrow> pop_tcb m tab = Inr (None, m, tab)"
  by (auto simp: table_rep_def pop_tcb_def)

lemma pop_tcb_rep:
  assumes "table_rep m tab ((h, i, a) # xs)"
  shows "\<exists>m' t'. pop_tcb m tab = Inr (Some a, m', Some t') \<and> table_rep m' (Some t') xs \<and>
    m' = (set_handle a None m)\<lparr>handles := handles m'\<rparr>"
proof -
  obtain t n c where t: "tab = Some t" "handles m h = Some \<lparr>th_tcb = Some a, th_id = i, th_next = n\<rparr>"
      "hchain (handles m) n xs" "tab_head t = Some h" "h \<notin> fst ` set xs" "tcbs m a = Some c"
    and l: "linked (tcbs m) ((h, i, a) # xs)" and d: "dom (handles m) = insert h (fst ` set xs)"
    using assms by (auto simp: table_rep_def linked_Cons)
  have a: "a \<notin> e_tcb ` set xs"
    using linked_tcb_inj [OF l, of "(h, i, a)"] t(5) by force
  let ?m = "(set_handle a None m)\<lparr>handles := (handles m)(h := None)\<rparr>"
  let ?t = "t\<lparr>tab_head := n, tab_size := tab_size t - 1\<rparr>"
  have pop: "pop_tcb m tab = Inr (Some a, ?m, Some ?t)"
    using t by (simp add: pop_tcb_def get_cell_def free_handle_def set_handle_def)
  have "hchain ((handles m)(h := None)) n xs" using t(3,5) by (simp add: hchain_frame)
  moreover have "linked ((tcbs m)(a := v)) xs" for v using l a by (simp add: linked_frame linked_Cons)
  moreover have "dom ((handles m)(h := None)) = fst ` set xs" using d t(5) by simp
  ultimately have "table_rep ?m (Some ?t) xs"
    using assms t(1) unfolding table_rep_def set_handle_def by simp
  then show ?thesis using pop by (intro exI [of _ ?m] exI [of _ ?t]) simp
qed

lemma remove_tcb_loop_spec:
  "hchain (handles m) p (ys @ (h, i, a) # zs) \<Longrightarrow> \<forall>e \<in> set ys. e_id e > i \<Longrightarrow> length ys < fuel \<Longrightarrow>
   remove_tcb_loop fuel m prev p i = Inr (if ys = [] then prev else Some (fst (last ys)), Some h)"
proof (induction ys arbitrary: p prev fuel)
  case Nil
  then show ?case by (cases fuel) (auto simp: get_cell_def)
next
  case (Cons y ys)
  then show ?case by (cases y; cases fuel) (auto simp: get_cell_def)
qed

lemma hchain_split: "hchain c p (ys @ zs) \<Longrightarrow> \<exists>n. hchain c n zs"
  by (induction ys arbitrary: p) auto

lemma hchain_unlink:
  "hchain c p (ys @ (q, j, b) # (h, i, a) # zs) \<Longrightarrow> distinct (map fst (ys @ (q, j, b) # (h, i, a) # zs)) \<Longrightarrow>
   c h = Some \<lparr>th_tcb = Some a, th_id = i, th_next = n\<rparr> \<Longrightarrow>
   hchain (c(q \<mapsto> \<lparr>th_tcb = Some b, th_id = j, th_next = n\<rparr>, h := None)) p (ys @ (q, j, b) # zs)"
proof (induction ys arbitrary: p)
  case Nil
  let ?c = "c(q \<mapsto> \<lparr>th_tcb = Some b, th_id = j, th_next = n\<rparr>)"
  have "q \<notin> fst ` set zs" "h \<notin> fst ` set zs" "h \<noteq> q" "hchain c n zs" "p = Some q" using Nil by auto
  then have "hchain (?c(h := None)) n zs" by (simp only: hchain_frame simp_thms)
  moreover have "(?c(h := None)) q = Some \<lparr>th_tcb = Some b, th_id = j, th_next = n\<rparr>" using \<open>h \<noteq> q\<close> by simp
  ultimately show ?case using \<open>p = Some q\<close> by (simp del: fun_upd_apply)
next
  case (Cons y ys)
  then show ?case by (cases y) auto
qed

lemma remove_tcb_rep:
  assumes "table_rep m (Some t) (ys @ (h, i, a) # zs)"
  shows "\<exists>m' t'. remove_tcb m (Some t) (Some a) = Inr (0, m', Some t') \<and> table_rep m' (Some t') (ys @ zs) \<and>
    m' = (set_handle a None m)\<lparr>handles := handles m'\<rparr> \<and> tab_max_id t' = tab_max_id t"
proof -
  let ?xs = "ys @ (h, i, a) # zs"
  have t: "hchain (handles m) (tab_head t) ?xs" "sorted_wrt (\<lambda>e e'. e_id e > e_id e') ?xs"
      "\<forall>e \<in> set ?xs. e_id e < tab_max_id t" "distinct (map fst ?xs)" "dom (handles m) = fst ` set ?xs"
      "\<forall>e \<in> set ?xs. fst e < hbrk m" "linked (tcbs m) ?xs" "tab_size t = of_nat (length ?xs)"
    using assms unfolding table_rep_def by auto
  obtain c where c: "tcbs m a = Some c" "tcb_handle c = Some h" using t(7) by (auto simp: linked_def)
  obtain n where hh: "handles m h = Some \<lparr>th_tcb = Some a, th_id = i, th_next = n\<rparr>"
    using hchain_cell [OF t(1), of h i a] by auto
  have h: "h \<notin> fst ` set (ys @ zs)" using t(4) by auto
  have a: "a \<notin> e_tcb ` set (ys @ zs)"
  proof
    assume "a \<in> e_tcb ` set (ys @ zs)"
    then obtain e where e: "e \<in> set (ys @ zs)" "e_tcb e = a" by blast
    then have "e = (h, i, a)" by (intro linked_tcb_inj [OF t(7)]) auto
    then show False using e(1) h by force
  qed
  have len: "length ys < Suc (hbrk m)" using table_rep_length [OF assms] by simp
  have loop: "remove_tcb_loop (Suc (hbrk m)) m None (tab_head t) i =
      Inr (if ys = [] then None else Some (fst (last ys)), Some h)"
    by (rule remove_tcb_loop_spec [OF t(1) _ len]) (use t(2) in \<open>auto simp: sorted_wrt_append\<close>)
  have ex: "\<exists>hs t'. remove_tcb m (Some t) (Some a) = Inr (0, (set_handle a None m)\<lparr>handles := hs\<rparr>, Some t') \<and>
    hchain hs (tab_head t') (ys @ zs) \<and> dom hs = fst ` set (ys @ zs) \<and>
    tab_size t' = tab_size t - 1 \<and> tab_max_id t' = tab_max_id t"
  proof (cases ys rule: rev_cases)
    case Nil
    have "hchain ((handles m)(h := None)) n zs" using t(1) hh h Nil by (simp add: hchain_frame)
    moreover have "remove_tcb m (Some t) (Some a) = Inr (0, (set_handle a None m)\<lparr>handles := (handles m)(h := None)\<rparr>,
        Some (t\<lparr>tab_head := n, tab_size := tab_size t - 1\<rparr>))"
      using loop c hh by (simp add: Nil remove_tcb_def get_cell_def free_handle_def set_handle_def Let_def
          del: remove_tcb_loop.simps)
    moreover have "dom ((handles m)(h := None)) = fst ` set (ys @ zs)" using t(5) h by (auto simp: Nil)
    ultimately show ?thesis
      by (intro exI [of _ "(handles m)(h := None)"] exI [of _ "t\<lparr>tab_head := n, tab_size := tab_size t - 1\<rparr>"])
        (simp add: Nil)
  next
    case (snoc us u)
    obtain q j b where u: "u = (q, j, b)" by (cases u)
    obtain k where "hchain (handles m) k ((q, j, b) # (h, i, a) # zs)"
      using hchain_split [of "handles m" "tab_head t" us "(q, j, b) # (h, i, a) # zs"] t(1) by (auto simp: snoc u)
    then have q: "handles m q = Some \<lparr>th_tcb = Some b, th_id = j, th_next = Some h\<rparr>" by auto
    let ?hs = "(handles m)(q \<mapsto> \<lparr>th_tcb = Some b, th_id = j, th_next = n\<rparr>, h := None)"
    have "hchain ?hs (tab_head t) (us @ (q, j, b) # zs)"
      by (rule hchain_unlink) (use t(1,4) hh in \<open>auto simp: snoc u\<close>)
    moreover have "dom ?hs = fst ` set (ys @ zs)" using t(5) h by (auto simp: snoc u)
    moreover have "remove_tcb m (Some t) (Some a) =
        Inr (0, (set_handle a None m)\<lparr>handles := ?hs\<rparr>, Some (t\<lparr>tab_size := tab_size t - 1\<rparr>))"
      using loop c hh q h
      by (simp add: snoc u remove_tcb_def get_cell_def free_handle_def set_handle_def Let_def
          del: remove_tcb_loop.simps)
    ultimately show ?thesis
      by (intro exI [of _ ?hs] exI [of _ "t\<lparr>tab_size := tab_size t - 1\<rparr>"]) (simp add: snoc u)
  qed
  then obtain hs t' where r: "remove_tcb m (Some t) (Some a) =
      Inr (0, (set_handle a None m)\<lparr>handles := hs\<rparr>, Some t')"
    and t': "hchain hs (tab_head t') (ys @ zs)" "dom hs = fst ` set (ys @ zs)"
      "tab_size t' = tab_size t - 1" "tab_max_id t' = tab_max_id t"
    by blast
  have "linked ((tcbs m)(a := v)) (ys @ zs)" for v
    using t(7) a by (simp add: linked_frame) (auto simp: linked_def)
  then have "table_rep ((set_handle a None m)\<lparr>handles := hs\<rparr>) (Some t') (ys @ zs)"
    using t' t(2-4,6,8) unfolding table_rep_def set_handle_def
    by (auto simp: sorted_wrt_append)
  then show ?thesis using r t'(4) by (intro exI [of _ "(set_handle a None m)\<lparr>handles := hs\<rparr>"] exI [of _ t']) simp
qed

lemma remove_tcb_unlisted:
  "tcbs m a = Some c \<Longrightarrow> tcb_handle c = None \<Longrightarrow> remove_tcb m (Some t) (Some a) = Inr (-1, m, Some t)"
  by (simp add: remove_tcb_def get_cell_def)

lemma destroy_table_loop_spec:
  "hchain (handles m) p xs \<Longrightarrow> distinct (map fst xs) \<Longrightarrow> dom (handles m) = fst ` set xs \<Longrightarrow>
   linked (tcbs m) xs \<Longrightarrow> length xs < fuel \<Longrightarrow>
   \<exists>m'. destroy_table_loop fuel m p = Inr m' \<and> handles m' = (\<lambda>_. None) \<and>
     m' = m\<lparr>tcbs := tcbs m', handles := handles m'\<rparr> \<and> dom (tcbs m') = dom (tcbs m)"
proof (induction xs arbitrary: m p fuel)
  case Nil
  then show ?case by (cases fuel) auto
next
  case (Cons x xs)
  obtain h i a where x: "x = (h, i, a)" by (cases x)
  obtain f where f: "fuel = Suc f" using Cons.prems(5) by (cases fuel) auto
  obtain n c where c: "p = Some h" "handles m h = Some \<lparr>th_tcb = Some a, th_id = i, th_next = n\<rparr>"
      "hchain (handles m) n xs" "tcbs m a = Some c"
    using Cons.prems(1,4) by (auto simp: x linked_Cons)
  have h: "h \<notin> fst ` set xs" using Cons.prems(2) by (simp add: x)
  have a: "a \<notin> e_tcb ` set xs"
    using linked_tcb_inj [OF Cons.prems(4), of "(h, i, a)"] h by (force simp: x)
  let ?m = "(set_handle a None m)\<lparr>handles := (handles m)(h := None)\<rparr>"
  have hs: "hchain (handles ?m) n xs" using c(3) h by (simp add: hchain_frame)
  have dm: "dom (handles ?m) = fst ` set xs" using Cons.prems(3) h by (simp add: x)
  have ln: "linked (tcbs ?m) xs"
    using Cons.prems(4) a by (simp add: set_handle_def linked_frame x linked_Cons)
  have "\<exists>m'. destroy_table_loop f ?m n = Inr m' \<and> handles m' = (\<lambda>_. None) \<and>
     m' = ?m\<lparr>tcbs := tcbs m', handles := handles m'\<rparr> \<and> dom (tcbs m') = dom (tcbs ?m)"
    by (rule Cons.IH [OF hs _ dm ln]) (use Cons.prems in \<open>auto simp: x f\<close>)
  moreover have "destroy_table_loop fuel m p = destroy_table_loop f ?m n"
    using c by (simp add: f get_cell_def free_handle_def set_handle_def)
  moreover have "dom (tcbs ?m) = dom (tcbs m)" using c(4) by (auto simp: set_handle_def)
  ultimately show ?case by (fastforce simp: set_handle_def)
qed

lemma destroy_table_rep:
  assumes "table_rep m tab xs"
  shows "\<exists>m'. destroy_table m tab = Inr (0, m') \<and> handles m' = (\<lambda>_. None) \<and>
     m' = m\<lparr>tcbs := tcbs m', handles := handles m'\<rparr> \<and> dom (tcbs m') = dom (tcbs m)"
proof -
  obtain t where t: "tab = Some t" using assms by (auto simp: table_rep_def)
  have "\<exists>m'. destroy_table_loop (Suc (hbrk m)) m (tab_head t) = Inr m' \<and> handles m' = (\<lambda>_. None) \<and>
     m' = m\<lparr>tcbs := tcbs m', handles := handles m'\<rparr> \<and> dom (tcbs m') = dom (tcbs m)"
    by (rule destroy_table_loop_spec [of _ _ xs]) (use assms table_rep_length [OF assms] t in \<open>auto simp: table_rep_def\<close>)
  then show ?thesis by (auto simp: destroy_table_def t simp del: destroy_table_loop.simps)
qed

section \<open>The interface\<close>

text \<open>A program on a table: new control blocks are registered, and registered ones removed by their
  identifier.  The identifiers in the table are the specification.\<close>

datatype table_op = Register tcb | Unregister u64

fun run_table :: "('s \<Rightarrow> tcb \<Rightarrow> 's res) \<Rightarrow> ('s \<Rightarrow> u64 \<Rightarrow> 'a option res) \<Rightarrow> ('s \<Rightarrow> 'a \<Rightarrow> 's res) \<Rightarrow>
    table_op list \<Rightarrow> 's \<Rightarrow> 's res" where
  "run_table reg get rem [] s = Inr s"
| "run_table reg get rem (Register c # ops) s = bindR (reg s c) (run_table reg get rem ops)"
| "run_table reg get rem (Unregister i # ops) s = bindR (get s i) (\<lambda>p.
     bindR (case p of None \<Rightarrow> Inr s | Some a \<Rightarrow> rem s a) (run_table reg get rem ops))"

fun live_ids :: "table_op list \<Rightarrow> u64 \<Rightarrow> u64 set \<Rightarrow> u64 set" where
  "live_ids [] n S = S"
| "live_ids (Register c # ops) n S = live_ids ops (n + 1) (insert n S)"
| "live_ids (Unregister i # ops) n S = live_ids ops n (S - {i})"

fun registrations :: "table_op list \<Rightarrow> nat" where
  "registrations [] = 0"
| "registrations (Register c # ops) = Suc (registrations ops)"
| "registrations (Unregister i # ops) = registrations ops"

text \<open>\<open>rep s n xs\<close>: the table holds the identifiers and elements \<open>xs\<close> and gives \<open>n\<close> next.\<close>

locale id_table =
  fixes rep :: "'s \<Rightarrow> u64 \<Rightarrow> (u64 \<times> 'a) list \<Rightarrow> bool"
    and good :: "tcb \<Rightarrow> bool"
    and reg :: "'s \<Rightarrow> tcb \<Rightarrow> 's res"
    and get :: "'s \<Rightarrow> u64 \<Rightarrow> 'a option res"
    and rem :: "'s \<Rightarrow> 'a \<Rightarrow> 's res"
  assumes reg_rep: "rep s n xs \<Longrightarrow> good c \<Longrightarrow> n + 1 \<noteq> 0 \<Longrightarrow> \<exists>s' a. reg s c = Inr s' \<and> rep s' (n + 1) ((n, a) # xs)"
    and get_rep: "rep s n xs \<Longrightarrow> get s i = Inr (map_of xs i)"
    and rem_rep: "rep s n xs \<Longrightarrow> (i, a) \<in> set xs \<Longrightarrow>
      \<exists>s' ys. rem s a = Inr s' \<and> rep s' n ys \<and> fst ` set ys = fst ` set xs - {i}"
begin

lemma run_live:
  "rep s n xs \<Longrightarrow> \<forall>c. Register c \<in> set ops \<longrightarrow> good c \<Longrightarrow> unat n + registrations ops < 2 ^ 64 \<Longrightarrow>
   \<exists>s' n' ys. run_table reg get rem ops s = Inr s' \<and> rep s' n' ys \<and> fst ` set ys = live_ids ops n (fst ` set xs)"
proof (induction ops arbitrary: s n xs rule: registrations.induct)
  case (2 c ops)
  have lt: "Suc (unat n) < 2 ^ 64" using 2(4) by simp
  then have un: "unat (n + 1) = Suc (unat n)" by (simp add: unat_word_ariths)
  then have n: "n + 1 \<noteq> 0" by (metis nat.distinct(1) unat_0)
  obtain s' a where s': "reg s c = Inr s'" "rep s' (n + 1) ((n, a) # xs)"
    using reg_rep [OF 2(2) _ n, of c] 2(3) by auto
  show ?case using 2(1) [OF s'(2)] s'(1) 2(3,4) un by simp
next
  case (3 i ops)
  show ?case
  proof (cases "map_of xs i")
    case None
    then have "fst ` set xs - {i} = fst ` set xs" by (simp add: map_of_eq_None_iff)
    then show ?thesis using 3 get_rep [OF 3(2), of i] None by simp
  next
    case (Some a)
    then obtain s' ys where s': "rem s a = Inr s'" "rep s' n ys" "fst ` set ys = fst ` set xs - {i}"
      using rem_rep [OF 3(2) map_of_SomeD] by blast
    show ?thesis using 3(1) [OF s'(2) 3(3) [simplified]] 3(4) get_rep [OF 3(2), of i] Some s' by simp
  qed
qed auto

end

text \<open>A control block is allocated at the next address and put into the table.\<close>

definition alloc_tcb :: "'a heap_scheme \<Rightarrow> tcb \<Rightarrow> nat \<times> 'a heap_scheme" where
  "alloc_tcb m c = (hbrk m, m\<lparr>tcbs := (tcbs m)(hbrk m \<mapsto> c), hbrk := Suc (hbrk m)\<rparr>)"

definition register :: "'a heap_scheme \<times> table option \<Rightarrow> tcb \<Rightarrow> ('a heap_scheme \<times> table option) res" where
  "register s c = (let (a, m) = alloc_tcb (fst s) c in bindR (put_tcb True m (snd s) (Some a)) (\<lambda>r. Inr (snd r)))"

definition unregister :: "'a heap_scheme \<times> table option \<Rightarrow> nat \<Rightarrow> ('a heap_scheme \<times> table option) res" where
  "unregister s a = bindR (remove_tcb (fst s) (snd s) (Some a)) (\<lambda>r. Inr (snd r))"

definition lookup_id :: "'a heap_scheme \<times> table option \<Rightarrow> u64 \<Rightarrow> nat option res" where
  "lookup_id s i = get_tcb_by_id (fst s) (snd s) i"

definition ids_rep :: "'a heap_scheme \<times> table option \<Rightarrow> u64 \<Rightarrow> (u64 \<times> nat) list \<Rightarrow> bool" where
  "ids_rep s n xs \<longleftrightarrow> (\<exists>t es. snd s = Some t \<and> tab_max_id t = n \<and> table_rep (fst s) (Some t) es \<and>
     map snd es = xs \<and> (\<forall>a \<in> dom (tcbs (fst s)). a < hbrk (fst s)))"

lemma alloc_table_rep:
  assumes "table_rep m tab xs" "\<forall>a \<in> dom (tcbs m). a < hbrk m"
  shows "table_rep (snd (alloc_tcb m c)) tab xs"
proof (rule table_rep_cong [OF assms(1)])
  have l: "linked (tcbs m) xs" using assms(1) by (auto simp: table_rep_def)
  then have "hbrk m \<notin> e_tcb ` set xs" using assms(2) unfolding linked_def by fastforce
  then show "linked (tcbs (snd (alloc_tcb m c))) xs" using l by (simp add: alloc_tcb_def linked_frame)
qed (simp_all add: alloc_tcb_def)

interpretation lt: id_table ids_rep "\<lambda>c :: tcb. tcb_handle c = None" register lookup_id unregister
proof
  fix s :: "'a heap_scheme \<times> table option" and n xs and c :: tcb
  assume r: "ids_rep s n xs" and h: "tcb_handle c = None" and n: "n + 1 \<noteq> 0"
  obtain m t where s: "s = (m, Some t)" "tab_max_id t = n" using r by (cases s) (auto simp: ids_rep_def)
  obtain es where es: "table_rep m (Some t) es" "map snd es = xs" and lt: "\<forall>a \<in> dom (tcbs m). a < hbrk m"
    using r by (auto simp: ids_rep_def s)
  obtain m2 where al: "alloc_tcb m c = (hbrk m, m2)" "tcbs m2 = (tcbs m)(hbrk m \<mapsto> c)" "hbrk m2 = Suc (hbrk m)"
    by (simp add: alloc_tcb_def)
  have m2: "table_rep m2 (Some t) es" using alloc_table_rep [OF es(1) lt, of c] al by simp
  have c: "tcbs m2 (hbrk m) = Some c" using al by simp
  obtain m' t' where p: "put_tcb True m2 (Some t) (Some (hbrk m)) = Inr (0, m', Some t')"
      "table_rep m' (Some t') ((hbrk m2, n, hbrk m) # es)"
      "m' = m2\<lparr>tcbs := (tcbs m2)(hbrk m \<mapsto> c\<lparr>tcb_tid := n, tcb_handle := Some (hbrk m2)\<rparr>),
        handles := handles m', hbrk := Suc (hbrk m2)\<rparr>" "tab_max_id t' = n + 1"
    using put_tcb_rep [OF m2 c h] s(2) n by auto
  have "dom (tcbs m') = insert (hbrk m) (dom (tcbs m))" "hbrk m' = Suc (Suc (hbrk m))"
    by (subst p(3), simp add: al)+
  then have "\<forall>a \<in> dom (tcbs m'). a = hbrk m \<or> a < hbrk m" "hbrk m' = Suc (Suc (hbrk m))" using lt by auto
  then have "\<forall>a \<in> dom (tcbs m'). a < hbrk m'" by (metis less_Suc_eq)
  then have "ids_rep (m', Some t') (n + 1) ((n, hbrk m) # xs)"
    using p(2,4) es(2) by (fastforce simp: ids_rep_def)
  moreover have "register s c = Inr (m', Some t')" using p(1) al(1) by (simp add: register_def s)
  ultimately show "\<exists>s' a. register s c = Inr s' \<and> ids_rep s' (n + 1) ((n, a) # xs)" by blast
next
  fix s :: "'a heap_scheme \<times> table option" and n xs i
  assume "ids_rep s n xs"
  then show "lookup_id s i = Inr (map_of xs i)"
    by (auto simp: ids_rep_def lookup_id_def get_tcb_by_id_rep)
next
  fix s :: "'a heap_scheme \<times> table option" and n xs i a
  assume r: "ids_rep s n xs" and m: "(i, a) \<in> set xs"
  obtain m t where s: "s = (m, Some t)" "tab_max_id t = n" using r by (cases s) (auto simp: ids_rep_def)
  obtain es where es: "table_rep m (Some t) es" "map snd es = xs" and lt: "\<forall>a \<in> dom (tcbs m). a < hbrk m"
    using r by (auto simp: ids_rep_def s)
  obtain h where "(h, i, a) \<in> set es" using m es(2) by auto
  then obtain ys zs where sp: "es = ys @ (h, i, a) # zs" by (meson split_list)
  obtain m' t' where p: "remove_tcb m (Some t) (Some a) = Inr (0, m', Some t')" "table_rep m' (Some t') (ys @ zs)"
      "m' = (set_handle a None m)\<lparr>handles := handles m'\<rparr>" "tab_max_id t' = n"
    using remove_tcb_rep [OF es(1) [unfolded sp]] s(2) by auto
  have "dom (tcbs m') \<subseteq> dom (tcbs m)" "hbrk m' = hbrk m"
    by (subst p(3), auto simp: set_handle_def split: if_splits)+
  then have "ids_rep (m', Some t') n (map snd (ys @ zs))"
    using p(2,4) lt by (fastforce simp: ids_rep_def)
  moreover have "unregister s a = Inr (m', Some t')" using p(1) by (simp add: unregister_def s)
  moreover have "sorted_wrt (\<lambda>e e'. e_id e > e_id e') es" using es(1) by (auto simp: table_rep_def)
  then have "fst ` set (map snd (ys @ zs)) = fst ` set xs - {i}"
    unfolding es(2) [symmetric] sp by (fastforce simp: sorted_wrt_append)
  ultimately show "\<exists>s' ys. unregister s a = Inr s' \<and> ids_rep s' n ys \<and> fst ` set ys = fst ` set xs - {i}"
    by blast
qed

text \<open>C28: after any program of registrations and removals on a fresh table (fewer than 2^64
  registrations), \<open>get_tcb_by_id\<close> finds exactly the identifiers that are registered and not
  removed, and gives a control block that has this identifier; no pointer is bad.\<close>

theorem table_lookup_exact:
  fixes m0 :: heap
  assumes "init_table False True = Inr (0, tab0)" "tcbs m0 = (\<lambda>_. None)" "handles m0 = (\<lambda>_. None)"
    and "\<forall>c. Register c \<in> set ops \<longrightarrow> tcb_handle c = None" "registrations ops < 2 ^ 64"
  shows "\<exists>m tab. run_table register lookup_id unregister ops (m0, tab0) = Inr (m, tab) \<and>
    (if i \<in> live_ids ops 0 {}
     then \<exists>a c. get_tcb_by_id m tab i = Inr (Some a) \<and> tcbs m a = Some c \<and> tcb_tid c = i
     else get_tcb_by_id m tab i = Inr None)"
proof -
  have "ids_rep (m0, tab0) 0 []"
    using assms(1-3) by (auto simp: init_table_def ids_rep_def table_rep_def linked_def)
  from lt.run_live [OF this assms(4)] assms(5) obtain s n ys where
    r: "run_table register lookup_id unregister ops (m0, tab0) = Inr s" and s: "ids_rep s n ys"
      "fst ` set ys = live_ids ops 0 {}"
    by auto
  obtain m tab where mt: "s = (m, tab)" by (cases s)
  obtain es where es: "table_rep m tab es" "map snd es = ys" using s(1) by (auto simp: ids_rep_def mt)
  have g: "get_tcb_by_id m tab i = Inr (map_of ys i)" using get_tcb_by_id_rep [OF es(1)] es(2) by simp
  show ?thesis
  proof (cases "i \<in> live_ids ops 0 {}")
    case True
    then obtain a where a: "map_of ys i = Some a" using s(2) by (metis map_of_eq_None_iff not_None_eq)
    then obtain h where "(h, i, a) \<in> set es" using map_of_SomeD es(2) by fastforce
    then have "\<exists>c. tcbs m a = Some c \<and> tcb_tid c = i" using es(1) by (fastforce simp: table_rep_def linked_def)
    then show ?thesis using r mt g a True by auto
  next
    case False
    then have "map_of ys i = None" using s(2) by (simp add: map_of_eq_None_iff)
    then show ?thesis using r mt g False by simp
  qed
qed

definition clean_tcb :: tcb where
  "clean_tcb = \<lparr>tcb_rbx = 0, tcb_r12 = 0, tcb_r13 = 0, tcb_r14 = 0, tcb_r15 = 0, tcb_rbp = 0, tcb_rsp = 0,
     tcb_rip = 0, tcb_rdi = 0, tcb_rsi = 0, tcb_stack = 0, tcb_tid = 0, tcb_status = WORKING,
     tcb_observer = None, tcb_handle = None\<rparr>"

theorem table_lookup_exact_witness:
  "\<exists>m tab a c. run_table register lookup_id unregister
      [Register clean_tcb, Register clean_tcb, Register clean_tcb, Unregister 1]
      (\<lparr>tcbs = (\<lambda>_. None), handles = (\<lambda>_. None), hbrk = 0\<rparr>, Some \<lparr>tab_head = None, tab_max_id = 0, tab_size = 0\<rparr>)
      = Inr (m, tab) \<and> get_tcb_by_id m tab 2 = Inr (Some a) \<and> tcbs m a = Some c \<and> tcb_tid c = 2"
proof -
  have i: "init_table False True = Inr (0, Some \<lparr>tab_head = None, tab_max_id = 0, tab_size = 0\<rparr>)"
    by (simp add: init_table_def)
  show ?thesis
    using table_lookup_exact [OF i, of "\<lparr>tcbs = (\<lambda>_. None), handles = (\<lambda>_. None), hbrk = 0\<rparr>"
      "[Register clean_tcb, Register clean_tcb, Register clean_tcb, Unregister 1]" 2]
    by (auto simp: clean_tcb_def)
qed

text \<open>\<open>destroy_table\<close> frees every handle and leaves every control block allocated.\<close>

theorem destroy_table_frees:
  assumes "table_rep m tab xs"
  shows "\<exists>m'. destroy_table m tab = Inr (0, m') \<and> dom (handles m') = {} \<and> dom (tcbs m') = dom (tcbs m)"
  using destroy_table_rep [OF assms] by auto

theorem destroy_table_frees_witness:
  "\<exists>m'. destroy_table \<lparr>tcbs = [0 \<mapsto> clean_tcb\<lparr>tcb_handle := Some 1\<rparr>],
      handles = [1 \<mapsto> \<lparr>th_tcb = Some 0, th_id = 0, th_next = None\<rparr>], hbrk = 2\<rparr>
      (Some \<lparr>tab_head = Some 1, tab_max_id = 1, tab_size = 1\<rparr>) = Inr (0, m') \<and> dom (handles m') = {}"
proof -
  let ?m = "\<lparr>tcbs = [0 \<mapsto> clean_tcb\<lparr>tcb_handle := Some 1\<rparr>],
      handles = [1 \<mapsto> \<lparr>th_tcb = Some 0, th_id = 0, th_next = None\<rparr>], hbrk = 2\<rparr>"
  have "table_rep ?m (Some \<lparr>tab_head = Some 1, tab_max_id = 1, tab_size = 1\<rparr>) [(1, 0, 0)]"
    by (simp add: table_rep_def linked_def clean_tcb_def)
  from destroy_table_frees [OF this] show ?thesis by blast
qed

end
