(* ===== verification/Threads.thy ===== *)
theory Threads
  imports Thread_Table
begin

text \<open>
  The user-level thread library A3/thread.c.  The state holds the library's variables, its heap
  (control blocks, handles, stacks, condition records) and the client's mutexes and condition
  variables.  A call is a function of the state; the switch of \<open>asm_yield\<close> shows as the change of
  \<open>current_thread\<close>, and what it does to registers and stacks is in \<open>Context_Switch\<close>.  A value is
  what the call returns when its thread has control again.

  Allocations are taken to succeed where the code does not test them; \<open>malloc\<close>'s addresses and
  the garbage it leaves are in the environment \<open>env\<close>.  A queue that was destroyed is \<open>None\<close>, so
  that its use is a fault.
\<close>

section \<open>State\<close>

record thread_mutex =
  mx_owner :: u64
  mx_q :: "queue option"
  mx_locked :: bool

record thread_cond =
  cv_q :: "queue option"

record COND_INFO =
  ci_thread :: nat
  ci_mutex :: nat

record threads = heap +
  stacks :: "u64 set"
  infos :: "nat \<Rightarrow> COND_INFO option"
  words :: "u64 \<Rightarrow> u64"
  ready :: bool
  all_threads :: "table option"
  ready_list :: "queue option"
  mutexes :: "queue option"
  conds :: "queue option"
  next_to_destroy :: "nat option"
  parent_id :: u64
  current_thread :: "nat option"
  mutex_mem :: "nat \<Rightarrow> thread_mutex option"
  cond_mem :: "nat \<Rightarrow> thread_cond option"

text \<open>What the C library and the linker decide: whether allocations that are tested succeed, what
  \<open>malloc\<close> leaves in a control block, where it puts a stack, and the address of
  \<open>thread_terminate\<close>.\<close>

record env =
  e_ok :: bool
  e_junk :: "nat \<Rightarrow> tcb"
  e_stack :: "nat \<Rightarrow> u64"
  e_terminate :: u64

definition need :: "'a option \<Rightarrow> 'a res" where
  "need p = (case p of None \<Rightarrow> Inl NullDeref | Some x \<Rightarrow> Inr x)"

definition thread_at :: "threads \<Rightarrow> nat option \<Rightarrow> tcb res" where
  "thread_at s p = get_cell (tcbs s) p"

definition set_status :: "nat option \<Rightarrow> status \<Rightarrow> threads \<Rightarrow> threads res" where
  "set_status p v s = bindR (thread_at s p) (\<lambda>c. Inr (s\<lparr>tcbs := (tcbs s)(the p \<mapsto> c\<lparr>tcb_status := v\<rparr>)\<rparr>))"

definition set_observer :: "nat option \<Rightarrow> nat option \<Rightarrow> threads \<Rightarrow> threads res" where
  "set_observer p v s = bindR (thread_at s p) (\<lambda>c. Inr (s\<lparr>tcbs := (tcbs s)(the p \<mapsto> c\<lparr>tcb_observer := v\<rparr>)\<rparr>))"

definition push_ready :: "nat \<Rightarrow> threads \<Rightarrow> threads res" where
  "push_ready a s = bindR (need (ready_list s)) (\<lambda>q. bindR (queue_push q a) (\<lambda>q. Inr (s\<lparr>ready_list := Some q\<rparr>)))"

definition pop_ready :: "threads \<Rightarrow> (nat option \<times> threads) res" where
  "pop_ready s = bindR (need (ready_list s)) (\<lambda>q. bindR (queue_pop q) (\<lambda>(a, q). Inr (a, s\<lparr>ready_list := Some q\<rparr>)))"

section \<open>Initialisation\<close>

definition init :: "env \<Rightarrow> threads \<Rightarrow> threads res" where
  "init E s =
     bindR (init_table False (e_ok E)) (\<lambda>(_, tab).
     if \<not> e_ok E then Inl (ExitCode (-1)) else
     let s = s\<lparr>ready_list := fst (init_queue True), all_threads := tab,
               mutexes := fst (init_queue True), conds := fst (init_queue True)\<rparr>;
         (parent, s) = alloc_tcb s ((e_junk E (hbrk s))\<lparr>tcb_status := WORKING, tcb_stack := 0\<rparr>)
     in bindR (put_tcb True s (all_threads s) (Some parent)) (\<lambda>(_, s, tab).
        bindR (push_ready parent (s\<lparr>all_threads := tab\<rparr>)) (\<lambda>s.
        bindR (pop_ready s) (\<lambda>(cur, s).
        let s = s\<lparr>current_thread := cur\<rparr> in
        bindR (thread_at s (Some parent)) (\<lambda>c. Inr (s\<lparr>parent_id := tcb_tid c, ready := True\<rparr>))))))"

definition ensure_init :: "env \<Rightarrow> threads \<Rightarrow> threads res" where
  "ensure_init E s = (if \<not> ready s then init E s else Inr s)"

definition thread_self :: "env \<Rightarrow> threads \<Rightarrow> (u64 \<times> threads) res" where
  "thread_self E s = bindR (ensure_init E s) (\<lambda>s.
     bindR (thread_at s (current_thread s)) (\<lambda>c. Inr (tcb_tid c, s)))"

definition STACK_SIZE :: u64 where "STACK_SIZE = 65536"

text \<open>The first stack of a thread: the addresses of the work function and of \<open>thread_terminate\<close>.\<close>

definition first_frame :: "env \<Rightarrow> u64 \<Rightarrow> u64 \<Rightarrow> u64 \<Rightarrow> tcb \<Rightarrow> (u64 \<Rightarrow> u64) \<Rightarrow> tcb \<times> (u64 \<Rightarrow> u64)" where
  "first_frame E stk work info c mem =
     (let c = c\<lparr>tcb_status := WORKING, tcb_stack := stk\<rparr>;
          c = c\<lparr>tcb_rbx := 0, tcb_r12 := 0, tcb_r13 := 0, tcb_r14 := 0, tcb_r15 := 0\<rparr>;
          c = c\<lparr>tcb_rsp := stk + STACK_SIZE\<rparr>;
          c = c\<lparr>tcb_rbp := tcb_rsp c\<rparr>;
          c = c\<lparr>tcb_rsp := tcb_rsp c - 8\<rparr>;
          mem = mem(tcb_rsp c := e_terminate E);
          c = c\<lparr>tcb_rsp := tcb_rsp c - 8\<rparr>;
          mem = mem(tcb_rsp c := work);
          c = c\<lparr>tcb_rbp := tcb_rsp c - 8\<rparr>;
          c = c\<lparr>tcb_rdi := info, tcb_rsi := 0\<rparr>
      in (c, mem))"

definition thread_create :: "env \<Rightarrow> u64 \<Rightarrow> u64 \<Rightarrow> threads \<Rightarrow> (u64 \<times> threads) res" where
  "thread_create E work info s =
     bindR (ensure_init E s) (\<lambda>s.
     let stk = e_stack E (hbrk s);
         (c, mem) = first_frame E stk work info (e_junk E (hbrk s)) (words s);
         (thread, s) = alloc_tcb s c;
         s = s\<lparr>stacks := insert stk (stacks s), words := mem\<rparr>
     in bindR (put_tcb True s (all_threads s) (Some thread)) (\<lambda>(_, s, tab).
        bindR (push_ready thread (s\<lparr>all_threads := tab\<rparr>)) (\<lambda>s.
        bindR (thread_at s (Some thread)) (\<lambda>c. Inr (tcb_tid c, s)))))"

section \<open>Yield and join\<close>

text \<open>\<open>thread_yield\<close> calls itself when the thread at the front cannot work; every call takes one
  item off the ready list, which bounds the fuel.\<close>

fun yield_loop :: "nat \<Rightarrow> env \<Rightarrow> threads \<Rightarrow> threads res" where
  "yield_loop 0 E s = Inl OutOfFuel"
| "yield_loop (Suc fuel) E s =
     bindR (ensure_init E s) (\<lambda>s.
     let old = current_thread s in
     bindR (pop_ready s) (\<lambda>(next, s).
     case next of
       None \<Rightarrow> bindR (thread_at s old) (\<lambda>oc.
         if tcb_status oc \<noteq> WORKING then Inl (ExitCode (-1)) else Inr s)
     | Some n \<Rightarrow> bindR (thread_at s (Some n)) (\<lambda>nc.
         if tcb_status nc \<noteq> WORKING then yield_loop fuel E s
         else
           let s = s\<lparr>current_thread := Some n\<rparr> in
           bindR (thread_at s old) (\<lambda>oc.
             if tcb_status oc = WORKING then push_ready (the old) s else Inr s))))"

definition yield_fuel :: "threads \<Rightarrow> nat" where
  "yield_fuel s = Suc (Suc (case ready_list s of None \<Rightarrow> 0 | Some q \<Rightarrow> q_brk q))"

definition thread_yield :: "env \<Rightarrow> threads \<Rightarrow> threads res" where
  "thread_yield E s = yield_loop (yield_fuel s) E s"

text \<open>The two pointers of \<open>detect_deadlock\<close>.\<close>

fun deadlock_loop :: "nat \<Rightarrow> threads \<Rightarrow> nat option \<Rightarrow> nat option \<Rightarrow> int res" where
  "deadlock_loop 0 s slow fast = Inl OutOfFuel"
| "deadlock_loop (Suc fuel) s slow fast =
     (if slow = None \<or> fast = None then Inr 0 else
      bindR (thread_at s fast) (\<lambda>fc.
      if tcb_observer fc = None then Inr 0 else
      bindR (thread_at s slow) (\<lambda>sc.
      bindR (thread_at s (tcb_observer fc)) (\<lambda>foc.
      let slow = tcb_observer sc; fast = tcb_observer foc in
      if slow \<noteq> None \<and> fast \<noteq> None then
        bindR (thread_at s slow) (\<lambda>sc. bindR (thread_at s fast) (\<lambda>fc.
        if tcb_tid sc = tcb_tid fc then Inr 1 else deadlock_loop fuel s slow fast))
      else deadlock_loop fuel s slow fast))))"

definition detect_deadlock :: "threads \<Rightarrow> int res" where
  "detect_deadlock s = deadlock_loop (Suc (Suc (hbrk s))) s (current_thread s) (current_thread s)"

definition thread_join :: "env \<Rightarrow> u64 \<Rightarrow> threads \<Rightarrow> (int \<times> threads) res" where
  "thread_join E thread_id s =
     bindR (ensure_init E s) (\<lambda>s.
     bindR (thread_at s (current_thread s)) (\<lambda>cc.
     if tcb_tid cc = thread_id then Inr (-1, s) else
     bindR (get_tcb_by_id s (all_threads s) thread_id) (\<lambda>target.
     if target = None then Inr (-3, s) else
     bindR (thread_at s target) (\<lambda>tc.
     if tcb_tid tc \<noteq> thread_id then Inl (ExitCode (-1))
     else if tcb_status tc = DONE then bindR (thread_yield E s) (\<lambda>s. Inr (0, s))
     else if tcb_observer tc \<noteq> None then Inr (-2, s)
     else
       bindR (set_status (current_thread s) WAITING s) (\<lambda>s.
       bindR (set_observer target (current_thread s) s) (\<lambda>s.
       bindR (detect_deadlock s) (\<lambda>d.
       if d \<noteq> 0 then
         bindR (set_status (current_thread s) WORKING s) (\<lambda>s.
         bindR (set_observer target None s) (\<lambda>s. Inr (-1, s)))
       else bindR (thread_yield E s) (\<lambda>s. Inr (0, s)))))))))"

section \<open>Mutexes\<close>

text \<open>A null pointer argument is \<open>None\<close>.  \<open>owner = -1\<close> is the word of all ones.\<close>

definition thread_mutex_init :: "env \<Rightarrow> nat option \<Rightarrow> threads \<Rightarrow> (int \<times> threads) res" where
  "thread_mutex_init E mutex s =
     bindR (ensure_init E s) (\<lambda>s.
     case mutex of None \<Rightarrow> Inr (0, s)
     | Some m \<Rightarrow> bindR (get_cell (mutex_mem s) (Some m)) (\<lambda>mx.
         if snd (init_queue (e_ok E)) \<noteq> 0 then Inl (ExitCode (-1)) else
         let mx = mx\<lparr>mx_locked := False, mx_owner := -1, mx_q := fst (init_queue (e_ok E))\<rparr>;
             s = s\<lparr>mutex_mem := (mutex_mem s)(m \<mapsto> mx)\<rparr>
         in bindR (need (mutexes s)) (\<lambda>q. bindR (queue_push q m) (\<lambda>q.
            Inr (1, s\<lparr>mutexes := Some q\<rparr>)))))"

text \<open>\<open>queue_push\<close> and \<open>queue_pop\<close> on the queue of a mutex.\<close>

definition push_mutex :: "nat \<Rightarrow> nat \<Rightarrow> threads \<Rightarrow> threads res" where
  "push_mutex m a s = bindR (get_cell (mutex_mem s) (Some m)) (\<lambda>mx. bindR (need (mx_q mx)) (\<lambda>q.
     bindR (queue_push q a) (\<lambda>q. Inr (s\<lparr>mutex_mem := (mutex_mem s)(m \<mapsto> mx\<lparr>mx_q := Some q\<rparr>)\<rparr>))))"

definition pop_mutex :: "nat \<Rightarrow> threads \<Rightarrow> (nat option \<times> threads) res" where
  "pop_mutex m s = bindR (get_cell (mutex_mem s) (Some m)) (\<lambda>mx. bindR (need (mx_q mx)) (\<lambda>q.
     bindR (queue_pop q) (\<lambda>(a, q). Inr (a, s\<lparr>mutex_mem := (mutex_mem s)(m \<mapsto> mx\<lparr>mx_q := Some q\<rparr>)\<rparr>))))"

definition set_mutex :: "nat \<Rightarrow> bool \<Rightarrow> u64 \<Rightarrow> threads \<Rightarrow> threads res" where
  "set_mutex m l w s = bindR (get_cell (mutex_mem s) (Some m)) (\<lambda>mx.
     Inr (s\<lparr>mutex_mem := (mutex_mem s)(m \<mapsto> mx\<lparr>mx_locked := l, mx_owner := w\<rparr>)\<rparr>))"

definition thread_mutex_lock :: "env \<Rightarrow> nat option \<Rightarrow> threads \<Rightarrow> (int \<times> threads) res" where
  "thread_mutex_lock E mutex s =
     (case mutex of None \<Rightarrow> Inr (0, s)
      | Some m \<Rightarrow> bindR (get_cell (mutex_mem s) (Some m)) (\<lambda>mx.
          if \<not> mx_locked mx then
            bindR (thread_self E s) (\<lambda>(self, s). bindR (set_mutex m True self s) (\<lambda>s. Inr (1, s)))
          else
            bindR (thread_self E s) (\<lambda>(self, s).
            if mx_owner mx = self then Inr (0, s)
            else
              bindR (set_status (current_thread s) WAITING s) (\<lambda>s.
              bindR (push_mutex m (the (current_thread s)) s) (\<lambda>s.
              bindR (thread_yield E s) (\<lambda>s. Inr (1, s)))))))"

definition thread_mutex_unlock :: "env \<Rightarrow> nat option \<Rightarrow> threads \<Rightarrow> (int \<times> threads) res" where
  "thread_mutex_unlock E mutex s =
     (case mutex of None \<Rightarrow> Inr (0, s)
      | Some m \<Rightarrow> bindR (get_cell (mutex_mem s) (Some m)) (\<lambda>mx.
          if \<not> mx_locked mx then Inr (0, s)
          else
            bindR (thread_self E s) (\<lambda>(self, s).
            if mx_owner mx \<noteq> self then Inr (0, s)
            else
              bindR (pop_mutex m s) (\<lambda>(next, s).
              case next of
                None \<Rightarrow> bindR (set_mutex m False (mx_owner mx) s) (\<lambda>s. Inr (1, s))
              | Some n \<Rightarrow>
                  bindR (set_status (Some n) WORKING s) (\<lambda>s.
                  bindR (thread_at s (Some n)) (\<lambda>nc.
                  bindR (set_mutex m True (tcb_tid nc) s) (\<lambda>s.
                  bindR (push_ready n s) (\<lambda>s. Inr (1, s)))))))))"

section \<open>Condition variables\<close>

definition thread_cond_init :: "env \<Rightarrow> nat option \<Rightarrow> threads \<Rightarrow> (int \<times> threads) res" where
  "thread_cond_init E cond s =
     bindR (ensure_init E s) (\<lambda>s.
     case cond of None \<Rightarrow> Inr (0, s)
     | Some v \<Rightarrow> bindR (get_cell (cond_mem s) (Some v)) (\<lambda>cv.
         if snd (init_queue (e_ok E)) \<noteq> 0 then Inl (ExitCode (-1)) else
         let s = s\<lparr>cond_mem := (cond_mem s)(v \<mapsto> cv\<lparr>cv_q := fst (init_queue (e_ok E))\<rparr>)\<rparr>
         in bindR (need (conds s)) (\<lambda>q. bindR (queue_push q v) (\<lambda>q. Inr (1, s\<lparr>conds := Some q\<rparr>)))))"

definition push_cond :: "nat \<Rightarrow> nat \<Rightarrow> threads \<Rightarrow> threads res" where
  "push_cond v i s = bindR (get_cell (cond_mem s) (Some v)) (\<lambda>cv. bindR (need (cv_q cv)) (\<lambda>q.
     bindR (queue_push q i) (\<lambda>q. Inr (s\<lparr>cond_mem := (cond_mem s)(v \<mapsto> cv\<lparr>cv_q := Some q\<rparr>)\<rparr>))))"

definition pop_cond :: "nat \<Rightarrow> threads \<Rightarrow> (nat option \<times> threads) res" where
  "pop_cond v s = bindR (get_cell (cond_mem s) (Some v)) (\<lambda>cv. bindR (need (cv_q cv)) (\<lambda>q.
     bindR (queue_pop q) (\<lambda>(i, q). Inr (i, s\<lparr>cond_mem := (cond_mem s)(v \<mapsto> cv\<lparr>cv_q := Some q\<rparr>)\<rparr>))))"

definition thread_cond_wait :: "env \<Rightarrow> nat option \<Rightarrow> nat option \<Rightarrow> threads \<Rightarrow> (int \<times> threads) res" where
  "thread_cond_wait E cond mutex s =
     (case (cond, mutex) of
        (Some v, Some m) \<Rightarrow> bindR (get_cell (mutex_mem s) (Some m)) (\<lambda>mx.
          if \<not> mx_locked mx then Inr (0, s) else
          bindR (thread_at s (current_thread s)) (\<lambda>cc.
          if mx_owner mx \<noteq> tcb_tid cc then Inr (0, s) else
          bindR (thread_mutex_unlock E (Some m) s) (\<lambda>(r, s).
          if r = 0 then Inr (0, s) else
          bindR (set_status (current_thread s) WAITING s) (\<lambda>s.
          let i = hbrk s;
              info = \<lparr>ci_thread = the (current_thread s), ci_mutex = m\<rparr>;
              s = s\<lparr>infos := (infos s)(i \<mapsto> info), hbrk := Suc i\<rparr>
          in bindR (push_cond v i s) (\<lambda>s. bindR (thread_yield E s) (\<lambda>s. Inr (1, s)))))))
      | _ \<Rightarrow> Inr (0, s))"

definition thread_cond_signal :: "nat option \<Rightarrow> threads \<Rightarrow> (int \<times> threads) res" where
  "thread_cond_signal cond s =
     (case cond of None \<Rightarrow> Inr (0, s)
      | Some v \<Rightarrow> bindR (pop_cond v s) (\<lambda>(i, s).
          case i of None \<Rightarrow> Inr (1, s)
          | Some i \<Rightarrow> bindR (get_cell (infos s) (Some i)) (\<lambda>info.
              let thread = ci_thread info; m = ci_mutex info in
              bindR (get_cell (mutex_mem s) (Some m)) (\<lambda>mx.
              if \<not> mx_locked mx then
                bindR (thread_at s (Some thread)) (\<lambda>tc.
                bindR (set_mutex m True (tcb_tid tc) s) (\<lambda>s.
                bindR (set_status (Some thread) WORKING s) (\<lambda>s.
                bindR (push_ready thread s) (\<lambda>s. Inr (1, s)))))
              else bindR (push_mutex m thread s) (\<lambda>s. Inr (1, s))))))"

section \<open>The end of threads\<close>

definition destroy_thread :: "nat option \<Rightarrow> threads \<Rightarrow> threads res" where
  "destroy_thread to_free s =
     (case to_free of None \<Rightarrow> Inr s
      | Some a \<Rightarrow>
          bindR (remove_tcb s (all_threads s) (Some a)) (\<lambda>(_, s, tab).
          let s = s\<lparr>all_threads := tab\<rparr> in
          bindR (thread_at s (Some a)) (\<lambda>c.
          bindR (if tcb_tid c \<noteq> 0 \<and> tcb_stack c \<noteq> 0 then
                   (if tcb_stack c \<in> stacks s then Inr (s\<lparr>stacks := stacks s - {tcb_stack c}\<rparr>)
                    else Inl WildPointer)
                 else Inr s) (\<lambda>s. Inr (s\<lparr>tcbs := (tcbs s)(a := None)\<rparr>)))))"

definition thread_terminate :: "env \<Rightarrow> threads \<Rightarrow> threads res" where
  "thread_terminate E s =
     bindR (set_status (current_thread s) DONE s) (\<lambda>s.
     bindR (thread_at s (current_thread s)) (\<lambda>cc.
     bindR (case tcb_observer cc of None \<Rightarrow> Inr s
            | Some w \<Rightarrow>
                bindR (set_status (Some w) WORKING s) (\<lambda>s.
                bindR (push_ready w s) (\<lambda>s. set_observer (current_thread s) None s))) (\<lambda>s.
     bindR (destroy_thread (next_to_destroy s) s) (\<lambda>s.
     thread_yield E (s\<lparr>next_to_destroy := current_thread s\<rparr>)))))"

text \<open>The three loops of \<open>thread_cleanup\<close>, with fuel.\<close>

fun cleanup_threads :: "nat \<Rightarrow> threads \<Rightarrow> threads res" where
  "cleanup_threads 0 s = Inl OutOfFuel"
| "cleanup_threads (Suc fuel) s =
     bindR (pop_tcb s (all_threads s)) (\<lambda>(to_delete, s, tab).
     let s = s\<lparr>all_threads := tab\<rparr> in
     if to_delete = None then Inr s
     else bindR (destroy_thread to_delete s) (cleanup_threads fuel))"

definition drop_queue :: "queue option \<Rightarrow> unit res" where
  "drop_queue Q = bindR (destroy_queue Q) (\<lambda>r. if r = None then Inl OutOfFuel else Inr ())"

fun cleanup_mutexes :: "nat \<Rightarrow> threads \<Rightarrow> threads res" where
  "cleanup_mutexes 0 s = Inl OutOfFuel"
| "cleanup_mutexes (Suc fuel) s =
     bindR (need (mutexes s)) (\<lambda>q. bindR (queue_pop q) (\<lambda>(m, q).
     let s = s\<lparr>mutexes := Some q\<rparr> in
     if m = None then Inr s
     else bindR (get_cell (mutex_mem s) m) (\<lambda>mx. bindR (drop_queue (mx_q mx)) (\<lambda>_.
       cleanup_mutexes fuel (s\<lparr>mutex_mem := (mutex_mem s)(the m \<mapsto> mx\<lparr>mx_q := None\<rparr>)\<rparr>)))))"

fun cleanup_conds :: "nat \<Rightarrow> threads \<Rightarrow> threads res" where
  "cleanup_conds 0 s = Inl OutOfFuel"
| "cleanup_conds (Suc fuel) s =
     bindR (need (conds s)) (\<lambda>q. bindR (queue_pop q) (\<lambda>(v, q).
     let s = s\<lparr>conds := Some q\<rparr> in
     if v = None then Inr s
     else bindR (get_cell (cond_mem s) v) (\<lambda>cv. bindR (drop_queue (cv_q cv)) (\<lambda>_.
       cleanup_conds fuel (s\<lparr>cond_mem := (cond_mem s)(the v \<mapsto> cv\<lparr>cv_q := None\<rparr>)\<rparr>)))))"

definition queue_fuel :: "queue option \<Rightarrow> nat" where
  "queue_fuel Q = (case Q of None \<Rightarrow> 1 | Some q \<Rightarrow> Suc (q_brk q))"

definition thread_cleanup :: "threads \<Rightarrow> threads res" where
  "thread_cleanup s =
     (if \<not> ready s then Inr s else
      bindR (thread_at s (current_thread s)) (\<lambda>cc.
      if tcb_tid cc \<noteq> 0 then Inr s else
      bindR (cleanup_threads (Suc (hbrk s)) s) (\<lambda>s.
      bindR (cleanup_mutexes (queue_fuel (mutexes s)) s) (\<lambda>s.
      bindR (cleanup_conds (queue_fuel (conds s)) s) (\<lambda>s.
      bindR (destroy_table s (all_threads s)) (\<lambda>(_, s).
      bindR (drop_queue (ready_list s)) (\<lambda>_.
      bindR (drop_queue (mutexes s)) (\<lambda>_.
      bindR (drop_queue (conds s)) (\<lambda>_.
      Inr (s\<lparr>all_threads := None, ready_list := None, mutexes := None, conds := None, ready := False\<rparr>))))))))))"

end
