(* ===== verification/Thread_Sched.thy ===== *)
theory Thread_Sched
  imports Threads "HOL-Library.Multiset"
begin

text \<open>
  The invariant of the thread library.  A \<open>view\<close> lists what the pointer structures hold: the table,
  the queues of the scheduler, of every mutex and of every condition variable, and who joins whom.
  \<open>sched_ok\<close> says that the state represents the view and that the view is consistent; above all
  that every control block is in exactly one place: running, ready, waiting for a mutex, for a
  condition or for a thread to end, or done and about to be freed.  Each operation is shown to keep it.
\<close>

section \<open>Views\<close>

record view =
  v_table :: "entry list"
  v_ready :: "nat list"
  v_mutexes :: "nat list"
  v_conds :: "nat list"
  v_waits :: "nat \<Rightarrow> nat list"
  v_infos :: "nat \<Rightarrow> nat list"
  v_joins :: "(nat \<times> nat) list"
  v_done :: "nat list"

definition qrep :: "queue option \<Rightarrow> nat list \<Rightarrow> bool" where
  "qrep Q xs \<longleftrightarrow> (\<exists>q. Q = Some q \<and> queue_rep q xs)"

definition stat :: "(nat \<Rightarrow> tcb option) \<Rightarrow> nat \<Rightarrow> status option" where
  "stat ts t = map_option tcb_status (ts t)"

definition running :: "(nat \<Rightarrow> tcb option) \<Rightarrow> nat option \<Rightarrow> nat list" where
  "running ts cur = (case cur of None \<Rightarrow> [] | Some t \<Rightarrow> if stat ts t = Some WORKING then [t] else [])"

definition info_thread :: "(nat \<Rightarrow> COND_INFO option) \<Rightarrow> nat \<Rightarrow> nat" where
  "info_thread nf i = ci_thread (the (nf i))"

definition mutex_waiting :: "view \<Rightarrow> nat list" where
  "mutex_waiting v = concat (map (v_waits v) (v_mutexes v))"

definition all_infos :: "view \<Rightarrow> nat list" where
  "all_infos v = concat (map (v_infos v) (v_conds v))"

definition waiting :: "(nat \<Rightarrow> COND_INFO option) \<Rightarrow> view \<Rightarrow> nat list" where
  "waiting nf v = mutex_waiting v @ map (info_thread nf) (all_infos v) @ map snd (v_joins v)"

definition places :: "threads \<Rightarrow> view \<Rightarrow> nat list" where
  "places s v = running (tcbs s) (current_thread s) @ v_ready v @ waiting (infos s) v @
     v_done v"

definition queues_ok :: "threads \<Rightarrow> view \<Rightarrow> bool" where
  "queues_ok s v \<longleftrightarrow> qrep (ready_list s) (v_ready v) \<and> qrep (mutexes s) (v_mutexes v) \<and>
     qrep (conds s) (v_conds v) \<and> distinct (v_mutexes v) \<and> distinct (v_conds v) \<and>
     (\<forall>m mx. mutex_mem s m = Some mx \<longrightarrow>
        (if m \<in> set (v_mutexes v) then qrep (mx_q mx) (v_waits v m) else mx_q mx = None)) \<and>
     (\<forall>c cv. cond_mem s c = Some cv \<longrightarrow>
        (if c \<in> set (v_conds v) then qrep (cv_q cv) (v_infos v c) else cv_q cv = None)) \<and>
     set (v_mutexes v) \<subseteq> dom (mutex_mem s) \<and> set (v_conds v) \<subseteq> dom (cond_mem s)"

definition status_ok :: "threads \<Rightarrow> view \<Rightarrow> bool" where
  "status_ok s v \<longleftrightarrow> (\<forall>t \<in> set (v_ready v). stat (tcbs s) t = Some WORKING) \<and>
     (\<forall>t \<in> set (waiting (infos s) v). stat (tcbs s) t = Some WAITING) \<and>
     (\<forall>t \<in> set (v_done v). stat (tcbs s) t = Some DONE) \<and>
     (\<exists>t. current_thread s = Some t \<and> t \<in> dom (tcbs s))"

text \<open>A pair of \<open>v_joins\<close> is a thread and the observer waiting for it.\<close>

definition joins_ok :: "(nat \<Rightarrow> tcb option) \<Rightarrow> (nat \<times> nat) list \<Rightarrow> bool" where
  "joins_ok ts js \<longleftrightarrow> distinct (map fst js) \<and> acyclic (set js) \<and>
     (\<forall>u c. ts u = Some c \<longrightarrow> tcb_observer c = map_of js u) \<and>
     (\<forall>u \<in> fst ` set js. u \<in> dom ts \<and> stat ts u \<noteq> Some DONE)"

definition mutexes_ok :: "threads \<Rightarrow> view \<Rightarrow> bool" where
  "mutexes_ok s v \<longleftrightarrow> (\<forall>m \<in> set (v_mutexes v). \<forall>mx. mutex_mem s m = Some mx \<longrightarrow> \<not> mx_locked mx \<longrightarrow> v_waits v m = []) \<and>
     (\<forall>i \<in> set (all_infos v). \<exists>ci. infos s i = Some ci \<and> ci_mutex ci \<in> set (v_mutexes v))"

text \<open>The threads that were created, all but the parent.\<close>

definition created :: "(nat \<Rightarrow> tcb option) \<Rightarrow> nat set" where
  "created ts = {a. \<exists>c. ts a = Some c \<and> tcb_tid c \<noteq> 0}"

text \<open>The heap holds no control block outside the table, and the stack of each thread but the parent.\<close>

definition heap_ok :: "env \<Rightarrow> threads \<Rightarrow> view \<Rightarrow> bool" where
  "heap_ok E s v \<longleftrightarrow> dom (tcbs s) = e_tcb ` set (v_table v) \<and>
     (\<forall>a \<in> dom (tcbs s) \<union> dom (infos s). a < hbrk s) \<and>
     (\<forall>t. all_threads s = Some t \<longrightarrow> tab_max_id t \<noteq> 0) \<and>
     (\<forall>a c. tcbs s a = Some c \<longrightarrow> tcb_stack c = (if tcb_tid c = 0 then 0 else e_stack E a)) \<and>
     stacks s = e_stack E ` created (tcbs s) \<and> inj_on (e_stack E) (created (tcbs s))"

definition sched_ok :: "env \<Rightarrow> threads \<Rightarrow> view \<Rightarrow> bool" where
  "sched_ok E s v \<longleftrightarrow> ready s \<and> table_rep s (all_threads s) (v_table v) \<and> queues_ok s v \<and>
     mset (places s v) = mset_set (dom (tcbs s)) \<and> status_ok s v \<and> joins_ok (tcbs s) (v_joins v) \<and>
     mutexes_ok s v \<and> heap_ok E s v"

text \<open>The environment gives clean memory.\<close>

definition clean_env :: "env \<Rightarrow> bool" where
  "clean_env E \<longleftrightarrow> e_ok E \<and> (\<forall>a. e_stack E a \<noteq> 0) \<and>
     (\<forall>a. tcb_handle (e_junk E a) = None \<and> tcb_observer (e_junk E a) = None)"

section \<open>Queues of the state\<close>

lemma push_ready_rep:
  assumes "qrep (ready_list s) xs"
  shows "\<exists>Q. push_ready a s = Inr (s\<lparr>ready_list := Q\<rparr>) \<and> qrep Q (xs @ [a])"
proof -
  obtain q where q: "ready_list s = Some q" "queue_rep q xs" using assms by (auto simp: qrep_def)
  obtain q' where "queue_push q a = Inr q'" "queue_rep q' (xs @ [a])" using lq.push_rep [OF q(2)] by blast
  then show ?thesis using q(1) by (auto simp: push_ready_def need_def qrep_def)
qed

lemma pop_ready_rep:
  assumes "qrep (ready_list s) (a # xs)"
  shows "\<exists>Q. pop_ready s = Inr (Some a, s\<lparr>ready_list := Q\<rparr>) \<and> qrep Q xs"
proof -
  obtain q where q: "ready_list s = Some q" "queue_rep q (a # xs)" using assms by (auto simp: qrep_def)
  obtain q' where "queue_pop q = Inr (Some a, q')" "queue_rep q' xs" using lq.pop_rep [OF q(2)] by blast
  then show ?thesis using q(1) by (auto simp: pop_ready_def need_def qrep_def)
qed

lemma pop_ready_empty: "qrep (ready_list s) [] \<Longrightarrow> pop_ready s = Inr (None, s)"
  by (auto simp: qrep_def pop_ready_def need_def lq.pop_empty)

lemma push_mutex_rep:
  assumes "mutex_mem s m = Some mx" "qrep (mx_q mx) xs"
  shows "\<exists>Q. push_mutex m a s = Inr (s\<lparr>mutex_mem := (mutex_mem s)(m \<mapsto> mx\<lparr>mx_q := Q\<rparr>)\<rparr>) \<and> qrep Q (xs @ [a])"
proof -
  obtain q where q: "mx_q mx = Some q" "queue_rep q xs" using assms(2) by (auto simp: qrep_def)
  obtain q' where "queue_push q a = Inr q'" "queue_rep q' (xs @ [a])" using lq.push_rep [OF q(2)] by blast
  then show ?thesis using q(1) assms(1) by (auto simp: push_mutex_def get_cell_def need_def qrep_def)
qed

lemma pop_mutex_rep:
  assumes "mutex_mem s m = Some mx" "qrep (mx_q mx) (a # xs)"
  shows "\<exists>Q. pop_mutex m s = Inr (Some a, s\<lparr>mutex_mem := (mutex_mem s)(m \<mapsto> mx\<lparr>mx_q := Q\<rparr>)\<rparr>) \<and> qrep Q xs"
proof -
  obtain q where q: "mx_q mx = Some q" "queue_rep q (a # xs)" using assms(2) by (auto simp: qrep_def)
  obtain q' where "queue_pop q = Inr (Some a, q')" "queue_rep q' xs" using lq.pop_rep [OF q(2)] by blast
  then show ?thesis using q(1) assms(1) by (auto simp: pop_mutex_def get_cell_def need_def qrep_def)
qed

lemma pop_mutex_empty:
  assumes "mutex_mem s m = Some mx" "qrep (mx_q mx) []"
  shows "pop_mutex m s = Inr (None, s)"
proof -
  obtain q where q: "mx_q mx = Some q" "queue_rep q []" using assms(2) by (auto simp: qrep_def)
  then have "mx\<lparr>mx_q := Some q\<rparr> = mx" by simp
  then show ?thesis using q assms(1)
    by (simp add: pop_mutex_def get_cell_def need_def lq.pop_empty fun_upd_idem)
qed

lemma push_cond_rep:
  assumes "cond_mem s c = Some cv" "qrep (cv_q cv) xs"
  shows "\<exists>Q. push_cond c i s = Inr (s\<lparr>cond_mem := (cond_mem s)(c \<mapsto> cv\<lparr>cv_q := Q\<rparr>)\<rparr>) \<and> qrep Q (xs @ [i])"
proof -
  obtain q where q: "cv_q cv = Some q" "queue_rep q xs" using assms(2) by (auto simp: qrep_def)
  obtain q' where "queue_push q i = Inr q'" "queue_rep q' (xs @ [i])" using lq.push_rep [OF q(2)] by blast
  then show ?thesis using q(1) assms(1) by (auto simp: push_cond_def get_cell_def need_def qrep_def)
qed

lemma pop_cond_rep:
  assumes "cond_mem s c = Some cv" "qrep (cv_q cv) (i # xs)"
  shows "\<exists>Q. pop_cond c s = Inr (Some i, s\<lparr>cond_mem := (cond_mem s)(c \<mapsto> cv\<lparr>cv_q := Q\<rparr>)\<rparr>) \<and> qrep Q xs"
proof -
  obtain q where q: "cv_q cv = Some q" "queue_rep q (i # xs)" using assms(2) by (auto simp: qrep_def)
  obtain q' where "queue_pop q = Inr (Some i, q')" "queue_rep q' xs" using lq.pop_rep [OF q(2)] by blast
  then show ?thesis using q(1) assms(1) by (auto simp: pop_cond_def get_cell_def need_def qrep_def)
qed

lemma pop_cond_empty:
  assumes "cond_mem s c = Some cv" "qrep (cv_q cv) []"
  shows "pop_cond c s = Inr (None, s)"
proof -
  obtain q where q: "cv_q cv = Some q" "queue_rep q []" using assms(2) by (auto simp: qrep_def)
  then have "cv\<lparr>cv_q := Some q\<rparr> = cv" by simp
  then show ?thesis using q assms(1)
    by (simp add: pop_cond_def get_cell_def need_def lq.pop_empty fun_upd_idem)
qed

section \<open>Yield\<close>

lemma table_rep_frame:
  assumes "table_rep m tab xs" "tcbs m' = tcbs m" "handles m' = handles m" "hbrk m' \<ge> hbrk m"
  shows "table_rep m' tab xs"
  using assms by (intro table_rep_cong [OF assms(1)]) (auto simp: table_rep_def)

lemma table_rep_upd:
  assumes "table_rep m tab xs" "tcbs m a = Some c" "tcb_tid c' = tcb_tid c" "tcb_handle c' = tcb_handle c"
    "tcbs m' = (tcbs m)(a \<mapsto> c')" "handles m' = handles m" "hbrk m' \<ge> hbrk m"
  shows "table_rep m' tab xs"
  by (rule table_rep_cong [OF assms(1,6,7)])
    (use assms(1-5) in \<open>auto simp: table_rep_def intro: linked_upd\<close>)

lemma thread_at_Some [simp]: "tcbs s a = Some c \<Longrightarrow> thread_at s (Some a) = Inr c"
  by (simp add: thread_at_def get_cell_def)

lemma ensure_ready [simp]: "ready s \<Longrightarrow> ensure_init E s = Inr s"
  by (simp add: ensure_init_def)

lemma sched_current:
  assumes "sched_ok E s v"
  obtains t c where "current_thread s = Some t" "tcbs s t = Some c"
  using assms by (auto simp: sched_ok_def status_ok_def)

lemma sched_ready: "sched_ok E s v \<Longrightarrow> ready s"
  by (simp add: sched_ok_def)

lemma mset_places: "sched_ok E s v \<Longrightarrow> mset (places s v) = mset_set (dom (tcbs s))"
  by (simp add: sched_ok_def)

lemma sched_finite: "sched_ok E s v \<Longrightarrow> finite (dom (tcbs s))"
  by (auto simp: sched_ok_def heap_ok_def)

lemma places_distinct: "sched_ok E s v \<Longrightarrow> distinct (places s v)"
  using mset_places sched_finite by (metis mset_set_set_mset_msubset set_mset_mset finite_set_mset_mset_set
    distinct_count_atmost_1 count_mset_set(1) count_mset_set(3))

lemma places_set: "sched_ok E s v \<Longrightarrow> set (places s v) = dom (tcbs s)"
  using mset_places sched_finite by (metis finite_set_mset_mset_set set_mset_mset)

lemma stat_Some: "stat ts t = Some x \<longleftrightarrow> (\<exists>c. ts t = Some c \<and> tcb_status c = x)"
  by (auto simp: stat_def)

lemma running_simps:
  "stat ts t = Some WORKING \<Longrightarrow> running ts (Some t) = [t]"
  "stat ts t \<noteq> Some WORKING \<Longrightarrow> running ts (Some t) = []"
  by (simp_all add: running_def)

lemma yield_alone:
  assumes ok: "sched_ok E s v" and t: "current_thread s = Some t" and e: "v_ready v = []"
  shows "thread_yield E s = (if stat (tcbs s) t = Some WORKING then Inr s else Inl (ExitCode (-1)))"
proof -
  have q: "qrep (ready_list s) []" using ok e by (simp add: sched_ok_def queues_ok_def)
  obtain c where c: "tcbs s t = Some c" using ok t by (auto elim: sched_current)
  show ?thesis using sched_ready [OF ok] pop_ready_empty [OF q] t c
    by (simp add: thread_yield_def yield_fuel_def stat_def)
qed

lemma yield_ok:
  assumes ok: "sched_ok E s v" and t: "current_thread s = Some t" and r: "v_ready v = n # R"
  shows "\<exists>Q. thread_yield E s = Inr (s\<lparr>ready_list := Q, current_thread := Some n\<rparr>) \<and>
    sched_ok E (s\<lparr>ready_list := Q, current_thread := Some n\<rparr>) (v\<lparr>v_ready := R @ running (tcbs s) (Some t)\<rparr>)"
proof -
  obtain c where c: "tcbs s t = Some c" using ok t by (auto elim: sched_current)
  have n: "stat (tcbs s) n = Some WORKING" using ok r by (simp add: sched_ok_def status_ok_def)
  then obtain nc where nc: "tcbs s n = Some nc" "tcb_status nc = WORKING" by (auto simp: stat_Some)
  have "qrep (ready_list s) (n # R)" using ok r by (simp add: sched_ok_def queues_ok_def)
  then obtain Q where Q: "pop_ready s = Inr (Some n, s\<lparr>ready_list := Q\<rparr>)" "qrep Q R"
    using pop_ready_rep by blast
  let ?s1 = "s\<lparr>ready_list := Q, current_thread := Some n\<rparr>"
  obtain Q' where "push_ready t ?s1 = Inr (?s1\<lparr>ready_list := Q'\<rparr>)" and Q'2: "qrep Q' (R @ [t])"
    using push_ready_rep [of ?s1 R t] Q(2) by auto
  moreover have "?s1\<lparr>ready_list := Q'\<rparr> = s\<lparr>ready_list := Q', current_thread := Some n\<rparr>" by simp
  ultimately have Q': "push_ready t ?s1 = Inr (s\<lparr>ready_list := Q', current_thread := Some n\<rparr>)" by metis
  obtain Q'' where y: "thread_yield E s = Inr (s\<lparr>ready_list := Q'', current_thread := Some n\<rparr>)"
    and Q'': "qrep Q'' (R @ running (tcbs s) (Some t))"
  proof (cases "tcb_status c = WORKING")
    case True
    then show ?thesis using that [of Q'] Q Q' Q'2 sched_ready [OF ok] t c nc
      by (simp add: thread_yield_def yield_fuel_def running_def stat_def)
  next
    case False
    then show ?thesis using that [of Q] Q sched_ready [OF ok] t c nc
      by (simp add: thread_yield_def yield_fuel_def running_def stat_def)
  qed
  let ?s = "s\<lparr>ready_list := Q'', current_thread := Some n\<rparr>"
  let ?v = "v\<lparr>v_ready := R @ running (tcbs s) (Some t)\<rparr>"
  have v: "mutex_waiting ?v = mutex_waiting v" "all_infos ?v = all_infos v" "waiting nf ?v = waiting nf v" for nf
    by (simp_all add: mutex_waiting_def all_infos_def waiting_def)
  have "mset (places ?s ?v) = mset (places s v)"
    using r t n by (simp add: places_def v running_simps)
  moreover have "table_rep ?s (all_threads s) (v_table v)"
    by (rule table_rep_frame [of s]) (use ok in \<open>simp_all add: sched_ok_def\<close>)
  moreover have "\<forall>x \<in> set (running (tcbs s) (Some t)). stat (tcbs s) x = Some WORKING"
    by (simp add: running_def)
  ultimately have "sched_ok E ?s ?v"
    using ok Q'' r nc(1) by (auto simp: sched_ok_def queues_ok_def status_ok_def mutexes_ok_def heap_ok_def v)
  then show ?thesis using y by blast
qed

section \<open>Moving a thread\<close>

lemma stat_upd [simp]: "stat (ts(a \<mapsto> c)) t = (if t = a then Some (tcb_status c) else stat ts t)"
  by (simp add: stat_def)

lemma mset_concat_upd:
  "distinct ms \<Longrightarrow> m \<in> set ms \<Longrightarrow>
   mset (concat (map (f(m := xs)) ms)) + mset (f m) = mset (concat (map f ms)) + mset xs"
proof (induction ms)
  case (Cons y ys)
  show ?case
  proof (cases "m = y")
    case True
    then have e: "map (f(m := xs)) ys = map f ys" using Cons.prems(1) by auto
    show ?thesis unfolding list.map concat.simps mset_append e using True by simp
  next
    case False
    then have "mset (concat (map (f(m := xs)) ys)) + mset (f m) = mset (concat (map f ys)) + mset xs"
      by (intro Cons.IH) (use Cons.prems False in auto)
    moreover have "(f(m := xs)) y = f y" using False by simp
    ultimately show ?thesis by (simp del: fun_upd_apply add: union_assoc)
  qed
qed simp

lemma running_current:
  assumes "sched_ok E s v" "current_thread s = Some t" "stat (tcbs s) t = Some WORKING"
  shows "places s v = t # v_ready v @ waiting (infos s) v @ v_done v"
    and "t \<notin> set (v_ready v)" "t \<notin> set (waiting (infos s) v)" "t \<notin> set (v_done v)"
proof -
  show p: "places s v = t # v_ready v @ waiting (infos s) v @ v_done v"
    using assms(2,3) by (simp add: places_def running_simps)
  have "distinct (places s v)" by (rule places_distinct [OF assms(1)])
  then show "t \<notin> set (v_ready v)" "t \<notin> set (waiting (infos s) v)" "t \<notin> set (v_done v)"
    unfolding p by auto
qed

lemma joins_status:
  assumes "joins_ok ts js" "ts a = Some c" "tcb_observer c' = tcb_observer c"
    "tcb_status c' \<noteq> DONE \<or> a \<notin> fst ` set js"
  shows "joins_ok (ts(a \<mapsto> c')) js"
  using assms by (auto simp: joins_ok_def domIff)

lemma heap_status:
  assumes "heap_ok E s v" "tcbs s a = Some c" "tcbs s' = (tcbs s)(a \<mapsto> c')"
    "tcb_tid c' = tcb_tid c" "tcb_stack c' = tcb_stack c" "hbrk s' \<ge> hbrk s" "\<forall>i \<in> dom (infos s'). i < hbrk s'"
    "all_threads s' = all_threads s" "stacks s' = stacks s" "v_table v' = v_table v"
  shows "heap_ok E s' v'"
proof -
  have "dom (tcbs s') = dom (tcbs s)" using assms(2,3) by auto
  moreover have "created (tcbs s') = created (tcbs s)"
    using assms(2-4) by (auto simp: created_def)
  moreover have "\<forall>b c. tcbs s' b = Some c \<longrightarrow> tcb_stack c = (if tcb_tid c = 0 then 0 else e_stack E b)"
    using assms(1-5) by (auto simp: heap_ok_def)
  moreover have "\<forall>b \<in> dom (tcbs s') \<union> dom (infos s'). b < hbrk s'"
    unfolding \<open>dom (tcbs s') = dom (tcbs s)\<close>
    using assms(1,6,7) unfolding heap_ok_def by (meson Un_iff less_le_trans)
  ultimately show ?thesis using assms(1,8-10) by (simp add: heap_ok_def)
qed

text \<open>A change of one thread's status, together with any change of the queues.\<close>

lemma sched_move:
  assumes ok: "sched_ok E s v" and a: "tcbs s a = Some c" and st: "x \<noteq> DONE"
    and s': "tcbs s' = (tcbs s)(a \<mapsto> c\<lparr>tcb_status := x\<rparr>)" "handles s' = handles s" "hbrk s' \<ge> hbrk s"
      "all_threads s' = all_threads s" "stacks s' = stacks s" "ready s' = ready s" "\<forall>i \<in> dom (infos s'). i < hbrk s'"
    and v': "v_table v' = v_table v" "v_joins v' = v_joins v"
    and q: "queues_ok s' v'" "mset (places s' v') = mset (places s v)" "status_ok s' v'" "mutexes_ok s' v'"
  shows "sched_ok E s' v'"
proof -
  have d: "dom (tcbs s') = dom (tcbs s)" using a s'(1) by auto
  have t: "table_rep s' (all_threads s) (v_table v)"
    by (rule table_rep_upd [of s _ _ a c "c\<lparr>tcb_status := x\<rparr>"]) (use ok a s' in \<open>simp_all add: sched_ok_def\<close>)
  have j: "joins_ok (tcbs s') (v_joins v)"
    unfolding s'(1) by (rule joins_status) (use ok a st in \<open>simp_all add: sched_ok_def\<close>)
  have h: "heap_ok E s' v'"
    by (rule heap_status [of E s v a c s' "c\<lparr>tcb_status := x\<rparr>"]) (use ok a s' v' in \<open>simp_all add: sched_ok_def\<close>)
  show ?thesis using ok t j h q s' v' d by (simp add: sched_ok_def)
qed

text \<open>The bounds a state gives.\<close>

lemma infos_bound: "sched_ok E s v \<Longrightarrow> \<forall>i \<in> dom (infos s). i < hbrk s"
  by (auto simp: sched_ok_def heap_ok_def)

lemma waiting_upd_mutex:
  assumes "distinct (v_mutexes v)" "m \<in> set (v_mutexes v)"
  shows "mset (waiting nf (v\<lparr>v_waits := (v_waits v)(m := xs)\<rparr>)) + mset (v_waits v m) = mset (waiting nf v) + mset xs"
  using mset_concat_upd [OF assms, of "v_waits v" xs]
  by (simp add: waiting_def mutex_waiting_def all_infos_def)

lemma set_waiting_upd_mutex:
  assumes "m \<in> set (v_mutexes v)"
  shows "set (waiting nf (v\<lparr>v_waits := (v_waits v)(m := xs)\<rparr>)) \<subseteq> set (waiting nf v) \<union> set xs"
    "all_infos (v\<lparr>v_waits := (v_waits v)(m := xs)\<rparr>) = all_infos v"
  using assms by (auto simp: waiting_def mutex_waiting_def all_infos_def split: if_splits)

text \<open>The running thread goes to the queue of a locked mutex.\<close>

lemma block_mutex:
  assumes ok: "sched_ok E s v" and t: "current_thread s = Some t" "tcbs s t = Some c" "tcb_status c = WORKING"
    and m: "m \<in> set (v_mutexes v)" "mutex_mem s m = Some mx" "mx_locked mx"
  shows "\<exists>Q. push_mutex m t (s\<lparr>tcbs := (tcbs s)(t \<mapsto> c\<lparr>tcb_status := WAITING\<rparr>)\<rparr>) =
      Inr (s\<lparr>tcbs := (tcbs s)(t \<mapsto> c\<lparr>tcb_status := WAITING\<rparr>), mutex_mem := (mutex_mem s)(m \<mapsto> mx\<lparr>mx_q := Q\<rparr>)\<rparr>) \<and>
    sched_ok E (s\<lparr>tcbs := (tcbs s)(t \<mapsto> c\<lparr>tcb_status := WAITING\<rparr>), mutex_mem := (mutex_mem s)(m \<mapsto> mx\<lparr>mx_q := Q\<rparr>)\<rparr>)
      (v\<lparr>v_waits := (v_waits v)(m := v_waits v m @ [t])\<rparr>)"
proof -
  have q: "queues_ok s v" "status_ok s v" "mutexes_ok s v" using ok by (simp_all add: sched_ok_def)
  have "qrep (mx_q mx) (v_waits v m)" using q(1) m by (auto simp: queues_ok_def)
  then obtain Q where Q: "push_mutex m t (s\<lparr>tcbs := (tcbs s)(t \<mapsto> c\<lparr>tcb_status := WAITING\<rparr>)\<rparr>) =
      Inr (s\<lparr>tcbs := (tcbs s)(t \<mapsto> c\<lparr>tcb_status := WAITING\<rparr>), mutex_mem := (mutex_mem s)(m \<mapsto> mx\<lparr>mx_q := Q\<rparr>)\<rparr>)"
      "qrep Q (v_waits v m @ [t])"
    using push_mutex_rep [of "s\<lparr>tcbs := (tcbs s)(t \<mapsto> c\<lparr>tcb_status := WAITING\<rparr>)\<rparr>" m mx] m(2) by auto
  let ?s = "s\<lparr>tcbs := (tcbs s)(t \<mapsto> c\<lparr>tcb_status := WAITING\<rparr>), mutex_mem := (mutex_mem s)(m \<mapsto> mx\<lparr>mx_q := Q\<rparr>)\<rparr>"
  let ?v = "v\<lparr>v_waits := (v_waits v)(m := v_waits v m @ [t])\<rparr>"
  have st: "stat (tcbs s) t = Some WORKING" using t by (simp add: stat_def)
  note r = running_current [OF ok t(1) st]
  have w: "mset (waiting nf ?v) = mset (waiting nf v) + {#t#}" for nf
    using waiting_upd_mutex [of v m nf "v_waits v m @ [t]"] q(1) m(1) by (simp add: queues_ok_def)
  have "sched_ok E ?s ?v"
  proof (rule sched_move [OF ok t(2), of WAITING])
    show "queues_ok ?s ?v" using q(1) Q(2) m by (simp add: queues_ok_def subset_insertI2)
    show "mset (places ?s ?v) = mset (places s v)"
      unfolding r(1) using t(1) by (simp add: places_def running_simps w)
    show "status_ok ?s ?v"
      using q(2) r(2-4) t set_waiting_upd_mutex(1) [OF m(1), of "infos s" "v_waits v m @ [t]"]
        set_mset_mset [of "waiting (infos s) ?v"] unfolding w status_ok_def by auto
    show "mutexes_ok ?s ?v" using q(3) m by (simp add: mutexes_ok_def set_waiting_upd_mutex(2))
  qed (use infos_bound [OF ok] in \<open>simp_all\<close>)
  then show ?thesis using Q(1) by blast
qed

lemma status_okI:
  assumes "status_ok s v" "current_thread s' = current_thread s" "dom (tcbs s') = dom (tcbs s)"
    "\<And>t. t \<in> set (v_ready v') \<Longrightarrow> stat (tcbs s') t = Some WORKING"
    "\<And>t. t \<in> set (waiting (infos s') v') \<Longrightarrow> stat (tcbs s') t = Some WAITING"
    "\<And>t. t \<in> set (v_done v') \<Longrightarrow> stat (tcbs s') t = Some DONE"
  shows "status_ok s' v'"
  using assms by (simp add: status_ok_def)

lemma sched_parts:
  assumes "sched_ok E s v"
  shows "queues_ok s v" "status_ok s v" "mutexes_ok s v" "heap_ok E s v" "joins_ok (tcbs s) (v_joins v)"
  using assms by (simp_all add: sched_ok_def)

lemma sched_mutex:
  assumes "sched_ok E s v" "m \<in> set (v_mutexes v)"
  obtains mx where "mutex_mem s m = Some mx" "qrep (mx_q mx) (v_waits v m)"
  using sched_parts(1) [OF assms(1)] assms(2) by (fastforce simp: queues_ok_def)

lemma waiting_in_places:
  assumes "sched_ok E s v" "n \<in> set (waiting (infos s) v)"
  shows "n \<in> dom (tcbs s)" "stat (tcbs s) n = Some WAITING"
  using assms places_set [OF assms(1)] by (auto simp: places_def sched_ok_def status_ok_def)

lemma mutex_waiting_mem: "m \<in> set (v_mutexes v) \<Longrightarrow> n \<in> set (v_waits v m) \<Longrightarrow> n \<in> set (waiting nf v)"
  by (auto simp: waiting_def mutex_waiting_def)

lemma set_waiting_pop_mutex:
  assumes "sched_ok E s v" "m \<in> set (v_mutexes v)" "v_waits v m = n # ws"
  shows "mset (waiting (infos s) v) = add_mset n (mset (waiting (infos s) (v\<lparr>v_waits := (v_waits v)(m := ws)\<rparr>)))"
    "n \<notin> set (waiting (infos s) (v\<lparr>v_waits := (v_waits v)(m := ws)\<rparr>))"
proof -
  have d: "distinct (v_mutexes v)" using sched_parts(1) [OF assms(1)] by (simp add: queues_ok_def)
  show m: "mset (waiting (infos s) v) = add_mset n (mset (waiting (infos s) (v\<lparr>v_waits := (v_waits v)(m := ws)\<rparr>)))"
    using waiting_upd_mutex [OF d assms(2), of "infos s" ws] by (simp add: assms(3))
  have "distinct (waiting (infos s) v)" using places_distinct [OF assms(1)] by (simp add: places_def)
  then have "distinct (n # waiting (infos s) (v\<lparr>v_waits := (v_waits v)(m := ws)\<rparr>))"
    by (rule mset_eq_imp_distinct_iff [THEN iffD1, rotated]) (simp add: m)
  then show "n \<notin> set (waiting (infos s) (v\<lparr>v_waits := (v_waits v)(m := ws)\<rparr>))" by simp
qed

text \<open>A change of queues alone.\<close>

lemma sched_queues:
  assumes ok: "sched_ok E s v"
    and s': "tcbs s' = tcbs s" "handles s' = handles s" "hbrk s' \<ge> hbrk s"
      "all_threads s' = all_threads s" "stacks s' = stacks s" "ready s' = ready s" "\<forall>i \<in> dom (infos s'). i < hbrk s'"
    and v': "v_table v' = v_table v" "v_joins v' = v_joins v"
    and q: "queues_ok s' v'" "mset (places s' v') = mset (places s v)" "status_ok s' v'" "mutexes_ok s' v'"
  shows "sched_ok E s' v'"
proof -
  have "table_rep s' (all_threads s) (v_table v)"
    by (rule table_rep_frame [of s]) (use ok s' in \<open>simp_all add: sched_ok_def\<close>)
  moreover have "\<forall>a \<in> dom (tcbs s') \<union> dom (infos s'). a < hbrk s'"
    using sched_parts(4) [OF ok] s'(1,3,7) unfolding heap_ok_def by (metis Un_iff less_le_trans)
  then have "heap_ok E s' v'" using sched_parts(4) [OF ok] s' v' by (simp add: heap_ok_def)
  ultimately show ?thesis using ok s' v' q by (simp add: sched_ok_def)
qed

section \<open>Unlock\<close>

lemma unlock_free:
  assumes ok: "sched_ok E s v" and t: "current_thread s = Some t" "tcbs s t = Some c" "tcb_status c = WORKING"
    and m: "m \<in> set (v_mutexes v)" "mutex_mem s m = Some mx" "mx_locked mx" "mx_owner mx = tcb_tid c"
    and w: "v_waits v m = []"
  shows "thread_mutex_unlock E (Some m) s = Inr (1, s\<lparr>mutex_mem := (mutex_mem s)(m \<mapsto> mx\<lparr>mx_locked := False, mx_owner := tcb_tid c\<rparr>)\<rparr>) \<and>
    sched_ok E (s\<lparr>mutex_mem := (mutex_mem s)(m \<mapsto> mx\<lparr>mx_locked := False, mx_owner := tcb_tid c\<rparr>)\<rparr>) v"
proof -
  let ?s = "s\<lparr>mutex_mem := (mutex_mem s)(m \<mapsto> mx\<lparr>mx_locked := False, mx_owner := tcb_tid c\<rparr>)\<rparr>"
  have q: "qrep (mx_q mx) []" using sched_mutex [OF ok m(1)] m(2) w by auto
  have u: "thread_mutex_unlock E (Some m) s = Inr (1, ?s)"
    using pop_mutex_empty [OF m(2) q] sched_ready [OF ok] t m
    by (simp add: thread_mutex_unlock_def thread_self_def get_cell_def set_mutex_def)
  have "sched_ok E ?s v"
  proof (rule sched_queues [OF ok])
    show "queues_ok ?s v" using sched_parts(1) [OF ok] m(2) by (auto simp: queues_ok_def)
    show "mset (places ?s v) = mset (places s v)" by (simp add: places_def)
    show "status_ok ?s v" using sched_parts(2) [OF ok] by (simp add: status_ok_def)
    show "mutexes_ok ?s v" using sched_parts(3) [OF ok] w by (simp add: mutexes_ok_def)
  qed (use infos_bound [OF ok] in simp_all)
  then show ?thesis using u by blast
qed


text \<open>The mutex is passed to the first thread of its queue.\<close>

lemma unlock_pass:
  assumes ok: "sched_ok E s v" and t: "current_thread s = Some t" "tcbs s t = Some c" "tcb_status c = WORKING"
    and m: "m \<in> set (v_mutexes v)" "mutex_mem s m = Some mx" "mx_locked mx" "mx_owner mx = tcb_tid c"
    and w: "v_waits v m = n # ws" "tcbs s n = Some nc"
  shows "\<exists>Q Q'. let s' = s\<lparr>tcbs := (tcbs s)(n \<mapsto> nc\<lparr>tcb_status := WORKING\<rparr>),
        mutex_mem := (mutex_mem s)(m \<mapsto> mx\<lparr>mx_q := Q, mx_locked := True, mx_owner := tcb_tid nc\<rparr>), ready_list := Q'\<rparr> in
      thread_mutex_unlock E (Some m) s = Inr (1, s') \<and>
      sched_ok E s' (v\<lparr>v_waits := (v_waits v)(m := ws), v_ready := v_ready v @ [n]\<rparr>)"
proof -
  have q: "qrep (mx_q mx) (n # ws)" using sched_mutex [OF ok m(1)] m(2) w by auto
  then obtain Q where Q: "pop_mutex m s = Inr (Some n, s\<lparr>mutex_mem := (mutex_mem s)(m \<mapsto> mx\<lparr>mx_q := Q\<rparr>)\<rparr>)" "qrep Q ws"
    using pop_mutex_rep [OF m(2)] by blast
  let ?s1 = "s\<lparr>tcbs := (tcbs s)(n \<mapsto> nc\<lparr>tcb_status := WORKING\<rparr>),
        mutex_mem := (mutex_mem s)(m \<mapsto> mx\<lparr>mx_q := Q, mx_locked := True, mx_owner := tcb_tid nc\<rparr>)\<rparr>"
  obtain Q' where Q': "push_ready n ?s1 = Inr (?s1\<lparr>ready_list := Q'\<rparr>)" "qrep Q' (v_ready v @ [n])"
    using push_ready_rep [of ?s1 "v_ready v" n] sched_parts(1) [OF ok] by (auto simp: queues_ok_def)
  let ?s = "?s1\<lparr>ready_list := Q'\<rparr>"
  let ?v1 = "v\<lparr>v_waits := (v_waits v)(m := ws)\<rparr>"
  let ?v = "?v1\<lparr>v_ready := v_ready v @ [n]\<rparr>"
  have u: "thread_mutex_unlock E (Some m) s = Inr (1, ?s)"
    using Q(1) Q'(1) sched_ready [OF ok] t m w
    by (simp add: thread_mutex_unlock_def thread_self_def get_cell_def set_mutex_def set_status_def)
  have nw: "n \<in> set (waiting (infos s) v)" using mutex_waiting_mem [OF m(1)] w by simp
  have n: "stat (tcbs s) n = Some WAITING" by (rule waiting_in_places(2) [OF ok nw])
  have nt: "n \<noteq> t" using n t by (auto simp: stat_def)
  note p = set_waiting_pop_mutex [OF ok m(1) w(1)]
  have wv: "waiting nf ?v = waiting nf ?v1" "all_infos ?v = all_infos v" for nf
    by (simp_all add: waiting_def mutex_waiting_def all_infos_def)
  have "sched_ok E ?s ?v"
  proof (rule sched_move [OF ok w(2), of WORKING])
    show "queues_ok ?s ?v" using sched_parts(1) [OF ok] m(1) Q(2) Q'(2) by (simp add: queues_ok_def subset_insertI2)
    show "mset (places ?s ?v) = mset (places s v)"
      using t nt n p(1) by (simp add: places_def wv running_def stat_def)
    show "status_ok ?s ?v"
    proof (rule status_okI [OF sched_parts(2) [OF ok]])
      fix x assume "x \<in> set (waiting (infos ?s) ?v)"
      then have x: "x \<in> set (waiting (infos s) ?v1)" by (simp add: wv)
      then have "x \<in> set (waiting (infos s) v)" using p(1) by (metis set_mset_add_mset_insert set_mset_mset insertCI)
      then show "stat (tcbs ?s) x = Some WAITING" using x p(2) waiting_in_places(2) [OF ok] by auto
    next
      fix x assume "x \<in> set (v_done ?v)"
      then have "stat (tcbs s) x = Some DONE" using sched_parts(2) [OF ok] by (simp add: status_ok_def)
      then show "stat (tcbs ?s) x = Some DONE" using n by auto
    qed (use sched_parts(2) [OF ok] w in \<open>auto simp: status_ok_def\<close>)
    show "mutexes_ok ?s ?v" using sched_parts(3) [OF ok] m by (simp add: mutexes_ok_def wv)
  qed (use infos_bound [OF ok] in \<open>simp_all\<close>)
  then show ?thesis using u by (intro exI [of _ Q] exI [of _ Q']) (simp add: Let_def)
qed

section \<open>Lock and initialisation\<close>

lemma lock_free:
  assumes ok: "sched_ok E s v" and t: "current_thread s = Some t" "tcbs s t = Some c"
    and m: "m \<in> set (v_mutexes v)" "mutex_mem s m = Some mx" "\<not> mx_locked mx"
  shows "thread_mutex_lock E (Some m) s = Inr (1, s\<lparr>mutex_mem := (mutex_mem s)(m \<mapsto> mx\<lparr>mx_locked := True, mx_owner := tcb_tid c\<rparr>)\<rparr>) \<and>
    sched_ok E (s\<lparr>mutex_mem := (mutex_mem s)(m \<mapsto> mx\<lparr>mx_locked := True, mx_owner := tcb_tid c\<rparr>)\<rparr>) v"
proof -
  let ?s = "s\<lparr>mutex_mem := (mutex_mem s)(m \<mapsto> mx\<lparr>mx_locked := True, mx_owner := tcb_tid c\<rparr>)\<rparr>"
  have u: "thread_mutex_lock E (Some m) s = Inr (1, ?s)"
    using sched_ready [OF ok] t m
    by (simp add: thread_mutex_lock_def thread_self_def get_cell_def set_mutex_def)
  have "sched_ok E ?s v"
  proof (rule sched_queues [OF ok])
    show "queues_ok ?s v" using sched_parts(1) [OF ok] m(2) by (auto simp: queues_ok_def)
    show "mset (places ?s v) = mset (places s v)" by (simp add: places_def)
    show "status_ok ?s v" using sched_parts(2) [OF ok] by (simp add: status_ok_def)
    show "mutexes_ok ?s v" using sched_parts(3) [OF ok] by (simp add: mutexes_ok_def)
  qed (use infos_bound [OF ok] in simp_all)
  then show ?thesis using u by blast
qed

lemma sched_cond:
  assumes "sched_ok E s v" "c \<in> set (v_conds v)"
  obtains cv where "cond_mem s c = Some cv" "qrep (cv_q cv) (v_infos v c)"
  using sched_parts(1) [OF assms(1)] assms(2) by (fastforce simp: queues_ok_def)

lemma concat_map_fresh: "m \<notin> set ms \<Longrightarrow> concat (map (f(m := xs)) (ms @ [m])) = concat (map f ms) @ xs"
  by (induction ms) auto

lemma fresh_queue: "qrep (fst (init_queue True)) []"
  by (auto simp: qrep_def init_queue_def queue_rep_def queue_items_def)

lemma push_queue_rep:
  assumes "qrep P xs"
  obtains q q' where "P = Some q" "queue_push q a = Inr q'" "qrep (Some q') (xs @ [a])"
  using assms lq.push_rep unfolding qrep_def by blast

lemma mutex_init_ok:
  assumes ok: "sched_ok E s v" and E: "e_ok E" and m: "mutex_mem s m = Some mx" "mx_q mx = None"
  shows "\<exists>Q Q'. let s' = s\<lparr>mutex_mem := (mutex_mem s)(m \<mapsto> mx\<lparr>mx_locked := False, mx_owner := -1, mx_q := Q\<rparr>),
        mutexes := Q'\<rparr> in
      thread_mutex_init E (Some m) s = Inr (1, s') \<and>
      sched_ok E s' (v\<lparr>v_mutexes := v_mutexes v @ [m], v_waits := (v_waits v)(m := [])\<rparr>)"
proof -
  let ?Q = "fst (init_queue True)"
  obtain q q' where q: "mutexes s = Some q" "queue_push q m = Inr q'" "qrep (Some q') (v_mutexes v @ [m])"
    using push_queue_rep [of "mutexes s" "v_mutexes v" m] sched_parts(1) [OF ok] by (auto simp: queues_ok_def)
  let ?s = "s\<lparr>mutex_mem := (mutex_mem s)(m \<mapsto> mx\<lparr>mx_locked := False, mx_owner := -1, mx_q := ?Q\<rparr>), mutexes := Some q'\<rparr>"
  let ?v = "v\<lparr>v_mutexes := v_mutexes v @ [m], v_waits := (v_waits v)(m := [])\<rparr>"
  have u: "thread_mutex_init E (Some m) s = Inr (1, ?s)"
    using sched_ready [OF ok] E m(1) q(1,2)
    by (simp add: thread_mutex_init_def get_cell_def need_def init_queue_def Let_def)
  have n: "m \<notin> set (v_mutexes v)"
  proof
    assume "m \<in> set (v_mutexes v)"
    then show False by (rule sched_mutex [OF ok]) (use m in \<open>simp add: qrep_def\<close>)
  qed
  then have w: "waiting nf ?v = waiting nf v" "all_infos ?v = all_infos v" for nf
    by (simp_all del: fun_upd_apply add: waiting_def mutex_waiting_def all_infos_def concat_map_fresh fun_upd_same)
  have "sched_ok E ?s ?v"
  proof (rule sched_queues [OF ok])
    show "queues_ok ?s ?v" using sched_parts(1) [OF ok] m q(3) n fresh_queue
      by (simp add: queues_ok_def subset_insertI2)
    show "mset (places ?s ?v) = mset (places s v)" by (simp add: places_def w)
    show "status_ok ?s ?v" using sched_parts(2) [OF ok] by (simp add: status_ok_def w)
    show "mutexes_ok ?s ?v" using sched_parts(3) [OF ok] unfolding mutexes_ok_def w by auto
  qed (use infos_bound [OF ok] in simp_all)
  then show ?thesis using u by (intro exI [of _ ?Q] exI [of _ "Some q'"]) (simp add: Let_def)
qed

lemma cond_init_ok:
  assumes ok: "sched_ok E s v" and E: "e_ok E" and c: "cond_mem s c = Some cv" "cv_q cv = None"
  shows "\<exists>Q Q'. let s' = s\<lparr>cond_mem := (cond_mem s)(c \<mapsto> cv\<lparr>cv_q := Q\<rparr>), conds := Q'\<rparr> in
      thread_cond_init E (Some c) s = Inr (1, s') \<and>
      sched_ok E s' (v\<lparr>v_conds := v_conds v @ [c], v_infos := (v_infos v)(c := [])\<rparr>)"
proof -
  let ?Q = "fst (init_queue True)"
  obtain q q' where q: "conds s = Some q" "queue_push q c = Inr q'" "qrep (Some q') (v_conds v @ [c])"
    using push_queue_rep [of "conds s" "v_conds v" c] sched_parts(1) [OF ok] by (auto simp: queues_ok_def)
  let ?s = "s\<lparr>cond_mem := (cond_mem s)(c \<mapsto> cv\<lparr>cv_q := ?Q\<rparr>), conds := Some q'\<rparr>"
  let ?v = "v\<lparr>v_conds := v_conds v @ [c], v_infos := (v_infos v)(c := [])\<rparr>"
  have u: "thread_cond_init E (Some c) s = Inr (1, ?s)"
    using sched_ready [OF ok] E c(1) q(1,2)
    by (simp add: thread_cond_init_def get_cell_def need_def init_queue_def Let_def)
  have n: "c \<notin> set (v_conds v)"
  proof
    assume "c \<in> set (v_conds v)"
    then show False by (rule sched_cond [OF ok]) (use c in \<open>simp add: qrep_def\<close>)
  qed
  then have w: "all_infos ?v = all_infos v"
    by (simp del: fun_upd_apply add: all_infos_def concat_map_fresh fun_upd_same)
  have w': "waiting nf ?v = waiting nf v" for nf by (simp add: waiting_def mutex_waiting_def w)
  have "sched_ok E ?s ?v"
  proof (rule sched_queues [OF ok])
    show "queues_ok ?s ?v" using sched_parts(1) [OF ok] c q(3) n fresh_queue
      by (simp add: queues_ok_def subset_insertI2)
    show "mset (places ?s ?v) = mset (places s v)" by (simp add: places_def w')
    show "status_ok ?s ?v" using sched_parts(2) [OF ok] by (simp add: status_ok_def w')
    show "mutexes_ok ?s ?v" using sched_parts(3) [OF ok] by (simp add: mutexes_ok_def w)
  qed (use infos_bound [OF ok] in simp_all)
  then show ?thesis using u by (intro exI [of _ ?Q] exI [of _ "Some q'"]) (simp add: Let_def)
qed

section \<open>Condition variables\<close>

lemma waiting_upd_cond:
  assumes "distinct (v_conds v)" "c \<in> set (v_conds v)"
  shows "mset (waiting nf (v\<lparr>v_infos := (v_infos v)(c := xs)\<rparr>)) + mset (map (info_thread nf) (v_infos v c)) =
      mset (waiting nf v) + mset (map (info_thread nf) xs)"
    and "mset (all_infos (v\<lparr>v_infos := (v_infos v)(c := xs)\<rparr>)) + mset (v_infos v c) = mset (all_infos v) + mset xs"
proof -
  show a: "mset (all_infos (v\<lparr>v_infos := (v_infos v)(c := xs)\<rparr>)) + mset (v_infos v c) = mset (all_infos v) + mset xs"
    using mset_concat_upd [OF assms, of "v_infos v" xs] by (simp add: all_infos_def)
  have "image_mset (info_thread nf) (mset (all_infos (v\<lparr>v_infos := (v_infos v)(c := xs)\<rparr>)) + mset (v_infos v c)) =
      image_mset (info_thread nf) (mset (all_infos v) + mset xs)" by (simp only: a)
  then show "mset (waiting nf (v\<lparr>v_infos := (v_infos v)(c := xs)\<rparr>)) + mset (map (info_thread nf) (v_infos v c)) =
      mset (waiting nf v) + mset (map (info_thread nf) xs)"
    by (simp add: waiting_def mutex_waiting_def ac_simps)
qed

lemma waiting_cong_infos:
  "(\<And>i. i \<in> set (all_infos v) \<Longrightarrow> nf i = nf' i) \<Longrightarrow> waiting nf v = waiting nf' v"
  by (simp add: waiting_def info_thread_def)

lemma block_cond:
  assumes ok: "sched_ok E s v" and t: "current_thread s = Some t" "tcbs s t = Some k" "tcb_status k = WORKING"
    and m: "m \<in> set (v_mutexes v)" and c: "c \<in> set (v_conds v)"
  shows "\<exists>cv Q. let s1 = s\<lparr>tcbs := (tcbs s)(t \<mapsto> k\<lparr>tcb_status := WAITING\<rparr>),
        infos := (infos s)(hbrk s \<mapsto> \<lparr>ci_thread = t, ci_mutex = m\<rparr>), hbrk := Suc (hbrk s)\<rparr>;
        s' = s1\<lparr>cond_mem := (cond_mem s)(c \<mapsto> cv\<lparr>cv_q := Q\<rparr>)\<rparr> in
      push_cond c (hbrk s) s1 = Inr s' \<and>
      sched_ok E s' (v\<lparr>v_infos := (v_infos v)(c := v_infos v c @ [hbrk s])\<rparr>)"
proof -
  have q: "queues_ok s v" by (rule sched_parts(1) [OF ok])
  obtain cv where cv: "cond_mem s c = Some cv" "qrep (cv_q cv) (v_infos v c)"
    by (rule sched_cond [OF ok c])
  let ?i = "hbrk s"
  let ?nf = "(infos s)(?i \<mapsto> \<lparr>ci_thread = t, ci_mutex = m\<rparr>)"
  let ?s1 = "s\<lparr>tcbs := (tcbs s)(t \<mapsto> k\<lparr>tcb_status := WAITING\<rparr>), infos := ?nf, hbrk := Suc ?i\<rparr>"
  obtain Q where Q: "push_cond c ?i ?s1 = Inr (?s1\<lparr>cond_mem := (cond_mem s)(c \<mapsto> cv\<lparr>cv_q := Q\<rparr>)\<rparr>)"
      "qrep Q (v_infos v c @ [?i])"
    using push_cond_rep [of ?s1 c cv "v_infos v c" ?i] cv by auto
  let ?s = "?s1\<lparr>cond_mem := (cond_mem s)(c \<mapsto> cv\<lparr>cv_q := Q\<rparr>)\<rparr>"
  let ?v = "v\<lparr>v_infos := (v_infos v)(c := v_infos v c @ [?i])\<rparr>"
  have st: "stat (tcbs s) t = Some WORKING" using t by (simp add: stat_def)
  note r = running_current [OF ok t(1) st]
  have d: "distinct (v_conds v)" using q by (simp add: queues_ok_def)
  have "set (all_infos v) \<subseteq> dom (infos s)" using sched_parts(3) [OF ok] by (auto simp: mutexes_ok_def)
  then have fr: "?i \<notin> set (all_infos v)" using infos_bound [OF ok] by blast
  have "waiting ?nf v = waiting (infos s) v" by (rule waiting_cong_infos) (use fr in auto)
  then have w: "mset (waiting ?nf ?v) = add_mset t (mset (waiting (infos s) v))"
    using waiting_upd_cond(1) [OF d c, of ?nf "v_infos v c @ [?i]"] by (simp add: info_thread_def)
  have ai: "mset (all_infos ?v) = add_mset ?i (mset (all_infos v))"
    using waiting_upd_cond(2) [OF d c, of "v_infos v c @ [?i]"] by simp
  have "sched_ok E ?s ?v"
  proof (rule sched_move [OF ok t(2), of WAITING])
    show "queues_ok ?s ?v" using q Q(2) c cv by (simp add: queues_ok_def subset_insertI2)
    show "mset (places ?s ?v) = mset (places s v)"
      unfolding r(1) using t(1) w by (simp add: places_def running_simps)
    show "status_ok ?s ?v"
    proof (rule status_okI [OF sched_parts(2) [OF ok]])
      fix x assume "x \<in> set (waiting (infos ?s) ?v)"
      then have "x = t \<or> x \<in> set (waiting (infos s) v)"
        using arg_cong [OF w, of set_mset] by simp
      then show "stat (tcbs ?s) x = Some WAITING" using waiting_in_places(2) [OF ok] by auto
    qed (use sched_parts(2) [OF ok] r t(2) in \<open>auto simp: status_ok_def\<close>)
    show "mutexes_ok ?s ?v"
      using sched_parts(3) [OF ok] arg_cong [OF ai, of set_mset] fr m by (auto simp: mutexes_ok_def)
  qed (use infos_bound [OF ok] in \<open>auto simp: less_Suc_eq\<close>)
  then show ?thesis using Q(1) by (intro exI [of _ cv] exI [of _ Q]) (simp add: Let_def)
qed

text \<open>Signal: the first waiter gets the mutex, or queues for it.\<close>

lemma pop_cond_facts:
  assumes ok: "sched_ok E s v" and c: "c \<in> set (v_conds v)" "v_infos v c = i # is"
  shows "infos s i \<noteq> None" "ci_mutex (the (infos s i)) \<in> set (v_mutexes v)"
    "mset (waiting (infos s) v) = add_mset (info_thread (infos s) i) (mset (waiting (infos s) (v\<lparr>v_infos := (v_infos v)(c := is)\<rparr>)))"
    "mset (all_infos v) = add_mset i (mset (all_infos (v\<lparr>v_infos := (v_infos v)(c := is)\<rparr>)))"
    "info_thread (infos s) i \<in> set (waiting (infos s) v)"
    "info_thread (infos s) i \<notin> set (waiting (infos s) (v\<lparr>v_infos := (v_infos v)(c := is)\<rparr>))"
proof -
  have d: "distinct (v_conds v)" using sched_parts(1) [OF ok] by (simp add: queues_ok_def)
  have i: "i \<in> set (all_infos v)" using c by (force simp: all_infos_def)
  then show "infos s i \<noteq> None" "ci_mutex (the (infos s i)) \<in> set (v_mutexes v)"
    using sched_parts(3) [OF ok] by (auto simp: mutexes_ok_def)
  show m: "mset (waiting (infos s) v) = add_mset (info_thread (infos s) i) (mset (waiting (infos s) (v\<lparr>v_infos := (v_infos v)(c := is)\<rparr>)))"
    "mset (all_infos v) = add_mset i (mset (all_infos (v\<lparr>v_infos := (v_infos v)(c := is)\<rparr>)))"
    using waiting_upd_cond [OF d c(1), where xs = "is"] by (simp_all add: c(2))
  show "info_thread (infos s) i \<in> set (waiting (infos s) v)" using i by (simp add: waiting_def)
  have "distinct (waiting (infos s) v)" using places_distinct [OF ok] by (simp add: places_def)
  then have "distinct (info_thread (infos s) i # waiting (infos s) (v\<lparr>v_infos := (v_infos v)(c := is)\<rparr>))"
    by (rule mset_eq_imp_distinct_iff [THEN iffD1, rotated]) (simp add: m)
  then show "info_thread (infos s) i \<notin> set (waiting (infos s) (v\<lparr>v_infos := (v_infos v)(c := is)\<rparr>))" by simp
qed

lemma signal_empty:
  assumes ok: "sched_ok E s v" and c: "c \<in> set (v_conds v)" "v_infos v c = []"
  shows "thread_cond_signal (Some c) s = Inr (1, s)"
proof -
  obtain cv where "cond_mem s c = Some cv" "qrep (cv_q cv) []" by (rule sched_cond [OF ok c(1)]) (simp add: c(2))
  then show ?thesis by (simp add: thread_cond_signal_def pop_cond_empty)
qed

lemma signal_wake:
  assumes ok: "sched_ok E s v" and t: "current_thread s = Some t" "stat (tcbs s) t = Some WORKING"
    and c: "c \<in> set (v_conds v)" "v_infos v c = i # is" "infos s i = Some ci" "tcbs s (ci_thread ci) = Some nc"
    and m: "mutex_mem s (ci_mutex ci) = Some mx" "\<not> mx_locked mx"
  shows "\<exists>cv Q Q'. let s' = s\<lparr>cond_mem := (cond_mem s)(c \<mapsto> cv\<lparr>cv_q := Q\<rparr>),
        mutex_mem := (mutex_mem s)(ci_mutex ci \<mapsto> mx\<lparr>mx_locked := True, mx_owner := tcb_tid nc\<rparr>),
        tcbs := (tcbs s)(ci_thread ci \<mapsto> nc\<lparr>tcb_status := WORKING\<rparr>), ready_list := Q'\<rparr> in
      thread_cond_signal (Some c) s = Inr (1, s') \<and>
      sched_ok E s' (v\<lparr>v_infos := (v_infos v)(c := is), v_ready := v_ready v @ [ci_thread ci]\<rparr>)"
proof -
  let ?n = "ci_thread ci"
  obtain cv where cv: "cond_mem s c = Some cv" "qrep (cv_q cv) (i # is)"
    by (rule sched_cond [OF ok c(1)]) (simp add: c(2))
  obtain Q where Q: "pop_cond c s = Inr (Some i, s\<lparr>cond_mem := (cond_mem s)(c \<mapsto> cv\<lparr>cv_q := Q\<rparr>)\<rparr>)" "qrep Q is"
    using pop_cond_rep [OF cv] by blast
  let ?s1 = "s\<lparr>cond_mem := (cond_mem s)(c \<mapsto> cv\<lparr>cv_q := Q\<rparr>),
        mutex_mem := (mutex_mem s)(ci_mutex ci \<mapsto> mx\<lparr>mx_locked := True, mx_owner := tcb_tid nc\<rparr>),
        tcbs := (tcbs s)(?n \<mapsto> nc\<lparr>tcb_status := WORKING\<rparr>)\<rparr>"
  obtain Q' where Q': "push_ready ?n ?s1 = Inr (?s1\<lparr>ready_list := Q'\<rparr>)" "qrep Q' (v_ready v @ [?n])"
    using push_ready_rep [of ?s1 "v_ready v" ?n] sched_parts(1) [OF ok] by (auto simp: queues_ok_def)
  let ?s = "?s1\<lparr>ready_list := Q'\<rparr>"
  let ?v1 = "v\<lparr>v_infos := (v_infos v)(c := is)\<rparr>"
  let ?v = "?v1\<lparr>v_ready := v_ready v @ [?n]\<rparr>"
  have u: "thread_cond_signal (Some c) s = Inr (1, ?s)"
    using Q(1) Q'(1) c m
    by (simp add: thread_cond_signal_def get_cell_def set_mutex_def set_status_def Let_def)
  note p = pop_cond_facts [OF ok c(1,2)]
  have it: "info_thread (infos s) i = ?n" using c(3) by (simp add: info_thread_def)
  have n: "stat (tcbs s) ?n = Some WAITING" using waiting_in_places(2) [OF ok p(5)] by (simp add: it)
  have nt: "?n \<noteq> t" using n t by auto
  have wv: "waiting nf ?v = waiting nf ?v1" "all_infos ?v = all_infos ?v1" for nf
    by (simp_all add: waiting_def mutex_waiting_def all_infos_def)
  have "sched_ok E ?s ?v"
  proof (rule sched_move [OF ok c(4), of WORKING])
    show "queues_ok ?s ?v" using sched_parts(1) [OF ok] c(1) m(1) cv Q(2) Q'(2)
      by (simp add: queues_ok_def subset_insertI2)
    show "mset (places ?s ?v) = mset (places s v)"
      using t nt n p(3) it by (simp add: places_def wv running_def)
    show "status_ok ?s ?v"
    proof (rule status_okI [OF sched_parts(2) [OF ok]])
      fix x assume "x \<in> set (waiting (infos ?s) ?v)"
      then have x: "x \<in> set (waiting (infos s) ?v1)" by (simp add: wv)
      then have "x \<in> set (waiting (infos s) v)" using arg_cong [OF p(3), of set_mset] by simp
      then show "stat (tcbs ?s) x = Some WAITING" using x p(6) it waiting_in_places(2) [OF ok] by auto
    next
      fix x assume "x \<in> set (v_done ?v)"
      then have "stat (tcbs s) x = Some DONE" using sched_parts(2) [OF ok] by (simp add: status_ok_def)
      then show "stat (tcbs ?s) x = Some DONE" using n by auto
    qed (use sched_parts(2) [OF ok] c(4) in \<open>auto simp: status_ok_def\<close>)
    show "mutexes_ok ?s ?v" using sched_parts(3) [OF ok] arg_cong [OF p(4), of set_mset]
      by (simp add: mutexes_ok_def wv)
  qed (use infos_bound [OF ok] in simp_all)
  then show ?thesis using u by (intro exI [of _ cv] exI [of _ Q] exI [of _ Q']) (simp add: Let_def)
qed

lemma signal_queue:
  assumes ok: "sched_ok E s v" and t: "current_thread s = Some t" "stat (tcbs s) t = Some WORKING"
    and c: "c \<in> set (v_conds v)" "v_infos v c = i # is" "infos s i = Some ci"
    and m: "mutex_mem s (ci_mutex ci) = Some mx" "mx_locked mx"
  shows "\<exists>cv Q Q'. let s' = s\<lparr>cond_mem := (cond_mem s)(c \<mapsto> cv\<lparr>cv_q := Q\<rparr>),
        mutex_mem := (mutex_mem s)(ci_mutex ci \<mapsto> mx\<lparr>mx_q := Q'\<rparr>)\<rparr> in
      thread_cond_signal (Some c) s = Inr (1, s') \<and>
      sched_ok E s' (v\<lparr>v_infos := (v_infos v)(c := is),
        v_waits := (v_waits v)(ci_mutex ci := v_waits v (ci_mutex ci) @ [ci_thread ci])\<rparr>)"
proof -
  let ?n = "ci_thread ci" and ?m = "ci_mutex ci"
  obtain cv where cv: "cond_mem s c = Some cv" "qrep (cv_q cv) (i # is)"
    by (rule sched_cond [OF ok c(1)]) (simp add: c(2))
  obtain Q where Q: "pop_cond c s = Inr (Some i, s\<lparr>cond_mem := (cond_mem s)(c \<mapsto> cv\<lparr>cv_q := Q\<rparr>)\<rparr>)" "qrep Q is"
    using pop_cond_rep [OF cv] by blast
  note p = pop_cond_facts [OF ok c(1,2)]
  have ms: "?m \<in> set (v_mutexes v)" using p(2) c(3) by simp
  have mq: "qrep (mx_q mx) (v_waits v ?m)" by (rule sched_mutex [OF ok ms]) (use m in simp)
  let ?s1 = "s\<lparr>cond_mem := (cond_mem s)(c \<mapsto> cv\<lparr>cv_q := Q\<rparr>)\<rparr>"
  obtain Q' where Q': "push_mutex ?m ?n ?s1 = Inr (?s1\<lparr>mutex_mem := (mutex_mem s)(?m \<mapsto> mx\<lparr>mx_q := Q'\<rparr>)\<rparr>)"
      "qrep Q' (v_waits v ?m @ [?n])"
    using push_mutex_rep [of ?s1 ?m mx] m(1) mq by auto
  let ?s = "?s1\<lparr>mutex_mem := (mutex_mem s)(?m \<mapsto> mx\<lparr>mx_q := Q'\<rparr>)\<rparr>"
  let ?v1 = "v\<lparr>v_infos := (v_infos v)(c := is)\<rparr>"
  let ?v = "?v1\<lparr>v_waits := (v_waits v)(?m := v_waits v ?m @ [?n])\<rparr>"
  have u: "thread_cond_signal (Some c) s = Inr (1, ?s)"
    using Q(1) Q'(1) c m by (simp add: thread_cond_signal_def get_cell_def Let_def)
  have it: "info_thread (infos s) i = ?n" using c(3) by (simp add: info_thread_def)
  have d: "distinct (v_mutexes ?v1)" using sched_parts(1) [OF ok] by (simp add: queues_ok_def)
  have w: "mset (waiting (infos s) ?v) = mset (waiting (infos s) v)"
    using waiting_upd_mutex [OF d, of ?m "infos s" "v_waits v ?m @ [?n]"] ms p(3) it by simp
  have ai: "all_infos ?v = all_infos ?v1" by (simp add: all_infos_def)
  have "sched_ok E ?s ?v"
  proof (rule sched_queues [OF ok])
    show "queues_ok ?s ?v" using sched_parts(1) [OF ok] c(1) m(1) ms cv Q(2) Q'(2)
      by (simp add: queues_ok_def subset_insertI2)
    show "mset (places ?s ?v) = mset (places s v)"
      using w by (simp add: places_def running_def)
    show "status_ok ?s ?v"
      using sched_parts(2) [OF ok] arg_cong [OF w, of set_mset] by (simp add: status_ok_def)
    show "mutexes_ok ?s ?v" using sched_parts(3) [OF ok] arg_cong [OF p(4), of set_mset] m
      by (simp add: mutexes_ok_def ai)
  qed (use infos_bound [OF ok] in simp_all)
  then show ?thesis using u by (intro exI [of _ cv] exI [of _ Q] exI [of _ Q']) (simp add: Let_def)
qed

end
