(* ===== verification/Thread_Deadlock.thy ===== *)
theory Thread_Deadlock
  imports Thread_Sched
begin

text \<open>
  \<open>detect_deadlock\<close> of A3/thread.c: the two pointers find a cycle of observers exactly when joining
  would close one.  With it, what a join that waits does to the view.
\<close>

section \<open>Deadlock detection\<close>

text \<open>The observers from a thread on, as a list that ends with a thread nobody waits for.\<close>

definition obs :: "threads \<Rightarrow> nat \<Rightarrow> nat option" where
  "obs s a = tcb_observer (the (tcbs s a))"

definition opath :: "(nat \<Rightarrow> nat option) \<Rightarrow> nat list \<Rightarrow> bool" where
  "opath f xs \<longleftrightarrow> xs \<noteq> [] \<and> f (last xs) = None \<and> (\<forall>i. Suc i < length xs \<longrightarrow> f (xs ! i) = Some (xs ! Suc i))"

lemma opath_single: "f a = None \<Longrightarrow> opath f [a]"
  by (simp add: opath_def)

lemma opath_Cons: "opath f (b # xs) \<Longrightarrow> f a = Some b \<Longrightarrow> opath f (a # b # xs)"
  by (auto simp: opath_def nth_Cons split: nat.splits)

lemma opath_exists:
  assumes "finite r" "acyclic r" "\<And>a b. f a = Some b \<Longrightarrow> (a, b) \<in> r"
  shows "\<exists>xs. opath f (a # xs)"
proof -
  have "wf (r\<inverse>)" using assms(1,2) by (rule finite_acyclic_wf_converse)
  then show ?thesis
  proof (induction a rule: wf_induct_rule)
    case (less a)
    show ?case
    proof (cases "f a")
      case None
      then show ?thesis using opath_single by blast
    next
      case (Some b)
      then show ?thesis using less [of b] assms(3) opath_Cons by blast
    qed
  qed
qed

lemma opath_reach:
  assumes "opath f xs" "\<And>a b. f a = Some b \<longleftrightarrow> (a, b) \<in> r" "i \<le> j" "j < length xs"
  shows "(xs ! i, xs ! j) \<in> r\<^sup>*"
  using assms(3,4)
proof (induction j rule: dec_induct)
  case (step n)
  have "(xs ! n, xs ! Suc n) \<in> r" using assms(1,2) step.prems by (simp add: opath_def)
  then show ?case using step by (meson Suc_lessD rtrancl.rtrancl_into_rtrancl)
qed simp

lemma opath_distinct:
  assumes "opath f xs" "acyclic r" "\<And>a b. f a = Some b \<longleftrightarrow> (a, b) \<in> r"
  shows "distinct xs"
  unfolding distinct_conv_nth
proof (intro allI impI notI)
  fix i j assume i: "i < length xs" "j < length xs" "i \<noteq> j" "xs ! i = xs ! j"
  have g: False if "i < j" "j < length xs" "xs ! i = xs ! j" for i j
  proof -
    have "Suc i < length xs" using that by simp
    then have "(xs ! i, xs ! Suc i) \<in> r" using assms(1,3) by (simp add: opath_def)
    moreover have "(xs ! Suc i, xs ! j) \<in> r\<^sup>*" by (rule opath_reach [OF assms(1,3)]) (use that in auto)
    ultimately have "(xs ! i, xs ! i) \<in> r\<^sup>+" using that(3) by (metis rtrancl_into_trancl2)
    then show False using assms(2) by (auto simp: acyclic_def)
  qed
  show False using i g [of i j] g [of j i] by (cases i j rule: linorder_cases) auto
qed

lemma opath_covers:
  assumes p: "opath f xs" and r: "\<And>a b. f a = Some b \<longleftrightarrow> (a, b) \<in> r"
  shows "(xs ! 0, b) \<in> r\<^sup>* \<longleftrightarrow> b \<in> set xs"
proof
  assume "(xs ! 0, b) \<in> r\<^sup>*"
  then show "b \<in> set xs"
  proof (induction rule: rtrancl_induct)
    case base
    then show ?case using p by (simp add: opath_def)
  next
    case (step y z)
    then obtain i where i: "i < length xs" "xs ! i = y" by (meson in_set_conv_nth)
    have fy: "f y = Some z" using step(2) r by simp
    have "Suc i < length xs"
    proof (rule ccontr)
      assume "\<not> Suc i < length xs"
      then have "y = last xs" using i p by (metis Suc_lessI last_conv_nth diff_Suc_1 opath_def)
      then show False using fy p by (simp add: opath_def)
    qed
    then show ?case using fy i(2) p by (force simp: opath_def)
  qed
next
  assume "b \<in> set xs"
  then obtain j where "j < length xs" "xs ! j = b" by (meson in_set_conv_nth)
  then show "(xs ! 0, b) \<in> r\<^sup>*" using opath_reach [OF p r, of 0 j] by simp
qed

text \<open>On a path that ends, the loop ends with 0.\<close>

lemma deadlock_loop_path:
  assumes "opath (obs s) xs" "distinct xs" "set xs \<subseteq> dom (tcbs s)"
    "\<And>a b ca cb. tcbs s a = Some ca \<Longrightarrow> tcbs s b = Some cb \<Longrightarrow> tcb_tid ca = tcb_tid cb \<Longrightarrow> a = b"
  shows "i < length xs \<Longrightarrow> length xs - i < fuel \<Longrightarrow>
    deadlock_loop fuel s (Some (xs ! i)) (if 2 * i < length xs then Some (xs ! (2 * i)) else None) = Inr 0"
proof (induction fuel arbitrary: i)
  case (Suc fuel)
  have cell: "\<exists>c. tcbs s (xs ! j) = Some c \<and>
      tcb_observer c = (if Suc j < length xs then Some (xs ! Suc j) else None)" if "j < length xs" for j
  proof -
    obtain c where c: "tcbs s (xs ! j) = Some c" using assms(3) nth_mem [OF \<open>j < length xs\<close>] by blast
    have "obs s (xs ! j) = (if Suc j < length xs then Some (xs ! Suc j) else None)"
    proof (cases "Suc j < length xs")
      case False
      then have "xs ! j = last xs" using that assms(1) by (metis Suc_lessI last_conv_nth diff_Suc_1 opath_def)
      then show ?thesis using False assms(1) by (simp add: opath_def)
    qed (use assms(1) in \<open>simp add: opath_def\<close>)
    then show ?thesis using c by (simp add: obs_def)
  qed
  show ?case
  proof (cases "Suc (2 * i) < length xs")
    case False
    then show ?thesis
      using cell [of "2 * i"] by (cases "2 * i < length xs") auto
  next
    case True
    obtain sc fc foc where c: "tcbs s (xs ! i) = Some sc" "tcb_observer sc = Some (xs ! Suc i)"
        "tcbs s (xs ! (2 * i)) = Some fc" "tcb_observer fc = Some (xs ! Suc (2 * i))"
        "tcbs s (xs ! Suc (2 * i)) = Some foc"
        "tcb_observer foc = (if Suc (Suc (2 * i)) < length xs then Some (xs ! Suc (Suc (2 * i))) else None)"
      using cell [of i] cell [of "2 * i"] cell [of "Suc (2 * i)"] True by auto
    have IH: "deadlock_loop fuel s (Some (xs ! Suc i))
        (if 2 * Suc i < length xs then Some (xs ! (2 * Suc i)) else None) = Inr 0"
      by (rule Suc.IH) (use True Suc.prems in auto)
    show ?thesis
    proof (cases "Suc (Suc (2 * i)) < length xs")
      case False
      then show ?thesis using c IH True by (simp add: Let_def)
    next
      case t: True
      obtain a b where ab: "tcbs s (xs ! Suc i) = Some a" "tcbs s (xs ! Suc (Suc (2 * i))) = Some b"
        using cell [of "Suc i"] cell [of "Suc (Suc (2 * i))"] t by auto
      have "xs ! Suc i \<noteq> xs ! Suc (Suc (2 * i))" using assms(2) t by (simp add: nth_eq_iff_index_eq)
      then have "tcb_tid a \<noteq> tcb_tid b" using assms(4) ab by blast
      then show ?thesis using c IH True t ab by (simp add: Let_def)
    qed
  qed
qed simp

text \<open>On a cycle it ends with 1, at the latest after one round of the slow pointer.\<close>

lemma deadlock_loop_cycle:
  assumes "xs \<noteq> []" "set xs \<subseteq> dom (tcbs s)" "\<And>i. i < length xs \<Longrightarrow> obs s (xs ! i) = Some (xs ! (Suc i mod length xs))"
  shows "i < length xs \<Longrightarrow> length xs - i \<le> fuel \<Longrightarrow>
    deadlock_loop fuel s (Some (xs ! (i mod length xs))) (Some (xs ! (2 * i mod length xs))) = Inr 1"
proof (induction fuel arbitrary: i)
  case (Suc fuel)
  let ?n = "length xs"
  have cell: "\<exists>c. tcbs s (xs ! (j mod ?n)) = Some c \<and> tcb_observer c = Some (xs ! (Suc j mod ?n))" for j
  proof -
    have j: "j mod ?n < ?n" using assms(1) by simp
    then obtain c where "tcbs s (xs ! (j mod ?n)) = Some c" using assms(2) nth_mem [OF j] by blast
    then show ?thesis using assms(3) [OF j] by (simp add: obs_def mod_Suc_eq)
  qed
  obtain sc fc foc where c: "tcbs s (xs ! (i mod ?n)) = Some sc" "tcb_observer sc = Some (xs ! (Suc i mod ?n))"
      "tcbs s (xs ! (2 * i mod ?n)) = Some fc" "tcb_observer fc = Some (xs ! (Suc (2 * i) mod ?n))"
      "tcbs s (xs ! (Suc (2 * i) mod ?n)) = Some foc"
      "tcb_observer foc = Some (xs ! (Suc (Suc (2 * i)) mod ?n))"
    using cell [of i] cell [of "2 * i"] cell [of "Suc (2 * i)"] by auto
  obtain a b where ab: "tcbs s (xs ! (Suc i mod ?n)) = Some a" "tcbs s (xs ! (Suc (Suc (2 * i)) mod ?n)) = Some b"
    using cell [of "Suc i"] cell [of "Suc (Suc (2 * i))"] by auto
  show ?case
  proof (cases "tcb_tid a = tcb_tid b")
    case True
    then show ?thesis using c ab by (simp add: Let_def)
  next
    case False
    have "Suc i \<noteq> ?n"
    proof
      assume n: "Suc i = ?n"
      then have "Suc (Suc (2 * i)) = 2 * ?n" by simp
      then have "Suc i mod ?n = Suc (Suc (2 * i)) mod ?n" unfolding \<open>Suc (Suc (2 * i)) = 2 * ?n\<close> using n by simp
      then show False using ab False by simp
    qed
    then have "Suc i < ?n" using Suc.prems by simp
    then have "deadlock_loop fuel s (Some (xs ! (Suc i mod ?n))) (Some (xs ! (2 * Suc i mod ?n))) = Inr 1"
      by (intro Suc.IH) (use Suc.prems in auto)
    then show ?thesis using c ab False by (simp add: Let_def)
  qed
qed simp

lemma sorted_id_inj:
  "sorted_wrt (\<lambda>e e'. e_id e > e_id e') xs \<Longrightarrow> e \<in> set xs \<Longrightarrow> e' \<in> set xs \<Longrightarrow> e_id e = e_id e' \<Longrightarrow> e = e'"
  by (induction xs) fastforce+

lemma tid_inj:
  assumes ok: "sched_ok E s v" and a: "tcbs s a = Some ca" "tcbs s b = Some cb" "tcb_tid ca = tcb_tid cb"
  shows "a = b"
proof -
  have t: "linked (tcbs s) (v_table v)" "sorted_wrt (\<lambda>e e'. e_id e > e_id e') (v_table v)"
      "dom (tcbs s) = e_tcb ` set (v_table v)"
    using ok by (auto simp: sched_ok_def table_rep_def heap_ok_def)
  obtain e e' where e: "e \<in> set (v_table v)" "e_tcb e = a" "e' \<in> set (v_table v)" "e_tcb e' = b"
    using t(3) a by (metis (no_types, lifting) domI imageE)
  obtain k k' where "tcbs s (e_tcb e) = Some k" "tcb_tid k = e_id e" "tcbs s (e_tcb e') = Some k'" "tcb_tid k' = e_id e'"
    using t(1) e(1,3) unfolding linked_def by meson
  then have "e_id e = e_id e'" using a e(2,4) by simp
  then have "e = e'" using sorted_id_inj [OF t(2) e(1,3)] by blast
  then show ?thesis using e by simp
qed

lemma joins_rel:
  assumes "joins_ok ts js"
  shows "map_of js a = Some b \<longleftrightarrow> (a, b) \<in> set js"
  using assms by (simp add: joins_ok_def map_of_eq_Some_iff)

lemma obs_joins: "sched_ok E s v \<Longrightarrow> a \<in> dom (tcbs s) \<Longrightarrow> obs s a = map_of (v_joins v) a"
  by (auto simp: sched_ok_def joins_ok_def obs_def)

lemma joins_in_dom:
  assumes "sched_ok E s v" "(a, b) \<in> set (v_joins v)"
  shows "a \<in> dom (tcbs s)" "b \<in> dom (tcbs s)" "b \<in> set (waiting (infos s) v)"
proof -
  show w: "b \<in> set (waiting (infos s) v)" using assms(2) by (force simp: waiting_def)
  show "b \<in> dom (tcbs s)" by (rule waiting_in_places(1) [OF assms(1) w])
  show "a \<in> dom (tcbs s)" using sched_parts(5) [OF assms(1)] assms(2) by (fastforce simp: joins_ok_def)
qed

definition join_state :: "threads \<Rightarrow> nat \<Rightarrow> nat \<Rightarrow> threads" where
  "join_state s t u = s\<lparr>tcbs := (tcbs s)(t \<mapsto> (the (tcbs s t))\<lparr>tcb_status := WAITING\<rparr>,
     u \<mapsto> (the (tcbs s u))\<lparr>tcb_observer := Some t\<rparr>)\<rparr>"

lemma dom_bound: "sched_ok E s v \<Longrightarrow> dom (tcbs s) \<subseteq> {..<hbrk s}"
  by (auto simp: sched_ok_def heap_ok_def)

lemma detect_spec:
  assumes ok: "sched_ok E s v" and t: "current_thread s = Some t" "t \<in> dom (tcbs s)"
    and u: "u \<in> dom (tcbs s)" "u \<noteq> t" "map_of (v_joins v) u = None"
  shows "detect_deadlock (join_state s t u) = Inr (if (t, u) \<in> (set (v_joins v))\<^sup>* then 1 else 0)"
proof -
  let ?s = "join_state s t u" and ?f = "map_of (v_joins v)" and ?r = "set (v_joins v)"
  have j: "joins_ok (tcbs s) (v_joins v)" by (rule sched_parts(5) [OF ok])
  note r = joins_rel [OF j]
  obtain ys where "opath ?f (t # ys)"
    using opath_exists [of ?r ?f t] j by (auto simp: joins_ok_def dest: map_of_SomeD)
  then obtain xs where xs: "opath ?f xs" "xs ! 0 = t" by fastforce
  have d: "distinct xs" by (rule opath_distinct [OF xs(1) _ r]) (use j in \<open>simp add: joins_ok_def\<close>)
  have ne: "xs \<noteq> []" using xs(1) by (simp add: opath_def)
  note cov = opath_covers [OF xs(1) r, unfolded xs(2)]
  have sub: "set xs \<subseteq> dom (tcbs s)"
  proof
    fix b assume "b \<in> set xs"
    then have "(t, b) \<in> ?r\<^sup>*" using cov by blast
    then show "b \<in> dom (tcbs s)" by (cases rule: rtrancl.cases) (use t(2) joins_in_dom [OF ok] in auto)
  qed
  have dom: "dom (tcbs ?s) = dom (tcbs s)" using t(2) u(1) by (auto simp: join_state_def)
  have o: "obs ?s a = (if a = u then Some t else ?f a)" if "a \<in> dom (tcbs s)" for a
    using that obs_joins [OF ok that] t(2) u(2) by (auto simp: obs_def join_state_def)
  have "card (set xs) \<le> card {..<hbrk s}" using sub dom_bound [OF ok] by (intro card_mono) auto
  then have len: "length xs \<le> hbrk s" using d by (simp add: distinct_card)
  have ct: "current_thread ?s = Some t" "hbrk ?s = hbrk s" using t(1) by (simp_all add: join_state_def)
  show ?thesis
  proof (cases "(t, u) \<in> ?r\<^sup>*")
    case False
    then have nu: "u \<notin> set xs" using cov by blast
    have o': "obs ?s b = ?f b" if "b \<in> set xs" for b
      using o [of b] that sub nu by (metis subsetD)
    have p: "opath (obs ?s) xs"
      using xs(1) o' ne unfolding opath_def by (metis Suc_lessD last_in_set nth_mem)
    have inj: "\<And>a b ca cb. tcbs ?s a = Some ca \<Longrightarrow> tcbs ?s b = Some cb \<Longrightarrow> tcb_tid ca = tcb_tid cb \<Longrightarrow> a = b"
      using tid_inj [OF ok] t(2) u(1,2) by (auto simp: join_state_def split: if_splits)
    have "deadlock_loop (Suc (Suc (hbrk s))) ?s (Some (xs ! 0)) (if 2 * 0 < length xs then Some (xs ! (2 * 0)) else None) = Inr 0"
    proof (rule deadlock_loop_path [OF p d])
      show "set xs \<subseteq> dom (tcbs ?s)" using sub dom by simp
    qed (use inj ne len in auto)
    then show ?thesis using False ct xs(2) ne by (simp add: detect_deadlock_def del: deadlock_loop.simps)
  next
    case True
    then have "u \<in> set xs" using cov by blast
    then obtain k where k: "k < length xs" "xs ! k = u" by (meson in_set_conv_nth)
    have kl: "Suc k = length xs" using k u(3) xs(1) by (metis Suc_lessI opath_def option.distinct(1))
    have cyc: "obs ?s (xs ! i) = Some (xs ! (Suc i mod length xs))" if i: "i < length xs" for i
    proof (cases "i = k")
      case True
      then show ?thesis using o [of u] u(1) k kl xs(2) by simp
    next
      case False
      then have "Suc i < length xs" using i kl by simp
      moreover have "xs ! i \<noteq> u" using False i k d by (metis nth_eq_iff_index_eq)
      moreover have "xs ! i \<in> dom (tcbs s)" using sub i nth_mem by blast
      ultimately show ?thesis using o xs(1) by (simp add: opath_def)
    qed
    have "deadlock_loop (Suc (Suc (hbrk s))) ?s (Some (xs ! (0 mod length xs))) (Some (xs ! (2 * 0 mod length xs))) = Inr 1"
      by (rule deadlock_loop_cycle [OF ne _ cyc]) (use sub dom len ne in auto)
    then show ?thesis using True ct xs(2) by (simp add: detect_deadlock_def del: deadlock_loop.simps)
  qed
qed

lemma join_state_ok:
  assumes ok: "sched_ok E s v" and t: "current_thread s = Some t" "stat (tcbs s) t = Some WORKING"
    and u: "tcbs s u = Some uc" "tcb_status uc \<noteq> DONE" "u \<noteq> t" "map_of (v_joins v) u = None"
    and ac: "(t, u) \<notin> (set (v_joins v))\<^sup>*"
  shows "sched_ok E (join_state s t u) (v\<lparr>v_joins := (u, t) # v_joins v\<rparr>)"
proof -
  let ?s = "join_state s t u" and ?v = "v\<lparr>v_joins := (u, t) # v_joins v\<rparr>"
  obtain c where c: "tcbs s t = Some c" using t(2) by (auto simp: stat_def)
  let ?s1 = "s\<lparr>tcbs := (tcbs s)(t \<mapsto> c\<lparr>tcb_status := WAITING\<rparr>)\<rparr>"
  have e: "?s = ?s1\<lparr>tcbs := (tcbs ?s1)(u \<mapsto> uc\<lparr>tcb_observer := Some t\<rparr>)\<rparr>"
    using c u by (simp add: join_state_def)
  have u1: "tcbs ?s1 u = Some uc" using u by simp
  have dom: "dom (tcbs ?s) = dom (tcbs s)" using c u by (auto simp: e)
  have "table_rep ?s1 (all_threads s) (v_table v)"
    by (rule table_rep_upd [of s _ _ t c "c\<lparr>tcb_status := WAITING\<rparr>"]) (use ok c in \<open>simp_all add: sched_ok_def\<close>)
  then have tab: "table_rep ?s (all_threads s) (v_table v)"
    by (rule table_rep_upd [of ?s1 _ _ u uc "uc\<lparr>tcb_observer := Some t\<rparr>"]) (use u1 in \<open>simp_all add: e\<close>)
  have "heap_ok E ?s1 ?v"
    by (rule heap_status [OF sched_parts(4) [OF ok] c, of _ "c\<lparr>tcb_status := WAITING\<rparr>"])
      (use infos_bound [OF ok] in simp_all)
  then have hp: "heap_ok E ?s ?v"
    by (rule heap_status [OF _ u1, of E ?v _ "uc\<lparr>tcb_observer := Some t\<rparr>"])
      (use infos_bound [OF ok] in \<open>simp_all add: e\<close>)
  note r = running_current [OF ok t]
  have st: "stat (tcbs ?s) x = (if x = t then Some WAITING else stat (tcbs s) x)" for x
    using u c by (simp add: e stat_def)
  have wt: "waiting nf ?v = mutex_waiting v @ map (info_thread nf) (all_infos v) @ t # map snd (v_joins v)" for nf
    by (simp add: waiting_def mutex_waiting_def all_infos_def)
  have w: "mset (waiting nf ?v) = add_mset t (mset (waiting nf v))" for nf
    unfolding wt by (simp add: waiting_def)
  have pl: "mset (places ?s ?v) = mset (places s v)"
    unfolding r(1) using w st [of t] t(1) by (simp add: places_def e running_def)
  have so: "status_ok ?s ?v"
  proof (rule status_okI [OF sched_parts(2) [OF ok] _ dom])
    fix x assume "x \<in> set (waiting (infos ?s) ?v)"
    then have "x = t \<or> x \<in> set (waiting (infos s) v)"
      using arg_cong [OF w [of "infos s"], of set_mset] by (simp add: e)
    then show "stat (tcbs ?s) x = Some WAITING" unfolding st using waiting_in_places(2) [OF ok] by auto
  next
    fix x assume "x \<in> set (v_ready ?v)"
    then show "stat (tcbs ?s) x = Some WORKING"
      unfolding st using r(2) sched_parts(2) [OF ok] by (auto simp: status_ok_def)
  next
    fix x assume "x \<in> set (v_done ?v)"
    then have "x \<in> set (v_done v)" by (simp add: e)
    then show "stat (tcbs ?s) x = Some DONE"
      unfolding st using r(4) sched_parts(2) [OF ok] by (auto simp: status_ok_def)
  qed (simp add: e)
  have jo: "joins_ok (tcbs s) (v_joins v)" by (rule sched_parts(5) [OF ok])
  have "joins_ok (tcbs ?s) (v_joins ?v)"
    unfolding joins_ok_def
  proof (intro conjI allI impI ballI)
    show "distinct (map fst (v_joins ?v))" using jo u(4) by (auto simp: joins_ok_def map_of_eq_None_iff)
    show "acyclic (set (v_joins ?v))" using jo ac by (simp add: joins_ok_def acyclic_insert)
    show "tcb_observer k = map_of (v_joins ?v) a" if "tcbs ?s a = Some k" for a k
      using that jo u c by (auto simp: e joins_ok_def split: if_splits)
    show "a \<in> dom (tcbs ?s)" if "a \<in> fst ` set (v_joins ?v)" for a
      using that jo u unfolding dom by (auto simp: joins_ok_def)
    show "stat (tcbs ?s) a \<noteq> Some DONE" if "a \<in> fst ` set (v_joins ?v)" for a
      using that jo u unfolding st by (auto simp: joins_ok_def stat_def)
  qed
  moreover have "queues_ok ?s ?v" "mutexes_ok ?s ?v"
    using sched_parts(1,3) [OF ok] by (simp_all add: queues_ok_def mutexes_ok_def e all_infos_def)
  ultimately show ?thesis using ok tab hp pl so dom by (simp add: sched_ok_def e)
qed

end
