(* ===== verification/Thread_Life.thy ===== *)
theory Thread_Life
  imports Thread_Deadlock
begin

text \<open>
  The life of a thread of A3/thread.c: \<open>thread_create\<close>, \<open>destroy_thread\<close> and \<open>thread_terminate\<close> keep
  the invariant of the scheduler.
\<close>

section \<open>Creating a thread\<close>

lemma create_ok:
  assumes ok: "sched_ok E s v" and E: "clean_env E" and mx: "all_threads s = Some tab" "tab_max_id tab + 1 \<noteq> 0"
    and cur: "current_thread s = Some t" and fs: "e_stack E (hbrk s) \<notin> stacks s"
  shows "\<exists>s' R. thread_create E work info s = Inr (tab_max_id tab, s') \<and>
    sched_ok E s' (v\<lparr>v_table := (Suc (hbrk s), tab_max_id tab, hbrk s) # v_table v, v_ready := v_ready v @ [hbrk s]\<rparr>) \<and>
    current_thread s' = Some t \<and> next_to_destroy s' = next_to_destroy s \<and>
    tcbs s' = (tcbs s)(hbrk s \<mapsto> R) \<and> tcb_status R = WORKING \<and> tcb_tid R = tab_max_id tab \<and>
    mutex_mem s' = mutex_mem s \<and> cond_mem s' = cond_mem s \<and> infos s' = infos s"
proof -
  let ?a = "hbrk s" and ?i = "tab_max_id tab"
  define c where "c = fst (first_frame E (e_stack E ?a) work info (e_junk E ?a) (words s))"
  define mem where "mem = snd (first_frame E (e_stack E ?a) work info (e_junk E ?a) (words s))"
  have c: "tcb_status c = WORKING" "tcb_stack c = e_stack E ?a" "tcb_observer c = None" "tcb_handle c = None"
    using E by (simp_all add: c_def first_frame_def Let_def clean_env_def)
  let ?s1 = "s\<lparr>tcbs := (tcbs s)(?a \<mapsto> c), hbrk := Suc ?a, stacks := insert (e_stack E ?a) (stacks s), words := mem\<rparr>"
  have h: "heap_ok E s v" by (rule sched_parts(4) [OF ok])
  have fresh: "?a \<notin> dom (tcbs s)" using h by (auto simp: heap_ok_def)
  have tr: "table_rep s (Some tab) (v_table v)" using ok mx(1) by (simp add: sched_ok_def)
  have "table_rep (snd (alloc_tcb s c)) (Some tab) (v_table v)"
    by (rule alloc_table_rep [OF tr]) (use h in \<open>auto simp: heap_ok_def\<close>)
  then have tr1: "table_rep ?s1 (Some tab) (v_table v)"
    by (rule table_rep_frame) (simp_all add: alloc_tcb_def)
  obtain m' t' where p: "put_tcb True ?s1 (Some tab) (Some ?a) = Inr (0, m', Some t')"
      "table_rep m' (Some t') ((Suc ?a, ?i, ?a) # v_table v)"
      "m' = ?s1\<lparr>tcbs := (tcbs ?s1)(?a \<mapsto> c\<lparr>tcb_tid := ?i, tcb_handle := Some (Suc ?a)\<rparr>),
          handles := handles m', hbrk := Suc (Suc ?a)\<rparr>" "tab_max_id t' = ?i + 1"
    using put_tcb_rep [OF tr1, of ?a c] c mx(2) by auto
  let ?c = "c\<lparr>tcb_tid := ?i, tcb_handle := Some (Suc ?a)\<rparr>"
  have f: "tcbs m' = (tcbs s)(?a \<mapsto> ?c)" "hbrk m' = Suc (Suc ?a)" "stacks m' = insert (e_stack E ?a) (stacks s)"
      "infos m' = infos s" "ready m' = ready s" "ready_list m' = ready_list s" "mutexes m' = mutexes s"
      "conds m' = conds s" "next_to_destroy m' = next_to_destroy s" "current_thread m' = Some t"
      "mutex_mem m' = mutex_mem s" "cond_mem m' = cond_mem s"
    by (subst p(3), simp add: cur)+
  let ?s2 = "m'\<lparr>all_threads := Some t'\<rparr>"
  obtain Q where Q: "push_ready ?a ?s2 = Inr (?s2\<lparr>ready_list := Q\<rparr>)" "qrep Q (v_ready v @ [?a])"
    using push_ready_rep [of ?s2 "v_ready v" ?a] sched_parts(1) [OF ok] by (auto simp: queues_ok_def f)
  let ?s = "?s2\<lparr>ready_list := Q\<rparr>"
  let ?v = "v\<lparr>v_table := (Suc ?a, ?i, ?a) # v_table v, v_ready := v_ready v @ [?a]\<rparr>"
  have "first_frame E (e_stack E ?a) work info (e_junk E ?a) (words s) = (c, mem)" by (simp add: c_def mem_def)
  then have r: "thread_create E work info s = Inr (?i, ?s)"
    using sched_ready [OF ok] p(1) Q(1) f mx(1) by (simp add: thread_create_def alloc_tcb_def Let_def)
  have st: "stat (tcbs ?s) x = (if x = ?a then Some WORKING else stat (tcbs s) x)" for x
    using c(1) by (simp add: f stat_def)
  have wv: "waiting nf ?v = waiting nf v" "all_infos ?v = all_infos v" for nf
    by (simp_all add: waiting_def mutex_waiting_def all_infos_def)
  have dom: "dom (tcbs ?s) = insert ?a (dom (tcbs s))" by (simp add: f)
  have na: "x \<noteq> ?a" if "x \<in> set (places s v)" for x using that places_set [OF ok] fresh by auto
  have ta: "t \<noteq> ?a" using sched_current [OF ok] cur fresh by (metis domI option.inject)
  have "running (tcbs ?s) (Some t) = running (tcbs s) (Some t)" using ta st [of t] by (simp add: running_def)
  then have "mset (places ?s ?v) = add_mset ?a (mset (places s v))" using cur by (simp add: places_def wv f)
  then have pl: "mset (places ?s ?v) = mset_set (dom (tcbs ?s))"
    using mset_places [OF ok] fresh sched_finite [OF ok] dom by simp
  have so: "status_ok ?s ?v"
    using sched_parts(2) [OF ok] na cur unfolding status_ok_def wv dom st
    by (auto simp: f places_def)
  have jo: "joins_ok (tcbs s) (v_joins v)" by (rule sched_parts(5) [OF ok])
  then have "map_of (v_joins v) ?a = None" using fresh by (auto simp: joins_ok_def map_of_eq_None_iff)
  then have j: "joins_ok (tcbs ?s) (v_joins ?v)"
    using jo c unfolding joins_ok_def st dom by (auto simp: f)
  have tt: "table_rep ?s (Some t') (v_table ?v)"
    using table_rep_frame [OF p(2), of ?s] by simp
  have hp: "heap_ok E ?s ?v"
    unfolding heap_ok_def
  proof (intro conjI)
    show "dom (tcbs ?s) = e_tcb ` set (v_table ?v)" using h unfolding dom by (simp add: heap_ok_def)
    show "\<forall>x \<in> dom (tcbs ?s) \<union> dom (infos ?s). x < hbrk ?s"
    proof -
      have "\<forall>x \<in> dom (tcbs s) \<union> dom (infos s). x < hbrk s" using h by (simp add: heap_ok_def)
      then show ?thesis unfolding dom by (simp add: f ball_Un) (blast intro: less_SucI)
    qed
    show "\<forall>tb. all_threads ?s = Some tb \<longrightarrow> tab_max_id tb \<noteq> 0" using p(4) mx(2) by simp
    have i0: "?i \<noteq> 0" using h mx(1) by (simp add: heap_ok_def)
    show "\<forall>x k. tcbs ?s x = Some k \<longrightarrow> tcb_stack k = (if tcb_tid k = 0 then 0 else e_stack E x)"
      using h c i0 by (auto simp: heap_ok_def f)
    have st: "stacks s = e_stack E ` created (tcbs s)" "inj_on (e_stack E) (created (tcbs s))"
      using h by (simp_all add: heap_ok_def)
    have cr: "created (tcbs ?s) = insert ?a (created (tcbs s))" using fresh i0 by (auto simp: f created_def)
    show "stacks ?s = e_stack E ` created (tcbs ?s)" unfolding cr by (simp add: f st(1))
    show "inj_on (e_stack E) (created (tcbs ?s))" unfolding cr using st fs by auto
  qed
  have "queues_ok ?s ?v" "mutexes_ok ?s ?v"
    using sched_parts(1,3) [OF ok] Q(2) by (simp_all add: queues_ok_def mutexes_ok_def wv f)
  then have "sched_ok E ?s ?v" using ok pl so j tt hp by (simp add: sched_ok_def f)
  then show ?thesis using r c by (intro exI [of _ ?s] exI [of _ ?c]) (simp add: f)
qed

section \<open>Destroying a thread\<close>

lemma destroy_ok:
  assumes ok: "sched_ok E s v" and d: "v_done v = d # D" and cur: "current_thread s \<noteq> Some d"
    and E: "clean_env E"
  shows "\<exists>s' es. destroy_thread (Some d) s = Inr s' \<and> sched_ok E s' (v\<lparr>v_table := es, v_done := D\<rparr>) \<and>
    tcbs s' = (tcbs s)(d := None) \<and> hbrk s' = hbrk s \<and> current_thread s' = current_thread s \<and> ready_list s' = ready_list s \<and>
    mutex_mem s' = mutex_mem s \<and> cond_mem s' = cond_mem s \<and> infos s' = infos s \<and>
    (\<exists>t t'. all_threads s = Some t \<and> all_threads s' = Some t' \<and> tab_max_id t' = tab_max_id t)"
proof -
  have h: "heap_ok E s v" by (rule sched_parts(4) [OF ok])
  have dd: "stat (tcbs s) d = Some DONE" using sched_parts(2) [OF ok] d by (simp add: status_ok_def)
  then obtain c where c: "tcbs s d = Some c" "tcb_status c = DONE" by (auto simp: stat_Some)
  obtain tab where tab: "all_threads s = Some tab" "table_rep s (Some tab) (v_table v)"
    using ok by (auto simp: sched_ok_def table_rep_def)
  have "d \<in> e_tcb ` set (v_table v)" using h c(1) by (auto simp: heap_ok_def)
  then obtain e where e: "e \<in> set (v_table v)" "e_tcb e = d" by blast
  obtain hh i where "e = (hh, i, d)" using e(2) by (cases e) simp
  then obtain ys zs where sp: "v_table v = ys @ (hh, i, d) # zs" using split_list [OF e(1)] by blast
  obtain m' t' where p: "remove_tcb s (Some tab) (Some d) = Inr (0, m', Some t')"
      "table_rep m' (Some t') (ys @ zs)" "m' = (set_handle d None s)\<lparr>handles := handles m'\<rparr>" "tab_max_id t' = tab_max_id tab"
    using remove_tcb_rep [OF tab(2) [unfolded sp]] by auto
  let ?c = "c\<lparr>tcb_handle := None\<rparr>"
  let ?st = "if tcb_tid c \<noteq> 0 \<and> tcb_stack c \<noteq> 0 then stacks s - {tcb_stack c} else stacks s"
  let ?s = "m'\<lparr>all_threads := Some t', stacks := ?st, tcbs := (tcbs s)(d := None)\<rparr>"
  let ?v = "v\<lparr>v_table := ys @ zs, v_done := D\<rparr>"
  have f: "tcbs m' = (tcbs s)(d \<mapsto> ?c)" "hbrk m' = hbrk s" "stacks m' = stacks s"
      "infos m' = infos s" "ready m' = ready s" "ready_list m' = ready_list s" "mutexes m' = mutexes s"
      "conds m' = conds s" "next_to_destroy m' = next_to_destroy s" "current_thread m' = current_thread s"
      "mutex_mem m' = mutex_mem s" "cond_mem m' = cond_mem s"
    by (subst p(3), simp add: set_handle_def c)+
  have stk: "tcb_stack c = (if tcb_tid c = 0 then 0 else e_stack E d)" using h c by (simp add: heap_ok_def)
  have stks: "stacks s = e_stack E ` created (tcbs s)" "inj_on (e_stack E) (created (tcbs s))"
    using h by (simp_all add: heap_ok_def)
  then have "tcb_tid c \<noteq> 0 \<Longrightarrow> tcb_stack c \<in> stacks s" using stk c by (auto simp: created_def)
  then have r: "destroy_thread (Some d) s = Inr ?s"
    using p(1) tab(1) c f by (simp add: destroy_thread_def thread_at_def get_cell_def Let_def)
  have st: "stat (tcbs ?s) x = (if x = d then None else stat (tcbs s) x)" for x by (simp add: stat_def)
  have wv: "waiting nf ?v = waiting nf v" "all_infos ?v = all_infos v" for nf
    by (simp_all add: waiting_def mutex_waiting_def all_infos_def)
  have dom: "dom (tcbs ?s) = dom (tcbs s) - {d}" by simp
  have run: "running ((tcbs s)(d := None)) (current_thread s) = running (tcbs s) (current_thread s)"
    using cur by (auto simp: running_def stat_def split: option.split)
  have "mset (places s v) = add_mset d (mset (places ?s ?v))"
    by (simp add: places_def d run f wv)
  then have pl: "mset (places ?s ?v) = mset_set (dom (tcbs ?s))"
    using mset_places [OF ok] c(1) sched_finite [OF ok] dom
    by (metis add_mset_remove_trivial domI mset_set.remove)
  have dn: "d \<notin> set (v_ready v)" "d \<notin> set (waiting (infos s) v)" "d \<notin> set D"
    using places_distinct [OF ok] by (auto simp: places_def d)
  have so: "status_ok ?s ?v"
    using sched_parts(2) [OF ok] dn cur unfolding status_ok_def wv dom st by (auto simp: f d)
  have jo: "joins_ok (tcbs s) (v_joins v)" by (rule sched_parts(5) [OF ok])
  then have j: "joins_ok (tcbs ?s) (v_joins ?v)"
    using dd unfolding joins_ok_def st dom by auto
  have dys: "d \<notin> e_tcb ` set (ys @ zs)"
    using p(2) f(1) unfolding table_rep_def linked_def by (fastforce simp: f)
  have "linked (tcbs m') (ys @ zs)" using p(2) by (auto simp: table_rep_def)
  then have "linked ((tcbs s)(d := None)) (ys @ zs)" using dys by (simp add: f linked_frame)
  then have tt: "table_rep ?s (Some t') (ys @ zs)"
    by (intro table_rep_cong [OF p(2)]) (simp_all add: f)
  have hp: "heap_ok E ?s ?v"
    unfolding heap_ok_def
  proof (intro conjI)
    have "dom (tcbs s) = e_tcb ` set (ys @ (hh, i, d) # zs)" using h sp by (simp add: heap_ok_def)
    then show "dom (tcbs ?s) = e_tcb ` set (v_table ?v)" using dys unfolding dom by auto
    show "\<forall>x \<in> dom (tcbs ?s) \<union> dom (infos ?s). x < hbrk ?s"
      using h unfolding dom by (auto simp: heap_ok_def f)
    show "\<forall>tb. all_threads ?s = Some tb \<longrightarrow> tab_max_id tb \<noteq> 0" using p(4) h tab(1) by (simp add: heap_ok_def)
    show "\<forall>x k. tcbs ?s x = Some k \<longrightarrow> tcb_stack k = (if tcb_tid k = 0 then 0 else e_stack E x)"
      using h by (auto simp: heap_ok_def)
    have cr: "created (tcbs ?s) = created (tcbs s) - (if tcb_tid c = 0 then {} else {d})"
      using c by (auto simp: created_def)
    show "inj_on (e_stack E) (created (tcbs ?s))" unfolding cr using stks(2) by (rule inj_on_subset) auto
    have "tcb_tid c \<noteq> 0 \<Longrightarrow> d \<in> created (tcbs s)" using c by (simp add: created_def)
    then have "e_stack E ` (created (tcbs s) - {d}) = e_stack E ` created (tcbs s) - {e_stack E d}" if "tcb_tid c \<noteq> 0"
      using inj_on_image_set_diff [OF stks(2), of "created (tcbs s)" "{d}"] that by simp
    then show "stacks ?s = e_stack E ` created (tcbs ?s)"
      unfolding cr using stks(1) stk E by (auto simp: clean_env_def)
  qed
  have "queues_ok ?s ?v" "mutexes_ok ?s ?v"
    using sched_parts(1,3) [OF ok] by (simp_all add: queues_ok_def mutexes_ok_def wv f)
  then have "sched_ok E ?s ?v" using ok pl so j tt hp by (simp add: sched_ok_def f)
  then show ?thesis using r p(4) tab(1) by (intro exI [of _ ?s] exI [of _ "ys @ zs"]) (simp add: f)
qed

section \<open>The end of a thread\<close>

text \<open>Control blocks that agree in all but status and observer.\<close>

definition same_ids :: "(nat \<Rightarrow> tcb option) \<Rightarrow> (nat \<Rightarrow> tcb option) \<Rightarrow> bool" where
  "same_ids ts ts' \<longleftrightarrow> dom ts' = dom ts \<and> (\<forall>a c c'. ts a = Some c \<longrightarrow> ts' a = Some c' \<longrightarrow>
     tcb_tid c' = tcb_tid c \<and> tcb_handle c' = tcb_handle c \<and> tcb_stack c' = tcb_stack c)"

lemma same_ids_refl: "same_ids ts ts"
  by (simp add: same_ids_def)

lemma same_ids_upd:
  assumes "same_ids ts ts'" "ts' a = Some c" "tcb_tid c' = tcb_tid c" "tcb_handle c' = tcb_handle c" "tcb_stack c' = tcb_stack c"
  shows "same_ids ts (ts'(a \<mapsto> c'))"
  using assms by (auto simp: same_ids_def)

lemma same_ids_cell:
  assumes "same_ids ts ts'"
  shows "(ts a = None \<and> ts' a = None) \<or> (\<exists>c c'. ts a = Some c \<and> ts' a = Some c' \<and> tcb_tid c' = tcb_tid c \<and>
    tcb_handle c' = tcb_handle c \<and> tcb_stack c' = tcb_stack c)"
proof -
  have "a \<in> dom ts \<longleftrightarrow> a \<in> dom ts'" using assms by (simp add: same_ids_def)
  then show ?thesis using assms by (cases "ts a"; cases "ts' a") (auto simp: same_ids_def)
qed

lemma table_rep_same:
  assumes "table_rep m tab xs" "same_ids (tcbs m) (tcbs m')" "handles m' = handles m" "hbrk m' \<ge> hbrk m"
  shows "table_rep m' tab xs"
proof (rule table_rep_cong [OF assms(1,3,4)])
  show "linked (tcbs m') xs" unfolding linked_def
  proof
    fix e assume "e \<in> set xs"
    then obtain c where c: "tcbs m (e_tcb e) = Some c" "tcb_tid c = e_id e" "tcb_handle c = Some (fst e)"
      using assms(1) by (fastforce simp: table_rep_def linked_def)
    then obtain c' where "tcbs m' (e_tcb e) = Some c'" using assms(2) unfolding same_ids_def by (metis domD domI)
    then show "\<exists>c. tcbs m' (e_tcb e) = Some c \<and> tcb_tid c = e_id e \<and> tcb_handle c = Some (fst e)"
      using assms(2) c by (auto simp: same_ids_def)
  qed
qed

lemma heap_same:
  assumes h: "heap_ok E s v" and i: "same_ids (tcbs s) (tcbs s')"
    and s': "hbrk s' = hbrk s" "infos s' = infos s" "all_threads s' = all_threads s" "stacks s' = stacks s"
    and v': "v_table v' = v_table v"
  shows "heap_ok E s' v'"
proof -
  have d: "dom (tcbs s') = dom (tcbs s)" using i by (simp add: same_ids_def)
  have t: "(\<exists>c. tcbs s' b = Some c \<and> tcb_tid c \<noteq> 0) \<longleftrightarrow> (\<exists>c. tcbs s b = Some c \<and> tcb_tid c \<noteq> 0)" for b
    using same_ids_cell [OF i, of b] by auto
  have k: "tcb_stack c = (if tcb_tid c = 0 then 0 else e_stack E b)" if c: "tcbs s' b = Some c" for b c
  proof -
    obtain c0 where "tcbs s b = Some c0" using c same_ids_cell [OF i, of b] by auto
    then show ?thesis using that i h by (auto simp: same_ids_def heap_ok_def)
  qed
  have "created (tcbs s') = created (tcbs s)" using t by (simp add: created_def)
  then show ?thesis using h s' v' k d by (simp add: heap_ok_def)
qed

lemma joins_remove:
  "distinct (map fst js) \<Longrightarrow> mset (map snd js) = mset (map snd (filter (\<lambda>p. fst p \<noteq> t) js)) +
     mset (case map_of js t of None \<Rightarrow> [] | Some w \<Rightarrow> [w])"
proof (induction js)
  case (Cons x js)
  show ?case
  proof (cases "fst x = t")
    case True
    then have "\<forall>p \<in> set js. fst p \<noteq> t" using Cons.prems by (auto simp: image_iff)
    then have "filter (\<lambda>p. fst p \<noteq> t) js = js" by (rule filter_True)
    then show ?thesis using True by simp
  next
    case False
    then show ?thesis using Cons by simp
  qed
qed simp

lemma map_of_joins_remove: "map_of (filter (\<lambda>p. fst p \<noteq> t) js) a = (if a = t then None else map_of js a)"
  by (induction js) auto

definition wake_observer :: "threads \<Rightarrow> nat \<Rightarrow> (nat \<Rightarrow> tcb option)" where
  "wake_observer s t = (let c = the (tcbs s t) in
     case tcb_observer c of
       None \<Rightarrow> (tcbs s)(t \<mapsto> c\<lparr>tcb_status := DONE\<rparr>)
     | Some w \<Rightarrow> (tcbs s)(w \<mapsto> (the (tcbs s w))\<lparr>tcb_status := WORKING\<rparr>, t \<mapsto> c\<lparr>tcb_status := DONE, tcb_observer := None\<rparr>))"

lemma wake_same_ids:
  assumes ok: "sched_ok E s v" and t: "current_thread s = Some t" "tcbs s t = Some c"
  shows "same_ids (tcbs s) (wake_observer s t)"
  unfolding wake_observer_def Let_def t(2) option.sel
proof (split option.split, intro conjI impI allI)
  show "same_ids (tcbs s) ((tcbs s)(t \<mapsto> c\<lparr>tcb_status := DONE\<rparr>))"
    by (rule same_ids_upd [OF same_ids_refl [of "tcbs s"] t(2)]) simp_all
  fix w assume w: "tcb_observer c = Some w"
  have jo: "joins_ok (tcbs s) (v_joins v)" by (rule sched_parts(5) [OF ok])
  then have "(t, w) \<in> set (v_joins v)" using w t(2) by (auto simp: joins_ok_def dest: map_of_SomeD)
  then have "w \<noteq> t" "w \<in> dom (tcbs s)"
    using jo joins_in_dom(2) [OF ok] by (auto simp: joins_ok_def acyclic_def)
  then obtain wc where wc: "tcbs s w = Some wc" "w \<noteq> t" by blast
  have "same_ids (tcbs s) ((tcbs s)(w \<mapsto> wc\<lparr>tcb_status := WORKING\<rparr>))"
    by (rule same_ids_upd [OF same_ids_refl [of "tcbs s"] wc(1)]) simp_all
  then show "same_ids (tcbs s) ((tcbs s)(w \<mapsto> (the (tcbs s w))\<lparr>tcb_status := WORKING\<rparr>,
      t \<mapsto> c\<lparr>tcb_status := DONE, tcb_observer := None\<rparr>))"
    unfolding wc(1) option.sel by (rule same_ids_upd [of _ _ _ c]) (use t(2) wc(2) in simp_all)
qed

lemma die_ok:
  assumes ok: "sched_ok E s v" and t: "current_thread s = Some t" "tcbs s t = Some c" "tcb_status c = WORKING"
  shows "\<exists>Q. let s1 = s\<lparr>ready_list := Q, tcbs := wake_observer s t\<rparr> in
    thread_terminate E s = bindR (destroy_thread (next_to_destroy s) s1)
      (\<lambda>s. thread_yield E (s\<lparr>next_to_destroy := current_thread s\<rparr>)) \<and>
    sched_ok E s1 (v\<lparr>v_joins := filter (\<lambda>p. fst p \<noteq> t) (v_joins v), v_done := v_done v @ [t],
      v_ready := v_ready v @ (case tcb_observer c of None \<Rightarrow> [] | Some w \<Rightarrow> [w])\<rparr>)"
proof -
  let ?js = "filter (\<lambda>p. fst p \<noteq> t) (v_joins v)"
  let ?ts = "wake_observer s t"
  have jo: "joins_ok (tcbs s) (v_joins v)" by (rule sched_parts(5) [OF ok])
  have st: "stat (tcbs s) t = Some WORKING" using t by (simp add: stat_def)
  note r = running_current [OF ok t(1) st]
  have ob: "tcb_observer c = map_of (v_joins v) t" using jo t(2) by (simp add: joins_ok_def)
  obtain Q where tm: "thread_terminate E s = bindR (destroy_thread (next_to_destroy s) (s\<lparr>ready_list := Q, tcbs := ?ts\<rparr>))
      (\<lambda>s. thread_yield E (s\<lparr>next_to_destroy := current_thread s\<rparr>))"
    and Q: "qrep Q (v_ready v @ (case tcb_observer c of None \<Rightarrow> [] | Some w \<Rightarrow> [w]))"
    and w: "\<And>w. tcb_observer c = Some w \<Longrightarrow> stat (tcbs s) w = Some WAITING \<and> w \<noteq> t"
  proof (cases "tcb_observer c")
    case None
    have "qrep (ready_list s) (v_ready v)" using sched_parts(1) [OF ok] by (simp add: queues_ok_def)
    then show ?thesis using that [of "ready_list s"] None t
      by (simp add: thread_terminate_def set_status_def wake_observer_def)
  next
    case (Some w)
    then have "(t, w) \<in> set (v_joins v)" using ob by (simp add: map_of_SomeD)
    then have ww: "w \<in> set (waiting (infos s) v)" by (rule joins_in_dom(3) [OF ok])
    then have sw: "stat (tcbs s) w = Some WAITING" by (rule waiting_in_places(2) [OF ok])
    then obtain wc where wc: "tcbs s w = Some wc" by (auto simp: stat_Some)
    have wt: "w \<noteq> t" using sw st by auto
    let ?s1 = "s\<lparr>tcbs := (tcbs s)(t \<mapsto> c\<lparr>tcb_status := DONE\<rparr>, w \<mapsto> wc\<lparr>tcb_status := WORKING\<rparr>)\<rparr>"
    obtain Q where q: "push_ready w ?s1 = Inr (?s1\<lparr>ready_list := Q\<rparr>)" "qrep Q (v_ready v @ [w])"
      using push_ready_rep [of ?s1 "v_ready v" w] sched_parts(1) [OF ok] by (auto simp: queues_ok_def)
    have "(tcbs s)(t \<mapsto> c\<lparr>tcb_status := DONE\<rparr>, w \<mapsto> wc\<lparr>tcb_status := WORKING\<rparr>, t \<mapsto> c\<lparr>tcb_status := DONE, tcb_observer := None\<rparr>) = ?ts"
      using wt t(2) wc Some by (auto simp: wake_observer_def fun_eq_iff)
    then have "?s1\<lparr>ready_list := Q, tcbs := (tcbs s)(t \<mapsto> c\<lparr>tcb_status := DONE\<rparr>, w \<mapsto> wc\<lparr>tcb_status := WORKING\<rparr>,
        t \<mapsto> c\<lparr>tcb_status := DONE, tcb_observer := None\<rparr>)\<rparr> = s\<lparr>ready_list := Q, tcbs := ?ts\<rparr>" by simp
    then show ?thesis using that [of Q] Some t wc wt q sw
      by (simp add: thread_terminate_def set_status_def set_observer_def)
  qed
  let ?s = "s\<lparr>ready_list := Q, tcbs := ?ts\<rparr>"
  let ?v = "v\<lparr>v_joins := ?js, v_done := v_done v @ [t],
      v_ready := v_ready v @ (case tcb_observer c of None \<Rightarrow> [] | Some w \<Rightarrow> [w])\<rparr>"
  have ids: "same_ids (tcbs s) ?ts" by (rule wake_same_ids [OF ok t(1,2)])
  have st': "stat ?ts x = (if x = t then Some DONE else if tcb_observer c = Some x then Some WORKING else stat (tcbs s) x)" for x
    using t(2) by (auto simp: wake_observer_def Let_def stat_def split: option.split)
  have dom: "dom ?ts = dom (tcbs s)" using ids by (simp add: same_ids_def)
  have dj: "distinct (map fst (v_joins v))" using jo by (simp add: joins_ok_def)
  have jm: "mset (map snd (v_joins v)) = mset (map snd ?js) + mset (case tcb_observer c of None \<Rightarrow> [] | Some w \<Rightarrow> [w])"
    unfolding ob by (rule joins_remove [OF dj])
  have wv: "mset (waiting nf v) = mset (waiting nf ?v) + mset (case tcb_observer c of None \<Rightarrow> [] | Some w \<Rightarrow> [w])" for nf
    using jm by (simp add: waiting_def mutex_waiting_def all_infos_def)
  have ai: "all_infos ?v = all_infos v" by (simp add: all_infos_def)
  have pl: "mset (places ?s ?v) = mset (places s v)"
    unfolding r(1) using wv [of "infos s"] st' [of t] t(1) by (simp add: places_def running_def)
  have dw: "distinct (waiting (infos s) v)" using places_distinct [OF ok] by (simp add: places_def)
  have "distinct (waiting (infos s) ?v @ (case tcb_observer c of None \<Rightarrow> [] | Some w \<Rightarrow> [w]))"
    by (rule mset_eq_imp_distinct_iff [THEN iffD1, OF _ dw]) (simp add: wv)
  then have nw: "tcb_observer c = Some w \<Longrightarrow> w \<notin> set (waiting (infos s) ?v)" for w by auto
  have sub: "x \<in> set (waiting (infos s) v)" if "x \<in> set (waiting (infos s) ?v)" for x
    using that arg_cong [OF wv [of "infos s"], of set_mset] by (metis UnI1 set_mset_mset set_mset_union)
  have so: "status_ok ?s ?v"
  proof (rule status_okI [OF sched_parts(2) [OF ok]])
    show "dom (tcbs ?s) = dom (tcbs s)" using dom by simp
    fix x assume "x \<in> set (waiting (infos ?s) ?v)"
    then have x: "x \<in> set (waiting (infos s) ?v)" by simp
    then show "stat (tcbs ?s) x = Some WAITING"
      using st' [of x] sub [OF x] nw r(3) waiting_in_places(2) [OF ok] by auto
  next
    fix x assume "x \<in> set (v_ready ?v)"
    then show "stat (tcbs ?s) x = Some WORKING"
      using st' [of x] r(2) w sched_parts(2) [OF ok] by (auto simp: status_ok_def split: option.splits)
  next
    fix x assume "x \<in> set (v_done ?v)"
    then show "stat (tcbs ?s) x = Some DONE"
      using st' [of x] w sched_parts(2) [OF ok] by (auto simp: status_ok_def)
  qed simp
  have "acyclic (set ?js)" using jo by (auto simp: joins_ok_def intro: acyclic_subset)
  moreover have "distinct (map fst ?js)" using dj by (rule distinct_map_filter)
  moreover have "tcb_observer k = map_of ?js a" if k: "?ts a = Some k" for a k
  proof -
    obtain k0 where k0: "tcbs s a = Some k0" using k same_ids_cell [OF ids, of a] by auto
    then have "tcb_observer k0 = map_of (v_joins v) a" using jo by (simp add: joins_ok_def)
    then show ?thesis using that k0 t(2) ob unfolding map_of_joins_remove
      by (auto simp: wake_observer_def Let_def split: option.splits if_splits)
  qed
  moreover have "a \<in> dom ?ts \<and> stat ?ts a \<noteq> Some DONE" if "a \<in> fst ` set ?js" for a
    using that jo st' [of a] unfolding dom by (auto simp: joins_ok_def)
  ultimately have j: "joins_ok ?ts ?js" by (simp add: joins_ok_def)
  have tt: "table_rep ?s (all_threads s) (v_table v)"
    by (rule table_rep_same [of s]) (use ok ids in \<open>simp_all add: sched_ok_def\<close>)
  have hp: "heap_ok E ?s ?v"
    by (rule heap_same [OF sched_parts(4) [OF ok]]) (use ids in simp_all)
  have "queues_ok ?s ?v" "mutexes_ok ?s ?v"
    using sched_parts(1,3) [OF ok] Q unfolding queues_ok_def mutexes_ok_def ai by simp_all
  then have "sched_ok E ?s ?v"
    using ok pl so j tt hp dom unfolding sched_ok_def by simp
  then show ?thesis using tm by (intro exI [of _ Q]) (simp add: Let_def)
qed

end
