(* ===== verification/Thread_System.thy ===== *)
theory Thread_System
  imports Thread_Life
begin

text \<open>
  The thread library as a system: the running thread makes one call after the other, and a call
  may hand the processor to another thread.  A history holds each thread's last call with the value
  it returns once the thread has control again.  Every call of a client that keeps the rules of
  \<open>valid\<close> keeps the invariant; the safety of the library follows for every reachable state.
\<close>

section \<open>Calls\<close>

datatype call = Self | Create u64 u64 | Yield | Join u64
  | MutexInit "nat option" | Lock "nat option" | Unlock "nat option"
  | CondInit "nat option" | Wait "nat option" "nat option" | Signal "nat option"
  | Terminate

definition as_long :: "(u64 \<times> threads) res \<Rightarrow> (int \<times> threads) res" where
  "as_long r = bindR r (\<lambda>(w, s). Inr (sint w, s))"

definition no_value :: "threads res \<Rightarrow> (int \<times> threads) res" where
  "no_value r = bindR r (\<lambda>s. Inr (0, s))"

fun exec :: "env \<Rightarrow> call \<Rightarrow> threads \<Rightarrow> (int \<times> threads) res" where
  "exec E Self s = as_long (thread_self E s)"
| "exec E (Create work info) s = as_long (thread_create E work info s)"
| "exec E Yield s = no_value (thread_yield E s)"
| "exec E (Join i) s = thread_join E i s"
| "exec E (MutexInit m) s = thread_mutex_init E m s"
| "exec E (Lock m) s = thread_mutex_lock E m s"
| "exec E (Unlock m) s = thread_mutex_unlock E m s"
| "exec E (CondInit c) s = thread_cond_init E c s"
| "exec E (Wait c m) s = thread_cond_wait E c m s"
| "exec E (Signal c) s = thread_cond_signal c s"
| "exec E Terminate s = no_value (thread_terminate E s)"

text \<open>What the client owes: variables are initialised once before their use, fewer than 2^64
  threads, and only a thread other than the parent runs off its end into \<open>thread_terminate\<close>; and
  what \<open>malloc\<close> owes: the stack of a new thread is not in use.\<close>

definition mutex_ready :: "threads \<Rightarrow> nat option \<Rightarrow> bool" where
  "mutex_ready s p = (case p of None \<Rightarrow> True | Some m \<Rightarrow>
     (case mutex_mem s m of None \<Rightarrow> False | Some mx \<Rightarrow> mx_q mx \<noteq> None))"

definition cond_ready :: "threads \<Rightarrow> nat option \<Rightarrow> bool" where
  "cond_ready s p = (case p of None \<Rightarrow> True | Some c \<Rightarrow>
     (case cond_mem s c of None \<Rightarrow> False | Some cv \<Rightarrow> cv_q cv \<noteq> None))"

fun valid :: "env \<Rightarrow> threads \<Rightarrow> call \<Rightarrow> bool" where
  "valid E s (Create work info) = (e_stack E (hbrk s) \<notin> stacks s \<and>
     (case all_threads s of None \<Rightarrow> True | Some t \<Rightarrow> tab_max_id t + 1 \<noteq> 0))"
| "valid E s (MutexInit p) = (case p of None \<Rightarrow> True | Some m \<Rightarrow>
     (case mutex_mem s m of None \<Rightarrow> False | Some mx \<Rightarrow> mx_q mx = None))"
| "valid E s (Lock p) = mutex_ready s p"
| "valid E s (Unlock p) = mutex_ready s p"
| "valid E s (CondInit p) = (case p of None \<Rightarrow> True | Some c \<Rightarrow>
     (case cond_mem s c of None \<Rightarrow> False | Some cv \<Rightarrow> cv_q cv = None))"
| "valid E s (Wait c m) = (cond_ready s c \<and> mutex_ready s m)"
| "valid E s (Signal c) = cond_ready s c"
| "valid E s Terminate = (case current_thread s of None \<Rightarrow> False | Some t \<Rightarrow>
     (case tcbs s t of None \<Rightarrow> False | Some c \<Rightarrow> tcb_tid c \<noteq> 0))"
| "valid E s _ = True"

section \<open>One call\<close>

definition done_list :: "nat option \<Rightarrow> nat list" where
  "done_list d = (case d of None \<Rightarrow> [] | Some t \<Rightarrow> [t])"

definition sched_inv :: "env \<Rightarrow> threads \<Rightarrow> view \<Rightarrow> bool" where
  "sched_inv E s v \<longleftrightarrow> sched_ok E s v \<and> v_done v = done_list (next_to_destroy s) \<and>
     (\<exists>t. current_thread s = Some t \<and> stat (tcbs s) t = Some WORKING)"

text \<open>A thread that waits to be given a mutex, and the thread that has it.\<close>

definition pend :: "nat \<Rightarrow> nat \<Rightarrow> threads \<Rightarrow> view \<Rightarrow> bool" where
  "pend m x s v \<longleftrightarrow> x \<in> set (v_waits v m) \<or> (\<exists>i \<in> set (all_infos v). infos s i = Some \<lparr>ci_thread = x, ci_mutex = m\<rparr>)"

definition owns :: "nat \<Rightarrow> nat \<Rightarrow> threads \<Rightarrow> bool" where
  "owns m x s \<longleftrightarrow> (\<exists>mx c. mutex_mem s m = Some mx \<and> mx_locked mx \<and> tcbs s x = Some c \<and> mx_owner mx = tcb_tid c)"

text \<open>What a call of thread \<open>t\<close> does to the others.\<close>

definition eff :: "nat \<Rightarrow> threads \<Rightarrow> view \<Rightarrow> threads \<Rightarrow> view \<Rightarrow> bool" where
  "eff t s v s' v' \<longleftrightarrow> set (v_mutexes v) \<subseteq> set (v_mutexes v') \<and> hbrk s \<le> hbrk s' \<and>
     (\<forall>x \<in> dom (tcbs s'). x \<in> dom (tcbs s) \<or> hbrk s \<le> x) \<and>
     (\<forall>m \<in> set (v_mutexes v). \<forall>x \<in> dom (tcbs s) \<inter> dom (tcbs s'). x \<noteq> t \<longrightarrow>
        (pend m x s v \<longrightarrow> pend m x s' v' \<or> owns m x s') \<and> (owns m x s \<longrightarrow> owns m x s'))"

lemma eff_refl: "eff t s v s v"
  by (simp add: eff_def)

lemma eff_trans:
  assumes b: "\<forall>x \<in> dom (tcbs s). x < hbrk s" and 1: "eff t s v s1 v1" and 2: "eff t s1 v1 s2 v2"
  shows "eff t s v s2 v2"
  unfolding eff_def
proof (intro conjI ballI impI)
  show "set (v_mutexes v) \<subseteq> set (v_mutexes v2)" "hbrk s \<le> hbrk s2" using 1 2 by (auto simp: eff_def)
  show "x \<in> dom (tcbs s) \<or> hbrk s \<le> x" if "x \<in> dom (tcbs s2)" for x
    using that 1 2 unfolding eff_def by (meson le_trans)
  fix m x assume m: "m \<in> set (v_mutexes v)" and x: "x \<in> dom (tcbs s) \<inter> dom (tcbs s2)" "x \<noteq> t"
  have x1: "x \<in> dom (tcbs s1)" using x 1 2 b unfolding eff_def by (meson IntD1 IntD2 leD le_trans)
  have m1: "m \<in> set (v_mutexes v1)" using m 1 by (auto simp: eff_def)
  have a: "(pend m x s v \<longrightarrow> pend m x s1 v1 \<or> owns m x s1) \<and> (owns m x s \<longrightarrow> owns m x s1)"
    using 1 m x x1 unfolding eff_def by blast
  have b: "(pend m x s1 v1 \<longrightarrow> pend m x s2 v2 \<or> owns m x s2) \<and> (owns m x s1 \<longrightarrow> owns m x s2)"
    using 2 m1 x x1 unfolding eff_def by blast
  show "pend m x s2 v2 \<or> owns m x s2" if "pend m x s v" using that a b by blast
  show "owns m x s2" if "owns m x s" using that a b by blast
qed

fun takes :: "call \<Rightarrow> nat \<Rightarrow> bool" where
  "takes (Lock p) m = (p = Some m)"
| "takes (Wait c p) m = (p = Some m)"
| "takes _ m = False"

definition step_ok :: "env \<Rightarrow> nat \<Rightarrow> call \<Rightarrow> int \<Rightarrow> threads \<Rightarrow> view \<Rightarrow> threads \<Rightarrow> view \<Rightarrow> bool" where
  "step_ok E t c r s v s' v' \<longleftrightarrow> sched_inv E s' v' \<and> eff t s v s' v' \<and>
     (\<forall>m. r = 1 \<longrightarrow> takes c m \<longrightarrow> m \<in> set (v_mutexes v') \<and> (pend m t s' v' \<or> owns m t s'))"

text \<open>A call succeeds, or ends the process because no thread can run.\<close>

definition stuck :: "threads \<Rightarrow> bool" where
  "stuck s \<longleftrightarrow> (\<forall>a. Some a \<noteq> current_thread s \<longrightarrow> stat (tcbs s) a \<noteq> Some WORKING)"

definition call_ok :: "env \<Rightarrow> nat \<Rightarrow> call \<Rightarrow> threads \<Rightarrow> view \<Rightarrow> (int \<times> threads) res \<Rightarrow> bool" where
  "call_ok E t c s v res \<longleftrightarrow> (\<exists>r s' v'. res = Inr (r, s') \<and> step_ok E t c r s v s' v') \<or>
     (res = Inl (ExitCode (-1)) \<and> stuck s)"

lemma sched_invD:
  assumes "sched_inv E s v"
  obtains t c where "sched_ok E s v" "v_done v = done_list (next_to_destroy s)" "current_thread s = Some t"
    "tcbs s t = Some c" "tcb_status c = WORKING" "ready s"
  using assms by (auto simp: sched_inv_def sched_ok_def stat_Some)

lemma stuck_if:
  assumes ok: "sched_ok E s v" and r: "v_ready v = []"
  shows "stuck s"
  unfolding stuck_def
proof (intro allI impI notI)
  fix a assume a: "Some a \<noteq> current_thread s" "stat (tcbs s) a = Some WORKING"
  then have "a \<in> set (places s v)" using places_set [OF ok] by (auto simp: stat_Some)
  then show False using a r sched_parts(2) [OF ok]
    by (auto simp: places_def running_def status_ok_def split: option.splits if_splits)
qed

lemma eff_frame:
  assumes "eff t s v s1 v1" "tcbs s2 = tcbs s1" "mutex_mem s2 = mutex_mem s1" "infos s2 = infos s1" "hbrk s2 = hbrk s1"
    "v_mutexes v2 = v_mutexes v1" "v_waits v2 = v_waits v1" "all_infos v2 = all_infos v1"
  shows "eff t s v s2 v2"
proof -
  have "pend m x s2 v2 = pend m x s1 v1" "owns m x s2 = owns m x s1" for m x
    using assms by (simp_all add: pend_def owns_def)
  then show ?thesis using assms by (simp add: eff_def)
qed

lemma return_ok: "step_ok E t c r s v s' v' \<Longrightarrow> call_ok E t c s v (Inr (r, s'))"
  by (auto simp: call_ok_def)

lemma return_same: "sched_inv E s v \<Longrightarrow> r \<noteq> 1 \<or> (\<forall>m. \<not> takes c m) \<Longrightarrow> call_ok E t c s v (Inr (r, s))"
  by (rule return_ok [of _ _ _ _ _ _ _ v]) (auto simp: step_ok_def eff_refl)

lemma yield_finish:
  assumes ok: "sched_ok E s1 v1" and d: "v_done v1 = done_list (next_to_destroy s1)" and t: "current_thread s1 = Some t"
    and e: "eff t s v s1 v1"
    and tk: "\<And>m. k = 1 \<Longrightarrow> takes c m \<Longrightarrow> m \<in> set (v_mutexes v1) \<and> (pend m t s1 v1 \<or> owns m t s1)"
    and st: "v_ready v1 = [] \<Longrightarrow> stuck s"
  shows "call_ok E t c s v (bindR (thread_yield E s1) (\<lambda>s. Inr (k, s)))"
proof (cases "v_ready v1")
  case Nil
  show ?thesis
  proof (cases "stat (tcbs s1) t = Some WORKING")
    case True
    then have "sched_inv E s1 v1" using ok d t by (simp add: sched_inv_def)
    then have "step_ok E t c k s v s1 v1" using e tk by (auto simp: step_ok_def)
    then show ?thesis using yield_alone [OF ok t Nil] True by (auto intro: return_ok)
  next
    case False
    then show ?thesis using yield_alone [OF ok t Nil] st Nil by (simp add: call_ok_def)
  qed
next
  case (Cons n R)
  obtain Q where y: "thread_yield E s1 = Inr (s1\<lparr>ready_list := Q, current_thread := Some n\<rparr>)"
    and ok': "sched_ok E (s1\<lparr>ready_list := Q, current_thread := Some n\<rparr>) (v1\<lparr>v_ready := R @ running (tcbs s1) (Some t)\<rparr>)"
    using yield_ok [OF ok t Cons] by blast
  let ?s = "s1\<lparr>ready_list := Q, current_thread := Some n\<rparr>" and ?v = "v1\<lparr>v_ready := R @ running (tcbs s1) (Some t)\<rparr>"
  have "stat (tcbs s1) n = Some WORKING" using sched_parts(2) [OF ok] Cons by (simp add: status_ok_def)
  then have "sched_inv E ?s ?v" using ok' d by (simp add: sched_inv_def)
  moreover have "eff t s v ?s ?v" by (rule eff_frame [OF e]) (simp_all add: all_infos_def)
  moreover have "pend m t ?s ?v = pend m t s1 v1" "owns m t ?s = owns m t s1" for m
    by (simp_all add: pend_def owns_def all_infos_def)
  ultimately have "step_ok E t c k s v ?s ?v" using tk by (simp add: step_ok_def)
  then show ?thesis unfolding y by (auto intro: return_ok)
qed

lemma self_call:
  assumes "sched_inv E s v" "current_thread s = Some t"
  shows "call_ok E t Self s v (exec E Self s)"
proof -
  obtain c where "tcbs s t = Some c" "ready s" using assms by (auto elim: sched_invD)
  then show ?thesis using assms by (auto simp: as_long_def thread_self_def intro: return_same)
qed

lemma create_call:
  assumes inv: "sched_inv E s v" and t: "current_thread s = Some t" and E: "clean_env E" and c: "valid E s (Create w i)"
  shows "call_ok E t (Create w i) s v (exec E (Create w i) s)"
proof -
  have ok: "sched_ok E s v" using inv by (simp add: sched_inv_def)
  obtain tab where tab: "all_threads s = Some tab" using ok by (auto simp: sched_ok_def table_rep_def)
  have mx: "tab_max_id tab + 1 \<noteq> 0" and fs: "e_stack E (hbrk s) \<notin> stacks s" using c tab by simp_all
  obtain s' R where s': "thread_create E w i s = Inr (tab_max_id tab, s')"
    "sched_ok E s' (v\<lparr>v_table := (Suc (hbrk s), tab_max_id tab, hbrk s) # v_table v, v_ready := v_ready v @ [hbrk s]\<rparr>)"
    "current_thread s' = Some t" "next_to_destroy s' = next_to_destroy s" "tcbs s' = (tcbs s)(hbrk s \<mapsto> R)"
    "mutex_mem s' = mutex_mem s" "infos s' = infos s"
    using create_ok [OF ok E tab mx t fs, of w i] by blast
  let ?v = "v\<lparr>v_table := (Suc (hbrk s), tab_max_id tab, hbrk s) # v_table v, v_ready := v_ready v @ [hbrk s]\<rparr>"
  have fresh: "hbrk s \<notin> dom (tcbs s)" using dom_bound [OF ok] by auto
  have "t \<noteq> hbrk s" using inv t fresh by (auto simp: sched_inv_def stat_Some)
  then have i: "sched_inv E s' ?v" using inv s' t by (simp add: sched_inv_def stat_def)
  have "hbrk s < hbrk s'" using dom_bound [OF s'(2)] s'(5) by auto
  then have "eff t s v s' ?v" using s' fresh unfolding eff_def
    by (auto simp: pend_def owns_def all_infos_def)
  then have "step_ok E t (Create w i) (sint (tab_max_id tab)) s v s' ?v" using i by (simp add: step_ok_def)
  then show ?thesis using s'(1) by (simp add: as_long_def return_ok)
qed

lemma yield_call:
  assumes inv: "sched_inv E s v" and t: "current_thread s = Some t"
  shows "call_ok E t Yield s v (exec E Yield s)"
proof -
  have ok: "sched_ok E s v" and d: "v_done v = done_list (next_to_destroy s)" using inv by (simp_all add: sched_inv_def)
  show ?thesis using yield_finish [OF ok d t eff_refl, of 0 Yield] stuck_if [OF ok] by (simp add: no_value_def)
qed

lemma join_exec:
  assumes ok: "sched_ok E s v" and t: "current_thread s = Some t" "tcbs s t = Some c" "tcb_status c = WORKING"
    and g: "get_tcb_by_id s (all_threads s) i = Inr (Some u)" and u: "tcbs s u = Some uc" "tcb_tid uc = i" "u \<noteq> t"
    and w: "tcb_status uc \<noteq> DONE" "tcb_observer uc = None"
  shows "thread_join E i s = (if (t, u) \<in> (set (v_joins v))\<^sup>* then Inr (-1, s)
     else bindR (thread_yield E (join_state s t u)) (\<lambda>s. Inr (0, s)))"
proof -
  let ?s = "join_state s t u"
  have "map_of (v_joins v) u = None" using sched_parts(5) [OF ok] u w by (simp add: joins_ok_def)
  then have det: "detect_deadlock ?s = Inr (if (t, u) \<in> (set (v_joins v))\<^sup>* then 1 else 0)"
    by (intro detect_spec [OF ok t(1)]) (use t u in auto)
  have s1: "s\<lparr>tcbs := (tcbs s)(t \<mapsto> c\<lparr>tcb_status := WAITING\<rparr>, u \<mapsto> uc\<lparr>tcb_observer := Some t\<rparr>)\<rparr> = ?s"
    using t u by (simp add: join_state_def)
  have cur: "current_thread ?s = Some t" using t by (simp add: join_state_def)
  have ni: "tcb_tid c \<noteq> i" using tid_inj [OF ok u(1) t(2)] u by auto
  have rd: "ready s" by (rule sched_ready [OF ok])
  show ?thesis
  proof (cases "(t, u) \<in> (set (v_joins v))\<^sup>*")
    case True
    have cc: "c\<lparr>tcb_status := WORKING\<rparr> = c" using t(3) by (cases c) simp
    have uu: "uc\<lparr>tcb_observer := None\<rparr> = uc" using w(2) by (cases uc) simp
    have fin: "(tcbs s)(t \<mapsto> c, u \<mapsto> uc\<lparr>tcb_observer := None\<rparr>) = tcbs s"
      unfolding uu using t(2) u(1) by auto
    have det': "detect_deadlock (s\<lparr>tcbs := (tcbs s)(t \<mapsto> c\<lparr>tcb_status := WAITING\<rparr>, u \<mapsto> uc\<lparr>tcb_observer := Some t\<rparr>)\<rparr>) = Inr 1"
      using det True unfolding s1 by simp
    have "thread_join E i s = Inr (-1, s)"
      using t(1,2) g u w det' cc fin ni rd
      by (simp add: thread_join_def set_status_def set_observer_def)
    then show ?thesis using True by simp
  next
    case False
    have "thread_join E i s = bindR (thread_yield E ?s) (\<lambda>s. Inr (0, s))"
      using t g u w det False s1 cur ni rd
      by (simp add: thread_join_def set_status_def set_observer_def)
    then show ?thesis using False by simp
  qed
qed

lemma join_call:
  assumes inv: "sched_inv E s v" and t: "current_thread s = Some t"
  shows "call_ok E t (Join i) s v (exec E (Join i) s)"
proof -
  have ok: "sched_ok E s v" and d: "v_done v = done_list (next_to_destroy s)" using inv by (simp_all add: sched_inv_def)
  obtain c where c: "tcbs s t = Some c" "tcb_status c = WORKING" "ready s" using inv t by (auto elim: sched_invD)
  have st: "stat (tcbs s) t = Some WORKING" using c by (simp add: stat_def)
  have tab: "table_rep s (all_threads s) (v_table v)" using ok by (simp add: sched_ok_def)
  note g = get_tcb_by_id_rep [OF tab, of i]
  show ?thesis
  proof (cases "tcb_tid c = i \<or> map_of (map snd (v_table v)) i = None")
    case True
    then have "exec E (Join i) s = Inr (if tcb_tid c = i then -1 else -3, s)"
      using c t g by (auto simp: thread_join_def)
    then show ?thesis using return_same [OF inv, of _ "Join i"] by simp
  next
    case False
    then obtain u where u: "map_of (map snd (v_table v)) i = Some u" by auto
    then obtain e where e: "e \<in> set (v_table v)" "e_id e = i" "e_tcb e = u"
      using map_of_SomeD by fastforce
    then obtain uc where uc: "tcbs s u = Some uc" "tcb_tid uc = i"
      using tab unfolding table_rep_def linked_def by fastforce
    have ut: "u \<noteq> t" using False uc c by auto
    have ob: "tcb_observer uc = map_of (v_joins v) u" using sched_parts(5) [OF ok] uc by (simp add: joins_ok_def)
    consider (fin) "tcb_status uc = DONE" | (busy) "tcb_status uc \<noteq> DONE" "tcb_observer uc \<noteq> None"
      | (wait) "tcb_status uc \<noteq> DONE" "tcb_observer uc = None" by blast
    then show ?thesis
    proof cases
      case fin
      then have "exec E (Join i) s = bindR (thread_yield E s) (\<lambda>s. Inr (0, s))"
        using c t g u uc False by (simp add: thread_join_def)
      then show ?thesis using yield_finish [OF ok d t eff_refl, of 0 "Join i"] stuck_if [OF ok] by simp
    next
      case busy
      then have "exec E (Join i) s = Inr (-2, s)" using c t g u uc False by (simp add: thread_join_def)
      then show ?thesis using return_same [OF inv, of _ "Join i"] by simp
    next
      case wait
      let ?s = "join_state s t u" and ?v = "v\<lparr>v_joins := (u, t) # v_joins v\<rparr>"
      have gu: "get_tcb_by_id s (all_threads s) i = Inr (Some u)" using g u by simp
      note je = join_exec [OF ok t c(1,2) gu uc ut wait]
      have cur: "current_thread ?s = Some t" using t by (simp add: join_state_def)
      show ?thesis
      proof (cases "(t, u) \<in> (set (v_joins v))\<^sup>*")
        case True
        then show ?thesis using je return_same [OF inv, of _ "Join i"] by simp
      next
        case False
        have x: "exec E (Join i) s = bindR (thread_yield E ?s) (\<lambda>s. Inr (0, s))" using je False by simp
        have ok': "sched_ok E ?s ?v"
          by (rule join_state_ok [OF ok t st uc(1) _ ut _ False]) (use wait ob in simp_all)
        have "eff t s v ?s ?v" using c uc
          unfolding eff_def join_state_def by (auto simp: pend_def owns_def all_infos_def)
        then show ?thesis unfolding x using yield_finish [OF ok' _ cur, where k = 0 and c = "Join i" and s = s and v = v]
            d stuck_if [OF ok]
          by (simp add: join_state_def)
      qed
    qed
  qed
qed

lemma mutex_init_call:
  assumes inv: "sched_inv E s v" and t: "current_thread s = Some t" and E: "clean_env E" and c: "valid E s (MutexInit p)"
  shows "call_ok E t (MutexInit p) s v (exec E (MutexInit p) s)"
proof (cases p)
  case None
  have "ready s" using inv by (auto elim: sched_invD)
  then have "exec E (MutexInit p) s = Inr (0, s)" by (simp add: None thread_mutex_init_def)
  then show ?thesis using return_same [OF inv, of 0 "MutexInit p"] by simp
next
  case (Some m)
  then obtain mx where mx: "mutex_mem s m = Some mx" "mx_q mx = None" using c by (auto split: option.splits)
  have ok: "sched_ok E s v" using inv by (simp add: sched_inv_def)
  have "e_ok E" using E by (simp add: clean_env_def)
  from mutex_init_ok [OF ok this mx] obtain Q Q' where
    r: "thread_mutex_init E (Some m) s = Inr (1, s\<lparr>mutex_mem := (mutex_mem s)(m \<mapsto> mx\<lparr>mx_locked := False, mx_owner := -1, mx_q := Q\<rparr>),
        mutexes := Q'\<rparr>)"
    and ok': "sched_ok E (s\<lparr>mutex_mem := (mutex_mem s)(m \<mapsto> mx\<lparr>mx_locked := False, mx_owner := -1, mx_q := Q\<rparr>),
        mutexes := Q'\<rparr>) (v\<lparr>v_mutexes := v_mutexes v @ [m], v_waits := (v_waits v)(m := [])\<rparr>)"
    by (auto simp: Let_def)
  have "m \<notin> set (v_mutexes v)" using sched_mutex [OF ok, of m] mx by (auto simp: qrep_def)
  then have "step_ok E t (MutexInit p) 1 s v (s\<lparr>mutex_mem := (mutex_mem s)(m \<mapsto> mx\<lparr>mx_locked := False, mx_owner := -1, mx_q := Q\<rparr>),
        mutexes := Q'\<rparr>) (v\<lparr>v_mutexes := v_mutexes v @ [m], v_waits := (v_waits v)(m := [])\<rparr>)"
    using inv ok' by (auto simp: step_ok_def sched_inv_def eff_def pend_def owns_def all_infos_def)
  then show ?thesis using r by (simp add: Some return_ok)
qed

lemma cond_init_call:
  assumes inv: "sched_inv E s v" and t: "current_thread s = Some t" and E: "clean_env E" and c: "valid E s (CondInit p)"
  shows "call_ok E t (CondInit p) s v (exec E (CondInit p) s)"
proof (cases p)
  case None
  have "ready s" using inv by (auto elim: sched_invD)
  then have "exec E (CondInit p) s = Inr (0, s)" by (simp add: None thread_cond_init_def)
  then show ?thesis using return_same [OF inv, of 0 "CondInit p"] by simp
next
  case (Some a)
  then obtain cv where cv: "cond_mem s a = Some cv" "cv_q cv = None" using c by (auto split: option.splits)
  have ok: "sched_ok E s v" using inv by (simp add: sched_inv_def)
  have "e_ok E" using E by (simp add: clean_env_def)
  from cond_init_ok [OF ok this cv] obtain Q Q' where
    r: "thread_cond_init E (Some a) s = Inr (1, s\<lparr>cond_mem := (cond_mem s)(a \<mapsto> cv\<lparr>cv_q := Q\<rparr>), conds := Q'\<rparr>)"
    and ok': "sched_ok E (s\<lparr>cond_mem := (cond_mem s)(a \<mapsto> cv\<lparr>cv_q := Q\<rparr>), conds := Q'\<rparr>)
        (v\<lparr>v_conds := v_conds v @ [a], v_infos := (v_infos v)(a := [])\<rparr>)"
    by (auto simp: Let_def)
  have n: "a \<notin> set (v_conds v)" using sched_cond [OF ok, of a] cv by (auto simp: qrep_def)
  have "all_infos (v\<lparr>v_conds := v_conds v @ [a], v_infos := (v_infos v)(a := [])\<rparr>) = all_infos v"
    using n by (simp del: fun_upd_apply add: all_infos_def concat_map_fresh fun_upd_same)
  then have "step_ok E t (CondInit p) 1 s v (s\<lparr>cond_mem := (cond_mem s)(a \<mapsto> cv\<lparr>cv_q := Q\<rparr>), conds := Q'\<rparr>)
        (v\<lparr>v_conds := v_conds v @ [a], v_infos := (v_infos v)(a := [])\<rparr>)"
    using inv ok' by (auto simp: step_ok_def sched_inv_def eff_def pend_def owns_def)
  then show ?thesis using r by (simp add: Some return_ok)
qed

lemma valid_mutex:
  assumes ok: "sched_ok E s v" and m: "mutex_ready s (Some m)"
  obtains mx where "m \<in> set (v_mutexes v)" "mutex_mem s m = Some mx"
proof -
  obtain mx where mx: "mutex_mem s m = Some mx" "mx_q mx \<noteq> None"
    using m by (auto simp: mutex_ready_def split: option.splits)
  then have "m \<in> set (v_mutexes v)" using sched_parts(1) [OF ok] unfolding queues_ok_def by meson
  then show ?thesis using that mx by blast
qed

lemma valid_cond:
  assumes ok: "sched_ok E s v" and c: "cond_ready s (Some c)"
  shows "c \<in> set (v_conds v)"
proof -
  obtain cv where cv: "cond_mem s c = Some cv" "cv_q cv \<noteq> None"
    using c by (auto simp: cond_ready_def split: option.splits)
  then show "c \<in> set (v_conds v)" using sched_parts(1) [OF ok] unfolding queues_ok_def by meson
qed

lemma lock_call:
  assumes inv: "sched_inv E s v" and t: "current_thread s = Some t" and c: "valid E s (Lock p)"
  shows "call_ok E t (Lock p) s v (exec E (Lock p) s)"
proof (cases p)
  case None
  then show ?thesis using return_same [OF inv, of 0 "Lock p"] by (simp add: thread_mutex_lock_def)
next
  case (Some m)
  have ok: "sched_ok E s v" and d: "v_done v = done_list (next_to_destroy s)" using inv by (simp_all add: sched_inv_def)
  obtain k where k: "tcbs s t = Some k" "tcb_status k = WORKING" "ready s" using inv t by (auto elim: sched_invD)
  obtain mx where m: "m \<in> set (v_mutexes v)" "mutex_mem s m = Some mx"
    using valid_mutex [OF ok] c Some by auto
  consider (free) "\<not> mx_locked mx" | (mine) "mx_locked mx" "mx_owner mx = tcb_tid k"
    | (busy) "mx_locked mx" "mx_owner mx \<noteq> tcb_tid k" by blast
  then show ?thesis
  proof cases
    case free
    let ?s = "s\<lparr>mutex_mem := (mutex_mem s)(m \<mapsto> mx\<lparr>mx_locked := True, mx_owner := tcb_tid k\<rparr>)\<rparr>"
    have l: "thread_mutex_lock E (Some m) s = Inr (1, ?s)" "sched_ok E ?s v"
      using lock_free [OF ok t k(1) m free] by blast+
    have "step_ok E t (Lock p) 1 s v ?s v"
      using inv l(2) k t m free Some by (auto simp: step_ok_def sched_inv_def eff_def pend_def owns_def)
    then show ?thesis using l(1) by (simp add: Some return_ok)
  next
    case mine
    then have "exec E (Lock p) s = Inr (0, s)"
      using k m t by (simp add: Some thread_mutex_lock_def get_cell_def thread_self_def)
    then show ?thesis using return_same [OF inv, of 0 "Lock p"] by simp
  next
    case busy
    let ?s0 = "s\<lparr>tcbs := (tcbs s)(t \<mapsto> k\<lparr>tcb_status := WAITING\<rparr>)\<rparr>"
    let ?v = "v\<lparr>v_waits := (v_waits v)(m := v_waits v m @ [t])\<rparr>"
    obtain Q where Q: "push_mutex m t ?s0 = Inr (?s0\<lparr>mutex_mem := (mutex_mem s)(m \<mapsto> mx\<lparr>mx_q := Q\<rparr>)\<rparr>)"
      and ok': "sched_ok E (?s0\<lparr>mutex_mem := (mutex_mem s)(m \<mapsto> mx\<lparr>mx_q := Q\<rparr>)\<rparr>) ?v"
      using block_mutex [OF ok t k(1,2) m busy(1)] by blast
    let ?s = "?s0\<lparr>mutex_mem := (mutex_mem s)(m \<mapsto> mx\<lparr>mx_q := Q\<rparr>)\<rparr>"
    have x: "exec E (Lock p) s = bindR (thread_yield E ?s) (\<lambda>s. Inr (1, s))"
      using k m t busy Q by (simp add: Some thread_mutex_lock_def get_cell_def thread_self_def set_status_def)
    have e: "eff t s v ?s ?v" using k m by (auto simp: eff_def pend_def owns_def all_infos_def)
    show ?thesis unfolding x
      by (rule yield_finish [OF ok' _ _ e])
        (use d t m stuck_if [OF ok] in \<open>auto simp: Some pend_def\<close>)
  qed
qed

text \<open>What \<open>thread_mutex_unlock\<close> does when it releases the mutex.\<close>

lemma unlock_spec:
  assumes inv: "sched_inv E s v" and t: "current_thread s = Some t" "tcbs s t = Some k"
    and m: "m \<in> set (v_mutexes v)" "mutex_mem s m = Some mx" "mx_locked mx" "mx_owner mx = tcb_tid k"
  shows "\<exists>s' v'. thread_mutex_unlock E (Some m) s = Inr (1, s') \<and> sched_inv E s' v' \<and> eff t s v s' v' \<and>
    current_thread s' = Some t \<and> tcbs s' t = Some k \<and> v_mutexes v' = v_mutexes v \<and> v_conds v' = v_conds v \<and>
    (v_ready v' = [] \<longrightarrow> v_ready v = [])"
proof -
  have ok: "sched_ok E s v" using inv by (simp add: sched_inv_def)
  have w: "tcb_status k = WORKING" using inv t by (simp add: sched_inv_def stat_def)
  have own: "tcb_tid k \<noteq> tcb_tid kx" if "tcbs s x = Some kx" "x \<noteq> t" for x kx
    using tid_inj [OF ok that(1) t(2)] that(2) by metis
  show ?thesis
  proof (cases "v_waits v m")
    case Nil
    let ?s = "s\<lparr>mutex_mem := (mutex_mem s)(m \<mapsto> mx\<lparr>mx_locked := False, mx_owner := tcb_tid k\<rparr>)\<rparr>"
    have u: "thread_mutex_unlock E (Some m) s = Inr (1, ?s)" "sched_ok E ?s v"
      using unlock_free [OF ok t w m Nil] by blast+
    have "eff t s v ?s v" using m by (auto simp: eff_def pend_def owns_def dest: own)
    then show ?thesis using u inv t by (intro exI [of _ ?s] exI [of _ v]) (simp add: sched_inv_def)
  next
    case (Cons n ws)
    have nw: "n \<in> set (waiting (infos s) v)" using mutex_waiting_mem [OF m(1)] Cons by simp
    then obtain nc where nc: "tcbs s n = Some nc" using waiting_in_places(1) [OF ok] by blast
    have nt: "n \<noteq> t" using waiting_in_places(2) [OF ok nw] inv t by (auto simp: sched_inv_def)
    let ?v = "v\<lparr>v_waits := (v_waits v)(m := ws), v_ready := v_ready v @ [n]\<rparr>"
    from unlock_pass [OF ok t w m Cons nc] obtain Q Q' where
      u: "thread_mutex_unlock E (Some m) s = Inr (1, s\<lparr>tcbs := (tcbs s)(n \<mapsto> nc\<lparr>tcb_status := WORKING\<rparr>),
        mutex_mem := (mutex_mem s)(m \<mapsto> mx\<lparr>mx_q := Q, mx_locked := True, mx_owner := tcb_tid nc\<rparr>), ready_list := Q'\<rparr>)"
      and ok': "sched_ok E (s\<lparr>tcbs := (tcbs s)(n \<mapsto> nc\<lparr>tcb_status := WORKING\<rparr>),
        mutex_mem := (mutex_mem s)(m \<mapsto> mx\<lparr>mx_q := Q, mx_locked := True, mx_owner := tcb_tid nc\<rparr>), ready_list := Q'\<rparr>) ?v"
      by (auto simp: Let_def)
    let ?s = "s\<lparr>tcbs := (tcbs s)(n \<mapsto> nc\<lparr>tcb_status := WORKING\<rparr>),
        mutex_mem := (mutex_mem s)(m \<mapsto> mx\<lparr>mx_q := Q, mx_locked := True, mx_owner := tcb_tid nc\<rparr>), ready_list := Q'\<rparr>"
    have "eff t s v ?s ?v" using m nc Cons by (auto simp: eff_def pend_def owns_def all_infos_def dest: own)
    then show ?thesis using u ok' inv t nt by (intro exI [of _ ?s] exI [of _ ?v]) (auto simp: sched_inv_def stat_def)
  qed
qed

lemma unlock_call:
  assumes inv: "sched_inv E s v" and t: "current_thread s = Some t" and c: "valid E s (Unlock p)"
  shows "call_ok E t (Unlock p) s v (exec E (Unlock p) s)"
proof (cases p)
  case None
  then show ?thesis using return_same [OF inv, of 0 "Unlock p"] by (simp add: thread_mutex_unlock_def)
next
  case (Some m)
  have ok: "sched_ok E s v" using inv by (simp add: sched_inv_def)
  obtain k where k: "tcbs s t = Some k" "ready s" using inv t by (auto elim: sched_invD)
  obtain mx where m: "m \<in> set (v_mutexes v)" "mutex_mem s m = Some mx"
    using valid_mutex [OF ok] c Some by auto
  show ?thesis
  proof (cases "mx_locked mx \<and> mx_owner mx = tcb_tid k")
    case True
    then obtain s' v' where "thread_mutex_unlock E (Some m) s = Inr (1, s')" "sched_inv E s' v'" "eff t s v s' v'"
      using unlock_spec [OF inv t k(1) m] by blast
    then show ?thesis by (auto simp: Some step_ok_def intro!: return_ok)
  next
    case False
    then have "exec E (Unlock p) s = Inr (0, s)"
      using k m t by (auto simp: Some thread_mutex_unlock_def get_cell_def thread_self_def)
    then show ?thesis using return_same [OF inv, of 0 "Unlock p"] by simp
  qed
qed

lemma all_infos_push:
  assumes "sched_ok E s v" "c \<in> set (v_conds v)"
  shows "set (all_infos (v\<lparr>v_infos := (v_infos v)(c := v_infos v c @ [i])\<rparr>)) = insert i (set (all_infos v))"
proof -
  have "distinct (v_conds v)" using sched_parts(1) [OF assms(1)] by (simp add: queues_ok_def)
  from waiting_upd_cond(2) [OF this assms(2), of "v_infos v c @ [i]"]
  have "mset (all_infos (v\<lparr>v_infos := (v_infos v)(c := v_infos v c @ [i])\<rparr>)) = add_mset i (mset (all_infos v))" by simp
  then show ?thesis by (metis set_mset_add_mset_insert set_mset_mset)
qed

lemma wait_call:
  assumes inv: "sched_inv E s v" and t: "current_thread s = Some t" and c: "valid E s (Wait p q)"
  shows "call_ok E t (Wait p q) s v (exec E (Wait p q) s)"
proof (cases "p = None \<or> q = None")
  case True
  then have "exec E (Wait p q) s = Inr (0, s)" by (auto simp: thread_cond_wait_def split: option.splits)
  then show ?thesis using return_same [OF inv, of 0 "Wait p q"] by simp
next
  case False
  then obtain a m where pq: "p = Some a" "q = Some m" by auto
  have ok: "sched_ok E s v" using inv by (simp add: sched_inv_def)
  obtain k where k: "tcbs s t = Some k" "tcb_status k = WORKING" using inv t by (auto elim: sched_invD)
  obtain mx where m: "m \<in> set (v_mutexes v)" "mutex_mem s m = Some mx"
    using valid_mutex [OF ok] c pq by auto
  have a: "a \<in> set (v_conds v)" using valid_cond [OF ok] c pq by auto
  show ?thesis
  proof (cases "mx_locked mx \<and> mx_owner mx = tcb_tid k")
    case False
    then have "exec E (Wait p q) s = Inr (0, s)"
      using k m t by (auto simp: pq thread_cond_wait_def get_cell_def)
    then show ?thesis using return_same [OF inv, of 0 "Wait p q"] by simp
  next
    case True
    then obtain s1 v1 where u: "thread_mutex_unlock E (Some m) s = Inr (1, s1)" "sched_inv E s1 v1" "eff t s v s1 v1"
        "current_thread s1 = Some t" "tcbs s1 t = Some k" "v_mutexes v1 = v_mutexes v" "v_conds v1 = v_conds v"
        "v_ready v1 = [] \<longrightarrow> v_ready v = []"
      using unlock_spec [OF inv t k(1) m] by blast
    have ok1: "sched_ok E s1 v1" and d1: "v_done v1 = done_list (next_to_destroy s1)"
      using u(2) by (simp_all add: sched_inv_def)
    let ?i = "hbrk s1"
    let ?s1 = "s1\<lparr>tcbs := (tcbs s1)(t \<mapsto> k\<lparr>tcb_status := WAITING\<rparr>),
        infos := (infos s1)(?i \<mapsto> \<lparr>ci_thread = t, ci_mutex = m\<rparr>), hbrk := Suc ?i\<rparr>"
    let ?v = "v1\<lparr>v_infos := (v_infos v1)(a := v_infos v1 a @ [?i])\<rparr>"
    from block_cond [OF ok1 u(4,5) k(2), of m a] obtain cv Q where
      b: "push_cond a ?i ?s1 = Inr (?s1\<lparr>cond_mem := (cond_mem s1)(a \<mapsto> cv\<lparr>cv_q := Q\<rparr>)\<rparr>)"
      and ok2: "sched_ok E (?s1\<lparr>cond_mem := (cond_mem s1)(a \<mapsto> cv\<lparr>cv_q := Q\<rparr>)\<rparr>) ?v"
      using m(1) a u(6,7) by (auto simp: Let_def)
    let ?s = "?s1\<lparr>cond_mem := (cond_mem s1)(a \<mapsto> cv\<lparr>cv_q := Q\<rparr>)\<rparr>"
    have x: "exec E (Wait p q) s = bindR (thread_yield E ?s) (\<lambda>s. Inr (1, s))"
      using k m t True u(1,4,5) b by (simp add: pq thread_cond_wait_def get_cell_def set_status_def Let_def)
    have ai: "set (all_infos ?v) = insert ?i (set (all_infos v1))"
      by (rule all_infos_push [OF ok1]) (use a u(7) in simp)
    have "set (all_infos v1) \<subseteq> dom (infos s1)" using sched_parts(3) [OF ok1] by (auto simp: mutexes_ok_def)
    then have ni: "j \<noteq> ?i" if "j \<in> set (all_infos v1)" for j using that infos_bound [OF ok1] by blast
    have "pend m' y s1 v1 \<Longrightarrow> pend m' y ?s ?v" for m' y
      unfolding pend_def ai using ni by auto
    then have e1: "eff t s1 v1 ?s ?v" using u(5) by (auto simp: eff_def owns_def)
    have e: "eff t s v ?s ?v"
      by (rule eff_trans [OF _ u(3) e1]) (use dom_bound [OF ok] in auto)
    have "pend m t ?s ?v" unfolding pend_def ai by simp
    then show ?thesis unfolding x
      by (intro yield_finish [OF ok2 _ _ e]) (use d1 u m stuck_if [OF ok] in \<open>auto simp: pq\<close>)
  qed
qed

lemma signal_call:
  assumes inv: "sched_inv E s v" and t: "current_thread s = Some t" and c: "valid E s (Signal p)"
  shows "call_ok E t (Signal p) s v (exec E (Signal p) s)"
proof (cases p)
  case None
  then show ?thesis using return_same [OF inv, of 0 "Signal p"] by (simp add: thread_cond_signal_def)
next
  case (Some a)
  have ok: "sched_ok E s v" using inv by (simp add: sched_inv_def)
  have st: "stat (tcbs s) t = Some WORKING" using inv t by (simp add: sched_inv_def)
  have a: "a \<in> set (v_conds v)" using valid_cond [OF ok] c Some by auto
  show ?thesis
  proof (cases "v_infos v a")
    case Nil
    then show ?thesis using signal_empty [OF ok a] return_same [OF inv, of 1 "Signal p"] by (simp add: Some)
  next
    case (Cons i "is")
    note p = pop_cond_facts [OF ok a Cons]
    obtain ci where ci: "infos s i = Some ci" using p(1) by blast
    have th: "info_thread (infos s) i = ci_thread ci" using ci by (simp add: info_thread_def)
    have wt: "stat (tcbs s) (ci_thread ci) = Some WAITING" using waiting_in_places(2) [OF ok p(5)] th by simp
    then obtain nc where nc: "tcbs s (ci_thread ci) = Some nc" by (auto simp: stat_Some)
    have nt: "ci_thread ci \<noteq> t" using wt st by auto
    have "ci_mutex ci \<in> set (v_mutexes v)" using p(2) ci by simp
    then obtain mx where mx: "mutex_mem s (ci_mutex ci) = Some mx" by (rule sched_mutex [OF ok])
    have ai: "set (all_infos v) = insert i (set (all_infos (v\<lparr>v_infos := (v_infos v)(a := is)\<rparr>)))"
      using p(4) by (metis set_mset_add_mset_insert set_mset_mset)
    show ?thesis
    proof (cases "mx_locked mx")
      case False
      let ?v = "v\<lparr>v_infos := (v_infos v)(a := is), v_ready := v_ready v @ [ci_thread ci]\<rparr>"
      from signal_wake [OF ok t st a Cons ci nc mx False] obtain cv Q Q' s' where
        s': "s' = s\<lparr>cond_mem := (cond_mem s)(a \<mapsto> cv\<lparr>cv_q := Q\<rparr>),
          mutex_mem := (mutex_mem s)(ci_mutex ci \<mapsto> mx\<lparr>mx_locked := True, mx_owner := tcb_tid nc\<rparr>),
          tcbs := (tcbs s)(ci_thread ci \<mapsto> nc\<lparr>tcb_status := WORKING\<rparr>), ready_list := Q'\<rparr>"
        and r: "thread_cond_signal (Some a) s = Inr (1, s')" "sched_ok E s' ?v"
        by (auto simp: Let_def)
      have ai': "all_infos ?v = all_infos (v\<lparr>v_infos := (v_infos v)(a := is)\<rparr>)" by (simp add: all_infos_def)
      have "pend m x s v \<Longrightarrow> pend m x s' ?v \<or> owns m x s'" for m x
        unfolding pend_def ai ai' using ci nc by (auto simp: s' owns_def)
      moreover have "owns m x s \<Longrightarrow> owns m x s'" for m x using mx False nc by (auto simp: s' owns_def)
      ultimately have "eff t s v s' ?v" using nc by (auto simp: eff_def s')
      then have "step_ok E t (Signal p) 1 s v s' ?v"
        using inv r(2) t nt by (auto simp: step_ok_def sched_inv_def s')
      then show ?thesis using r(1) by (simp add: Some return_ok)
    next
      case True
      let ?v = "v\<lparr>v_infos := (v_infos v)(a := is),
        v_waits := (v_waits v)(ci_mutex ci := v_waits v (ci_mutex ci) @ [ci_thread ci])\<rparr>"
      from signal_queue [OF ok t st a Cons ci mx True] obtain cv Q Q' s' where
        s': "s' = s\<lparr>cond_mem := (cond_mem s)(a \<mapsto> cv\<lparr>cv_q := Q\<rparr>),
          mutex_mem := (mutex_mem s)(ci_mutex ci \<mapsto> mx\<lparr>mx_q := Q'\<rparr>)\<rparr>"
        and r: "thread_cond_signal (Some a) s = Inr (1, s')" "sched_ok E s' ?v"
        by (auto simp: Let_def)
      have ai': "all_infos ?v = all_infos (v\<lparr>v_infos := (v_infos v)(a := is)\<rparr>)" by (simp add: all_infos_def)
      have "pend m x s v \<Longrightarrow> pend m x s' ?v" for m x
        unfolding pend_def ai ai' using ci by (auto simp: s')
      moreover have "owns m x s \<Longrightarrow> owns m x s'" for m x using mx by (auto simp: s' owns_def)
      ultimately have "eff t s v s' ?v" by (auto simp: eff_def s')
      then have "step_ok E t (Signal p) 1 s v s' ?v"
        using inv r(2) by (auto simp: step_ok_def sched_inv_def s')
      then show ?thesis using r(1) by (simp add: Some return_ok)
    qed
  qed
qed

lemma sched_ok_next: "sched_ok E s v \<Longrightarrow> sched_ok E (s\<lparr>next_to_destroy := d\<rparr>) v"
  by (rule sched_queues)
    (use infos_bound [of E s v] sched_parts [of E s v] in
      \<open>simp_all add: queues_ok_def places_def status_ok_def mutexes_ok_def\<close>)

lemma terminate_exec:
  assumes inv: "sched_inv E s v" and t: "current_thread s = Some t" and E: "clean_env E"
  shows "\<exists>s2 v2. exec E Terminate s = bindR (thread_yield E (s2\<lparr>next_to_destroy := Some t\<rparr>)) (\<lambda>s. Inr (0, s)) \<and>
    sched_ok E s2 v2 \<and> v_done v2 = [t] \<and> current_thread s2 = Some t \<and> (v_ready v2 = [] \<longrightarrow> v_ready v = []) \<and>
    eff t s v s2 v2 \<and> tcbs s2 = (case next_to_destroy s of None \<Rightarrow> wake_observer s t
      | Some d \<Rightarrow> (wake_observer s t)(d := None))"
proof -
  have ok: "sched_ok E s v" and d: "v_done v = done_list (next_to_destroy s)" using inv by (simp_all add: sched_inv_def)
  obtain k where k: "tcbs s t = Some k" "tcb_status k = WORKING" using inv t by (auto elim: sched_invD)
  have st: "stat (tcbs s) t = Some WORKING" using k by (simp add: stat_def)
  let ?v1 = "v\<lparr>v_joins := filter (\<lambda>p. fst p \<noteq> t) (v_joins v), v_done := v_done v @ [t],
      v_ready := v_ready v @ (case tcb_observer k of None \<Rightarrow> [] | Some w \<Rightarrow> [w])\<rparr>"
  from die_ok [OF ok t k] obtain Q s1 where s1: "s1 = s\<lparr>ready_list := Q, tcbs := wake_observer s t\<rparr>"
    and tm: "thread_terminate E s = bindR (destroy_thread (next_to_destroy s) s1)
      (\<lambda>s. thread_yield E (s\<lparr>next_to_destroy := current_thread s\<rparr>))"
    and ok1: "sched_ok E s1 ?v1" by (auto simp: Let_def)
  have "tcb_observer k = Some w \<Longrightarrow> tcbs s w \<noteq> None" for w
  proof -
    assume "tcb_observer k = Some w"
    then have "(t, w) \<in> set (v_joins v)" using sched_parts(5) [OF ok] k by (auto simp: joins_ok_def dest: map_of_SomeD)
    then show "tcbs s w \<noteq> None" using joins_in_dom(2) [OF ok] by blast
  qed
  then have tid: "tcbs s1 x = None \<and> tcbs s x = None \<or>
      (\<exists>c c'. tcbs s x = Some c \<and> tcbs s1 x = Some c' \<and> tcb_tid c' = tcb_tid c)" for x
    using k by (auto simp: s1 wake_observer_def Let_def split: option.splits)
  have e1: "eff t s v s1 ?v1" unfolding eff_def
  proof (intro conjI ballI impI)
    fix x assume "x \<in> dom (tcbs s1)"
    then show "x \<in> dom (tcbs s) \<or> hbrk s \<le> x" using tid [of x] by auto
  next
    fix m x assume "owns m x s"
    then show "owns m x s1" using tid [of x] by (auto simp: owns_def s1)
  qed (auto simp: s1 pend_def all_infos_def)
  obtain s2 v2 where x: "destroy_thread (next_to_destroy s) s1 = Inr s2" and ok2: "sched_ok E s2 v2"
    and v2: "v_done v2 = [t]" "current_thread s2 = Some t" "v_ready v2 = [] \<Longrightarrow> v_ready v = []" and e2: "eff t s v s2 v2"
    and ts: "tcbs s2 = (case next_to_destroy s of None \<Rightarrow> wake_observer s t | Some d \<Rightarrow> (wake_observer s t)(d := None))"
  proof (cases "next_to_destroy s")
    case None
    then show ?thesis using that [of s1 ?v1] ok1 e1 t d by (simp add: destroy_thread_def s1 done_list_def)
  next
    case (Some dd)
    have dv: "v_done ?v1 = dd # [t]" using d Some by (simp add: done_list_def)
    have "stat (tcbs s) dd = Some DONE" using sched_parts(2) [OF ok] d Some by (simp add: status_ok_def done_list_def)
    then have "current_thread s1 \<noteq> Some dd" using st t by (auto simp: s1)
    from destroy_ok [OF ok1 dv this E] obtain s2 es where r: "destroy_thread (Some dd) s1 = Inr s2"
        "sched_ok E s2 (?v1\<lparr>v_table := es, v_done := [t]\<rparr>)" "tcbs s2 = (tcbs s1)(dd := None)"
        "current_thread s2 = current_thread s1" "mutex_mem s2 = mutex_mem s1" "infos s2 = infos s1"
        "hbrk s2 = hbrk s1"
      by blast
    then have e3: "eff t s1 ?v1 s2 (?v1\<lparr>v_table := es, v_done := [t]\<rparr>)"
      using r by (auto simp: eff_def pend_def owns_def all_infos_def)
    have "eff t s v s2 (?v1\<lparr>v_table := es, v_done := [t]\<rparr>)"
      by (rule eff_trans [OF _ e1 e3]) (use dom_bound [OF ok] in auto)
    then show ?thesis using that [of s2 "?v1\<lparr>v_table := es, v_done := [t]\<rparr>"] r t Some by (simp add: s1)
  qed
  have y: "exec E Terminate s = bindR (thread_yield E (s2\<lparr>next_to_destroy := Some t\<rparr>)) (\<lambda>s. Inr (0, s))"
    using tm x v2 by (simp add: no_value_def)
  show ?thesis using y ok2 v2 e2 ts by blast
qed

lemma terminate_call:
  assumes inv: "sched_inv E s v" and t: "current_thread s = Some t" and E: "clean_env E"
  shows "call_ok E t Terminate s v (exec E Terminate s)"
proof -
  have ok: "sched_ok E s v" using inv by (simp add: sched_inv_def)
  obtain s2 v2 where y: "exec E Terminate s = bindR (thread_yield E (s2\<lparr>next_to_destroy := Some t\<rparr>)) (\<lambda>s. Inr (0, s))"
    and ok2: "sched_ok E s2 v2" and v2: "v_done v2 = [t]" "current_thread s2 = Some t" "v_ready v2 = [] \<longrightarrow> v_ready v = []"
    and e2: "eff t s v s2 v2"
    using terminate_exec [OF assms] by blast
  have "eff t s v (s2\<lparr>next_to_destroy := Some t\<rparr>) v2" by (rule eff_frame [OF e2]) simp_all
  then show ?thesis unfolding y
    by (intro yield_finish [OF sched_ok_next [OF ok2]]) (use v2 stuck_if [OF ok] in \<open>auto simp: done_list_def\<close>)
qed

lemma exec_ok:
  assumes "sched_inv E s v" "current_thread s = Some t" "clean_env E" "valid E s c"
  shows "call_ok E t c s v (exec E c s)"
proof (cases c)
  case Self
  then show ?thesis using self_call [OF assms(1,2)] by simp
next
  case (Create w i)
  then show ?thesis using create_call [OF assms(1-3)] assms(4) by blast
next
  case Yield
  then show ?thesis using yield_call [OF assms(1,2)] by simp
next
  case (Join i)
  then show ?thesis using join_call [OF assms(1,2)] by blast
next
  case (MutexInit p)
  then show ?thesis using mutex_init_call [OF assms(1-3)] assms(4) by blast
next
  case (Lock p)
  then show ?thesis using lock_call [OF assms(1,2)] assms(4) by blast
next
  case (Unlock p)
  then show ?thesis using unlock_call [OF assms(1,2)] assms(4) by blast
next
  case (CondInit p)
  then show ?thesis using cond_init_call [OF assms(1-3)] assms(4) by blast
next
  case (Wait p q)
  then show ?thesis using wait_call [OF assms(1,2)] assms(4) by blast
next
  case (Signal p)
  then show ?thesis using signal_call [OF assms(1,2)] assms(4) by blast
next
  case Terminate
  then show ?thesis using terminate_call [OF assms(1-3)] by simp
qed

end
