(* ===== verification/Thread_Props.thy ===== *)
theory Thread_Props
  imports Thread_System
begin

text \<open>
  The states a client can reach through the calls of the thread library, and what holds in each of
  them: no call faults, every thread is in one place, mutexes exclude, joins do not deadlock, and
  yields are served in turn.
\<close>

section \<open>Reachable states\<close>

text \<open>The state before the first call: nothing allocated, the client's variables not initialised.\<close>

definition fresh_lib :: "threads \<Rightarrow> bool" where
  "fresh_lib s \<longleftrightarrow> \<not> ready s \<and> tcbs s = (\<lambda>_. None) \<and> handles s = (\<lambda>_. None) \<and> infos s = (\<lambda>_. None) \<and>
     stacks s = {} \<and> next_to_destroy s = None \<and> (\<forall>m mx. mutex_mem s m = Some mx \<longrightarrow> mx_q mx = None) \<and>
     (\<forall>c cv. cond_mem s c = Some cv \<longrightarrow> cv_q cv = None)"

type_synonym history = "nat \<Rightarrow> (call \<times> int) option"

inductive reach :: "env \<Rightarrow> threads \<Rightarrow> history \<Rightarrow> bool" for E where
  start: "fresh_lib s0 \<Longrightarrow> init E s0 = Inr s \<Longrightarrow> reach E s (\<lambda>_. None)"
| call: "reach E s h \<Longrightarrow> current_thread s = Some t \<Longrightarrow> valid E s c \<Longrightarrow> exec E c s = Inr (r, s') \<Longrightarrow>
    reach E s' (h(t \<mapsto> (c, r)))"

lemma push_ready_empty:
  assumes "ready_list s = fst (init_queue True)"
  shows "\<exists>Q. bindR (push_ready a s) pop_ready = Inr (Some a, s\<lparr>ready_list := Q\<rparr>) \<and> qrep Q []"
proof -
  have "qrep (ready_list s) []" using assms fresh_queue by simp
  then obtain Q where Q: "push_ready a s = Inr (s\<lparr>ready_list := Q\<rparr>)" "qrep Q [a]"
    using push_ready_rep by fastforce
  obtain Q' where "pop_ready (s\<lparr>ready_list := Q\<rparr>) = Inr (Some a, (s\<lparr>ready_list := Q\<rparr>)\<lparr>ready_list := Q'\<rparr>)" "qrep Q' []"
    using pop_ready_rep [of "s\<lparr>ready_list := Q\<rparr>" a "[]"] Q(2) by auto
  then show ?thesis using Q(1) by (intro exI [of _ Q']) simp
qed

lemma acyclic_empty: "acyclic {}"
  by (simp add: acyclic_def)

lemma init_ok:
  assumes f: "fresh_lib s0" and E: "clean_env E"
  shows "\<exists>s v p c. init E s0 = Inr s \<and> sched_inv E s v \<and> current_thread s = Some p \<and> tcbs s = [p \<mapsto> c] \<and> tcb_tid c = 0 \<and>
    v_joins v = [] \<and> mutex_mem s = mutex_mem s0 \<and> cond_mem s = cond_mem s0 \<and>
    (\<exists>tab. all_threads s = Some tab \<and> tab_max_id tab = 1)"
proof -
  let ?a = "hbrk s0"
  define c where "c = (e_junk E ?a)\<lparr>tcb_status := WORKING, tcb_stack := 0\<rparr>"
  define tab where "tab = \<lparr>tab_head = None, tab_max_id = 0, tab_size = 0\<rparr>"
  have c: "tcb_handle c = None" "tcb_observer c = None" "tcb_status c = WORKING" "tcb_stack c = 0"
    using E by (simp_all add: c_def clean_env_def)
  define s1 where "s1 = s0\<lparr>ready_list := fst (init_queue True), all_threads := Some tab,
               mutexes := fst (init_queue True), conds := fst (init_queue True),
               tcbs := (tcbs s0)(?a \<mapsto> c), hbrk := Suc ?a\<rparr>"
  have "table_rep s1 (Some tab) []" using f
    by (simp add: table_rep_def linked_def s1_def tab_def fresh_lib_def)
  from put_tcb_rep [OF this, of ?a c] obtain m' t' where p: "put_tcb True s1 (Some tab) (Some ?a) = Inr (0, m', Some t')"
      "table_rep m' (Some t') [(Suc ?a, 0, ?a)]"
      "m' = s1\<lparr>tcbs := (tcbs s1)(?a \<mapsto> c\<lparr>tcb_tid := 0, tcb_handle := Some (Suc ?a)\<rparr>),
          handles := handles m', hbrk := Suc (Suc ?a)\<rparr>" "tab_max_id t' = 1"
    using c by (auto simp: s1_def tab_def)
  let ?c = "c\<lparr>tcb_tid := 0, tcb_handle := Some (Suc ?a)\<rparr>"
  have g: "tcbs m' = [?a \<mapsto> ?c]" "hbrk m' = Suc (Suc ?a)" "stacks m' = {}" "infos m' = (\<lambda>_. None)"
      "ready_list m' = fst (init_queue True)" "mutexes m' = fst (init_queue True)"
      "conds m' = fst (init_queue True)" "next_to_destroy m' = None" "mutex_mem m' = mutex_mem s0" "cond_mem m' = cond_mem s0"
    using f by (subst p(3), simp add: s1_def fresh_lib_def)+
  let ?s2 = "m'\<lparr>all_threads := Some t'\<rparr>"
  obtain Q where Q: "bindR (push_ready ?a ?s2) pop_ready = Inr (Some ?a, ?s2\<lparr>ready_list := Q\<rparr>)" "qrep Q []"
    using push_ready_empty [of ?s2 ?a] g by auto
  then obtain s3 where s3: "push_ready ?a ?s2 = Inr s3" "pop_ready s3 = Inr (Some ?a, ?s2\<lparr>ready_list := Q\<rparr>)" by auto
  let ?s = "?s2\<lparr>ready_list := Q, current_thread := Some ?a, parent_id := 0, ready := True\<rparr>"
  let ?v = "\<lparr>v_table = [(Suc ?a, 0, ?a)], v_ready = [], v_mutexes = [], v_conds = [], v_waits = (\<lambda>_. []),
    v_infos = (\<lambda>_. []), v_joins = [], v_done = []\<rparr>"
  have E': "e_ok E" using E by (simp add: clean_env_def)
  have "init E s0 = Inr ?s"
    using E' f p(1) s3 g
    by (simp add: init_def init_table_def alloc_tcb_def Let_def tab_def [symmetric] c_def [symmetric] s1_def [symmetric])
  moreover have "table_rep ?s (Some t') [(Suc ?a, 0, ?a)]" by (rule table_rep_frame [OF p(2)]) simp_all
  then have "sched_ok E ?s ?v"
    using f Q(2) fresh_queue c p(4) E acyclic_empty
    by (auto simp: sched_ok_def queues_ok_def places_def waiting_def mutex_waiting_def all_infos_def running_def
        status_ok_def joins_ok_def mutexes_ok_def heap_ok_def g stat_def fresh_lib_def created_def)
  then have "sched_inv E ?s ?v" using c by (simp add: sched_inv_def g done_list_def stat_def)
  ultimately show ?thesis using g p(4) by (intro exI [of _ ?s] exI [of _ ?v] exI [of _ ?a] exI [of _ ?c]) simp
qed


section \<open>Every reachable state\<close>

definition hist_ok :: "threads \<Rightarrow> history \<Rightarrow> view \<Rightarrow> bool" where
  "hist_ok s h v \<longleftrightarrow> (\<forall>x c r. h x = Some (c, r) \<longrightarrow> x < hbrk s \<and>
     (\<forall>m. x \<in> dom (tcbs s) \<longrightarrow> r = 1 \<longrightarrow> takes c m \<longrightarrow> m \<in> set (v_mutexes v) \<and> (pend m x s v \<or> owns m x s)))"

lemma hist_step:
  assumes inv: "sched_inv E s v" and h: "hist_ok s h v" and t: "current_thread s = Some t"
    and st: "step_ok E t c r s v s' v'"
  shows "hist_ok s' (h(t \<mapsto> (c, r))) v'"
  unfolding hist_ok_def
proof (intro allI impI conjI)
  have ok: "sched_ok E s v" using inv by (simp add: sched_inv_def)
  have e: "eff t s v s' v'" using st by (simp add: step_ok_def)
  have "t \<in> dom (tcbs s)" using inv t by (auto simp: sched_inv_def stat_Some)
  then have tb: "t < hbrk s" using dom_bound [OF ok] by blast
  fix x c' r' assume hx: "(h(t \<mapsto> (c, r))) x = Some (c', r')"
  have xb: "x < hbrk s" using hx tb h by (auto simp: hist_ok_def split: if_splits)
  then show "x < hbrk s'" using e by (simp add: eff_def)
  fix m assume x: "x \<in> dom (tcbs s')" and r: "r' = 1" and tk: "takes c' m"
  have xd: "x \<in> dom (tcbs s)" using x xb e by (force simp: eff_def)
  have *: "m \<in> set (v_mutexes v') \<and> (pend m x s' v' \<or> owns m x s')"
  proof (cases "x = t")
    case True
    then show ?thesis using hx st r tk by (simp add: step_ok_def)
  next
    case False
    then have "m \<in> set (v_mutexes v) \<and> (pend m x s v \<or> owns m x s)" using hx h xd r tk by (simp add: hist_ok_def)
    then show ?thesis using e False x xd unfolding eff_def by blast
  qed
  then show "m \<in> set (v_mutexes v')" "pend m x s' v' \<or> owns m x s'" by auto
qed

lemma reach_inv:
  assumes "reach E s h" "clean_env E"
  shows "\<exists>v. sched_inv E s v \<and> hist_ok s h v"
  using assms
proof (induction rule: reach.induct)
  case (start s0 s)
  then obtain v where "sched_inv E s v" using init_ok by fastforce
  then show ?case by (auto simp: hist_ok_def)
next
  case (call s h t c r s')
  then obtain v where v: "sched_inv E s v" "hist_ok s h v" by blast
  have "call_ok E t c s v (exec E c s)" by (rule exec_ok) (use v call in auto)
  then obtain v' where st: "step_ok E t c r s v s' v'" using call.hyps by (auto simp: call_ok_def)
  have "hist_ok s' (h(t \<mapsto> (c, r))) v'" by (rule hist_step [OF v call.hyps(2) st])
  then show ?case using st unfolding step_ok_def by blast
qed

text \<open>Runs of a client that keeps the rules, from an environment and a library to start with.\<close>

fun run_calls :: "env \<Rightarrow> call list \<Rightarrow> threads \<Rightarrow> history \<Rightarrow> (threads \<times> history) option" where
  "run_calls E [] s h = Some (s, h)"
| "run_calls E (c # cs) s h = (case (current_thread s, valid E s c, exec E c s) of
     (Some t, True, Inr (r, s')) \<Rightarrow> run_calls E cs s' (h(t \<mapsto> (c, r)))
   | _ \<Rightarrow> None)"

lemma run_reach: "reach E s h \<Longrightarrow> run_calls E cs s h = Some (s', h') \<Longrightarrow> reach E s' h'"
  by (induction cs arbitrary: s h)
    (auto split: option.splits bool.splits sum.splits prod.splits intro: reach.call)

definition ex_env :: env where
  "ex_env = \<lparr>e_ok = True, e_junk = (\<lambda>_. clean_tcb), e_stack = (\<lambda>n. if n < 4 then 65536 else 131072), e_terminate = 4096\<rparr>"

definition ex_lib :: threads where
  "ex_lib = \<lparr>tcbs = (\<lambda>_. None), handles = (\<lambda>_. None), hbrk = 0, stacks = {}, infos = (\<lambda>_. None), words = (\<lambda>_. 0),
     ready = False, all_threads = None, ready_list = None, mutexes = None, conds = None, next_to_destroy = None,
     parent_id = 0, current_thread = None, mutex_mem = [0 \<mapsto> \<lparr>mx_owner = 0, mx_q = None, mx_locked = False\<rparr>],
     cond_mem = [0 \<mapsto> \<lparr>cv_q = None\<rparr>]\<rparr>"

definition ex_run :: "call list \<Rightarrow> (threads \<times> history) option" where
  "ex_run cs = (case init ex_env ex_lib of Inl e \<Rightarrow> None | Inr s \<Rightarrow> run_calls ex_env cs s (\<lambda>_. None))"

lemma ex_clean: "clean_env ex_env" "fresh_lib ex_lib"
  by (simp_all add: clean_env_def ex_env_def clean_tcb_def fresh_lib_def ex_lib_def)

lemma ex_reach: "ex_run cs = Some (s, h) \<Longrightarrow> reach ex_env s h"
  using run_reach reach.start [OF ex_clean(2)] by (fastforce simp: ex_run_def split: sum.splits)

text \<open>What evaluates a run.\<close>

lemmas eval_defs = init_def init_table_def init_queue_def alloc_tcb_def put_tcb_def get_cell_def push_ready_def pop_ready_def
  need_def queue_push_def queue_pop_def deref_def thread_at_def thread_create_def first_frame_def ensure_init_def
  thread_yield_def yield_fuel_def thread_terminate_def set_status_def destroy_thread_def remove_tcb_def get_tcb_by_id_def
  STACK_SIZE_def as_long_def no_value_def clean_tcb_def Let_def thread_mutex_init_def thread_mutex_lock_def
  thread_mutex_unlock_def thread_self_def set_mutex_def push_mutex_def pop_mutex_def set_observer_def thread_join_def
  detect_deadlock_def mutex_ready_def cond_ready_def set_handle_def free_handle_def ex_run_def ex_env_def ex_lib_def

text \<open>The parent holds a mutex and has given the processor to a new thread; the parent waits for a
  new thread.\<close>

definition two_threads :: "call list" where
  "two_threads = [MutexInit (Some 0), Lock (Some 0), Create 0 0, Yield]"

lemma two_threads_run:
  "\<exists>s h. ex_run two_threads = Some (s, h) \<and> current_thread s = Some 2 \<and> mutex_ready s (Some 0) \<and> owns 0 0 s \<and>
    stat (tcbs s) 0 = Some WORKING \<and> (\<exists>mx. mutex_mem s 0 = Some mx \<and> mx_locked mx \<and> mx_owner mx = 0) \<and>
    (\<exists>c. tcbs s 2 = Some c \<and> tcb_tid c = 1) \<and> ready s \<and> next_to_destroy s = None"
  by (simp add: eval_defs two_threads_def owns_def stat_def)

text \<open>Who is observed by whom: a pair is a thread and the one that waits for its end.\<close>

definition observers :: "threads \<Rightarrow> (nat \<times> nat) set" where
  "observers s = {(a, b). \<exists>c. tcbs s a = Some c \<and> tcb_observer c = Some b}"

lemma join_run:
  "\<exists>s h uc. ex_run [Create 0 0, Join 1] = Some (s, h) \<and> (2, 0) \<in> observers s \<and> current_thread s = Some 2 \<and>
    get_tcb_by_id s (all_threads s) 0 = Inr (Some 0) \<and> tcbs s 0 = Some uc \<and> tcb_tid uc = 0 \<and> tcb_status uc \<noteq> DONE \<and>
    tcb_observer uc = None"
  by (simp add: eval_defs observers_def)

text \<open>No call of a client that keeps the rules follows a bad pointer or runs forever, in any
  reachable state: it returns, or it ends the process with -1 because no other thread can run.\<close>

theorem thread_calls_safe:
  assumes "reach E s h" "clean_env E" "valid E s c"
  shows "(\<exists>r s'. exec E c s = Inr (r, s')) \<or> (exec E c s = Inl (ExitCode (-1)) \<and> stuck s)"
proof -
  obtain v where v: "sched_inv E s v" using reach_inv [OF assms(1,2)] by blast
  then obtain t where "current_thread s = Some t" by (auto simp: sched_inv_def)
  from exec_ok [OF v this assms(2,3)] show ?thesis by (auto simp: call_ok_def)
qed

theorem thread_calls_safe_witness:
  "\<exists>s h s'. reach ex_env s h \<and> current_thread s = Some 2 \<and> exec ex_env (Lock (Some 0)) s = Inr (1, s')"
proof -
  obtain s h where r: "ex_run two_threads = Some (s, h)" "current_thread s = Some 2" "mutex_ready s (Some 0)"
      "stat (tcbs s) 0 = Some WORKING" "\<exists>mx. mutex_mem s 0 = Some mx \<and> mx_locked mx \<and> mx_owner mx = 0"
      "\<exists>c. tcbs s 2 = Some c \<and> tcb_tid c = 1" "ready s"
    using two_threads_run by blast
  have "\<not> stuck s" using r(2,4) by (auto simp: stuck_def intro!: exI [of _ 0])
  moreover have "valid ex_env s (Lock (Some 0))" using r(3) by simp
  ultimately obtain k s' where e: "exec ex_env (Lock (Some 0)) s = Inr (k, s')"
    using thread_calls_safe [OF ex_reach [OF r(1)] ex_clean(1), of "Lock (Some 0)"] by blast
  moreover have "k = 1" using e r(2,5-7) by (auto simp: thread_mutex_lock_def get_cell_def thread_self_def)
  ultimately show ?thesis using ex_reach [OF r(1)] r(2) by blast
qed



lemma owns_unique: "sched_ok E s v \<Longrightarrow> owns m x s \<Longrightarrow> owns m y s \<Longrightarrow> x = y"
  by (auto simp: owns_def intro: tid_inj)

lemma pend_waits:
  assumes "sched_ok E s v" "m \<in> set (v_mutexes v)" "pend m x s v"
  shows "stat (tcbs s) x = Some WAITING"
proof -
  have "x \<in> set (waiting (infos s) v)"
    using assms(2,3) mutex_waiting_mem [of m v x] unfolding pend_def waiting_def
    by (force simp: info_thread_def)
  then show ?thesis by (rule waiting_in_places(2) [OF assms(1)])
qed

lemma lock_returns_owner_spec:
  assumes "reach E s h" "clean_env E" "current_thread s = Some t" "h t = Some (c, 1)" "takes c m"
  shows "owns m t s \<and> (\<forall>x. owns m x s \<longrightarrow> x = t)"
proof -
  obtain v where v: "sched_inv E s v" "hist_ok s h v" using reach_inv [OF assms(1,2)] by blast
  then have ok: "sched_ok E s v" and st: "stat (tcbs s) t = Some WORKING" using assms(3) by (auto simp: sched_inv_def)
  have td: "t \<in> dom (tcbs s)" using st by (auto simp: stat_Some)
  have m: "m \<in> set (v_mutexes v) \<and> (pend m t s v \<or> owns m t s)" using v(2) td assms(4,5) by (simp add: hist_ok_def)
  then have "owns m t s" using pend_waits [OF ok] st by fastforce
  then show ?thesis using owns_unique [OF ok] by blast
qed



text \<open>A call of another thread never takes a mutex away from its owner.\<close>

theorem owner_keeps_mutex:
  assumes "reach E s h" "clean_env E" "valid E s c" "current_thread s = Some t" "exec E c s = Inr (r, s')"
    and "mutex_ready s (Some m)" "owns m x s" "x \<noteq> t" "x \<in> dom (tcbs s')"
  shows "owns m x s'"
proof -
  obtain v where v: "sched_inv E s v" "hist_ok s h v" using reach_inv [OF assms(1,2)] by blast
  have xd: "x \<in> dom (tcbs s)" using assms(7) by (auto simp: owns_def)
  have "sched_ok E s v" using v(1) by (simp add: sched_inv_def)
  then have "m \<in> set (v_mutexes v)" using assms(6) by (rule valid_mutex)
  moreover obtain v' where "eff t s v s' v'"
    using exec_ok [OF v(1) assms(4,2,3)] assms(5) by (auto simp: call_ok_def step_ok_def)
  ultimately show ?thesis using assms(7-9) xd unfolding eff_def by blast
qed


theorem owner_keeps_mutex_witness:
  "\<exists>s h s'. reach ex_env s h \<and> current_thread s = Some 2 \<and> exec ex_env (Unlock (Some 0)) s = Inr (0, s') \<and> owns 0 0 s'"
proof -
  obtain s h where r: "ex_run two_threads = Some (s, h)" "current_thread s = Some 2" "mutex_ready s (Some 0)" "owns 0 0 s"
      "stat (tcbs s) 0 = Some WORKING" "\<exists>mx. mutex_mem s 0 = Some mx \<and> mx_locked mx \<and> mx_owner mx = 0"
      "\<exists>c. tcbs s 2 = Some c \<and> tcb_tid c = 1" "ready s"
    using two_threads_run by blast
  obtain mx c where "mutex_mem s 0 = Some mx" "mx_locked mx" "mx_owner mx = 0" "tcbs s 2 = Some c" "tcb_tid c = 1"
    using r(6,7) by blast
  then have e: "exec ex_env (Unlock (Some 0)) s = Inr (0, s)"
    using r(2,8) by (simp add: thread_mutex_unlock_def get_cell_def thread_self_def)
  have "0 \<in> dom (tcbs s)" using r(5) by (auto simp: stat_Some)
  then have "owns 0 0 s"
    using owner_keeps_mutex [OF ex_reach [OF r(1)] ex_clean(1) _ r(2) e r(3,4)] r(3) by simp
  then show ?thesis using ex_reach [OF r(1)] r(2) e by blast
qed

section \<open>Joins\<close>

lemma observers_joins:
  assumes "sched_ok E s v"
  shows "observers s = set (v_joins v)"
proof -
  have j: "joins_ok (tcbs s) (v_joins v)" by (rule sched_parts(5) [OF assms])
  have "(a, b) \<in> observers s \<longleftrightarrow> (a, b) \<in> set (v_joins v)" for a b
    using j joins_rel [OF j, of a b] joins_in_dom(1) [OF assms, of a b]
    by (auto simp: observers_def joins_ok_def)
  then show ?thesis by auto
qed

lemma sorted_ids_distinct:
  "sorted_wrt (\<lambda>e e'. e_id e > e_id e') xs \<Longrightarrow> distinct (map fst (map snd xs))"
  by (induction xs) fastforce+

lemma id_of_thread:
  assumes ok: "sched_ok E s v" and c: "tcbs s a = Some c"
  shows "map_of (map snd (v_table v)) (tcb_tid c) = Some a"
proof -
  have t: "linked (tcbs s) (v_table v)" "sorted_wrt (\<lambda>e e'. e_id e > e_id e') (v_table v)"
      "dom (tcbs s) = e_tcb ` set (v_table v)"
    using ok by (auto simp: sched_ok_def table_rep_def heap_ok_def)
  have "a \<in> e_tcb ` set (v_table v)" using c t(3) by auto
  then obtain e where e: "e \<in> set (v_table v)" "e_tcb e = a" by blast
  then have "e_id e = tcb_tid c" using t(1) c by (auto simp: linked_def)
  then have "(tcb_tid c, a) \<in> set (map snd (v_table v))" using e by (force simp: prod_eq_iff)
  moreover have "distinct (map fst (map snd (v_table v)))"
    by (rule sorted_ids_distinct [OF t(2)])
  ultimately show ?thesis by (rule map_of_is_SomeI [rotated])
qed


text \<open>Joins never close a cycle: in every reachable state the relation from a thread to its
  observer is acyclic.\<close>

theorem no_join_cycle:
  assumes "reach E s h" "clean_env E"
  shows "acyclic (observers s)"
proof -
  obtain v where "sched_inv E s v" using reach_inv [OF assms] by blast
  then have ok: "sched_ok E s v" by (simp add: sched_inv_def)
  show ?thesis using sched_parts(5) [OF ok] observers_joins [OF ok] by (simp add: joins_ok_def)
qed

theorem no_join_cycle_witness: "\<exists>s h. reach ex_env s h \<and> (2, 0) \<in> observers s \<and> acyclic (observers s)"
proof -
  obtain s h where r: "ex_run [Create 0 0, Join 1] = Some (s, h)" "(2, 0) \<in> observers s" using join_run by blast
  from no_join_cycle [OF ex_reach [OF r(1)] ex_clean(1)] r ex_reach [OF r(1)] show ?thesis by blast
qed

text \<open>A join on a live thread that nobody observes is refused with -1 exactly when that thread
  waits, directly or through others, for the caller; otherwise the caller becomes its observer and
  gives up the processor.  The detection loop ends in both cases.\<close>

theorem join_deadlock_exact:
  assumes "reach E s h" "clean_env E" "current_thread s = Some t"
    and "get_tcb_by_id s (all_threads s) i = Inr (Some u)" "tcbs s u = Some uc" "tcb_tid uc = i" "u \<noteq> t"
    and "tcb_status uc \<noteq> DONE" "tcb_observer uc = None"
  shows "thread_join E i s = (if (t, u) \<in> (observers s)\<^sup>* then Inr (-1, s)
     else bindR (thread_yield E (join_state s t u)) (\<lambda>s. Inr (0, s)))"
proof -
  obtain v where v: "sched_inv E s v" using reach_inv [OF assms(1,2)] by blast
  then have ok: "sched_ok E s v" by (simp add: sched_inv_def)
  obtain c where c: "tcbs s t = Some c" "tcb_status c = WORKING" using v assms(3) by (auto elim: sched_invD)
  show ?thesis unfolding observers_joins [OF ok] by (rule join_exec [OF ok assms(3) c assms(4-9)])
qed

theorem join_deadlock_exact_witness:
  "\<exists>s h. reach ex_env s h \<and> current_thread s = Some 2 \<and> thread_join ex_env 0 s = Inr (-1, s)"
proof -
  obtain s h uc where r: "ex_run [Create 0 0, Join 1] = Some (s, h)" "(2, 0) \<in> observers s" "current_thread s = Some 2"
      "get_tcb_by_id s (all_threads s) 0 = Inr (Some 0)" "tcbs s 0 = Some uc" "tcb_tid uc = 0" "tcb_status uc \<noteq> DONE"
      "tcb_observer uc = None"
    using join_run by blast
  from join_deadlock_exact [OF ex_reach [OF r(1)] ex_clean(1) r(3-6) _ r(7,8)] r(2,3) ex_reach [OF r(1)]
  show ?thesis by auto
qed


text \<open>The library forgets a finished thread as soon as another one finishes: when a thread
  terminates, a join on the thread that terminated before it returns -3, as for a thread that never
  was.\<close>

theorem join_forgets_finished:
  assumes "reach E s h" "clean_env E" "current_thread s = Some t" "next_to_destroy s = Some d" "tcbs s d = Some dc"
    and "exec E Terminate s = Inr (r, s')" "current_thread s' = Some n" "stat (tcbs s') n = Some WORKING"
  shows "thread_join E (tcb_tid dc) s' = Inr (-3, s')"
proof -
  obtain v where v: "sched_inv E s v" using reach_inv [OF assms(1,2)] by blast
  then have ok: "sched_ok E s v" and dv: "v_done v = [d]" using assms(4) by (simp_all add: sched_inv_def done_list_def)
  obtain s2 v2 where y: "exec E Terminate s = bindR (thread_yield E (s2\<lparr>next_to_destroy := Some t\<rparr>)) (\<lambda>s. Inr (0, s))"
    and ok2: "sched_ok E s2 v2" "current_thread s2 = Some t" and ts: "tcbs s2 = (wake_observer s t)(d := None)"
    using terminate_exec [OF v assms(3,2)] assms(4) by auto
  have ok3: "sched_ok E (s2\<lparr>next_to_destroy := Some t\<rparr>) v2" by (rule sched_ok_next [OF ok2(1)])
  have "\<exists>v'. sched_ok E s' v' \<and> tcbs s' = tcbs s2"
  proof (cases "v_ready v2")
    case Nil
    then show ?thesis using yield_alone [OF ok3 _ Nil, of t] y assms(6) ok2 ok3 by (auto split: if_splits)
  next
    case (Cons m R)
    then show ?thesis using yield_ok [OF ok3 _ Cons, of t] y assms(6) ok2 by fastforce
  qed
  then obtain v' where ok': "sched_ok E s' v'" and ts': "tcbs s' = (wake_observer s t)(d := None)" using ts by auto
  have gone: "tcb_tid c \<noteq> tcb_tid dc" if c: "tcbs s' x = Some c" for x c
  proof -
    have "x \<noteq> d" using c ts' by auto
    obtain k where "tcbs s t = Some k" "tcb_status k = WORKING" using v assms(3) by (auto elim: sched_invD)
    obtain Q v1 where "sched_ok E (s\<lparr>ready_list := Q, tcbs := wake_observer s t\<rparr>) v1"
      using die_ok [OF ok assms(3) \<open>tcbs s t = Some k\<close> \<open>tcb_status k = WORKING\<close>] by (auto simp: Let_def)
    have "same_ids (tcbs s) (wake_observer s t)"
      by (rule wake_same_ids [OF ok assms(3) \<open>tcbs s t = Some k\<close>])
    then obtain c0 where "tcbs s x = Some c0" "tcb_tid c = tcb_tid c0"
      using same_ids_cell [of "tcbs s" "wake_observer s t" x] c \<open>x \<noteq> d\<close> by (auto simp: ts')
    then show ?thesis using tid_inj [OF ok _ assms(5)] \<open>x \<noteq> d\<close> by auto
  qed
  have tr: "table_rep s' (all_threads s') (v_table v')" using ok' by (simp add: sched_ok_def)
  have "map_of (map snd (v_table v')) (tcb_tid dc) = None"
  proof (rule ccontr)
    assume "map_of (map snd (v_table v')) (tcb_tid dc) \<noteq> None"
    then obtain a where "map_of (map snd (v_table v')) (tcb_tid dc) = Some a" by blast
    then obtain e where "e \<in> set (v_table v')" "e_id e = tcb_tid dc" using map_of_SomeD by fastforce
    then show False using tr gone unfolding table_rep_def linked_def by fastforce
  qed
  then have g: "get_tcb_by_id s' (all_threads s') (tcb_tid dc) = Inr None"
    using get_tcb_by_id_rep [OF tr] by simp
  obtain nc where nc: "tcbs s' n = Some nc" using assms(8) by (auto simp: stat_Some)
  then have "tcb_tid nc \<noteq> tcb_tid dc" by (rule gone)
  then show ?thesis using g nc assms(7) sched_ready [OF ok'] by (simp add: thread_join_def)
qed


theorem join_forgets_finished_witness:
  "\<exists>s h s'. reach ex_env s h \<and> exec ex_env Terminate s = Inr (0, s') \<and> thread_join ex_env 1 s' = Inr (-3, s')"
proof -
  have "\<exists>s h s' dc. ex_run [Create 0 0, Create 0 0, Yield, Terminate] = Some (s, h) \<and> current_thread s = Some 4 \<and>
      next_to_destroy s = Some 2 \<and> tcbs s 2 = Some dc \<and> tcb_tid dc = 1 \<and> exec ex_env Terminate s = Inr (0, s') \<and>
      current_thread s' = Some 0 \<and> stat (tcbs s') 0 = Some WORKING"
    by (simp add: eval_defs stat_def)
  then obtain s h s' dc where r: "ex_run [Create 0 0, Create 0 0, Yield, Terminate] = Some (s, h)" "current_thread s = Some 4"
      "next_to_destroy s = Some 2" "tcbs s 2 = Some dc" "exec ex_env Terminate s = Inr (0, s')"
      "current_thread s' = Some 0" "stat (tcbs s') 0 = Some WORKING" "tcb_tid dc = 1"
    by blast
  from join_forgets_finished [OF ex_reach [OF r(1)] ex_clean(1) r(2-7)] r(5,8) ex_reach [OF r(1)]
  show ?thesis by auto
qed


section \<open>Yields are served in turn\<close>

fun yields :: "nat \<Rightarrow> env \<Rightarrow> threads \<Rightarrow> threads res" where
  "yields 0 E s = Inr s"
| "yields (Suc n) E s = bindR (thread_yield E s) (yields n E)"

lemma rotate_front: "rotate (Suc n) (x # xs) = rotate n (xs @ [x])"
  by (simp add: rotate1_rotate_swap)

lemma yields_spec:
  assumes "sched_inv E s v" "current_thread s = Some t"
  shows "\<exists>s' v'. yields n E s = Inr s' \<and> sched_inv E s' v' \<and> current_thread s' = Some (hd (rotate n (t # v_ready v))) \<and>
    v_ready v' = tl (rotate n (t # v_ready v))"
  using assms
proof (induction n arbitrary: s v t)
  case 0
  then show ?case by auto
next
  case (Suc n)
  have ok: "sched_ok E s v" and st: "stat (tcbs s) t = Some WORKING" and d: "v_done v = done_list (next_to_destroy s)"
    using Suc.prems by (auto simp: sched_inv_def)
  show ?case
  proof (cases "v_ready v")
    case Nil
    then have "thread_yield E s = Inr s" using yield_alone [OF ok Suc.prems(2) Nil] st by simp
    then show ?thesis using Suc.IH [OF Suc.prems] Nil by simp
  next
    case (Cons u R)
    obtain Q where y: "thread_yield E s = Inr (s\<lparr>ready_list := Q, current_thread := Some u\<rparr>)"
        "sched_ok E (s\<lparr>ready_list := Q, current_thread := Some u\<rparr>) (v\<lparr>v_ready := R @ [t]\<rparr>)"
      using yield_ok [OF ok Suc.prems(2) Cons] st by (auto simp: running_simps)
    have "stat (tcbs s) u = Some WORKING" using sched_parts(2) [OF ok] Cons by (simp add: status_ok_def)
    then have "sched_inv E (s\<lparr>ready_list := Q, current_thread := Some u\<rparr>) (v\<lparr>v_ready := R @ [t]\<rparr>)"
      using y(2) d by (simp add: sched_inv_def)
    from Suc.IH [OF this, of u] show ?thesis using y(1) Cons by (simp add: rotate_front del: rotate_Suc)
  qed
qed



section \<open>Garbage in a new control block\<close>

text \<open>\<open>thread_create\<close> frees whatever pointer \<open>malloc\<close> left in the handle field of the new control
  block: unless that is null or happens to be an allocated handle, the call frees a wild pointer.\<close>

theorem create_frees_garbage:
  assumes "ready s" "all_threads s = Some tab" "tcb_handle (e_junk E (hbrk s)) = Some g" "handles s g = None" "g \<noteq> Suc (hbrk s)"
  shows "thread_create E work info s = Inl WildPointer"
  using assms by (simp add: thread_create_def first_frame_def alloc_tcb_def put_tcb_def get_cell_def free_handle_def Let_def)

theorem create_frees_garbage_witness:
  "\<exists>s. init ex_env ex_lib = Inr s \<and>
     thread_create (ex_env\<lparr>e_junk := (\<lambda>_. clean_tcb\<lparr>tcb_handle := Some 77\<rparr>)\<rparr>) 0 0 s = Inl WildPointer"
proof -
  have "\<exists>s tab. init ex_env ex_lib = Inr s \<and> ready s \<and> all_threads s = Some tab \<and> handles s 77 = None \<and> hbrk s = 2"
    by (simp add: eval_defs)
  then obtain s tab where s: "init ex_env ex_lib = Inr s" "ready s" "all_threads s = Some tab" "handles s 77 = None" "hbrk s = 2"
    by blast
  from create_frees_garbage [OF s(2,3), of "ex_env\<lparr>e_junk := (\<lambda>_. clean_tcb\<lparr>tcb_handle := Some 77\<rparr>)\<rparr>" 77 0 0] s
  show ?thesis by simp
qed


section \<open>The end of the library\<close>

text \<open>What \<open>thread_cleanup\<close> relies on: the control blocks are those of the table, with their stacks.\<close>

definition owned :: "env \<Rightarrow> threads \<Rightarrow> entry list \<Rightarrow> bool" where
  "owned E s es \<longleftrightarrow> table_rep s (all_threads s) es \<and> dom (tcbs s) = e_tcb ` set es \<and>
     (\<forall>a c. tcbs s a = Some c \<longrightarrow> tcb_stack c = (if tcb_tid c = 0 then 0 else e_stack E a)) \<and>
     stacks s = e_stack E ` created (tcbs s) \<and> inj_on (e_stack E) (created (tcbs s))"

text \<open>One turn of the loop frees the newest thread.\<close>

lemma cleanup_one:
  assumes o: "owned E s ((h, i, a) # es)" and E: "clean_env E"
  shows "\<exists>s'. (\<forall>f. cleanup_threads (Suc f) s = cleanup_threads f s') \<and> owned E s' es \<and>
    s' = s\<lparr>tcbs := tcbs s', handles := handles s', stacks := stacks s', all_threads := all_threads s'\<rparr>"
proof -
  have rep: "table_rep s (all_threads s) ((h, i, a) # es)" and dom: "dom (tcbs s) = e_tcb ` set ((h, i, a) # es)"
    and stk: "\<And>a c. tcbs s a = Some c \<Longrightarrow> tcb_stack c = (if tcb_tid c = 0 then 0 else e_stack E a)"
    and st: "stacks s = e_stack E ` created (tcbs s)" "inj_on (e_stack E) (created (tcbs s))"
    using o by (simp_all add: owned_def)
  obtain m' t' where p: "pop_tcb s (all_threads s) = Inr (Some a, m', Some t')" "table_rep m' (Some t') es"
      "m' = (set_handle a None s)\<lparr>handles := handles m'\<rparr>"
    using pop_tcb_rep [OF rep] by blast
  have ln: "linked (tcbs s) ((h, i, a) # es)" "distinct (map fst ((h, i, a) # es))" using rep by (auto simp: table_rep_def)
  have an: "a \<notin> e_tcb ` set es" using linked_tcb_inj [OF ln(1), of "(h, i, a)"] ln(2) by force
  obtain c where c: "tcbs s a = Some c" using ln(1) by (auto simp: linked_Cons)
  let ?S = "if tcb_tid c \<noteq> 0 then stacks s - {e_stack E a} else stacks s"
  let ?s = "s\<lparr>tcbs := (tcbs s)(a := None), handles := handles m', stacks := ?S, all_threads := Some t'\<rparr>"
  have inS: "tcb_tid c \<noteq> 0 \<Longrightarrow> e_stack E a \<in> stacks s" using st(1) c by (auto simp: created_def)
  have m: "m'\<lparr>all_threads := Some t'\<rparr> = s\<lparr>tcbs := (tcbs s)(a \<mapsto> c\<lparr>tcb_handle := None\<rparr>), handles := handles m', all_threads := Some t'\<rparr>"
    by (subst p(3)) (simp add: set_handle_def c)
  have d: "destroy_thread (Some a) (m'\<lparr>all_threads := Some t'\<rparr>) = Inr ?s"
    unfolding m using stk [OF c] inS E
    by (simp add: destroy_thread_def remove_tcb_unlisted thread_at_def get_cell_def clean_env_def)
  have step: "cleanup_threads (Suc f) s = cleanup_threads f ?s" for f
    using p(1) d by simp
  have cr: "created ((tcbs s)(a := None)) = created (tcbs s) - {a}" by (auto simp: created_def)
  have "table_rep ?s (Some t') es"
  proof (rule table_rep_cong [OF p(2)])
    have "tcbs m' = (tcbs s)(a \<mapsto> c\<lparr>tcb_handle := None\<rparr>)" by (subst p(3)) (simp add: set_handle_def c)
    then have "linked ((tcbs s)(a \<mapsto> c\<lparr>tcb_handle := None\<rparr>)) es" using p(2) by (auto simp: table_rep_def)
    then show "linked (tcbs ?s) es" using an by (simp add: linked_frame)
    show "hbrk ?s \<ge> hbrk m'" by (subst p(3)) (simp add: set_handle_def)
  qed simp
  moreover have "dom (tcbs ?s) = e_tcb ` set es" using dom an by auto
  moreover have "stacks ?s = e_stack E ` created (tcbs ?s)"
  proof (cases "tcb_tid c = 0")
    case True
    then have "a \<notin> created (tcbs s)" using c by (simp add: created_def)
    then show ?thesis using True st(1) cr by simp
  next
    case False
    then have "a \<in> created (tcbs s)" using c by (simp add: created_def)
    then have "e_stack E ` (created (tcbs s) - {a}) = stacks s - {e_stack E a}"
      using inj_on_image_set_diff [OF st(2), of "created (tcbs s)" "{a}"] st(1) by simp
    then show ?thesis using False cr by simp
  qed
  moreover have "inj_on (e_stack E) (created (tcbs ?s))" using inj_on_subset [OF st(2)] cr by auto
  moreover have "\<forall>b k. tcbs ?s b = Some k \<longrightarrow> tcb_stack k = (if tcb_tid k = 0 then 0 else e_stack E b)"
    using stk by (simp add: fun_upd_apply)
  ultimately have "owned E ?s es" by (simp add: owned_def)
  then show ?thesis using step by (intro exI [of _ ?s]) (simp del: cleanup_threads.simps)
qed

lemma cleanup_threads_spec:
  assumes "owned E s es" "clean_env E" "length es < fuel"
  shows "\<exists>s'. cleanup_threads fuel s = Inr s' \<and> owned E s' [] \<and>
    s' = s\<lparr>tcbs := tcbs s', handles := handles s', stacks := stacks s', all_threads := all_threads s'\<rparr>"
  using assms
proof (induction es arbitrary: s fuel)
  case Nil
  then obtain f where f: "fuel = Suc f" by (cases fuel) auto
  have "pop_tcb s (all_threads s) = Inr (None, s, all_threads s)"
    using Nil.prems(1) by (auto simp: owned_def intro: pop_tcb_empty)
  then show ?case using Nil.prems(1) by (simp add: f)
next
  case (Cons e es)
  obtain h i a where e: "e = (h, i, a)" by (cases e)
  obtain f where f: "fuel = Suc f" "length es < f" using Cons.prems(3) by (cases fuel) auto
  obtain s1 where s1: "\<And>f. cleanup_threads (Suc f) s = cleanup_threads f s1" "owned E s1 es"
      "s1 = s\<lparr>tcbs := tcbs s1, handles := handles s1, stacks := stacks s1, all_threads := all_threads s1\<rparr>"
    using cleanup_one [OF Cons.prems(1) [unfolded e] Cons.prems(2)] by blast
  obtain s2 where s2: "cleanup_threads f s1 = Inr s2" "owned E s2 []"
      "s2 = s1\<lparr>tcbs := tcbs s2, handles := handles s2, stacks := stacks s2, all_threads := all_threads s2\<rparr>"
    using Cons.IH [OF s1(2) Cons.prems(2) f(2)] by blast
  have "s2 = s\<lparr>tcbs := tcbs s2, handles := handles s2, stacks := stacks s2, all_threads := all_threads s2\<rparr>"
    by (subst s2(3), subst s1(3)) simp
  then show ?case using s1(1) s2(1,2) f(1) by (intro exI [of _ s2]) simp
qed

section \<open>The queues\<close>

lemma drop_queue_rep: "qrep Q xs \<Longrightarrow> drop_queue Q = Inr ()"
  by (auto simp: qrep_def queue_rep_def drop_queue_def destroy_queue_spec)

lemma cleanup_mutexes_spec:
  assumes "qrep (mutexes s) ms" "\<forall>m \<in> set ms. \<exists>mx xs. mutex_mem s m = Some mx \<and> qrep (mx_q mx) xs" "distinct ms"
    and "length ms < fuel"
  shows "\<exists>s'. cleanup_mutexes fuel s = Inr s' \<and> qrep (mutexes s') [] \<and>
    s' = s\<lparr>mutexes := mutexes s', mutex_mem := mutex_mem s'\<rparr> \<and>
    (\<forall>m mx. mutex_mem s' m = Some mx \<longrightarrow> mx_q mx = None \<or> (m \<notin> set ms \<and> mutex_mem s m = Some mx))"
  using assms
proof (induction ms arbitrary: s fuel)
  case Nil
  then obtain f q where f: "fuel = Suc f" "mutexes s = Some q" "queue_rep q []"
    by (cases fuel) (auto simp: qrep_def)
  then have "queue_pop q = Inr (None, q)" by (intro lq.pop_empty)
  then show ?case using f Nil.prems(1) by (simp add: need_def)
next
  case (Cons m ms)
  obtain f where f: "fuel = Suc f" "length ms < f" using Cons.prems(4) by (cases fuel) auto
  obtain q where q: "mutexes s = Some q" "queue_rep q (m # ms)" using Cons.prems(1) by (auto simp: qrep_def)
  obtain q' where q': "queue_pop q = Inr (Some m, q')" "queue_rep q' ms" using lq.pop_rep [OF q(2)] by blast
  obtain mx xs where mx: "mutex_mem s m = Some mx" "qrep (mx_q mx) xs" using Cons.prems(2) by auto
  let ?s = "s\<lparr>mutexes := Some q', mutex_mem := (mutex_mem s)(m \<mapsto> mx\<lparr>mx_q := None\<rparr>)\<rparr>"
  have step: "cleanup_mutexes fuel s = cleanup_mutexes f ?s"
    using q(1) q'(1) mx drop_queue_rep [OF mx(2)] by (simp add: f need_def get_cell_def)
  have "\<forall>k \<in> set ms. \<exists>mx xs. mutex_mem ?s k = Some mx \<and> qrep (mx_q mx) xs" using Cons.prems(2,3) by auto
  then obtain s' where s': "cleanup_mutexes f ?s = Inr s'" "qrep (mutexes s') []"
      "s' = ?s\<lparr>mutexes := mutexes s', mutex_mem := mutex_mem s'\<rparr>"
      "\<forall>k mx. mutex_mem s' k = Some mx \<longrightarrow> mx_q mx = None \<or> (k \<notin> set ms \<and> mutex_mem ?s k = Some mx)"
    using Cons.IH [of ?s f] Cons.prems(3) f(2) q'(2) by (auto simp: qrep_def)
  have "s' = s\<lparr>mutexes := mutexes s', mutex_mem := mutex_mem s'\<rparr>" by (subst s'(3)) simp
  moreover have "mx_q k = None \<or> (j \<notin> set (m # ms) \<and> mutex_mem s j = Some k)" if "mutex_mem s' j = Some k" for j k
    using s'(4) [rule_format, OF that] by (cases "j = m") auto
  ultimately show ?case using step s'(1,2) by (intro exI [of _ s']) auto
qed

lemma cleanup_conds_spec:
  assumes "qrep (conds s) vs" "\<forall>v \<in> set vs. \<exists>cv xs. cond_mem s v = Some cv \<and> qrep (cv_q cv) xs" "distinct vs"
    and "length vs < fuel"
  shows "\<exists>s'. cleanup_conds fuel s = Inr s' \<and> qrep (conds s') [] \<and>
    s' = s\<lparr>conds := conds s', cond_mem := cond_mem s'\<rparr> \<and>
    (\<forall>v cv. cond_mem s' v = Some cv \<longrightarrow> cv_q cv = None \<or> (v \<notin> set vs \<and> cond_mem s v = Some cv))"
  using assms
proof (induction vs arbitrary: s fuel)
  case Nil
  then obtain f q where f: "fuel = Suc f" "conds s = Some q" "queue_rep q []"
    by (cases fuel) (auto simp: qrep_def)
  then have "queue_pop q = Inr (None, q)" by (intro lq.pop_empty)
  then show ?case using f Nil.prems(1) by (simp add: need_def)
next
  case (Cons m ms)
  obtain f where f: "fuel = Suc f" "length ms < f" using Cons.prems(4) by (cases fuel) auto
  obtain q where q: "conds s = Some q" "queue_rep q (m # ms)" using Cons.prems(1) by (auto simp: qrep_def)
  obtain q' where q': "queue_pop q = Inr (Some m, q')" "queue_rep q' ms" using lq.pop_rep [OF q(2)] by blast
  obtain cv xs where cv: "cond_mem s m = Some cv" "qrep (cv_q cv) xs" using Cons.prems(2) by auto
  let ?s = "s\<lparr>conds := Some q', cond_mem := (cond_mem s)(m \<mapsto> cv\<lparr>cv_q := None\<rparr>)\<rparr>"
  have step: "cleanup_conds fuel s = cleanup_conds f ?s"
    using q(1) q'(1) cv drop_queue_rep [OF cv(2)] by (simp add: f need_def get_cell_def)
  have "\<forall>k \<in> set ms. \<exists>cv xs. cond_mem ?s k = Some cv \<and> qrep (cv_q cv) xs" using Cons.prems(2,3) by auto
  then obtain s' where s': "cleanup_conds f ?s = Inr s'" "qrep (conds s') []"
      "s' = ?s\<lparr>conds := conds s', cond_mem := cond_mem s'\<rparr>"
      "\<forall>k cv. cond_mem s' k = Some cv \<longrightarrow> cv_q cv = None \<or> (k \<notin> set ms \<and> cond_mem ?s k = Some cv)"
    using Cons.IH [of ?s f] Cons.prems(3) f(2) q'(2) by (auto simp: qrep_def)
  have "s' = s\<lparr>conds := conds s', cond_mem := cond_mem s'\<rparr>" by (subst s'(3)) simp
  moreover have "cv_q k = None \<or> (j \<notin> set (m # ms) \<and> cond_mem s j = Some k)" if "cond_mem s' j = Some k" for j k
    using s'(4) [rule_format, OF that] by (cases "j = m") auto
  ultimately show ?case using step s'(1,2) by (intro exI [of _ s']) auto
qed

lemma queue_fuel_enough: "qrep Q xs \<Longrightarrow> length xs < queue_fuel Q"
  by (auto simp: qrep_def queue_rep_def queue_fuel_def queue_items_length)

section \<open>Cleanup in every reachable state\<close>

lemma cleanup_inv:
  assumes r: "sched_inv E s v" "clean_env E" and t: "current_thread s = Some t" "tcbs s t = Some c" "tcb_tid c = 0"
  shows "\<exists>s'. thread_cleanup s = Inr s' \<and> tcbs s' = (\<lambda>_. None) \<and> handles s' = (\<lambda>_. None) \<and> stacks s' = {} \<and> \<not> ready s' \<and>
    (\<forall>m mx. mutex_mem s' m = Some mx \<longrightarrow> mx_q mx = None) \<and> (\<forall>k cv. cond_mem s' k = Some cv \<longrightarrow> cv_q cv = None) \<and>
    infos s' = infos s \<and> next_to_destroy s' = next_to_destroy s"
proof -
  have ok: "sched_ok E s v" using r(1) by (simp add: sched_inv_def)
  then have rd: "ready s" and tr: "table_rep s (all_threads s) (v_table v)" by (simp_all add: sched_ok_def)
  have q: "qrep (ready_list s) (v_ready v)" "qrep (mutexes s) (v_mutexes v)" "qrep (conds s) (v_conds v)"
      "distinct (v_mutexes v)" "distinct (v_conds v)"
    and mq: "\<And>m mx. mutex_mem s m = Some mx \<Longrightarrow> (if m \<in> set (v_mutexes v) then qrep (mx_q mx) (v_waits v m) else mx_q mx = None)"
    and cq: "\<And>k cv. cond_mem s k = Some cv \<Longrightarrow> (if k \<in> set (v_conds v) then qrep (cv_q cv) (v_infos v k) else cv_q cv = None)"
    and sub: "set (v_mutexes v) \<subseteq> dom (mutex_mem s)" "set (v_conds v) \<subseteq> dom (cond_mem s)"
    using sched_parts(1) [OF ok] unfolding queues_ok_def by auto
  have "owned E s (v_table v)" using tr sched_parts(4) [OF ok] by (simp add: owned_def heap_ok_def)
  from cleanup_threads_spec [OF this r(2) table_rep_length [OF tr]]
  obtain s1 where s1: "cleanup_threads (Suc (hbrk s)) s = Inr s1" "owned E s1 []"
      "s1 = s\<lparr>tcbs := tcbs s1, handles := handles s1, stacks := stacks s1, all_threads := all_threads s1\<rparr>" by blast
  have f1: "mutexes s1 = mutexes s" "mutex_mem s1 = mutex_mem s" "conds s1 = conds s" "cond_mem s1 = cond_mem s"
      "ready_list s1 = ready_list s" "infos s1 = infos s" "next_to_destroy s1 = next_to_destroy s"
    by (subst s1(3), simp)+
  have "qrep (mutexes s1) (v_mutexes v)" "\<forall>m \<in> set (v_mutexes v). \<exists>mx xs. mutex_mem s1 m = Some mx \<and> qrep (mx_q mx) xs"
    using q(2) sub(1) mq by (auto simp: f1 subset_iff) (metis domD mq)
  from cleanup_mutexes_spec [OF this q(4)] queue_fuel_enough [OF this(1)]
  obtain s2 where s2: "cleanup_mutexes (queue_fuel (mutexes s1)) s1 = Inr s2" "qrep (mutexes s2) []"
      "s2 = s1\<lparr>mutexes := mutexes s2, mutex_mem := mutex_mem s2\<rparr>"
      "\<forall>m mx. mutex_mem s2 m = Some mx \<longrightarrow> mx_q mx = None \<or> (m \<notin> set (v_mutexes v) \<and> mutex_mem s1 m = Some mx)"
    by blast
  have f2: "conds s2 = conds s" "cond_mem s2 = cond_mem s" "all_threads s2 = all_threads s1" "tcbs s2 = tcbs s1"
      "handles s2 = handles s1" "stacks s2 = stacks s1" "hbrk s2 = hbrk s1" "ready_list s2 = ready_list s"
      "infos s2 = infos s" "next_to_destroy s2 = next_to_destroy s"
    by (subst s2(3), simp add: f1)+
  have "qrep (conds s2) (v_conds v)" "\<forall>k \<in> set (v_conds v). \<exists>cv xs. cond_mem s2 k = Some cv \<and> qrep (cv_q cv) xs"
    using q(3) sub(2) cq by (auto simp: f2 subset_iff) (metis domD cq)
  from cleanup_conds_spec [OF this q(5)] queue_fuel_enough [OF this(1)]
  obtain s3 where s3: "cleanup_conds (queue_fuel (conds s2)) s2 = Inr s3" "qrep (conds s3) []"
      "s3 = s2\<lparr>conds := conds s3, cond_mem := cond_mem s3\<rparr>"
      "\<forall>k cv. cond_mem s3 k = Some cv \<longrightarrow> cv_q cv = None \<or> (k \<notin> set (v_conds v) \<and> cond_mem s2 k = Some cv)"
    by blast
  have f3: "all_threads s3 = all_threads s1" "tcbs s3 = tcbs s1" "handles s3 = handles s1" "stacks s3 = stacks s1"
      "hbrk s3 = hbrk s1" "ready_list s3 = ready_list s" "mutexes s3 = mutexes s2" "mutex_mem s3 = mutex_mem s2"
      "infos s3 = infos s" "next_to_destroy s3 = next_to_destroy s"
    by (subst s3(3), simp add: f2)+
  have o: "table_rep s1 (all_threads s1) []" "tcbs s1 = (\<lambda>_. None)" "stacks s1 = {}"
    using s1(2) by (auto simp: owned_def created_def)
  have "table_rep s3 (all_threads s3) []" using o(1) f3 by (auto simp: table_rep_def linked_def)
  from destroy_table_rep [OF this] obtain s4 where s4: "destroy_table s3 (all_threads s3) = Inr (0, s4)"
      "handles s4 = (\<lambda>_. None)" "s4 = s3\<lparr>tcbs := tcbs s4, handles := handles s4\<rparr>" "dom (tcbs s4) = dom (tcbs s3)" by blast
  have f4: "stacks s4 = {}" "ready_list s4 = ready_list s" "mutexes s4 = mutexes s2" "conds s4 = conds s3"
      "mutex_mem s4 = mutex_mem s2" "cond_mem s4 = cond_mem s3" "infos s4 = infos s" "next_to_destroy s4 = next_to_destroy s"
    by (subst s4(3), simp add: f3 o)+
  let ?s = "s4\<lparr>all_threads := None, ready_list := None, mutexes := None, conds := None, ready := False\<rparr>"
  have "thread_cleanup s = Inr ?s"
    using rd t s1(1) s2(1) s3(1) s4(1) drop_queue_rep [OF q(1)] drop_queue_rep [OF s2(2)] drop_queue_rep [OF s3(2)]
    by (simp add: thread_cleanup_def thread_at_def get_cell_def f4 del: cleanup_threads.simps cleanup_mutexes.simps cleanup_conds.simps)
  moreover have "tcbs ?s = (\<lambda>_. None)" using s4(4) f3(2) o(2) by auto
  moreover have "\<forall>m mx. mutex_mem ?s m = Some mx \<longrightarrow> mx_q mx = None" using s2(4) mq f1(2) f4 by fastforce
  moreover have "\<forall>k cv. cond_mem ?s k = Some cv \<longrightarrow> cv_q cv = None" using s3(4) cq f2(2) f4 by fastforce
  ultimately show ?thesis using s4(2) f4 by (intro exI [of _ ?s]) simp
qed

lemma cleanup_spec:
  assumes "reach E s h" "clean_env E" "current_thread s = Some t" "tcbs s t = Some c" "tcb_tid c = 0"
  shows "\<exists>s'. thread_cleanup s = Inr s' \<and> tcbs s' = (\<lambda>_. None) \<and> handles s' = (\<lambda>_. None) \<and> stacks s' = {} \<and> \<not> ready s' \<and>
    (\<forall>m mx. mutex_mem s' m = Some mx \<longrightarrow> mx_q mx = None) \<and> (\<forall>k cv. cond_mem s' k = Some cv \<longrightarrow> cv_q cv = None) \<and>
    infos s' = infos s \<and> next_to_destroy s' = next_to_destroy s"
  using reach_inv [OF assms(1,2)] cleanup_inv [OF _ assms(2-5)] by blast


definition parent_again :: "call list" where
  "parent_again = [Create 0 0, MutexInit (Some 0), Yield, Terminate]"

lemma parent_again_run:
  "\<exists>s h c. ex_run parent_again = Some (s, h) \<and> current_thread s = Some 0 \<and> tcbs s 0 = Some c \<and> tcb_tid c = 0 \<and>
    next_to_destroy s = Some 2"
  by (simp add: eval_defs parent_again_def)


text \<open>The pointer that \<open>thread_cleanup\<close> keeps dangles: when some thread has ended before, the first
  \<open>destroy_thread\<close> after the library is started again is given a freed control block.\<close>

theorem cleanup_dangling:
  assumes "reach E s h" "clean_env E" "current_thread s = Some t" "tcbs s t = Some c" "tcb_tid c = 0"
    and "next_to_destroy s = Some d"
  shows "\<exists>s'. thread_cleanup s = Inr s' \<and> next_to_destroy s' = Some d \<and> tcbs s' d = None \<and>
    (\<forall>tab. destroy_thread (next_to_destroy s') (s'\<lparr>all_threads := Some tab\<rparr>) = Inl WildPointer)"
  using cleanup_spec [OF assms(1-5)] assms(6)
  by (auto simp: destroy_thread_def remove_tcb_def get_cell_def)

theorem cleanup_dangling_witness:
  "\<exists>s h s' tab. reach ex_env s h \<and> thread_cleanup s = Inr s' \<and>
    destroy_thread (next_to_destroy s') (s'\<lparr>all_threads := Some tab\<rparr>) = Inl WildPointer"
proof -
  obtain s h c where r: "ex_run parent_again = Some (s, h)" "current_thread s = Some 0" "tcbs s 0 = Some c" "tcb_tid c = 0"
      "next_to_destroy s = Some 2"
    using parent_again_run by blast
  from cleanup_dangling [OF ex_reach [OF r(1)] ex_clean(1) r(2-5)] ex_reach [OF r(1)] show ?thesis by blast
qed

end
