(* ===== verification/Thread_Spec.thy ===== *)
theory Thread_Spec
  imports Thread_Props
begin

text \<open>
  The abstract specification of the thread library of A3: a scheduler over thread identifiers and lists, without
  pointers, control blocks or queues; and the refinement: in every state of the invariant a call of A3/thread.c
  does what the abstract scheduler says, and ends the process where it says that no thread can run.
\<close>

section \<open>The abstract scheduler\<close>

text \<open>
  A mutex that is initialised has an owner or none and the threads that wait for it; a condition the threads that
  wait for it with their mutexes; a pair of \<open>a_joins\<close> is a thread and the one that waits for its end;
  \<open>a_done\<close> has ended but is still known; \<open>a_ids\<close> are the threads that are known.
\<close>

record asched =
  a_cur :: u64
  a_ready :: "u64 list"
  a_mutex :: "nat \<Rightarrow> (u64 option \<times> u64 list) option"
  a_cond :: "nat \<Rightarrow> (u64 \<times> nat) list option"
  a_joins :: "(u64 \<times> u64) list"
  a_done :: "u64 option"
  a_ids :: "u64 set"
  a_next :: u64

text \<open>The processor goes to the first ready thread; the thread before it is ready again, or waits. When it waits and
  no thread is ready, the process ends.\<close>

definition a_switch :: "bool \<Rightarrow> asched \<Rightarrow> asched option" where
  "a_switch again A = (case a_ready A of
     [] \<Rightarrow> if again then Some A else None
   | n # R \<Rightarrow> Some (A\<lparr>a_cur := n, a_ready := R @ (if again then [a_cur A] else [])\<rparr>))"

definition returning :: "int \<Rightarrow> asched option \<Rightarrow> (int \<times> asched) option" where
  "returning r = map_option (Pair r)"

text \<open>The release of a mutex: the first waiting thread gets it.\<close>

definition a_release :: "nat \<Rightarrow> asched \<Rightarrow> asched" where
  "a_release m A = (case a_mutex A m of
     Some (_, n # ws) \<Rightarrow> A\<lparr>a_mutex := (a_mutex A)(m \<mapsto> (Some n, ws)), a_ready := a_ready A @ [n]\<rparr>
   | _ \<Rightarrow> A\<lparr>a_mutex := (a_mutex A)(m \<mapsto> (None, []))\<rparr>)"

definition a_owner :: "nat \<Rightarrow> asched \<Rightarrow> u64 option" where
  "a_owner m A = (case a_mutex A m of None \<Rightarrow> None | Some (x, ws) \<Rightarrow> x)"

definition a_wait :: "nat \<Rightarrow> u64 \<Rightarrow> asched \<Rightarrow> asched" where
  "a_wait m x A = A\<lparr>a_mutex := (a_mutex A)(m := map_option (\<lambda>(y, ws). (y, ws @ [x])) (a_mutex A m))\<rparr>"

definition a_take :: "nat \<Rightarrow> u64 \<Rightarrow> asched \<Rightarrow> asched" where
  "a_take m x A = A\<lparr>a_mutex := (a_mutex A)(m := map_option (\<lambda>(y, ws). (Some x, ws)) (a_mutex A m))\<rparr>"

definition a_join :: "u64 \<Rightarrow> asched \<Rightarrow> (int \<times> asched) option" where
  "a_join i A =
     (if i = a_cur A then Some (-1, A)
      else if i \<notin> a_ids A then Some (-3, A)
      else if a_done A = Some i then returning 0 (a_switch True A)
      else if i \<in> fst ` set (a_joins A) then Some (-2, A)
      else if (a_cur A, i) \<in> (set (a_joins A))\<^sup>* then Some (-1, A)
      else returning 0 (a_switch False (A\<lparr>a_joins := (i, a_cur A) # a_joins A\<rparr>)))"

definition a_end :: "asched \<Rightarrow> asched" where
  "a_end A = A\<lparr>
     a_ready := a_ready A @ (case map_of (a_joins A) (a_cur A) of None \<Rightarrow> [] | Some w \<Rightarrow> [w]),
     a_joins := filter (\<lambda>p. fst p \<noteq> a_cur A) (a_joins A),
     a_ids := (case a_done A of None \<Rightarrow> a_ids A | Some d \<Rightarrow> a_ids A - {d}),
     a_done := Some (a_cur A)\<rparr>"

fun acall :: "call \<Rightarrow> asched \<Rightarrow> (int \<times> asched) option" where
  "acall Self A = Some (sint (a_cur A), A)"
| "acall (Create w i) A = Some (sint (a_next A),
     A\<lparr>a_ready := a_ready A @ [a_next A], a_ids := insert (a_next A) (a_ids A), a_next := a_next A + 1\<rparr>)"
| "acall Yield A = returning 0 (a_switch True A)"
| "acall (Join i) A = a_join i A"
| "acall (MutexInit p) A = (case p of None \<Rightarrow> Some (0, A)
     | Some m \<Rightarrow> Some (1, A\<lparr>a_mutex := (a_mutex A)(m \<mapsto> (None, []))\<rparr>))"
| "acall (Lock p) A = (case p of None \<Rightarrow> Some (0, A)
     | Some m \<Rightarrow> if a_owner m A = None then Some (1, a_take m (a_cur A) A)
                else if a_owner m A = Some (a_cur A) then Some (0, A)
                else returning 1 (a_switch False (a_wait m (a_cur A) A)))"
| "acall (Unlock p) A = (case p of None \<Rightarrow> Some (0, A)
     | Some m \<Rightarrow> if a_owner m A = Some (a_cur A) then Some (1, a_release m A) else Some (0, A))"
| "acall (CondInit p) A = (case p of None \<Rightarrow> Some (0, A)
     | Some c \<Rightarrow> Some (1, A\<lparr>a_cond := (a_cond A)(c \<mapsto> [])\<rparr>))"
| "acall (Wait p q) A = (case (p, q) of
       (Some c, Some m) \<Rightarrow>
         if a_owner m A = Some (a_cur A) then
           (let A' = a_release m A in
            returning 1 (a_switch False (A'\<lparr>a_cond := (a_cond A')(c := map_option (\<lambda>xs. xs @ [(a_cur A, m)]) (a_cond A' c))\<rparr>)))
         else Some (0, A)
     | _ \<Rightarrow> Some (0, A))"
| "acall (Signal p) A = (case p of None \<Rightarrow> Some (0, A)
     | Some c \<Rightarrow> (case a_cond A c of
         Some ((x, m) # xs) \<Rightarrow>
           let A' = A\<lparr>a_cond := (a_cond A)(c \<mapsto> xs)\<rparr> in
           Some (1, if a_owner m A' = None then (a_take m x A')\<lparr>a_ready := a_ready A' @ [x]\<rparr> else a_wait m x A')
       | _ \<Rightarrow> Some (1, A)))"
| "acall Terminate A = returning 0 (a_switch False (a_end A))"

section \<open>The abstraction\<close>

definition tid_of :: "(nat \<Rightarrow> tcb option) \<Rightarrow> nat \<Rightarrow> u64" where
  "tid_of ts x = tcb_tid (the (ts x))"

definition mutex_owner :: "thread_mutex \<Rightarrow> u64 option" where
  "mutex_owner mx = (if mx_locked mx then Some (mx_owner mx) else None)"

definition abs_mutex :: "(nat \<Rightarrow> u64) \<Rightarrow> nat list \<Rightarrow> (nat \<Rightarrow> thread_mutex option) \<Rightarrow> (nat \<Rightarrow> nat list) \<Rightarrow>
    nat \<Rightarrow> (u64 option \<times> u64 list) option" where
  "abs_mutex T ms mm ws m = (if m \<in> set ms then Some (mutex_owner (the (mm m)), map T (ws m)) else None)"

definition abs_info :: "(nat \<Rightarrow> u64) \<Rightarrow> (nat \<Rightarrow> COND_INFO option) \<Rightarrow> nat \<Rightarrow> u64 \<times> nat" where
  "abs_info T nf i = (T (ci_thread (the (nf i))), ci_mutex (the (nf i)))"

definition abs_cond :: "(nat \<Rightarrow> u64) \<Rightarrow> nat list \<Rightarrow> (nat \<Rightarrow> COND_INFO option) \<Rightarrow> (nat \<Rightarrow> nat list) \<Rightarrow>
    nat \<Rightarrow> (u64 \<times> nat) list option" where
  "abs_cond T cs nf is c = (if c \<in> set cs then Some (map (abs_info T nf) (is c)) else None)"

text \<open>The abstract state, with the identifiers given by a function of the addresses.\<close>

definition abst_by :: "(nat \<Rightarrow> u64) \<Rightarrow> threads \<Rightarrow> view \<Rightarrow> asched" where
  "abst_by T s v = \<lparr>a_cur = T (the (current_thread s)), a_ready = map T (v_ready v),
      a_mutex = abs_mutex T (v_mutexes v) (mutex_mem s) (v_waits v), a_cond = abs_cond T (v_conds v) (infos s) (v_infos v),
      a_joins = map (map_prod T T) (v_joins v), a_done = map_option T (next_to_destroy s),
      a_ids = T ` dom (tcbs s), a_next = tab_max_id (the (all_threads s))\<rparr>"

abbreviation abst :: "threads \<Rightarrow> view \<Rightarrow> asched" where
  "abst s v \<equiv> abst_by (tid_of (tcbs s)) s v"

definition refines :: "env \<Rightarrow> (int \<times> threads) res \<Rightarrow> (int \<times> asched) option \<Rightarrow> bool" where
  "refines E res a \<longleftrightarrow> (case a of
     None \<Rightarrow> res = Inl (ExitCode (-1))
   | Some (r, A') \<Rightarrow> \<exists>s' v'. res = Inr (r, s') \<and> sched_inv E s' v' \<and> A' = abst s' v')"

lemma tid_upd: "ts n = Some c \<Longrightarrow> tcb_tid c' = tcb_tid c \<Longrightarrow> tid_of (ts(n \<mapsto> c')) = tid_of ts"
  by (rule ext) (simp add: tid_of_def)

lemma dom_upd: "ts n = Some c \<Longrightarrow> dom (ts(n \<mapsto> c')) = dom ts"
  by auto

lemma tid_inj_on: "sched_ok E s v \<Longrightarrow> inj_on (tid_of (tcbs s)) (dom (tcbs s))"
  by (rule inj_onI) (auto simp: tid_of_def intro: tid_inj)

lemma refines_same: "sched_inv E s v \<Longrightarrow> refines E (Inr (r, s)) (Some (r, abst s v))"
  by (auto simp: refines_def)

lemma refines_Inr: "sched_inv E s' v' \<Longrightarrow> A' = abst s' v' \<Longrightarrow> refines E (Inr (r, s')) (Some (r, A'))"
  by (auto simp: refines_def)

text \<open>Only the identifiers of the control blocks that exist matter.\<close>

lemma abst_by_eq:
  assumes ok: "sched_ok E s v" and d: "v_done v = done_list (next_to_destroy s)"
    and T: "\<And>x. x \<in> dom (tcbs s) \<Longrightarrow> T x = T' x"
  shows "abst_by T s v = abst_by T' s v"
proof -
  have p: "set (places s v) = dom (tcbs s)" by (rule places_set [OF ok])
  have "x \<in> dom (tcbs s)" if "x \<in> set (v_ready v) \<union> set (waiting (infos s) v) \<union> set (v_done v)" for x
    using that p by (auto simp: places_def)
  note in_dom = T [OF this]
  have r: "map T (v_ready v) = map T' (v_ready v)" using in_dom by simp
  have m: "map T (v_waits v m) = map T' (v_waits v m)" if "m \<in> set (v_mutexes v)" for m
    using in_dom mutex_waiting_mem [OF that] by simp
  have c: "map (abs_info T (infos s)) (v_infos v c) = map (abs_info T' (infos s)) (v_infos v c)" if "c \<in> set (v_conds v)" for c
  proof -
    have "info_thread (infos s) i \<in> set (waiting (infos s) v)" if "i \<in> set (v_infos v c)" for i
      using that \<open>c \<in> set (v_conds v)\<close> by (auto simp: waiting_def all_infos_def)
    then show ?thesis using in_dom by (auto simp: abs_info_def info_thread_def)
  qed
  have "x \<in> dom (tcbs s) \<and> y \<in> dom (tcbs s)" if "(x, y) \<in> set (v_joins v)" for x y
    using joins_in_dom [OF ok that] by blast
  then have j: "map (map_prod T T) (v_joins v) = map (map_prod T' T') (v_joins v)" using T by auto
  have n: "map_option T (next_to_destroy s) = map_option T' (next_to_destroy s)"
    using in_dom d by (cases "next_to_destroy s") (simp_all add: done_list_def)
  have "the (current_thread s) \<in> dom (tcbs s)" using sched_parts(2) [OF ok] by (auto simp: status_ok_def)
  then show ?thesis using r m c j n T
    by (auto simp: abst_by_def abs_mutex_def abs_cond_def fun_eq_iff image_iff)
qed

lemma switch_refines:
  assumes ok: "sched_ok E s v" and d: "v_done v = done_list (next_to_destroy s)" and t: "current_thread s = Some t"
    and w: "w \<longleftrightarrow> stat (tcbs s) t = Some WORKING"
  shows "refines E (bindR (thread_yield E s) (\<lambda>s. Inr (k, s))) (returning k (a_switch w (abst s v)))"
proof (cases "v_ready v")
  case Nil
  then have r: "a_ready (abst s v) = []" by (simp add: abst_by_def)
  show ?thesis
  proof (cases w)
    case True
    then have "sched_inv E s v" using ok d t w by (simp add: sched_inv_def)
    then show ?thesis using yield_alone [OF ok t Nil] r True w by (simp add: a_switch_def returning_def refines_same)
  next
    case False
    then show ?thesis using yield_alone [OF ok t Nil] r w by (simp add: a_switch_def returning_def refines_def)
  qed
next
  case (Cons n R)
  obtain Q where y: "thread_yield E s = Inr (s\<lparr>ready_list := Q, current_thread := Some n\<rparr>)"
    and ok': "sched_ok E (s\<lparr>ready_list := Q, current_thread := Some n\<rparr>) (v\<lparr>v_ready := R @ running (tcbs s) (Some t)\<rparr>)"
    using yield_ok [OF ok t Cons] by blast
  let ?s = "s\<lparr>ready_list := Q, current_thread := Some n\<rparr>" and ?v = "v\<lparr>v_ready := R @ running (tcbs s) (Some t)\<rparr>"
  have "stat (tcbs s) n = Some WORKING" using sched_parts(2) [OF ok] Cons by (simp add: status_ok_def)
  then have i: "sched_inv E ?s ?v" using ok' d by (simp add: sched_inv_def)
  have "a_switch w (abst s v) = Some (abst ?s ?v)"
    using Cons t w by (simp add: a_switch_def abst_by_def running_def)
  then show ?thesis using refines_Inr [OF i refl] by (simp add: y returning_def)
qed

lemma switch_from:
  assumes "sched_ok E s1 v1" "v_done v1 = done_list (next_to_destroy s1)" "current_thread s1 = Some t"
    and "w \<longleftrightarrow> stat (tcbs s1) t = Some WORKING" "A = abst s1 v1"
    and "res = bindR (thread_yield E s1) (\<lambda>s. Inr (k, s))"
  shows "refines E res (returning k (a_switch w A))"
  using switch_refines [OF assms(1-4)] by (simp add: assms)

section \<open>The calls\<close>

lemma self_refines:
  assumes inv: "sched_inv E s v" and t: "current_thread s = Some t"
  shows "refines E (exec E Self s) (acall Self (abst s v))"
proof -
  obtain c where "tcbs s t = Some c" "ready s" using assms by (auto elim: sched_invD)
  then show ?thesis using t refines_same [OF inv] by (simp add: as_long_def thread_self_def abst_by_def tid_of_def)
qed

lemma thread_create_next:
  assumes "ready s" "all_threads s = Some tab" "thread_create E w i s = Inr (tid, s')"
  shows "\<exists>tab'. all_threads s' = Some tab' \<and> tab_max_id tab' = tab_max_id tab + 1 \<and> hbrk s' = Suc (Suc (hbrk s))"
proof -
  obtain c0 mem where f: "first_frame E (e_stack E (hbrk s)) w i (e_junk E (hbrk s)) (words s) = (c0, mem)" by fastforce
  show ?thesis using assms
    by (auto simp: thread_create_def f alloc_tcb_def put_tcb_def get_cell_def push_ready_def need_def free_handle_def Let_def
        split: option.splits if_splits)
qed

lemma create_refines:
  assumes inv: "sched_inv E s v" and t: "current_thread s = Some t" and E: "clean_env E" and c: "valid E s (Create w i)"
  shows "refines E (exec E (Create w i) s) (acall (Create w i) (abst s v))"
proof -
  have ok: "sched_ok E s v" using inv by (simp add: sched_inv_def)
  obtain tab where tab: "all_threads s = Some tab" using ok by (auto simp: sched_ok_def table_rep_def)
  have mx: "tab_max_id tab + 1 \<noteq> 0" and fs: "e_stack E (hbrk s) \<notin> stacks s" using c tab by simp_all
  let ?v = "v\<lparr>v_table := (Suc (hbrk s), tab_max_id tab, hbrk s) # v_table v, v_ready := v_ready v @ [hbrk s]\<rparr>"
  obtain s' R where s': "thread_create E w i s = Inr (tab_max_id tab, s')" "sched_ok E s' ?v"
    "current_thread s' = Some t" "next_to_destroy s' = next_to_destroy s" "tcbs s' = (tcbs s)(hbrk s \<mapsto> R)"
    "tcb_tid R = tab_max_id tab" "mutex_mem s' = mutex_mem s" "infos s' = infos s"
    using create_ok [OF ok E tab mx t fs, of w i] by blast
  have fresh: "hbrk s \<notin> dom (tcbs s)" using dom_bound [OF ok] by auto
  have "t \<noteq> hbrk s" using inv t fresh by (auto simp: sched_inv_def stat_Some)
  then have i: "sched_inv E s' ?v" using inv s' t by (simp add: sched_inv_def stat_def)
  let ?T = "tid_of (tcbs s')"
  have T: "tid_of (tcbs s) x = ?T x" if "x \<in> dom (tcbs s)" for x using that fresh s'(5) by (auto simp: tid_of_def)
  obtain tab' where tab': "all_threads s' = Some tab'" "tab_max_id tab' = tab_max_id tab + 1"
    using thread_create_next [OF sched_ready [OF ok] tab s'(1)] by blast
  have n: "?T (hbrk s) = tab_max_id tab" using s'(5,6) by (simp add: tid_of_def)
  have "abst s v = abst_by ?T s v" by (rule abst_by_eq [OF ok _ T]) (use inv in \<open>auto simp: sched_inv_def\<close>)
  then have "acall (Create w i) (abst s v) = Some (sint (tab_max_id tab), abst s' ?v)"
    using s' t tab tab' n by (simp add: abst_by_def)
  then show ?thesis using refines_Inr [OF i refl] s'(1) by (simp add: as_long_def)
qed

lemma yield_refines:
  assumes inv: "sched_inv E s v" and t: "current_thread s = Some t"
  shows "refines E (exec E Yield s) (acall Yield (abst s v))"
  unfolding acall.simps
  by (rule switch_from) (use assms in \<open>auto simp: sched_inv_def no_value_def\<close>)

lemma rtrancl_image:
  assumes "inj_on T D" "\<forall>(a, b) \<in> r. a \<in> D \<and> b \<in> D" "t \<in> D" "u \<in> D"
  shows "(T t, T u) \<in> (map_prod T T ` r)\<^sup>* \<longleftrightarrow> (t, u) \<in> r\<^sup>*"
proof
  show "(T t, T u) \<in> (map_prod T T ` r)\<^sup>*" if "(t, u) \<in> r\<^sup>*"
    using that by induction (auto intro: rtrancl_into_rtrancl)
  have "\<exists>x. x \<in> D \<and> T x = y \<and> (t, x) \<in> r\<^sup>*" if "(T t, y) \<in> (map_prod T T ` r)\<^sup>*" for y
    using that
  proof induction
    case base
    then show ?case using assms(3) by blast
  next
    case (step y z)
    then obtain x where x: "x \<in> D" "T x = y" "(t, x) \<in> r\<^sup>*" by blast
    obtain a b where ab: "(a, b) \<in> r" "T a = y" "T b = z" using step.hyps(2) by auto
    then have "a = x" "b \<in> D" using assms(1,2) x by (auto dest: inj_onD)
    then show ?case using x ab by (blast intro: rtrancl_into_rtrancl)
  qed
  then show "(t, u) \<in> r\<^sup>*" if "(T t, T u) \<in> (map_prod T T ` r)\<^sup>*"
    using that assms(1,4) by (blast dest: inj_onD)
qed

lemma join_refines:
  assumes inv: "sched_inv E s v" and t: "current_thread s = Some t"
  shows "refines E (exec E (Join i) s) (acall (Join i) (abst s v))"
proof -
  have ok: "sched_ok E s v" and d: "v_done v = done_list (next_to_destroy s)" using inv by (simp_all add: sched_inv_def)
  obtain c where c: "tcbs s t = Some c" "tcb_status c = WORKING" "ready s" using inv t by (auto elim: sched_invD)
  have st: "stat (tcbs s) t = Some WORKING" using c by (simp add: stat_def)
  have tab: "table_rep s (all_threads s) (v_table v)" using ok by (simp add: sched_ok_def)
  note g = get_tcb_by_id_rep [OF tab, of i]
  let ?T = "tid_of (tcbs s)" and ?A = "abst s v"
  have cur: "a_cur ?A = tcb_tid c" using t c by (simp add: abst_by_def tid_of_def)
  have ids: "i \<in> a_ids ?A \<longleftrightarrow> map_of (map snd (v_table v)) i \<noteq> None"
  proof
    assume "i \<in> a_ids ?A"
    then obtain x xc where "tcbs s x = Some xc" "tcb_tid xc = i" by (auto simp: abst_by_def tid_of_def)
    then show "map_of (map snd (v_table v)) i \<noteq> None" using id_of_thread [OF ok] by auto
  next
    assume "map_of (map snd (v_table v)) i \<noteq> None"
    then obtain u where "map_of (map snd (v_table v)) i = Some u" by auto
    then obtain e where "e \<in> set (v_table v)" "e_id e = i" using map_of_SomeD by fastforce
    then obtain uc where uc: "tcbs s (e_tcb e) = Some uc" "tcb_tid uc = i"
      using tab unfolding table_rep_def linked_def by fastforce
    then have "e_tcb e \<in> dom (tcbs s)" "?T (e_tcb e) = i" by (auto simp: tid_of_def)
    then show "i \<in> a_ids ?A" by (auto simp: abst_by_def)
  qed
  show ?thesis
  proof (cases "tcb_tid c = i \<or> map_of (map snd (v_table v)) i = None")
    case True
    then have "exec E (Join i) s = Inr (if tcb_tid c = i then -1 else -3, s)"
      using c t g by (auto simp: thread_join_def)
    moreover have "acall (Join i) ?A = Some (if tcb_tid c = i then -1 else -3, ?A)"
      using True ids cur by (auto simp: a_join_def)
    ultimately show ?thesis using refines_same [OF inv] by simp
  next
    case False
    then obtain u where u: "map_of (map snd (v_table v)) i = Some u" by auto
    then obtain e where e: "e \<in> set (v_table v)" "e_id e = i" "e_tcb e = u"
      using map_of_SomeD by fastforce
    then obtain uc where uc: "tcbs s u = Some uc" "tcb_tid uc = i"
      using tab unfolding table_rep_def linked_def by fastforce
    have Tu: "?T u = i" "?T t = tcb_tid c" using uc c by (simp_all add: tid_of_def)
    have ut: "u \<noteq> t" using False uc c by auto
    have ob: "tcb_observer uc = map_of (v_joins v) u" using sched_parts(5) [OF ok] uc by (simp add: joins_ok_def)
    have dn: "a_done ?A = Some i \<longleftrightarrow> tcb_status uc = DONE"
    proof -
      have "u \<in> set (v_ready v) \<union> set (waiting (infos s) v) \<union> set (v_done v)"
        using places_set [OF ok] uc(1) ut running_current(1) [OF ok t st] by auto
      then have "tcb_status uc = DONE \<longleftrightarrow> u \<in> set (v_done v)"
        using sched_parts(2) [OF ok] uc(1) by (fastforce simp: status_ok_def stat_def)
      also have "\<dots> \<longleftrightarrow> next_to_destroy s = Some u" by (auto simp: d done_list_def split: option.splits)
      also have "\<dots> \<longleftrightarrow> a_done ?A = Some i"
      proof
        assume "a_done ?A = Some i"
        then obtain x where x: "next_to_destroy s = Some x" "?T x = i" by (auto simp: abst_by_def)
        then have "x \<in> dom (tcbs s)" using places_set [OF ok] d by (auto simp: places_def done_list_def)
        then have "x = u" using inj_onD [OF tid_inj_on [OF ok], of x u] x uc Tu by auto
        then show "next_to_destroy s = Some u" using x by simp
      qed (simp add: abst_by_def Tu)
      finally show ?thesis by blast
    qed
    have jd: "\<forall>(a, b) \<in> set (v_joins v). a \<in> dom (tcbs s) \<and> b \<in> dom (tcbs s)"
      using joins_in_dom(1,2) [OF ok] by blast
    have obs: "i \<in> fst ` set (a_joins ?A) \<longleftrightarrow> tcb_observer uc \<noteq> None"
    proof -
      have "i \<in> fst ` set (a_joins ?A) \<longleftrightarrow> (\<exists>(a, b) \<in> set (v_joins v). ?T a = i)" by (force simp: abst_by_def)
      also have "\<dots> \<longleftrightarrow> (\<exists>b. (u, b) \<in> set (v_joins v))"
        using jd inj_onD [OF tid_inj_on [OF ok], of _ u] uc(1) Tu(1) by fastforce
      also have "\<dots> \<longleftrightarrow> map_of (v_joins v) u \<noteq> None" by (force simp: map_of_eq_None_iff)
      finally show ?thesis by (simp add: ob)
    qed
    have path: "(a_cur ?A, i) \<in> (set (a_joins ?A))\<^sup>* \<longleftrightarrow> (t, u) \<in> (set (v_joins v))\<^sup>*"
      using rtrancl_image [OF tid_inj_on [OF ok] jd, of t u] c(1) uc(1) cur by (auto simp: abst_by_def Tu)
    have base: "i \<noteq> a_cur ?A" "i \<in> a_ids ?A" using False cur ids by auto
    consider (fin) "tcb_status uc = DONE" | (busy) "tcb_status uc \<noteq> DONE" "tcb_observer uc \<noteq> None"
      | (wait) "tcb_status uc \<noteq> DONE" "tcb_observer uc = None" by blast
    then show ?thesis
    proof cases
      case fin
      then have x: "exec E (Join i) s = bindR (thread_yield E s) (\<lambda>s. Inr (0, s))"
        using c t g u uc False by (simp add: thread_join_def)
      have a: "acall (Join i) ?A = returning 0 (a_switch True ?A)" using base dn fin by (simp add: a_join_def)
      show ?thesis unfolding a by (rule switch_from [OF ok d t _ refl x]) (simp add: st)
    next
      case busy
      then have "exec E (Join i) s = Inr (-2, s)" using c t g u uc False by (simp add: thread_join_def)
      moreover have "acall (Join i) ?A = Some (-2, ?A)" using base dn obs busy by (simp add: a_join_def)
      ultimately show ?thesis using refines_same [OF inv] by simp
    next
      case wait
      let ?s = "join_state s t u" and ?v = "v\<lparr>v_joins := (u, t) # v_joins v\<rparr>"
      have gu: "get_tcb_by_id s (all_threads s) i = Inr (Some u)" using g u by simp
      note je = join_exec [OF ok t c(1,2) gu uc ut wait]
      have a: "acall (Join i) ?A = (if (t, u) \<in> (set (v_joins v))\<^sup>* then Some (-1, ?A)
          else returning 0 (a_switch False (?A\<lparr>a_joins := (i, a_cur ?A) # a_joins ?A\<rparr>)))"
        using base dn obs wait path by (simp add: a_join_def)
      show ?thesis
      proof (cases "(t, u) \<in> (set (v_joins v))\<^sup>*")
        case True
        then show ?thesis using je a refines_same [OF inv] by simp
      next
        case False
        have x: "exec E (Join i) s = bindR (thread_yield E ?s) (\<lambda>s. Inr (0, s))" using je False by simp
        have ok': "sched_ok E ?s ?v"
          by (rule join_state_ok [OF ok t st uc(1) _ ut _ False]) (use wait ob in simp_all)
        have T: "tid_of (tcbs ?s) = ?T" using c uc ut by (auto simp: join_state_def tid_of_def)
        have D: "dom (tcbs ?s) = dom (tcbs s)" using c uc by (auto simp: join_state_def)
        have A: "?A\<lparr>a_joins := (i, a_cur ?A) # a_joins ?A\<rparr> = abst ?s ?v"
          unfolding T unfolding abst_by_def D by (simp add: t join_state_def Tu)
        have w: "False \<longleftrightarrow> stat (tcbs ?s) t = Some WORKING" using c uc ut by (simp add: join_state_def)
        show ?thesis unfolding a if_not_P [OF False]
          by (rule switch_from [OF ok' _ _ w A x]) (simp_all add: d t join_state_def)
      qed
    qed
  qed
qed

lemma mutex_owner_simps:
  "\<not> mx_locked mx \<Longrightarrow> mutex_owner mx = None" "mx_locked mx \<Longrightarrow> mutex_owner mx = Some (mx_owner mx)"
  by (simp_all add: mutex_owner_def)

lemma abs_mutex_upd:
  "m \<in> set ms \<Longrightarrow> abs_mutex T ms (mm(m \<mapsto> mx)) (ws(m := xs)) = (abs_mutex T ms mm ws)(m \<mapsto> (mutex_owner mx, map T xs))"
  by (auto simp: abs_mutex_def fun_eq_iff)

lemma abs_mutex_mem:
  "m \<in> set ms \<Longrightarrow> abs_mutex T ms (mm(m \<mapsto> mx)) ws = (abs_mutex T ms mm ws)(m \<mapsto> (mutex_owner mx, map T (ws m)))"
  by (auto simp: abs_mutex_def fun_eq_iff)

lemma abs_mutex_new:
  "m \<notin> set ms \<Longrightarrow> abs_mutex T (ms @ [m]) (mm(m \<mapsto> mx)) (ws(m := xs)) = (abs_mutex T ms mm ws)(m \<mapsto> (mutex_owner mx, map T xs))"
  by (auto simp: abs_mutex_def fun_eq_iff)

lemma abs_cond_upd:
  "c \<in> set cs \<Longrightarrow> abs_cond T cs nf (is(c := xs)) = (abs_cond T cs nf is)(c \<mapsto> map (abs_info T nf) xs)"
  by (auto simp: abs_cond_def fun_eq_iff)

lemma abs_cond_new:
  "c \<notin> set cs \<Longrightarrow> abs_cond T (cs @ [c]) nf (is(c := xs)) = (abs_cond T cs nf is)(c \<mapsto> map (abs_info T nf) xs)"
  by (auto simp: abs_cond_def fun_eq_iff)

lemma abs_at:
  assumes "m \<in> set (v_mutexes v)" "mutex_mem s m = Some mx"
  shows "a_mutex (abst_by T s v) m = Some (mutex_owner mx, map T (v_waits v m))" "a_owner m (abst_by T s v) = mutex_owner mx"
  using assms by (simp_all add: abst_by_def abs_mutex_def a_owner_def)

lemma mutex_init_refines:
  assumes inv: "sched_inv E s v" and t: "current_thread s = Some t" and E: "clean_env E" and c: "valid E s (MutexInit p)"
  shows "refines E (exec E (MutexInit p) s) (acall (MutexInit p) (abst s v))"
proof (cases p)
  case None
  have "ready s" using inv by (auto elim: sched_invD)
  then show ?thesis using refines_same [OF inv] by (simp add: None thread_mutex_init_def)
next
  case (Some m)
  then obtain mx where mx: "mutex_mem s m = Some mx" "mx_q mx = None" using c by (auto split: option.splits)
  have ok: "sched_ok E s v" using inv by (simp add: sched_inv_def)
  have "e_ok E" using E by (simp add: clean_env_def)
  from mutex_init_ok [OF ok this mx] obtain Q Q' where
    r: "thread_mutex_init E (Some m) s = Inr (1, s\<lparr>mutex_mem := (mutex_mem s)(m \<mapsto> mx\<lparr>mx_locked := False, mx_owner := -1, mx_q := Q\<rparr>),
        mutexes := Q'\<rparr>)"
    and ok': "sched_ok E (s\<lparr>mutex_mem := (mutex_mem s)(m \<mapsto> mx\<lparr>mx_locked := False, mx_owner := -1, mx_q := Q\<rparr>),
        mutexes := Q'\<rparr>) (v\<lparr>v_mutexes := v_mutexes v @ [m], v_waits := (v_waits v)(m := [])\<rparr>)"
    by (auto simp: Let_def)
  have "m \<notin> set (v_mutexes v)" using sched_mutex [OF ok, of m] mx by (auto simp: qrep_def)
  then show ?thesis using r inv ok' unfolding Some
    by (auto simp: sched_inv_def abst_by_def abs_mutex_new mutex_owner_simps intro!: refines_Inr)
qed

lemma cond_init_refines:
  assumes inv: "sched_inv E s v" and t: "current_thread s = Some t" and E: "clean_env E" and c: "valid E s (CondInit p)"
  shows "refines E (exec E (CondInit p) s) (acall (CondInit p) (abst s v))"
proof (cases p)
  case None
  have "ready s" using inv by (auto elim: sched_invD)
  then show ?thesis using refines_same [OF inv] by (simp add: None thread_cond_init_def)
next
  case (Some a)
  then obtain cv where cv: "cond_mem s a = Some cv" "cv_q cv = None" using c by (auto split: option.splits)
  have ok: "sched_ok E s v" using inv by (simp add: sched_inv_def)
  have "e_ok E" using E by (simp add: clean_env_def)
  from cond_init_ok [OF ok this cv] obtain Q Q' where
    r: "thread_cond_init E (Some a) s = Inr (1, s\<lparr>cond_mem := (cond_mem s)(a \<mapsto> cv\<lparr>cv_q := Q\<rparr>), conds := Q'\<rparr>)"
    and ok': "sched_ok E (s\<lparr>cond_mem := (cond_mem s)(a \<mapsto> cv\<lparr>cv_q := Q\<rparr>), conds := Q'\<rparr>)
        (v\<lparr>v_conds := v_conds v @ [a], v_infos := (v_infos v)(a := [])\<rparr>)"
    by (auto simp: Let_def)
  have "a \<notin> set (v_conds v)" using sched_cond [OF ok, of a] cv by (auto simp: qrep_def)
  then show ?thesis using r inv ok' unfolding Some
    by (auto simp: sched_inv_def abst_by_def abs_cond_new intro!: refines_Inr)
qed

lemma lock_refines:
  assumes inv: "sched_inv E s v" and t: "current_thread s = Some t" and c: "valid E s (Lock p)"
  shows "refines E (exec E (Lock p) s) (acall (Lock p) (abst s v))"
proof (cases p)
  case None
  then show ?thesis using refines_same [OF inv] by (simp add: thread_mutex_lock_def)
next
  case (Some m)
  have ok: "sched_ok E s v" and d: "v_done v = done_list (next_to_destroy s)" using inv by (simp_all add: sched_inv_def)
  obtain k where k: "tcbs s t = Some k" "tcb_status k = WORKING" "ready s" using inv t by (auto elim: sched_invD)
  obtain mx where m: "m \<in> set (v_mutexes v)" "mutex_mem s m = Some mx"
    using valid_mutex [OF ok] c Some by auto
  let ?A = "abst s v"
  note am = abs_at [OF m, of "tid_of (tcbs s)"]
  have cur: "a_cur ?A = tcb_tid k" using t k by (simp add: abst_by_def tid_of_def)
  consider (free) "\<not> mx_locked mx" | (mine) "mx_locked mx" "mx_owner mx = tcb_tid k"
    | (busy) "mx_locked mx" "mx_owner mx \<noteq> tcb_tid k" by blast
  then show ?thesis
  proof cases
    case free
    let ?s = "s\<lparr>mutex_mem := (mutex_mem s)(m \<mapsto> mx\<lparr>mx_locked := True, mx_owner := tcb_tid k\<rparr>)\<rparr>"
    have l: "thread_mutex_lock E (Some m) s = Inr (1, ?s)" "sched_ok E ?s v"
      using lock_free [OF ok t k(1) m free] by blast+
    have "sched_inv E ?s v" using l(2) inv by (simp add: sched_inv_def)
    moreover have "a_take m (a_cur ?A) ?A = abst ?s v"
      unfolding a_take_def am(1) cur using m by (simp add: abst_by_def abs_mutex_mem mutex_owner_simps)
    ultimately show ?thesis using l(1) am(2) free by (simp add: Some mutex_owner_simps refines_Inr)
  next
    case mine
    then have "exec E (Lock p) s = Inr (0, s)"
      using k m t by (simp add: Some thread_mutex_lock_def get_cell_def thread_self_def)
    then show ?thesis using refines_same [OF inv] am(2) mine cur by (simp add: Some mutex_owner_simps)
  next
    case busy
    let ?s0 = "s\<lparr>tcbs := (tcbs s)(t \<mapsto> k\<lparr>tcb_status := WAITING\<rparr>)\<rparr>"
    let ?v = "v\<lparr>v_waits := (v_waits v)(m := v_waits v m @ [t])\<rparr>"
    obtain Q where Q: "push_mutex m t ?s0 = Inr (?s0\<lparr>mutex_mem := (mutex_mem s)(m \<mapsto> mx\<lparr>mx_q := Q\<rparr>)\<rparr>)"
      and ok': "sched_ok E (?s0\<lparr>mutex_mem := (mutex_mem s)(m \<mapsto> mx\<lparr>mx_q := Q\<rparr>)\<rparr>) ?v"
      using block_mutex [OF ok t k(1,2) m busy(1)] by blast
    let ?s = "?s0\<lparr>mutex_mem := (mutex_mem s)(m \<mapsto> mx\<lparr>mx_q := Q\<rparr>)\<rparr>"
    have x: "exec E (Lock p) s = bindR (thread_yield E ?s) (\<lambda>s. Inr (1, s))"
      using k m t busy Q by (simp add: Some thread_mutex_lock_def get_cell_def thread_self_def set_status_def)
    have T: "tid_of (tcbs ?s) = tid_of (tcbs s)" and D: "dom (tcbs ?s) = dom (tcbs s)"
      using tid_upd [of "tcbs s" t k] k(1) by auto
    have tt: "tid_of (tcbs s) t = tcb_tid k" using k by (simp add: tid_of_def)
    have A: "a_wait m (a_cur ?A) ?A = abst ?s ?v"
      unfolding a_wait_def am(1) cur T unfolding abst_by_def D using m busy tt
      by (simp add: abs_mutex_upd mutex_owner_def)
    have a: "acall (Lock p) ?A = returning 1 (a_switch False (a_wait m (a_cur ?A) ?A))"
      using am(2) busy cur by (simp add: Some mutex_owner_simps)
    show ?thesis unfolding a
      by (rule switch_from [OF ok' _ _ _ A x, where t = t]) (simp_all add: d t)
  qed
qed

lemma release_spec:
  assumes inv: "sched_inv E s v" and t: "current_thread s = Some t" "tcbs s t = Some k"
    and m: "m \<in> set (v_mutexes v)" "mutex_mem s m = Some mx" "mx_locked mx" "mx_owner mx = tcb_tid k"
  shows "\<exists>s' v'. thread_mutex_unlock E (Some m) s = Inr (1, s') \<and> sched_inv E s' v' \<and> a_release m (abst s v) = abst s' v' \<and>
    current_thread s' = Some t \<and> tcbs s' t = Some k \<and> v_mutexes v' = v_mutexes v \<and> v_conds v' = v_conds v"
proof -
  have ok: "sched_ok E s v" using inv by (simp add: sched_inv_def)
  have w: "tcb_status k = WORKING" using inv t by (simp add: sched_inv_def stat_def)
  note am = abs_at(1) [OF m(1,2), of "tid_of (tcbs s)"]
  show ?thesis
  proof (cases "v_waits v m")
    case Nil
    let ?s = "s\<lparr>mutex_mem := (mutex_mem s)(m \<mapsto> mx\<lparr>mx_locked := False, mx_owner := tcb_tid k\<rparr>)\<rparr>"
    have u: "thread_mutex_unlock E (Some m) s = Inr (1, ?s)" "sched_ok E ?s v"
      using unlock_free [OF ok t w m Nil] by blast+
    have "a_release m (abst s v) = abst ?s v"
      unfolding a_release_def am using m Nil by (simp add: abst_by_def abs_mutex_mem mutex_owner_simps)
    then show ?thesis using u inv t by (intro exI [of _ ?s] exI [of _ v]) (simp add: sched_inv_def)
  next
    case (Cons n ws)
    have nw: "n \<in> set (waiting (infos s) v)" using mutex_waiting_mem [OF m(1)] Cons by simp
    then obtain nc where nc: "tcbs s n = Some nc" using waiting_in_places(1) [OF ok] by blast
    have nt: "n \<noteq> t" using waiting_in_places(2) [OF ok nw] inv t by (auto simp: sched_inv_def)
    let ?v = "v\<lparr>v_waits := (v_waits v)(m := ws), v_ready := v_ready v @ [n]\<rparr>"
    from unlock_pass [OF ok t w m Cons nc] obtain Q Q' where
      u: "thread_mutex_unlock E (Some m) s = Inr (1, s\<lparr>tcbs := (tcbs s)(n \<mapsto> nc\<lparr>tcb_status := WORKING\<rparr>),
        mutex_mem := (mutex_mem s)(m \<mapsto> mx\<lparr>mx_q := Q, mx_locked := True, mx_owner := tcb_tid nc\<rparr>), ready_list := Q'\<rparr>)"
      and ok': "sched_ok E (s\<lparr>tcbs := (tcbs s)(n \<mapsto> nc\<lparr>tcb_status := WORKING\<rparr>),
        mutex_mem := (mutex_mem s)(m \<mapsto> mx\<lparr>mx_q := Q, mx_locked := True, mx_owner := tcb_tid nc\<rparr>), ready_list := Q'\<rparr>) ?v"
      by (auto simp: Let_def)
    let ?s = "s\<lparr>tcbs := (tcbs s)(n \<mapsto> nc\<lparr>tcb_status := WORKING\<rparr>),
        mutex_mem := (mutex_mem s)(m \<mapsto> mx\<lparr>mx_q := Q, mx_locked := True, mx_owner := tcb_tid nc\<rparr>), ready_list := Q'\<rparr>"
    have T: "tid_of (tcbs ?s) = tid_of (tcbs s)" and D: "dom (tcbs ?s) = dom (tcbs s)"
      using tid_upd [of "tcbs s" n nc] nc by auto
    have tn: "tid_of (tcbs s) n = tcb_tid nc" using nc by (simp add: tid_of_def)
    have "a_release m (abst s v) = abst ?s ?v"
      unfolding a_release_def am T unfolding abst_by_def D using m(1) Cons tn
      by (simp add: abs_mutex_upd mutex_owner_simps)
    then show ?thesis using u ok' inv t nt by (intro exI [of _ ?s] exI [of _ ?v]) (auto simp: sched_inv_def stat_def)
  qed
qed

lemma unlock_refines:
  assumes inv: "sched_inv E s v" and t: "current_thread s = Some t" and c: "valid E s (Unlock p)"
  shows "refines E (exec E (Unlock p) s) (acall (Unlock p) (abst s v))"
proof (cases p)
  case None
  then show ?thesis using refines_same [OF inv] by (simp add: thread_mutex_unlock_def)
next
  case (Some m)
  have ok: "sched_ok E s v" using inv by (simp add: sched_inv_def)
  obtain k where k: "tcbs s t = Some k" "ready s" using inv t by (auto elim: sched_invD)
  obtain mx where m: "m \<in> set (v_mutexes v)" "mutex_mem s m = Some mx"
    using valid_mutex [OF ok] c Some by auto
  have cur: "a_cur (abst s v) = tcb_tid k" using t k by (simp add: abst_by_def tid_of_def)
  note ao = abs_at(2) [OF m, of "tid_of (tcbs s)"]
  show ?thesis
  proof (cases "mx_locked mx \<and> mx_owner mx = tcb_tid k")
    case True
    then obtain s' v' where "thread_mutex_unlock E (Some m) s = Inr (1, s')" "sched_inv E s' v'" "a_release m (abst s v) = abst s' v'"
      using release_spec [OF inv t k(1) m] by blast
    then show ?thesis using True ao cur by (simp add: Some mutex_owner_simps refines_Inr)
  next
    case False
    then have "exec E (Unlock p) s = Inr (0, s)"
      using k m t by (auto simp: Some thread_mutex_unlock_def get_cell_def thread_self_def)
    then show ?thesis using refines_same [OF inv] False ao cur by (auto simp: Some mutex_owner_def)
  qed
qed

lemma wait_refines:
  assumes inv: "sched_inv E s v" and t: "current_thread s = Some t" and c: "valid E s (Wait p q)"
  shows "refines E (exec E (Wait p q) s) (acall (Wait p q) (abst s v))"
proof (cases "p = None \<or> q = None")
  case True
  then have "exec E (Wait p q) s = Inr (0, s)" "acall (Wait p q) (abst s v) = Some (0, abst s v)"
    by (auto simp: thread_cond_wait_def split: option.splits)
  then show ?thesis using refines_same [OF inv] by simp
next
  case False
  then obtain a m where pq: "p = Some a" "q = Some m" by auto
  have ok: "sched_ok E s v" using inv by (simp add: sched_inv_def)
  obtain k where k: "tcbs s t = Some k" "tcb_status k = WORKING" using inv t by (auto elim: sched_invD)
  obtain mx where m: "m \<in> set (v_mutexes v)" "mutex_mem s m = Some mx"
    using valid_mutex [OF ok] c pq by auto
  have a: "a \<in> set (v_conds v)" using valid_cond [OF ok] c pq by auto
  have cur: "a_cur (abst s v) = tcb_tid k" using t k by (simp add: abst_by_def tid_of_def)
  note ao = abs_at(2) [OF m, of "tid_of (tcbs s)"]
  show ?thesis
  proof (cases "mx_locked mx \<and> mx_owner mx = tcb_tid k")
    case False
    then have "exec E (Wait p q) s = Inr (0, s)"
      using k m t by (auto simp: pq thread_cond_wait_def get_cell_def)
    then show ?thesis using refines_same [OF inv] False ao cur by (auto simp: pq mutex_owner_def)
  next
    case True
    then obtain s1 v1 where u: "thread_mutex_unlock E (Some m) s = Inr (1, s1)" "sched_inv E s1 v1"
        "a_release m (abst s v) = abst s1 v1" "current_thread s1 = Some t" "tcbs s1 t = Some k" "v_mutexes v1 = v_mutexes v"
        "v_conds v1 = v_conds v"
      using release_spec [OF inv t k(1) m] by blast
    have ok1: "sched_ok E s1 v1" and d1: "v_done v1 = done_list (next_to_destroy s1)"
      using u(2) by (simp_all add: sched_inv_def)
    let ?i = "hbrk s1"
    let ?s1 = "s1\<lparr>tcbs := (tcbs s1)(t \<mapsto> k\<lparr>tcb_status := WAITING\<rparr>),
        infos := (infos s1)(?i \<mapsto> \<lparr>ci_thread = t, ci_mutex = m\<rparr>), hbrk := Suc ?i\<rparr>"
    let ?v = "v1\<lparr>v_infos := (v_infos v1)(a := v_infos v1 a @ [?i])\<rparr>"
    from block_cond [OF ok1 u(4,5) k(2), of m a] obtain cv Q where
      b: "push_cond a ?i ?s1 = Inr (?s1\<lparr>cond_mem := (cond_mem s1)(a \<mapsto> cv\<lparr>cv_q := Q\<rparr>)\<rparr>)"
      and ok2: "sched_ok E (?s1\<lparr>cond_mem := (cond_mem s1)(a \<mapsto> cv\<lparr>cv_q := Q\<rparr>)\<rparr>) ?v"
      using m(1) a u(6,7) by (auto simp: Let_def)
    let ?s = "?s1\<lparr>cond_mem := (cond_mem s1)(a \<mapsto> cv\<lparr>cv_q := Q\<rparr>)\<rparr>"
    have x: "exec E (Wait p q) s = bindR (thread_yield E ?s) (\<lambda>s. Inr (1, s))"
      using k m t True u(1,4,5) b by (simp add: pq thread_cond_wait_def get_cell_def set_status_def Let_def)
    have a1: "a \<in> set (v_conds v1)" using a u(7) by simp
    have "set (all_infos v1) \<subseteq> dom (infos s1)" using sched_parts(3) [OF ok1] by (auto simp: mutexes_ok_def)
    then have ni: "j \<noteq> ?i" if "c \<in> set (v_conds v1)" "j \<in> set (v_infos v1 c)" for j c
      using that infos_bound [OF ok1] by (auto simp: all_infos_def)
    let ?T = "tid_of (tcbs s1)"
    have T: "tid_of (tcbs ?s) = ?T" and D: "dom (tcbs ?s) = dom (tcbs s1)"
      using tid_upd [of "tcbs s1" t k] u(5) by auto
    have tt: "?T t = tcb_tid k" using u(5) by (simp add: tid_of_def)
    have "abs_cond ?T (v_conds v1) (infos ?s) (v_infos ?v) =
        (abs_cond ?T (v_conds v1) (infos s1) (v_infos v1))(a := map_option (\<lambda>xs. xs @ [(tcb_tid k, m)])
          (abs_cond ?T (v_conds v1) (infos s1) (v_infos v1) a))"
      using a1 ni by (auto simp: abs_cond_def abs_info_def fun_eq_iff tt)
    then have A: "(let A' = a_release m (abst s v) in A'\<lparr>a_cond := (a_cond A')(a := map_option (\<lambda>xs. xs @ [(a_cur (abst s v), m)]) (a_cond A' a))\<rparr>)
        = abst ?s ?v"
      unfolding u(3) cur T Let_def unfolding abst_by_def D by simp
    have ac: "acall (Wait p q) (abst s v) = returning 1 (a_switch False (let A' = a_release m (abst s v) in
        A'\<lparr>a_cond := (a_cond A')(a := map_option (\<lambda>xs. xs @ [(a_cur (abst s v), m)]) (a_cond A' a))\<rparr>))"
      using True ao cur by (simp add: pq mutex_owner_simps Let_def)
    show ?thesis unfolding ac
      by (rule switch_from [OF ok2 _ _ _ A x, where t = t]) (simp_all add: d1 u(4))
  qed
qed

lemma abs_info_cell: "nf i = Some ci \<Longrightarrow> abs_info T nf i = (T (ci_thread ci), ci_mutex ci)"
  by (simp add: abs_info_def)

lemma signal_refines:
  assumes inv: "sched_inv E s v" and t: "current_thread s = Some t" and c: "valid E s (Signal p)"
  shows "refines E (exec E (Signal p) s) (acall (Signal p) (abst s v))"
proof (cases p)
  case None
  then show ?thesis using refines_same [OF inv] by (simp add: thread_cond_signal_def)
next
  case (Some a)
  have ok: "sched_ok E s v" using inv by (simp add: sched_inv_def)
  have st: "stat (tcbs s) t = Some WORKING" using inv t by (simp add: sched_inv_def)
  have a: "a \<in> set (v_conds v)" using valid_cond [OF ok] c Some by auto
  let ?A = "abst s v" and ?T = "tid_of (tcbs s)"
  show ?thesis
  proof (cases "v_infos v a")
    case Nil
    then have "a_cond ?A a = Some []" using a by (simp add: abst_by_def abs_cond_def)
    then show ?thesis using signal_empty [OF ok a Nil] refines_same [OF inv] by (simp add: Some)
  next
    case (Cons i "is")
    note p = pop_cond_facts [OF ok a Cons]
    obtain ci where ci: "infos s i = Some ci" using p(1) by blast
    have th: "info_thread (infos s) i = ci_thread ci" using ci by (simp add: info_thread_def)
    have wt: "stat (tcbs s) (ci_thread ci) = Some WAITING" using waiting_in_places(2) [OF ok p(5)] th by simp
    then obtain nc where nc: "tcbs s (ci_thread ci) = Some nc" by (auto simp: stat_Some)
    have nt: "ci_thread ci \<noteq> t" using wt st by auto
    have m: "ci_mutex ci \<in> set (v_mutexes v)" using p(2) ci by simp
    then obtain mx where mx: "mutex_mem s (ci_mutex ci) = Some mx" by (rule sched_mutex [OF ok])
    have tn: "?T (ci_thread ci) = tcb_tid nc" using nc by (simp add: tid_of_def)
    let ?A' = "?A\<lparr>a_cond := (a_cond ?A)(a \<mapsto> map (abs_info ?T (infos s)) is)\<rparr>"
    have ac: "a_cond ?A a = Some ((tcb_tid nc, ci_mutex ci) # map (abs_info ?T (infos s)) is)"
      using a Cons by (simp add: abst_by_def abs_cond_def abs_info_cell [of "infos s", OF ci] tn)
    have am: "a_mutex ?A' (ci_mutex ci) = Some (mutex_owner mx, map ?T (v_waits v (ci_mutex ci)))" "a_owner (ci_mutex ci) ?A' = mutex_owner mx"
      using abs_at [OF m mx, of ?T] by (simp_all add: a_owner_def)
    have call: "acall (Signal p) ?A = Some (1, if mutex_owner mx = None then (a_take (ci_mutex ci) (tcb_tid nc) ?A')\<lparr>a_ready := a_ready ?A' @ [tcb_tid nc]\<rparr>
        else a_wait (ci_mutex ci) (tcb_tid nc) ?A')"
      using ac am by (simp add: Some Let_def)
    show ?thesis
    proof (cases "mx_locked mx")
      case False
      let ?v = "v\<lparr>v_infos := (v_infos v)(a := is), v_ready := v_ready v @ [ci_thread ci]\<rparr>"
      from signal_wake [OF ok t st a Cons ci nc mx False] obtain cv Q Q' s' where
        s': "s' = s\<lparr>cond_mem := (cond_mem s)(a \<mapsto> cv\<lparr>cv_q := Q\<rparr>),
          mutex_mem := (mutex_mem s)(ci_mutex ci \<mapsto> mx\<lparr>mx_locked := True, mx_owner := tcb_tid nc\<rparr>),
          tcbs := (tcbs s)(ci_thread ci \<mapsto> nc\<lparr>tcb_status := WORKING\<rparr>), ready_list := Q'\<rparr>"
        and r: "thread_cond_signal (Some a) s = Inr (1, s')" "sched_ok E s' ?v"
        by (auto simp: Let_def)
      have T: "tid_of (tcbs s') = ?T" and D: "dom (tcbs s') = dom (tcbs s)"
        using tid_upd [of "tcbs s" "ci_thread ci" nc] nc by (auto simp: s')
      have "(a_take (ci_mutex ci) (tcb_tid nc) ?A')\<lparr>a_ready := a_ready ?A' @ [tcb_tid nc]\<rparr> = abst s' ?v"
        unfolding a_take_def am(1) T unfolding abst_by_def D using a m tn
        by (simp add: s' abs_mutex_mem abs_cond_upd mutex_owner_simps)
      moreover have "sched_inv E s' ?v" using inv r(2) t nt by (auto simp: sched_inv_def s')
      ultimately show ?thesis unfolding call using r(1) False by (simp add: Some mutex_owner_simps refines_Inr)
    next
      case True
      let ?v = "v\<lparr>v_infos := (v_infos v)(a := is),
        v_waits := (v_waits v)(ci_mutex ci := v_waits v (ci_mutex ci) @ [ci_thread ci])\<rparr>"
      from signal_queue [OF ok t st a Cons ci mx True] obtain cv Q Q' s' where
        s': "s' = s\<lparr>cond_mem := (cond_mem s)(a \<mapsto> cv\<lparr>cv_q := Q\<rparr>),
          mutex_mem := (mutex_mem s)(ci_mutex ci \<mapsto> mx\<lparr>mx_q := Q'\<rparr>)\<rparr>"
        and r: "thread_cond_signal (Some a) s = Inr (1, s')" "sched_ok E s' ?v"
        by (auto simp: Let_def)
      have "a_wait (ci_mutex ci) (tcb_tid nc) ?A' = abst s' ?v"
        unfolding a_wait_def am(1) using a m tn True
        by (simp add: s' abst_by_def abs_mutex_upd abs_cond_upd mutex_owner_def)
      moreover have "sched_inv E s' ?v" using inv r(2) by (auto simp: sched_inv_def s')
      ultimately show ?thesis unfolding call using r(1) True by (simp add: Some mutex_owner_simps refines_Inr)
    qed
  qed
qed

lemma map_of_map_prod:
  assumes "inj_on T D" "\<forall>(a, b) \<in> set js. a \<in> D" "t \<in> D"
  shows "map_of (map (map_prod T T) js) (T t) = map_option T (map_of js t)"
    and "filter (\<lambda>p. fst p \<noteq> T t) (map (map_prod T T) js) = map (map_prod T T) (filter (\<lambda>p. fst p \<noteq> t) js)"
  using assms(2) by (induction js) (auto simp: inj_on_eq_iff [OF assms(1) _ assms(3)] inj_on_eq_iff [OF assms(1) assms(3)])

lemma terminate_refines:
  assumes inv: "sched_inv E s v" and t: "current_thread s = Some t" and E: "clean_env E"
  shows "refines E (exec E Terminate s) (acall Terminate (abst s v))"
proof -
  have ok: "sched_ok E s v" and d: "v_done v = done_list (next_to_destroy s)" using inv by (simp_all add: sched_inv_def)
  obtain k where k: "tcbs s t = Some k" "tcb_status k = WORKING" using inv t by (auto elim: sched_invD)
  have st: "stat (tcbs s) t = Some WORKING" using k by (simp add: stat_def)
  let ?T = "tid_of (tcbs s)" and ?A = "abst s v"
  let ?ws = "case tcb_observer k of None \<Rightarrow> [] | Some w \<Rightarrow> [w]"
  let ?v1 = "v\<lparr>v_joins := filter (\<lambda>p. fst p \<noteq> t) (v_joins v), v_done := v_done v @ [t], v_ready := v_ready v @ ?ws\<rparr>"
  from die_ok [OF ok t k] obtain Q s1 where s1: "s1 = s\<lparr>ready_list := Q, tcbs := wake_observer s t\<rparr>"
    and tm: "thread_terminate E s = bindR (destroy_thread (next_to_destroy s) s1)
      (\<lambda>s. thread_yield E (s\<lparr>next_to_destroy := current_thread s\<rparr>))"
    and ok1: "sched_ok E s1 ?v1" by (auto simp: Let_def)
  have same: "same_ids (tcbs s) (tcbs s1)" using wake_same_ids [OF ok t k(1)] by (simp add: s1)
  have T1: "tid_of (tcbs s1) x = ?T x" if "x \<in> dom (tcbs s)" for x
    using same_ids_cell [OF same, of x] that by (auto simp: tid_of_def)
  have D1: "dom (tcbs s1) = dom (tcbs s)" using same by (simp add: same_ids_def)
  have dd: "stat (tcbs s) x = Some DONE" if "next_to_destroy s = Some x" for x
    using sched_parts(2) [OF ok] d that by (simp add: status_ok_def done_list_def)
  have td: "t \<in> dom (tcbs s)" using k by blast
  define gone where "gone = set_option (next_to_destroy s)"
  have g: "gone \<subseteq> dom (tcbs s)" "t \<notin> gone" using dd st by (auto simp: gone_def stat_Some)
  obtain s2 v2 es where x: "destroy_thread (next_to_destroy s) s1 = Inr s2" and ok2: "sched_ok E s2 v2"
    and v2: "v2 = ?v1\<lparr>v_table := es, v_done := [t]\<rparr>"
    and s2: "tcbs s2 = (tcbs s1) |` (- gone)" "current_thread s2 = Some t" "mutex_mem s2 = mutex_mem s" "infos s2 = infos s"
      "tab_max_id (the (all_threads s2)) = tab_max_id (the (all_threads s))"
  proof (cases "next_to_destroy s")
    case None
    then have "?v1 = ?v1\<lparr>v_table := v_table v, v_done := [t]\<rparr>" using d by (simp add: done_list_def)
    then show ?thesis using that [of s1 ?v1 "v_table v"] ok1 None t by (simp add: destroy_thread_def s1 gone_def restrict_map_def)
  next
    case (Some y)
    have dv: "v_done ?v1 = y # [t]" using d Some by (simp add: done_list_def)
    have "current_thread s1 \<noteq> Some y" using dd [OF Some] st t by (auto simp: s1)
    from destroy_ok [OF ok1 dv this E] obtain s2 es where r: "destroy_thread (Some y) s1 = Inr s2"
        "sched_ok E s2 (?v1\<lparr>v_table := es, v_done := [t]\<rparr>)" "tcbs s2 = (tcbs s1)(y := None)"
        "current_thread s2 = current_thread s1" "mutex_mem s2 = mutex_mem s1" "infos s2 = infos s1"
        "\<exists>t t'. all_threads s1 = Some t \<and> all_threads s2 = Some t' \<and> tab_max_id t' = tab_max_id t"
      by blast
    moreover have "(tcbs s1)(y := None) = (tcbs s1) |` (- gone)" by (auto simp: gone_def Some restrict_map_def)
    ultimately show ?thesis using that [of s2 "?v1\<lparr>v_table := es, v_done := [t]\<rparr>" es] t Some by (auto simp: s1)
  qed
  let ?s = "s2\<lparr>next_to_destroy := Some t\<rparr>"
  have y: "exec E Terminate s = bindR (thread_yield E ?s) (\<lambda>s. Inr (0, s))"
    using tm x s2(2) by (simp add: no_value_def)
  have D2: "dom (tcbs ?s) = dom (tcbs s) - gone" using D1 by (simp add: s2(1) Diff_eq)
  have T2: "tid_of (tcbs ?s) z = ?T z" if "z \<in> dom (tcbs ?s)" for z
  proof -
    have "z \<in> dom (tcbs s)" "z \<notin> gone" using that D2 by auto
    then show ?thesis using T1 [of z] by (simp add: s2(1) tid_of_def)
  qed
  have ok2': "sched_ok E ?s v2" by (rule sched_ok_next [OF ok2])
  have d2: "v_done v2 = done_list (next_to_destroy ?s)" by (simp add: v2 done_list_def)
  have ob: "tcb_observer k = map_of (v_joins v) t" using sched_parts(5) [OF ok] k by (simp add: joins_ok_def)
  have jd: "\<forall>(a, b) \<in> set (v_joins v). a \<in> dom (tcbs s)" using joins_in_dom(1) [OF ok] by blast
  note mj = map_of_map_prod [OF tid_inj_on [OF ok] jd td]
  have ids: "?T ` (dom (tcbs s) - gone) = (case map_option ?T (next_to_destroy s) of None \<Rightarrow> ?T ` dom (tcbs s) | Some z \<Rightarrow> ?T ` dom (tcbs s) - {z})"
    using inj_on_image_set_diff [OF tid_inj_on [OF ok] _ g(1)] by (cases "next_to_destroy s") (simp_all add: gone_def)
  have "abst ?s v2 = abst_by ?T ?s v2" by (rule abst_by_eq [OF ok2' d2 T2])
  also have "\<dots> = a_end ?A"
    unfolding abst_by_def a_end_def D2 using ids mj
    by (simp add: t v2 s2 ob split: option.split)
  finally have A: "a_end ?A = abst ?s v2" by simp
  have "t \<in> dom (tcbs ?s)" "stat (tcbs s1) t = Some DONE"
    using td g(2) D2 k by (auto simp: s1 wake_observer_def Let_def split: option.split)
  then have w: "False \<longleftrightarrow> stat (tcbs ?s) t = Some WORKING" using g(2) by (auto simp: s2(1) stat_def)
  have a: "acall Terminate ?A = returning 0 (a_switch False (a_end ?A))" by simp
  show ?thesis unfolding a by (rule switch_from [OF ok2' d2 _ w A y]) (simp add: s2(2))
qed

lemma exec_refines:
  assumes "sched_inv E s v" "current_thread s = Some t" "clean_env E" "valid E s c"
  shows "refines E (exec E c s) (acall c (abst s v))"
proof (cases c)
  case Self
  then show ?thesis using self_refines [OF assms(1,2)] by (simp only:)
next
  case (Create w i)
  then show ?thesis using create_refines [OF assms(1-3)] assms(4) by (simp only:)
next
  case Yield
  then show ?thesis using yield_refines [OF assms(1,2)] by (simp only:)
next
  case (Join i)
  then show ?thesis using join_refines [OF assms(1,2)] by (simp only:)
next
  case (MutexInit p)
  then show ?thesis using mutex_init_refines [OF assms(1-3)] assms(4) by (simp only:)
next
  case (Lock p)
  then show ?thesis using lock_refines [OF assms(1,2)] assms(4) by (simp only:)
next
  case (Unlock p)
  then show ?thesis using unlock_refines [OF assms(1,2)] assms(4) by (simp only:)
next
  case (CondInit p)
  then show ?thesis using cond_init_refines [OF assms(1-3)] assms(4) by (simp only:)
next
  case (Wait p q)
  then show ?thesis using wait_refines [OF assms(1,2)] assms(4) by (simp only:)
next
  case (Signal p)
  then show ?thesis using signal_refines [OF assms(1,2)] assms(4) by (simp only:)
next
  case Terminate
  then show ?thesis using terminate_refines [OF assms(1-3)] by (simp only:)
qed

section \<open>The refinement\<close>

definition simulates :: "env \<Rightarrow> threads \<Rightarrow> asched \<Rightarrow> bool" where
  "simulates E s A \<longleftrightarrow> (\<exists>v. sched_inv E s v \<and> A = abst s v)"

definition a_init :: asched where
  "a_init = \<lparr>a_cur = 0, a_ready = [], a_mutex = (\<lambda>_. None), a_cond = (\<lambda>_. None), a_joins = [], a_done = None,
     a_ids = {0}, a_next = 1\<rparr>"

lemma init_simulates:
  assumes f: "fresh_lib s0" and E: "clean_env E"
  shows "\<exists>s. init E s0 = Inr s \<and> simulates E s a_init"
proof -
  from init_ok [OF assms] obtain s v p c where i: "init E s0 = Inr s" "sched_inv E s v" "current_thread s = Some p"
    "tcbs s = [p \<mapsto> c]" "tcb_tid c = 0" "v_joins v = []" "mutex_mem s = mutex_mem s0" "cond_mem s = cond_mem s0"
    "\<exists>tab. all_threads s = Some tab \<and> tab_max_id tab = 1" by blast
  have ok: "sched_ok E s v" and d: "v_done v = done_list (next_to_destroy s)" using i(2) by (simp_all add: sched_inv_def)
  have st: "stat (tcbs s) p = Some WORKING" using i(2,3) by (simp add: sched_inv_def)
  have "distinct (places s v)" "set (places s v) = {p}" using places_distinct [OF ok] places_set [OF ok] i(4) by simp_all
  then have "v_ready v = []" "v_done v = []"
    using running_current [OF ok i(3) st] by (auto simp: subset_singleton_iff)
  moreover have "v_mutexes v = []"
  proof (rule ccontr)
    assume "v_mutexes v \<noteq> []"
    then obtain m where m: "m \<in> set (v_mutexes v)" by (cases "v_mutexes v") auto
    then obtain mx where "mutex_mem s m = Some mx" "qrep (mx_q mx) (v_waits v m)" by (rule sched_mutex [OF ok])
    then show False using f i(7) by (auto simp: fresh_lib_def qrep_def)
  qed
  moreover have "v_conds v = []"
  proof (rule ccontr)
    assume "v_conds v \<noteq> []"
    then obtain m where m: "m \<in> set (v_conds v)" by (cases "v_conds v") auto
    then obtain cv where "cond_mem s m = Some cv" "qrep (cv_q cv) (v_infos v m)" by (rule sched_cond [OF ok])
    then show False using f i(8) by (auto simp: fresh_lib_def qrep_def)
  qed
  moreover have "next_to_destroy s = None" using d calculation(2) by (cases "next_to_destroy s") (simp_all add: done_list_def)
  ultimately have "abst s v = a_init"
    using i by (auto simp: abst_by_def a_init_def abs_mutex_def abs_cond_def tid_of_def fun_eq_iff split: if_splits)
  then show ?thesis using i(1,2) by (auto simp: simulates_def)
qed

lemma call_simulates:
  assumes "simulates E s A" "clean_env E" "valid E s c"
  shows "case acall c A of None \<Rightarrow> exec E c s = Inl (ExitCode (-1))
     | Some (r, A') \<Rightarrow> \<exists>s'. exec E c s = Inr (r, s') \<and> simulates E s' A'"
proof -
  obtain v where v: "sched_inv E s v" "A = abst s v" using assms(1) by (auto simp: simulates_def)
  then obtain t where "current_thread s = Some t" by (auto simp: sched_inv_def)
  from exec_refines [OF v(1) this assms(2,3)] v(2) show ?thesis
    by (auto simp: refines_def simulates_def split: option.splits)
qed



end
