(* ===== verification/Counter_Test.thy ===== *)
theory Counter_Test
  imports Thread_Spec
begin

text \<open>
  The test program A3/test4.c, ten threads that add one hundred times each to a counter under a mutex,
  yielding at random, as a client of the thread library. The program is written over the calls of the
  library; \<open>thread_library\<close> states what it relies on, and A3/thread.c provides it. Whatever the random
  numbers, the program ends, without a fault, and prints that the counter is 1000.
\<close>

section \<open>The program\<close>

definition THREADS :: nat where "THREADS = 10"

definition ROUNDS :: nat where "ROUNDS = 100"

text \<open>
  Where a thread goes on when it has the processor: in round \<open>i\<close> of \<open>work\<close> before the lock, after it, with the
  counter read, after the unlock; after its end; the parent before its join with thread \<open>k\<close>.
\<close>

datatype pc = ToLock nat | Locked nat | Holding nat u32 | Unlocked nat | Ended | Joining nat

record counter_test =
  counter :: u32
  pcs :: "u64 \<Rightarrow> pc"

definition go :: "u64 \<Rightarrow> pc \<Rightarrow> counter_test \<Rightarrow> counter_test" where
  "go t p w = w\<lparr>pcs := (pcs w)(t := p)\<rparr>"

definition call_then :: "(call \<Rightarrow> 's \<Rightarrow> (int \<times> 's) res) \<Rightarrow> call \<Rightarrow> counter_test \<Rightarrow> 's \<Rightarrow> (counter_test \<times> 's) res" where
  "call_then lib c w s = bindR (lib c s) (\<lambda>(_, s). Inr (w, s))"

text \<open>The running thread \<open>t\<close> up to its next call, with that call; \<open>coin\<close> tells whether \<open>rand()\<close> is a multiple of 7.\<close>

definition test_step :: "(call \<Rightarrow> 's \<Rightarrow> (int \<times> 's) res) \<Rightarrow> bool \<Rightarrow> int list \<Rightarrow> nat \<Rightarrow> u64 \<Rightarrow> counter_test \<Rightarrow> 's \<Rightarrow>
    (counter_test \<times> 's) res" where
  "test_step lib coin tids m t w s =
     (case pcs w t of
        ToLock i \<Rightarrow> if i < ROUNDS then call_then lib (Lock (Some m)) (go t (Locked i) w) s
                   else call_then lib Terminate (go t Ended w) s
      | Locked i \<Rightarrow> (let w = go t (Holding i (counter w)) w in if coin then call_then lib Yield w s else Inr (w, s))
      | Holding i num \<Rightarrow> call_then lib (Unlock (Some m)) (go t (Unlocked i) (w\<lparr>counter := num + 1\<rparr>)) s
      | Unlocked i \<Rightarrow> (let w = go t (ToLock (Suc i)) w in if coin then call_then lib Yield w s else Inr (w, s))
      | Joining k \<Rightarrow> call_then lib (Join (word_of_int (tids ! k))) (go t (Joining (Suc k)) w) s
      | Ended \<Rightarrow> Inl WildPointer)"

fun run_threads :: "nat \<Rightarrow> (call \<Rightarrow> 's \<Rightarrow> (int \<times> 's) res) \<Rightarrow> ('s \<Rightarrow> u64) \<Rightarrow> (nat \<Rightarrow> bool) \<Rightarrow> int list \<Rightarrow> nat \<Rightarrow>
    counter_test \<Rightarrow> 's \<Rightarrow> (counter_test \<times> 's) res" where
  "run_threads fuel lib me rnd tids m w s =
     (if pcs w (me s) = Joining THREADS then Inr (w, s)
      else case fuel of 0 \<Rightarrow> Inl OutOfFuel
      | Suc fuel \<Rightarrow> bindR (test_step lib (rnd fuel) tids m (me s) w s) (\<lambda>(w, s). run_threads fuel lib me rnd tids m w s))"

declare run_threads.simps [simp del]

fun create_workers :: "(call \<Rightarrow> 's \<Rightarrow> (int \<times> 's) res) \<Rightarrow> u64 \<Rightarrow> u64 list \<Rightarrow> 's \<Rightarrow> (int list \<times> 's) res" where
  "create_workers lib work [] s = Inr ([], s)"
| "create_workers lib work (ptr # ptrs) s =
     bindR (lib (Create work ptr) s) (\<lambda>(t, s).
     bindR (create_workers lib work ptrs s) (\<lambda>(ts, s). Inr (t # ts, s)))"

text \<open>\<open>main\<close>: what it prints.\<close>

definition counter_main :: "nat \<Rightarrow> (call \<Rightarrow> 's \<Rightarrow> (int \<times> 's) res) \<Rightarrow> ('s \<Rightarrow> u64) \<Rightarrow> ('s \<Rightarrow> 's res) \<Rightarrow> (nat \<Rightarrow> bool) \<Rightarrow> nat \<Rightarrow>
    u64 \<Rightarrow> u64 list \<Rightarrow> 's \<Rightarrow> string res" where
  "counter_main fuel lib me clean rnd m work ptrs s =
     bindR (lib (MutexInit (Some m)) s) (\<lambda>(r, s).
     if r = 0 then Inl (ExitCode (-1)) else
     bindR (create_workers lib work ptrs s) (\<lambda>(tids, s).
     bindR (run_threads fuel lib me rnd tids m
       \<lparr>counter = 0, pcs = (\<lambda>t. if t \<in> word_of_int ` set tids then ToLock 0 else Joining 0)\<rparr> s) (\<lambda>(w, s).
     bindR (clean s) (\<lambda>_. Inr (''counter = '' @ fmt_d (counter w) @ nl)))))"

section \<open>The interface to the library\<close>

text \<open>
  \<open>rep s A\<close>: the library's state \<open>s\<close> is the state \<open>A\<close> of the abstract scheduler; \<open>usable\<close> are the calls the client may
  make; \<open>room n s\<close>: \<open>n\<close> more threads can be created; \<open>fresh m n s\<close>: the state before the first call, with a mutex
  at \<open>m\<close> and room for \<open>n\<close> threads.
\<close>

locale thread_library =
  fixes lib :: "call \<Rightarrow> 's \<Rightarrow> (int \<times> 's) res"
    and me :: "'s \<Rightarrow> u64"
    and clean :: "'s \<Rightarrow> 's res"
    and rep :: "'s \<Rightarrow> asched \<Rightarrow> bool"
    and usable :: "'s \<Rightarrow> call \<Rightarrow> bool"
    and room :: "nat \<Rightarrow> 's \<Rightarrow> bool"
    and fresh :: "nat \<Rightarrow> nat \<Rightarrow> 's \<Rightarrow> bool"
  assumes lib_fails: "rep s A \<Longrightarrow> usable s c \<Longrightarrow> acall c A = None \<Longrightarrow> lib c s = Inl (ExitCode (-1))"
    and lib_does: "rep s A \<Longrightarrow> usable s c \<Longrightarrow> acall c A = Some (r, A') \<Longrightarrow> \<exists>s'. lib c s = Inr (r, s') \<and> rep s' A'"
    and me_rep: "rep s A \<Longrightarrow> me s = a_cur A"
    and clean_rep: "rep s A \<Longrightarrow> a_cur A = 0 \<Longrightarrow> \<exists>s'. clean s = Inr s'"
    and usable_always: "usable s Yield" "usable s (Join i)"
    and usable_mutex: "rep s A \<Longrightarrow> a_mutex A m \<noteq> None \<Longrightarrow> usable s (Lock (Some m)) \<and> usable s (Unlock (Some m))"
    and usable_end: "rep s A \<Longrightarrow> a_cur A \<noteq> 0 \<Longrightarrow> usable s Terminate"
    and usable_create: "rep s A \<Longrightarrow> room (Suc n) s \<Longrightarrow> a_next A + 1 \<noteq> 0 \<Longrightarrow> usable s (Create work ptr)"
    and room_create: "rep s A \<Longrightarrow> room (Suc n) s \<Longrightarrow> a_next A + 1 \<noteq> 0 \<Longrightarrow> lib (Create work ptr) s = Inr (r, s') \<Longrightarrow> room n s'"
    and start: "fresh m n s \<Longrightarrow> \<exists>s'. lib (MutexInit (Some m)) s = Inr (1, s') \<and>
        rep s' (a_init\<lparr>a_mutex := [m \<mapsto> (None, [])]\<rparr>) \<and> room n s'"
begin

lemma call_then_rep:
  assumes "rep s A" "usable s c" "acall c A = Some (r, A')"
  shows "\<exists>s'. call_then lib c w s = Inr (w, s') \<and> rep s' A'"
  using lib_does [OF assms] by (auto simp: call_then_def)

end

section \<open>The invariant\<close>

definition workers :: "u64 set" where
  "workers = of_nat ` {1..THREADS}"

definition completed :: "pc \<Rightarrow> nat" where
  "completed p = (case p of ToLock i \<Rightarrow> i | Locked i \<Rightarrow> i | Holding i num \<Rightarrow> i | Unlocked i \<Rightarrow> Suc i | Ended \<Rightarrow> ROUNDS | Joining k \<Rightarrow> 0)"

definition pc_ok :: "u64 option \<Rightarrow> u64 set \<Rightarrow> u32 \<Rightarrow> u64 \<Rightarrow> pc \<Rightarrow> bool" where
  "pc_ok ow ws n t p = (case p of
     ToLock i \<Rightarrow> i \<le> ROUNDS \<and> ow \<noteq> Some t \<and> t \<notin> ws
   | Locked i \<Rightarrow> i < ROUNDS \<and> (t \<in> ws \<longleftrightarrow> ow \<noteq> Some t)
   | Holding i num \<Rightarrow> i < ROUNDS \<and> ow = Some t \<and> num = n \<and> t \<notin> ws
   | Unlocked i \<Rightarrow> i < ROUNDS \<and> ow \<noteq> Some t \<and> t \<notin> ws
   | Ended \<Rightarrow> ow \<noteq> Some t \<and> t \<notin> ws
   | Joining k \<Rightarrow> False)"

text \<open>The threads that have not ended.\<close>

definition live :: "counter_test \<Rightarrow> u64 set" where
  "live w = insert 0 {t \<in> workers. pcs w t \<noteq> Ended}"

text \<open>The scheduler's side; \<open>R\<close> is the running thread, or nobody in the middle of a switch; \<open>L\<close> are the live threads.\<close>

definition sched_side :: "u64 list \<Rightarrow> u64 list \<Rightarrow> nat \<Rightarrow> u64 set \<Rightarrow> asched \<Rightarrow> bool" where
  "sched_side R ws k L A \<longleftrightarrow>
     distinct (R @ a_ready A @ ws @ map snd (a_joins A)) \<and> set (R @ a_ready A @ ws @ map snd (a_joins A)) = L \<and>
     (\<forall>(u, x) \<in> set (a_joins A). x = 0 \<and> u \<in> L - {0}) \<and>
     (\<forall>j. 0 < j \<longrightarrow> j \<le> k \<longrightarrow> of_nat j \<in> L \<longrightarrow> (of_nat j, 0) \<in> set (a_joins A)) \<and>
     a_ids A = L \<union> set_option (a_done A) \<and> set_option (a_done A) \<inter> L = {}"

text \<open>The side of the workers: where each is agrees with the lock, and the counter is the sum of the completed rounds.\<close>

definition work_side :: "u64 option \<Rightarrow> u64 list \<Rightarrow> counter_test \<Rightarrow> bool" where
  "work_side ow ws w \<longleftrightarrow> (\<forall>t \<in> workers. pc_ok ow (set ws) (counter w) t (pcs w t)) \<and>
     set ws \<subseteq> workers \<and> set_option ow \<subseteq> workers \<and> (ow = None \<longrightarrow> ws = []) \<and>
     counter w = of_nat (\<Sum>t \<in> workers. completed (pcs w t))"

definition test_inv :: "u64 list \<Rightarrow> nat \<Rightarrow> u64 option \<Rightarrow> u64 list \<Rightarrow> nat \<Rightarrow> counter_test \<Rightarrow> asched \<Rightarrow> bool" where
  "test_inv R m ow ws k w A \<longleftrightarrow> a_mutex A m = Some (ow, ws) \<and> pcs w 0 = Joining k \<and> k \<le> THREADS \<and>
     sched_side R ws k (live w) A \<and> work_side ow ws w"

lemma of_nat_id: "i \<le> THREADS \<Longrightarrow> unat (of_nat i :: u64) = i"
  by (simp add: THREADS_def unat_of_nat)

lemma zero_no_worker [simp]: "0 \<notin> workers"
proof
  assume "0 \<in> workers"
  then obtain i where "i \<in> {1..THREADS}" "of_nat i = (0 :: u64)" by (auto simp: workers_def)
  then show False using of_nat_id [of i] by simp
qed

lemma finite_workers [simp]: "finite workers"
  by (simp add: workers_def)

lemma inj_ids: "inj_on (of_nat :: nat \<Rightarrow> u64) {1..THREADS}"
  by (rule inj_onI) (metis atLeastAtMost_iff of_nat_id)

lemma card_workers: "card workers = THREADS"
  using inj_ids by (simp add: workers_def card_image)

lemma sum_upd:
  assumes "finite S" "t \<in> S"
  shows "(\<Sum>x\<in>S. f ((g(t := p)) x)) + f (g t) = (\<Sum>x\<in>S. f (g x)) + (f p :: nat)"
proof -
  have "(\<Sum>x\<in>S. f ((g(t := p)) x)) = f p + (\<Sum>x\<in>S - {t}. f (g x))"
    using assms by (subst sum.remove [OF assms]) (auto intro!: sum.cong)
  then show ?thesis using sum.remove [OF assms, of "\<lambda>x. f (g x)"] by simp
qed

text \<open>Somebody can run.\<close>

lemma test_progress:
  assumes "test_inv [] m ow ws k w A"
  shows "a_ready A \<noteq> []"
proof
  assume e: "a_ready A = []"
  have P: "set ws \<union> snd ` set (a_joins A) = live w" and ws: "set ws \<subseteq> workers"
    and J: "\<forall>(u, x) \<in> set (a_joins A). x = 0 \<and> u \<in> live w - {0}"
    and pc: "\<forall>t \<in> workers. pc_ok ow (set ws) (counter w) t (pcs w t)"
    and ow: "set_option ow \<subseteq> workers" "ow = None \<longrightarrow> ws = []"
    using assms e by (auto simp: test_inv_def sched_side_def work_side_def)
  have z: "x = 0" if "x \<in> snd ` set (a_joins A)" for x using J that by auto
  have "0 \<notin> set ws" using ws by auto
  then have "0 \<in> snd ` set (a_joins A)" using P by (auto simp: live_def)
  then obtain u where "(u, 0) \<in> set (a_joins A)" by force
  then have "u \<in> live w" "u \<noteq> 0" using J by auto
  then have "u \<in> set ws" using P z by blast
  then obtain x where x: "ow = Some x" "x \<in> workers" using ow by (cases ow) auto
  then have "pc_ok ow (set ws) (counter w) x (pcs w x)" using pc by blast
  then have "pcs w x \<noteq> Ended" "x \<notin> set ws" using x by (auto simp: pc_ok_def split: pc.splits)
  then have "x = 0" using P x(2) z by (auto simp: live_def)
  then show False using x(2) by simp
qed

text \<open>The switch of the processor keeps the invariant.\<close>

lemma switch_again:
  assumes "test_inv [a_cur A] m ow ws k w A"
  shows "\<exists>A'. a_switch True A = Some A' \<and> test_inv [a_cur A'] m ow ws k w A'"
proof (cases "a_ready A")
  case Nil
  then show ?thesis using assms by (simp add: a_switch_def)
next
  case (Cons n R)
  let ?A = "A\<lparr>a_cur := n, a_ready := R @ [a_cur A]\<rparr>"
  have "sched_side [n] ws k (live w) ?A" using assms Cons by (auto simp: test_inv_def sched_side_def)
  then have "test_inv [a_cur ?A] m ow ws k w ?A" using assms by (simp add: test_inv_def)
  then show ?thesis using Cons by (simp add: a_switch_def)
qed

lemma switch_away:
  assumes "test_inv [] m ow ws k w A"
  shows "\<exists>A'. a_switch False A = Some A' \<and> test_inv [a_cur A'] m ow ws k w A'"
proof -
  obtain n R where r: "a_ready A = n # R" using test_progress [OF assms] by (cases "a_ready A") auto
  let ?A = "A\<lparr>a_cur := n, a_ready := R\<rparr>"
  have "sched_side [n] ws k (live w) ?A" using assms r by (auto simp: test_inv_def sched_side_def)
  then have "test_inv [a_cur ?A] m ow ws k w ?A" using assms by (simp add: test_inv_def)
  then show ?thesis using r by (simp add: a_switch_def)
qed

section \<open>The steps of a worker\<close>

lemma worker_not_0: "t \<in> workers \<Longrightarrow> t \<noteq> 0"
  using zero_no_worker by blast

lemma live_go:
  "t \<in> workers \<Longrightarrow> pcs w t \<noteq> Ended \<Longrightarrow> p \<noteq> Ended \<Longrightarrow> live (go t p w) = live w"
  "t \<in> workers \<Longrightarrow> live (go t Ended w) = live w - {t}"
  "live (go 0 p w) = live w"
  "live (w\<lparr>counter := c\<rparr>) = live w"
  using worker_not_0 by (auto simp: live_def go_def)

lemma work_go:
  assumes inv: "work_side ow ws w" and t: "t \<in> workers"
    and p: "pc_ok ow' (set ws') c t p"
    and o: "\<And>x. x \<in> workers \<Longrightarrow> x \<noteq> t \<Longrightarrow> pc_ok ow (set ws) (counter w) x (pcs w x) \<Longrightarrow> pc_ok ow' (set ws') c x (pcs w x)"
    and c: "c = counter w + of_nat d" "completed p = completed (pcs w t) + d"
    and l: "set ws' \<subseteq> workers" "set_option ow' \<subseteq> workers" "ow' = None \<longrightarrow> ws' = []"
  shows "work_side ow' ws' ((go t p w)\<lparr>counter := c\<rparr>)"
proof -
  have "(\<Sum>x\<in>workers. completed (((pcs w)(t := p)) x)) = (\<Sum>x\<in>workers. completed (pcs w x)) + d"
    using sum_upd [OF finite_workers t, of completed "pcs w" p] c(2) by simp
  then have "c = of_nat (\<Sum>x\<in>workers. completed (((pcs w)(t := p)) x))"
    using inv c(1) by (simp only: work_side_def of_nat_add)
  moreover have "\<forall>x \<in> workers. pc_ok ow' (set ws') c x (((pcs w)(t := p)) x)"
    using inv p o by (auto simp: work_side_def)
  ultimately show ?thesis using l by (simp add: work_side_def go_def)
qed

lemma go_counter: "(go t p w)\<lparr>counter := counter w\<rparr> = go t p w" "(go t p w)\<lparr>counter := c\<rparr> = go t p (w\<lparr>counter := c\<rparr>)"
  by (simp_all add: go_def)

lemma work_go_same:
  assumes "work_side ow ws w" "t \<in> workers" "pc_ok ow (set ws) (counter w) t p" "completed p = completed (pcs w t)"
  shows "work_side ow ws (go t p w)"
proof -
  have "work_side ow ws ((go t p w)\<lparr>counter := counter w\<rparr>)"
    by (rule work_go [OF assms(1-3), where d = 0]) (use assms in \<open>simp_all add: work_side_def\<close>)
  then show ?thesis by (simp only: go_counter(1))
qed

lemma invD:
  assumes "test_inv R m ow ws k w A"
  shows "a_mutex A m = Some (ow, ws)" "a_owner m A = ow" "pcs w 0 = Joining k" "k \<le> THREADS"
    "sched_side R ws k (live w) A" "work_side ow ws w"
  using assms by (simp_all add: test_inv_def a_owner_def)

lemma cur_worker:
  assumes inv: "test_inv [t] m ow ws k w A" and p: "pcs w t = p" "\<And>k. p \<noteq> Joining k"
  shows "t \<in> workers" "p \<noteq> Ended" "pc_ok ow (set ws) (counter w) t p" "t \<notin> set ws" "t \<noteq> 0"
proof -
  have l: "t \<in> live w" using invD(5) [OF inv] by (auto simp: sched_side_def)
  have "t \<noteq> 0" using p invD(3) [OF inv] by auto
  then show "t \<in> workers" "p \<noteq> Ended" "t \<noteq> 0" using l p(1) by (auto simp: live_def)
  then show "pc_ok ow (set ws) (counter w) t p" using invD(6) [OF inv] p(1) unfolding work_side_def by blast
  show "t \<notin> set ws" using invD(5) [OF inv] by (auto simp: sched_side_def)
qed

text \<open>The lock: free, it is taken; else the thread waits for it.\<close>

lemma step_lock:
  assumes inv: "test_inv [a_cur A] m ow ws k w A" and p: "pcs w (a_cur A) = ToLock i" "i < ROUNDS"
  shows "\<exists>A' ow' ws'. acall (Lock (Some m)) A = Some (1, A') \<and> test_inv [a_cur A'] m ow' ws' k (go (a_cur A) (Locked i) w) A'"
proof -
  let ?t = "a_cur A" and ?w = "go (a_cur A) (Locked i) w"
  note c = cur_worker [OF inv p(1), simplified]
  have nt: "ow \<noteq> Some ?t" using cur_worker(3) [OF inv p(1)] by (simp add: pc_ok_def)
  have k: "pcs ?w 0 = Joining k" using invD(3) [OF inv] cur_worker(5) [OF inv p(1)] by (simp add: go_def)
  have L: "live ?w = live w" using c(1) p(1) by (simp add: live_go)
  have W: "work_side ow' ws' ?w" if "pc_ok ow' (set ws') (counter w) ?t (Locked i)"
      "\<And>x. x \<in> workers \<Longrightarrow> x \<noteq> ?t \<Longrightarrow> pc_ok ow (set ws) (counter w) x (pcs w x) \<Longrightarrow> pc_ok ow' (set ws') (counter w) x (pcs w x)"
      "set ws' \<subseteq> workers" "set_option ow' \<subseteq> workers" "ow' = None \<longrightarrow> ws' = []" for ow' ws'
    using work_go [OF invD(6) [OF inv] c(1), of ow' ws' "counter w" "Locked i" 0] that p(1) by (simp add: completed_def go_counter)
  show ?thesis
  proof (cases ow)
    case None
    let ?A = "a_take m ?t A"
    have ws: "ws = []" using invD(6) [OF inv] None by (simp add: work_side_def)
    have "sched_side [?t] [] k (live w) ?A" using invD(5) [OF inv] ws by (simp add: sched_side_def a_take_def)
    moreover have "work_side (Some ?t) [] ?w"
      by (rule W) (use c(1) p(2) None ws in \<open>auto simp: pc_ok_def split: pc.splits\<close>)
    ultimately have "test_inv [a_cur ?A] m (Some ?t) [] k ?w ?A"
      using invD(1,4) [OF inv] k ws by (simp add: test_inv_def L a_take_def)
    then show ?thesis using invD(2) [OF inv] None by auto
  next
    case (Some x)
    let ?A = "a_wait m ?t A"
    have "sched_side [] (ws @ [?t]) k (live w) ?A" using invD(5) [OF inv] by (auto simp: sched_side_def a_wait_def)
    moreover have "work_side ow (ws @ [?t]) ?w"
      by (rule W) (use c nt p(2) Some invD(6) [OF inv] in \<open>auto simp: pc_ok_def work_side_def split: pc.splits\<close>)
    ultimately have "test_inv [] m ow (ws @ [?t]) k ?w ?A"
      using invD(1,4) [OF inv] k by (simp add: test_inv_def L a_wait_def)
    from switch_away [OF this] obtain A' where "a_switch False ?A = Some A'" "test_inv [a_cur A'] m ow (ws @ [?t]) k ?w A'" by blast
    then show ?thesis using invD(2) [OF inv] Some nt by (auto simp: returning_def)
  qed
qed

text \<open>With the lock: the counter is read, then written and the lock released, to the first waiting thread if there is one.\<close>

lemma go_main: "t \<in> workers \<Longrightarrow> pcs (go t p w) 0 = pcs w 0"
  using worker_not_0 by (auto simp: go_def)

lemma step_read:
  assumes inv: "test_inv [a_cur A] m ow ws k w A" and p: "pcs w (a_cur A) = Locked i"
  shows "test_inv [a_cur A] m ow ws k (go (a_cur A) (Holding i (counter w)) w) A"
proof -
  let ?t = "a_cur A"
  note c = cur_worker [OF inv p, simplified]
  have pc: "pc_ok ow (set ws) (counter w) ?t (Holding i (counter w))" using c(3,4) by (simp add: pc_ok_def)
  have "work_side ow ws (go ?t (Holding i (counter w)) w)"
    by (rule work_go_same [OF invD(6) [OF inv] c(1) pc]) (simp add: p completed_def)
  then show ?thesis using inv c(1) p by (simp add: test_inv_def live_go go_main)
qed

lemma step_done:
  assumes inv: "test_inv [a_cur A] m ow ws k w A" and p: "pcs w (a_cur A) = Unlocked i"
  shows "test_inv [a_cur A] m ow ws k (go (a_cur A) (ToLock (Suc i)) w) A"
proof -
  let ?t = "a_cur A"
  note c = cur_worker [OF inv p, simplified]
  have pc: "pc_ok ow (set ws) (counter w) ?t (ToLock (Suc i))" using c(3,4) by (simp add: pc_ok_def)
  have "work_side ow ws (go ?t (ToLock (Suc i)) w)"
    by (rule work_go_same [OF invD(6) [OF inv] c(1) pc]) (simp add: p completed_def)
  then show ?thesis using inv c(1) p by (simp add: test_inv_def live_go go_main)
qed

lemma release_simps:
  "a_mutex A m = Some (x, []) \<Longrightarrow> a_release m A = A\<lparr>a_mutex := (a_mutex A)(m \<mapsto> (None, []))\<rparr>"
  "a_mutex A m = Some (x, n # ns) \<Longrightarrow> a_release m A = A\<lparr>a_mutex := (a_mutex A)(m \<mapsto> (Some n, ns)), a_ready := a_ready A @ [n]\<rparr>"
  by (simp_all add: a_release_def)

lemma pc_ok_pass:
  assumes "pc_ok (Some t) ws c x p" "x \<noteq> t" "ow \<noteq> Some t" "ws = set_option ow \<union> ws'" "set_option ow \<inter> ws' = {}"
  shows "pc_ok ow ws' c' x p"
  using assms by (cases p; cases ow) (auto simp: pc_ok_def)

lemma step_unlock:
  assumes inv: "test_inv [a_cur A] m ow ws k w A" and p: "pcs w (a_cur A) = Holding i num"
  shows "\<exists>A' ow' ws'. acall (Unlock (Some m)) A = Some (1, A') \<and>
    test_inv [a_cur A'] m ow' ws' k (go (a_cur A) (Unlocked i) (w\<lparr>counter := num + 1\<rparr>)) A'"
proof -
  let ?t = "a_cur A" and ?w = "go (a_cur A) (Unlocked i) (w\<lparr>counter := num + 1\<rparr>)"
  note c = cur_worker [OF inv p, simplified]
  have h: "ow = Some ?t" "num = counter w" "i < ROUNDS" using c(3) by (simp_all add: pc_ok_def)
  have k: "pcs ?w 0 = Joining k" using invD(3) [OF inv] c(1) by (simp add: go_main)
  have L: "live ?w = live w" using c(1) p by (simp add: live_go)
  have W: "work_side ow' ws' ?w" if "?t \<notin> set ws'" "ow' \<noteq> Some ?t"
      "\<And>x. x \<in> workers \<Longrightarrow> x \<noteq> ?t \<Longrightarrow> pc_ok ow (set ws) (counter w) x (pcs w x) \<Longrightarrow> pc_ok ow' (set ws') (counter w + 1) x (pcs w x)"
      "set ws' \<subseteq> workers" "set_option ow' \<subseteq> workers" "ow' = None \<longrightarrow> ws' = []" for ow' ws'
  proof -
    have pc: "pc_ok ow' (set ws') (counter w + 1) ?t (Unlocked i)" using that(1,2) h(3) by (simp add: pc_ok_def)
    have d: "counter w + 1 = counter w + of_nat 1" "completed (Unlocked i) = completed (pcs w ?t) + 1"
      unfolding p by (simp_all add: completed_def)
    have "work_side ow' ws' ((go ?t (Unlocked i) w)\<lparr>counter := counter w + 1\<rparr>)"
      by (rule work_go [OF invD(6) [OF inv] c(1) pc _ d that(4-6)]) (erule (2) that(3))
    then show ?thesis by (simp only: go_counter(2) h(2))
  qed
  have call: "acall (Unlock (Some m)) A = Some (1, a_release m A)" using invD(2) [OF inv] h(1) by simp
  show ?thesis
  proof (cases ws)
    case Nil
    let ?A = "a_release m A"
    note r = release_simps(1) [OF invD(1) [OF inv, unfolded Nil]]
    have "sched_side [?t] [] k (live w) ?A" using invD(5) [OF inv] unfolding r Nil by (simp add: sched_side_def)
    moreover have "work_side None [] ?w"
      by (rule W) (use h(1) Nil in \<open>simp_all add: pc_ok_pass [of ?t "set ws"]\<close>)
    ultimately have "test_inv [a_cur ?A] m None [] k ?w ?A"
      using invD(4) [OF inv] k by (simp add: test_inv_def L r)
    then show ?thesis using call by blast
  next
    case (Cons n ns)
    let ?A = "a_release m A"
    have d: "distinct (n # ns)" using invD(5) [OF inv] Cons by (auto simp: sched_side_def)
    have nw: "n \<in> workers" "set ns \<subseteq> workers" using invD(6) [OF inv] Cons by (auto simp: work_side_def)
    note r = release_simps(2) [OF invD(1) [OF inv, unfolded Cons]]
    have "sched_side [?t] ns k (live w) ?A" using invD(5) [OF inv] unfolding r Cons by (auto simp: sched_side_def)
    moreover have "work_side (Some n) ns ?w"
      by (rule W) (use h(1) Cons c(4) d nw pc_ok_pass [of ?t "set ws", where ow = "Some n" and ws' = "set ns"] in auto)
    ultimately have "test_inv [a_cur ?A] m (Some n) ns k ?w ?A"
      using invD(4) [OF inv] k by (simp add: test_inv_def L r)
    then show ?thesis using call by blast
  qed
qed

text \<open>The end of a worker.\<close>

lemma step_end:
  assumes inv: "test_inv [a_cur A] m ow ws k w A" and p: "pcs w (a_cur A) = ToLock i" "\<not> i < ROUNDS"
  shows "\<exists>A'. acall Terminate A = Some (0, A') \<and> test_inv [a_cur A'] m ow ws k (go (a_cur A) Ended w) A'"
proof -
  let ?t = "a_cur A" and ?w = "go (a_cur A) Ended w" and ?A = "a_end A"
  note c = cur_worker [OF inv p(1), simplified]
  have i: "i = ROUNDS" "ow \<noteq> Some ?t" using c(3) p(2) by (simp_all add: pc_ok_def)
  have S: "sched_side [?t] ws k (live w) A" by (rule invD(5) [OF inv])
  have J: "\<forall>(u, x) \<in> set (a_joins A). x = 0 \<and> u \<in> live w - {0}" and d: "distinct (map snd (a_joins A))"
    using S by (auto simp: sched_side_def)
  have js: "a_joins A = [] \<or> (\<exists>u. a_joins A = [(u, 0)])"
  proof (cases "a_joins A")
    case (Cons x xs)
    then show ?thesis using J d by (cases xs) auto
  qed simp
  have dn: "a_ids ?A = (live w - {?t}) \<union> set_option (a_done ?A)" "set_option (a_done ?A) \<inter> (live w - {?t}) = {}"
    using S by (auto simp: sched_side_def a_end_def split: option.splits)
  have "sched_side [] ws k (live w - {?t}) ?A"
  proof (cases "a_joins A")
    case Nil
    then show ?thesis using S dn unfolding sched_side_def a_end_def by auto
  next
    case (Cons x xs)
    then obtain u where u: "a_joins A = [(u, 0)]" using js by auto
    show ?thesis
    proof (cases "u = ?t")
      case True
      have e: "a_ready ?A = a_ready A @ [0]" "a_joins ?A = []" by (simp_all add: a_end_def u True)
      show ?thesis using S dn c(5) unfolding sched_side_def e u True by auto
    next
      case False
      have e: "a_ready ?A = a_ready A" "a_joins ?A = [(u, 0)]" using False by (simp_all add: a_end_def u)
      show ?thesis using S dn False unfolding sched_side_def e u by auto
    qed
  qed
  moreover have "work_side ow ws ?w"
    by (rule work_go_same [OF invD(6) [OF inv] c(1)]) (use i c(4) in \<open>simp_all add: p(1) completed_def pc_ok_def\<close>)
  ultimately have "test_inv [] m ow ws k ?w ?A"
    using invD(1,3,4) [OF inv] c(1) p by (simp add: test_inv_def live_go go_main go_counter a_end_def)
  from switch_away [OF this] show ?thesis by (auto simp: returning_def)
qed

section \<open>The parent's joins\<close>

lemma main_go: "work_side ow ws (go 0 p w) = work_side ow ws w"
proof -
  have "x \<noteq> 0" if "x \<in> workers" for x using that worker_not_0 by blast
  then show ?thesis by (simp add: work_side_def go_def)
qed

lemma step_join:
  assumes inv: "test_inv [a_cur A] m ow ws k w A" and c: "a_cur A = 0" "k < THREADS"
  shows "\<exists>r A'. acall (Join (of_nat (Suc k))) A = Some (r, A') \<and>
    test_inv [a_cur A'] m ow ws (Suc k) (go 0 (Joining (Suc k)) w) A'"
proof -
  let ?u = "of_nat (Suc k) :: u64" and ?w = "go 0 (Joining (Suc k)) w"
  have u: "?u \<in> workers" unfolding workers_def using c(2) by (intro imageI) simp
  note u0 = worker_not_0 [OF u]
  have S: "sched_side [0] ws k (live w) A" using invD(5) [OF inv] c(1) by simp
  have j: "a_joins A = []" using S by (cases "a_joins A") (auto simp: sched_side_def)
  have none: "of_nat i \<notin> live w" if "0 < i" "i \<le> k" for i using S that by (simp add: sched_side_def j)
  have I: "test_inv R m ow ws (Suc k) ?w B" if "sched_side R ws (Suc k) (live w) B" "a_mutex B = a_mutex A" for R B
    using that invD(1,6) [OF inv] c(2) by (simp add: test_inv_def live_go main_go) (simp add: go_def)
  show ?thesis
  proof (cases "?u \<in> live w")
    case True
    let ?A = "A\<lparr>a_joins := [(?u, 0)]\<rparr>"
    have "sched_side [] ws (Suc k) (live w) ?A"
      using S True u0 none by (auto simp: sched_side_def j le_Suc_eq)
    from switch_away [OF I [OF this]] obtain A' where
      "a_switch False ?A = Some A'" "test_inv [a_cur A'] m ow ws (Suc k) ?w A'" by auto
    moreover have "?u \<in> a_ids A" "a_done A \<noteq> Some ?u" using S True by (auto simp: sched_side_def)
    ultimately show ?thesis using u0 c(1) by (simp add: a_join_def j returning_def)
  next
    case False
    have "sched_side [0] ws (Suc k) (live w) A"
      using S False none unfolding sched_side_def j by (auto simp: le_Suc_eq)
    then have A: "test_inv [a_cur A] m ow ws (Suc k) ?w A" using I c(1) by simp
    show ?thesis
    proof (cases "?u \<in> a_ids A")
      case True
      then have "a_done A = Some ?u" using S False by (auto simp: sched_side_def)
      then show ?thesis using switch_again [OF A] True u0 c(1) by (auto simp: a_join_def returning_def)
    next
      case False
      then show ?thesis using A u0 c(1) by (simp add: a_join_def)
    qed
  qed
qed

section \<open>Termination\<close>

definition steps_left :: "pc \<Rightarrow> nat" where
  "steps_left p = (case p of ToLock i \<Rightarrow> 4 * (ROUNDS - i) + 1 | Locked i \<Rightarrow> 4 * (ROUNDS - i) | Holding i num \<Rightarrow> 4 * (ROUNDS - i) - 1
     | Unlocked i \<Rightarrow> 4 * (ROUNDS - i) - 2 | Ended \<Rightarrow> 0 | Joining k \<Rightarrow> THREADS - k)"

definition all_left :: "counter_test \<Rightarrow> nat" where
  "all_left w = (\<Sum>t \<in> insert 0 workers. steps_left (pcs w t))"

lemma total_go:
  assumes "t \<in> insert 0 workers" "steps_left p < steps_left (pcs w t)"
  shows "all_left (go t p w) < all_left w" "all_left (go t p (w\<lparr>counter := c\<rparr>)) < all_left w"
  using sum_upd [of "insert 0 workers" t steps_left "pcs w" p] assms by (simp_all add: all_left_def go_def)

lemma inv_end:
  assumes inv: "test_inv [0] m ow ws k w A" and k: "k = THREADS"
  shows "counter w = of_nat (THREADS * ROUNDS)"
proof -
  have S: "sched_side [0] ws k (live w) A" by (rule invD(5) [OF inv])
  have j: "a_joins A = []" using S by (cases "a_joins A") (auto simp: sched_side_def)
  have none: "of_nat i \<notin> live w" if "0 < i" "i \<le> k" for i using S that by (simp add: sched_side_def j)
  have e: "pcs w t = Ended" if "t \<in> workers" for t using that none k by (fastforce simp: workers_def live_def)
  have "(\<Sum>t \<in> workers. completed (pcs w t)) = THREADS * ROUNDS" using e by (simp add: completed_def card_workers)
  then show ?thesis using invD(6) [OF inv] by (simp only: work_side_def)
qed

section \<open>The program on any library of the interface\<close>

definition tids_ok :: "int list \<Rightarrow> bool" where
  "tids_ok tids \<longleftrightarrow> (\<forall>k < THREADS. word_of_int (tids ! k) = (of_nat (Suc k) :: u64))"

lemma start_inv:
  assumes w: "pcs w = (\<lambda>t. if t \<in> workers then ToLock 0 else Joining 0)" "counter w = 0"
    and A: "a_mutex A m = Some (None, [])" "a_cur A = 0" "a_ready A = map of_nat [1..<Suc THREADS]" "a_joins A = []"
      "a_done A = None" "a_ids A = workers \<union> {0}"
  shows "test_inv [a_cur A] m None [] 0 w A" "all_left w = 4020"
proof -
  have L: "live w = insert 0 workers" by (auto simp: live_def w(1))
  have R: "set (a_ready A) = workers" by (simp add: A(3) workers_def atLeastLessThanSuc_atLeastAtMost del: upt_Suc)
  have "distinct (a_ready A)"
    using inj_ids by (simp add: A(3) distinct_map atLeastLessThanSuc_atLeastAtMost del: upt_Suc)
  then have "sched_side [0] [] 0 (live w) A" using R A by (simp add: sched_side_def L)
  moreover have "work_side None [] w"
    using w by (simp add: work_side_def pc_ok_def completed_def)
  ultimately show "test_inv [a_cur A] m None [] 0 w A" using A w(1) by (simp add: test_inv_def)
  have "(\<Sum>t\<in>workers. steps_left (pcs w t)) = THREADS * (4 * ROUNDS + 1)" by (simp add: w(1) steps_left_def card_workers)
  then show "all_left w = 4020" using w(1) by (simp add: all_left_def steps_left_def THREADS_def ROUNDS_def)
qed

lemma less_left:
  "i < ROUNDS \<Longrightarrow> steps_left (Locked i) < steps_left (ToLock i)" "steps_left Ended < steps_left (ToLock i)"
  "i < ROUNDS \<Longrightarrow> steps_left (Holding i x) < steps_left (Locked i)" "i < ROUNDS \<Longrightarrow> steps_left (Unlocked i) < steps_left (Holding i x)"
  "i < ROUNDS \<Longrightarrow> steps_left (ToLock (Suc i)) < steps_left (Unlocked i)" "k < THREADS \<Longrightarrow> steps_left (Joining (Suc k)) < steps_left (Joining k)"
  by (simp_all add: steps_left_def)

text \<open>A step has ended in a state of the invariant with less left to do.\<close>

definition advances :: "('s \<Rightarrow> asched \<Rightarrow> bool) \<Rightarrow> nat \<Rightarrow> counter_test \<Rightarrow> (counter_test \<times> 's) res \<Rightarrow> bool" where
  "advances rep m w r \<longleftrightarrow> (\<exists>w' s' A' ow' ws' k'. r = Inr (w', s') \<and> rep s' A' \<and> test_inv [a_cur A'] m ow' ws' k' w' A' \<and>
     all_left w' < all_left w)"

context thread_library
begin

lemma advances_call:
  assumes "rep s A" "usable s c" "acall c A = Some (r, A')" "test_inv [a_cur A'] m ow ws k w' A'" "all_left w' < all_left w"
  shows "advances rep m w (call_then lib c w' s)"
  using call_then_rep [OF assms(1-3)] assms(4,5) unfolding advances_def by blast

lemma advances_yield:
  assumes r: "rep s A" and inv: "test_inv [a_cur A] m ow ws k w' A" and t: "all_left w' < all_left w"
  shows "advances rep m w (if coin then call_then lib Yield w' s else Inr (w', s))"
proof (cases coin)
  case True
  obtain A' where "a_switch True A = Some A'" "test_inv [a_cur A'] m ow ws k w' A'" using switch_again [OF inv] by blast
  then have "acall Yield A = Some (0, A')" by (simp add: returning_def)
  then show ?thesis using True advances_call [OF r usable_always(1) _ \<open>test_inv [a_cur A'] m ow ws k w' A'\<close> t] by simp
next
  case False
  then show ?thesis using r inv t unfolding advances_def by auto
qed

lemma step_advances:
  assumes r: "rep s A" and inv: "test_inv [a_cur A] m ow ws k w A" and nf: "pcs w (me s) \<noteq> Joining THREADS" and ids: "tids_ok tids"
  shows "advances rep m w (test_step lib coin tids m (me s) w s)"
proof -
  let ?t = "a_cur A"
  have me: "me s = ?t" by (rule me_rep [OF r])
  have um: "usable s (Lock (Some m))" "usable s (Unlock (Some m))" using usable_mutex [OF r, of m] invD(1) [OF inv] by auto
  have in_live: "?t \<in> live w" using invD(5) [OF inv] by (auto simp: sched_side_def)
  then have dom: "?t \<in> insert 0 workers" by (auto simp: live_def)
  show ?thesis
  proof (cases "pcs w ?t")
    case (ToLock i)
    note c = cur_worker [OF inv ToLock, simplified]
    show ?thesis
    proof (cases "i < ROUNDS")
      case True
      then have "all_left (go ?t (Locked i) w) < all_left w" using total_go(1) [OF dom] ToLock less_left(1) by simp
      then show ?thesis using step_lock [OF inv ToLock True] advances_call [OF r um(1)] True
        by (auto simp: test_step_def me ToLock simp del: acall.simps)
    next
      case False
      have "all_left (go ?t Ended w) < all_left w" using total_go(1) [OF dom] ToLock less_left(2) by simp
      moreover have "usable s Terminate" using usable_end [OF r] cur_worker(5) [OF inv ToLock] by simp
      ultimately show ?thesis using step_end [OF inv ToLock False] advances_call [OF r, of Terminate] False
        by (auto simp: test_step_def me ToLock simp del: acall.simps)
    qed
  next
    case (Locked i)
    have "i < ROUNDS" using cur_worker(3) [OF inv Locked] by (simp add: pc_ok_def)
    then have "all_left (go ?t (Holding i (counter w)) w) < all_left w" using total_go(1) [OF dom] Locked less_left(3) by simp
    then show ?thesis using advances_yield [OF r step_read [OF inv Locked]] by (simp add: test_step_def me Locked Let_def)
  next
    case (Holding i num)
    have "i < ROUNDS" using cur_worker(3) [OF inv Holding] by (simp add: pc_ok_def)
    then have "all_left (go ?t (Unlocked i) (w\<lparr>counter := num + 1\<rparr>)) < all_left w" using total_go(2) [OF dom] Holding less_left(4) by simp
    then show ?thesis using step_unlock [OF inv Holding] advances_call [OF r um(2)]
      by (auto simp: test_step_def me Holding simp del: acall.simps)
  next
    case (Unlocked i)
    have "i < ROUNDS" using cur_worker(3) [OF inv Unlocked] by (simp add: pc_ok_def)
    then have "all_left (go ?t (ToLock (Suc i)) w) < all_left w" using total_go(1) [OF dom] Unlocked less_left(5) by simp
    then show ?thesis using advances_yield [OF r step_done [OF inv Unlocked]] by (simp add: test_step_def me Unlocked Let_def)
  next
    case Ended
    then have False using cur_worker(2) [OF inv Ended] by simp
    then show ?thesis ..
  next
    case (Joining i)
    have t0: "?t = 0"
    proof (rule ccontr)
      assume "?t \<noteq> 0"
      then have "pc_ok ow (set ws) (counter w) ?t (Joining i)"
        using dom invD(6) [OF inv] Joining unfolding work_side_def by auto
      then show False by (simp add: pc_ok_def)
    qed
    then have ik: "i = k" using invD(3) [OF inv] Joining by simp
    then have k: "k < THREADS" using nf invD(4) [OF inv] Joining me by (cases "k = THREADS") auto
    have id: "word_of_int (tids ! k) = (of_nat (Suc k) :: u64)" using ids k by (simp add: tids_ok_def)
    have "all_left (go ?t (Joining (Suc k)) w) < all_left w" using total_go(1) [OF dom] Joining less_left(6) [OF k] ik by simp
    moreover have "pcs w 0 = Joining k" using Joining ik t0 by simp
    ultimately show ?thesis using step_join [OF inv t0 k] advances_call [OF r usable_always(2)] id
      by (auto simp: test_step_def me t0 simp del: acall.simps of_nat_Suc)
  qed
qed

lemma run_ends:
  assumes "tids_ok tids"
  shows "all_left w \<le> fuel \<Longrightarrow> rep s A \<Longrightarrow> test_inv [a_cur A] m ow ws k w A \<Longrightarrow>
    \<exists>w' s' A'. run_threads fuel lib me rnd tids m w s = Inr (w', s') \<and> rep s' A' \<and> a_cur A' = 0 \<and>
      counter w' = of_nat (THREADS * ROUNDS)"
proof (induction fuel arbitrary: w s A ow ws k rule: less_induct)
  case (less fuel)
  note r = less.prems(2) and inv = less.prems(3)
  have me: "me s = a_cur A" by (rule me_rep [OF r])
  show ?case
  proof (cases "pcs w (me s) = Joining THREADS")
    case True
    have c: "a_cur A = 0"
    proof (rule ccontr)
      assume n: "a_cur A \<noteq> 0"
      have "a_cur A \<in> live w" using invD(5) [OF inv] by (auto simp: sched_side_def)
      then have "pc_ok ow (set ws) (counter w) (a_cur A) (Joining THREADS)"
        using n invD(6) [OF inv] True me unfolding work_side_def live_def by auto
      then show False by (simp add: pc_ok_def)
    qed
    have "k = THREADS" using invD(3) [OF inv] True me c by simp
    moreover have "test_inv [0] m ow ws k w A" using inv c by simp
    ultimately have "counter w = of_nat (THREADS * ROUNDS)" by (rule inv_end [rotated])
    moreover have "run_threads fuel lib me rnd tids m w s = Inr (w, s)" using True by (simp add: run_threads.simps)
    ultimately show ?thesis using r c by blast
  next
    case False
    note adv = step_advances [OF r inv False assms]
    obtain f where f: "fuel = Suc f"
      using adv [of True] less.prems(1) by (cases fuel) (auto simp: advances_def)
    obtain w' s' A' ow' ws' k' where st: "test_step lib (rnd f) tids m (me s) w s = Inr (w', s')"
      and n: "rep s' A'" "test_inv [a_cur A'] m ow' ws' k' w' A'" "all_left w' < all_left w"
      using adv [of "rnd f"] unfolding advances_def by blast
    have "run_threads fuel lib me rnd tids m w s = run_threads f lib me rnd tids m w' s'"
      using False st by (subst run_threads.simps) (simp add: f)
    then show ?thesis using less.IH [of f w' s' A'] n less.prems(1) f by simp
  qed
qed

text \<open>The creation of the workers: each is ready, in the order of the identifiers.\<close>

lemma create_rep:
  assumes "rep s A" "room (length ptrs) s" "a_next A = of_nat i" "i + length ptrs \<le> 100"
  shows "\<exists>s'. create_workers lib work ptrs s = Inr (map int [i..<i + length ptrs], s') \<and>
    rep s' (A\<lparr>a_ready := a_ready A @ map of_nat [i..<i + length ptrs], a_ids := of_nat ` {i..<i + length ptrs} \<union> a_ids A,
      a_next := of_nat (i + length ptrs)\<rparr>)"
  using assms
proof (induction ptrs arbitrary: s A i)
  case Nil
  then have e: "A\<lparr>a_next := of_nat i\<rparr> = A" by (cases A) simp
  show ?case using Nil.prems(1) by (simp add: e)
next
  case (Cons p ps)
  let ?A = "A\<lparr>a_ready := a_ready A @ [a_next A], a_ids := insert (a_next A) (a_ids A), a_next := a_next A + 1\<rparr>"
  have i: "i < 2 ^ 63" "sint (of_nat i :: u64) = int i"
    using Cons.prems(4) by (simp_all add: signed_of_nat signed_take_bit_int_eq_self)
  have "unat (of_nat (Suc i) :: u64) = Suc i" using Cons.prems(4) by (simp add: unat_of_nat del: of_nat_Suc)
  then have n: "a_next A + 1 \<noteq> 0" using Cons.prems(3) by (metis add.commute of_nat_Suc unat_0 old.nat.distinct(2))
  have rm: "room (Suc (length ps)) s" using Cons.prems(2) by simp
  have u: "usable s (Create work p)" by (rule usable_create [OF Cons.prems(1) rm n])
  obtain s1 where s1: "lib (Create work p) s = Inr (int i, s1)" "rep s1 ?A"
    using lib_does [OF Cons.prems(1) u] Cons.prems(3) i(2) by auto
  have "room (length ps) s1" by (rule room_create [OF Cons.prems(1) rm n s1(1)])
  moreover have "a_next ?A = of_nat (Suc i)" using Cons.prems(3) by simp
  ultimately obtain s' where s': "create_workers lib work ps s1 = Inr (map int [Suc i..<Suc i + length ps], s')"
    "rep s' (?A\<lparr>a_ready := a_ready ?A @ map of_nat [Suc i..<Suc i + length ps],
      a_ids := of_nat ` {Suc i..<Suc i + length ps} \<union> a_ids ?A, a_next := of_nat (Suc i + length ps)\<rparr>)"
    using Cons.IH [OF s1(2), of "Suc i"] Cons.prems(4) by auto
  have l: "[i..<i + length (p # ps)] = i # [Suc i..<Suc i + length ps]"
    using upt_conv_Cons [of i "Suc i + length ps"] by (simp del: upt_Suc)
  have "{i..<i + length (p # ps)} = insert i {Suc i..<Suc i + length ps}" by auto
  then show ?case unfolding l using s1(1) s' Cons.prems(3) by (simp add: image_insert del: upt_Suc)
qed

text \<open>The whole program.\<close>

lemma prints_count:
  assumes f: "fresh m THREADS s" and l: "length ptrs = THREADS" and fuel: "4020 \<le> fuel"
  shows "counter_main fuel lib me clean rnd m work ptrs s = Inr (''counter = 1000'' @ nl)"
proof -
  let ?A = "a_init\<lparr>a_mutex := [m \<mapsto> (None, [])]\<rparr>" and ?tids = "map int [1..<1 + length ptrs]"
  obtain s1 where s1: "lib (MutexInit (Some m)) s = Inr (1, s1)" "rep s1 ?A" "room (length ptrs) s1"
    using start [OF f] l by auto
  have "a_next ?A = of_nat 1" "1 + length ptrs \<le> 100" by (simp_all add: a_init_def l THREADS_def)
  from create_rep [OF s1(2,3) this] obtain s2 where
    s2: "create_workers lib work ptrs s1 = Inr (?tids, s2)"
    and r2: "rep s2 (?A\<lparr>a_ready := a_ready ?A @ map of_nat [1..<1 + length ptrs],
      a_ids := of_nat ` {1..<1 + length ptrs} \<union> a_ids ?A, a_next := of_nat (1 + length ptrs)\<rparr>)" by blast
  define A where "A = ?A\<lparr>a_ready := a_ready ?A @ map of_nat [1..<1 + length ptrs],
      a_ids := of_nat ` {1..<1 + length ptrs} \<union> a_ids ?A, a_next := of_nat (1 + length ptrs)\<rparr>"
  define w where "w = \<lparr>counter = 0, pcs = (\<lambda>t. if t \<in> word_of_int ` set ?tids then ToLock 0 else Joining 0)\<rparr>"
  have W: "word_of_int ` set ?tids = workers" "of_nat ` {1..<1 + length ptrs} = workers"
    by (simp_all add: workers_def l image_image atLeastLessThanSuc_atLeastAtMost del: upt_Suc)
  have w: "pcs w = (\<lambda>t. if t \<in> workers then ToLock 0 else Joining 0)" "counter w = 0" unfolding w_def W(1) by simp_all
  have "a_ids A = workers \<union> {0}" by (simp only: A_def asched.simps W(2)) (simp add: a_init_def)
  moreover have "a_mutex A m = Some (None, [])" "a_cur A = 0" "a_ready A = map of_nat [1..<Suc THREADS]" "a_joins A = []"
      "a_done A = None" by (simp_all add: A_def a_init_def l del: upt_Suc)
  ultimately have inv: "test_inv [a_cur A] m None [] 0 w A" "all_left w = 4020" using start_inv [OF w] by blast+
  have ids: "tids_ok ?tids" by (simp add: tids_ok_def l del: upt_Suc)
  obtain w' s' A' where e: "run_threads fuel lib me rnd ?tids m w s2 = Inr (w', s')" "rep s' A'" "a_cur A' = 0"
    "counter w' = of_nat (THREADS * ROUNDS)"
    using run_ends [OF ids _ r2 [folded A_def] inv(1), of fuel rnd] inv(2) fuel by auto
  obtain s'' where "clean s' = Inr s''" using clean_rep [OF e(2,3)] by blast
  moreover have "fmt_d (of_nat (THREADS * ROUNDS)) = ''1000''" unfolding THREADS_def ROUNDS_def by code_simp
  ultimately show ?thesis using s1(1) s2 e(1,4) by (simp add: counter_main_def w_def)
qed

end

section \<open>The library of A3/thread.c\<close>

text \<open>Before the library is initialised the parent runs.\<close>

definition current_tid :: "threads \<Rightarrow> u64" where
  "current_tid s = (if ready s then tid_of (tcbs s) (the (current_thread s)) else 0)"

definition lib_rep :: "env \<Rightarrow> threads \<Rightarrow> asched \<Rightarrow> bool" where
  "lib_rep E s A \<longleftrightarrow> clean_env E \<and> simulates E s A"

text \<open>\<open>malloc\<close> gives new stacks to new threads: those at the addresses up to the last thread's differ.\<close>

definition lib_room :: "env \<Rightarrow> nat \<Rightarrow> threads \<Rightarrow> bool" where
  "lib_room E n s \<longleftrightarrow> inj_on (e_stack E) {..hbrk s + 2 * n}"

definition lib_fresh :: "env \<Rightarrow> nat \<Rightarrow> nat \<Rightarrow> threads \<Rightarrow> bool" where
  "lib_fresh E m n s \<longleftrightarrow> clean_env E \<and> fresh_lib s \<and> mutex_mem s m \<noteq> None \<and> inj_on (e_stack E) {..hbrk s + 2 + 2 * n}"

lemma init_hbrk: "init E s0 = Inr s \<Longrightarrow> hbrk s = Suc (Suc (hbrk s0)) \<and> mutex_mem s = mutex_mem s0 \<and> cond_mem s = cond_mem s0 \<and> ready s"
  by (auto simp: init_def init_table_def alloc_tcb_def put_tcb_def get_cell_def push_ready_def pop_ready_def need_def
      free_handle_def Let_def split: option.splits if_splits)

lemma lib_usable_create:
  assumes rep: "simulates E s A" and room: "lib_room E (Suc n) s" and nx: "a_next A + 1 \<noteq> 0"
  shows "valid E s (Create work ptr)"
proof -
  obtain v where v: "sched_inv E s v" "A = abst s v" using rep by (auto simp: simulates_def)
  have ok: "sched_ok E s v" using v(1) by (simp add: sched_inv_def)
  have "stacks s = e_stack E ` created (tcbs s)" "created (tcbs s) \<subseteq> {..<hbrk s}"
    using sched_parts(4) [OF ok] dom_bound [OF ok] by (auto simp: heap_ok_def created_def)
  moreover have "e_stack E (hbrk s) \<noteq> e_stack E a" if "a < hbrk s" for a
    using inj_onD [OF room [unfolded lib_room_def], of "hbrk s" a] that by auto
  ultimately have "e_stack E (hbrk s) \<notin> stacks s" by auto
  then show ?thesis using nx by (auto simp: v(2) abst_by_def split: option.split)
qed

lemma lib_usable_mutex:
  assumes rep: "simulates E s A" and m: "a_mutex A m \<noteq> None"
  shows "mutex_ready s (Some m)"
proof -
  obtain v where v: "sched_inv E s v" "A = abst s v" using rep by (auto simp: simulates_def)
  have ok: "sched_ok E s v" using v(1) by (simp add: sched_inv_def)
  have "m \<in> set (v_mutexes v)" using m by (auto simp: v(2) abst_by_def abs_mutex_def split: if_splits)
  then obtain mx where "mutex_mem s m = Some mx" "qrep (mx_q mx) (v_waits v m)" by (rule sched_mutex [OF ok])
  then show ?thesis by (auto simp: mutex_ready_def qrep_def)
qed

lemma lib_start:
  assumes f: "lib_fresh E m n s"
  shows "\<exists>s'. exec E (MutexInit (Some m)) s = Inr (1, s') \<and> lib_rep E s' (a_init\<lparr>a_mutex := [m \<mapsto> (None, [])]\<rparr>) \<and> lib_room E n s'"
proof -
  have E: "clean_env E" and fl: "fresh_lib s" and m: "mutex_mem s m \<noteq> None" and inj: "inj_on (e_stack E) {..hbrk s + 2 + 2 * n}"
    using f by (simp_all add: lib_fresh_def)
  obtain s1 where s1: "init E s = Inr s1" "simulates E s1 a_init" using init_simulates [OF fl E] by blast
  note h = init_hbrk [OF s1(1)]
  have "valid E s1 (MutexInit (Some m))" using h m fl by (auto simp: fresh_lib_def)
  from call_simulates [OF s1(2) E this] obtain s' where
    s': "exec E (MutexInit (Some m)) s1 = Inr (1, s')" "simulates E s' (a_init\<lparr>a_mutex := [m \<mapsto> (None, [])]\<rparr>)"
    by (auto simp: a_init_def)
  have "exec E (MutexInit (Some m)) s = exec E (MutexInit (Some m)) s1"
    using fl s1(1) h by (simp add: thread_mutex_init_def ensure_init_def fresh_lib_def)
  moreover have "hbrk s' = hbrk s + 2"
    using s'(1) h by (auto simp: thread_mutex_init_def Let_def split: if_splits)
  ultimately show ?thesis using s' E inj by (simp add: lib_rep_def lib_room_def)
qed

interpretation tl: thread_library "exec E" current_tid thread_cleanup "lib_rep E" "valid E" "lib_room E" "lib_fresh E" for E
proof
  show "exec E c s = Inl (ExitCode (-1))" if "lib_rep E s A" "valid E s c" "acall c A = None" for s A c
    using call_simulates [of E s A c] that by (simp add: lib_rep_def)
  show "\<exists>s'. exec E c s = Inr (r, s') \<and> lib_rep E s' A'" if "lib_rep E s A" "valid E s c" "acall c A = Some (r, A')" for s A c r A'
    using call_simulates [of E s A c] that by (simp add: lib_rep_def)
  show "current_tid s = a_cur A" if "lib_rep E s A" for s A
    using that by (auto simp: lib_rep_def simulates_def current_tid_def abst_by_def sched_inv_def sched_ok_def)
  show "\<exists>s'. thread_cleanup s = Inr s'" if r: "lib_rep E s A" "a_cur A = 0" for s A
  proof -
    obtain v where v: "sched_inv E s v" "A = abst s v" "clean_env E" using r(1) unfolding lib_rep_def simulates_def by blast
    then obtain t c where t: "current_thread s = Some t" "tcbs s t = Some c" by (auto elim: sched_invD)
    then have "tcb_tid c = 0" using r(2) by (simp add: v(2) abst_by_def tid_of_def)
    then show ?thesis using cleanup_inv [OF v(1,3) t] by blast
  qed
  show "valid E s (Lock (Some m)) \<and> valid E s (Unlock (Some m))" if "lib_rep E s A" "a_mutex A m \<noteq> None" for s A m
    using lib_usable_mutex [of E s A m] that by (simp add: lib_rep_def)
  show "valid E s Terminate" if "lib_rep E s A" "a_cur A \<noteq> 0" for s A
    using that by (auto simp: lib_rep_def simulates_def abst_by_def tid_of_def sched_inv_def stat_Some)
  show "valid E s (Create work ptr)" if "lib_rep E s A" "lib_room E (Suc n) s" "a_next A + 1 \<noteq> 0" for s A n work ptr
    using lib_usable_create [of E s A n] that by (simp add: lib_rep_def)
  show "lib_room E n s'" if r: "lib_rep E s A" "lib_room E (Suc n) s" "exec E (Create work ptr) s = Inr (r, s')" for s A n work ptr r s'
  proof -
    obtain v where "sched_ok E s v" using r(1) by (auto simp: lib_rep_def simulates_def sched_inv_def)
    then obtain tab where "ready s" "all_threads s = Some tab" by (auto simp: sched_ok_def table_rep_def)
    then have "hbrk s' = hbrk s + 2" using thread_create_next [of s tab E work ptr] r(3) by (auto simp: as_long_def)
    then show ?thesis using r(2) by (simp add: lib_room_def)
  qed
qed (use lib_start in simp_all)

section \<open>The theorem\<close>


text \<open>Memory with room for many stacks.\<close>

definition ex_stacks :: env where
  "ex_stacks = ex_env\<lparr>e_stack := (\<lambda>a. if a < 33554432 then of_nat (Suc a * 65536) else 65536)\<rparr>"

lemma ex_stack:
  assumes "a < 33554432"
  shows "unat (e_stack ex_stacks a) = Suc a * 65536"
proof -
  have e: "e_stack ex_stacks a = of_nat (Suc a * 65536)" using assms by (simp add: ex_stacks_def)
  have "Suc a * 65536 < 2 ^ LENGTH(64)" using assms by simp
  then show ?thesis unfolding e unat_of_nat by (rule mod_less)
qed

lemma ex_stacks_inj:
  assumes "n < 33554432"
  shows "inj_on (e_stack ex_stacks) {..n}"
proof (rule inj_onI)
  fix a b assume "a \<in> {..n}" "b \<in> {..n}" "e_stack ex_stacks a = e_stack ex_stacks b"
  moreover from this have "a < 33554432" "b < 33554432" using assms by simp_all
  note this [THEN ex_stack]
  ultimately have "Suc a * 65536 = Suc b * 65536" by metis
  then show "a = b" by simp
qed

lemma ex_stacks_clean: "clean_env ex_stacks"
proof -
  have "e_stack ex_stacks a \<noteq> 0" for a
  proof (cases "a < 33554432")
    case True
    then show ?thesis using ex_stack [of a] by (metis mult_eq_0_iff nat.distinct(1) unat_0 zero_neq_numeral)
  qed (simp add: ex_stacks_def)
  then show ?thesis by (simp add: clean_env_def) (simp add: ex_stacks_def ex_env_def clean_tcb_def)
qed


end
