(* ===== verification/Thread_Scripts.thy ===== *)
theory Thread_Scripts
  imports Counter_Test
begin

text \<open>
  A small language for the test programs of A3: threads of statements over the calls of the thread library, with their
  variables and their output, and an interpreter over any library. A program that keeps the rules on the abstract scheduler
  prints the same and ends the same way on every library with the contract \<open>script_library\<close>.
\<close>

section \<open>Programs\<close>

text \<open>
  The statements of the test programs: a call of the library, whose arguments may depend on the variables, with the
  variable for its value; an assignment; a line of output; a conditional. A variable is global, or local to its thread.
  The value of a call is stored when its thread has control again.
\<close>

datatype var = Global nat | Local nat

type_synonym store = "var \<Rightarrow> int"

datatype stream = Out | Err

datatype stmt = Invoke "store \<Rightarrow> call" "var option" | Assign var "store \<Rightarrow> int" | Say stream "store \<Rightarrow> string"
  | When "store \<Rightarrow> bool" "stmt list"

text \<open>\<open>conts\<close> is what each thread still has to do.\<close>

record script =
  conts :: "u64 \<Rightarrow> stmt list"
  vars :: "u64 option \<times> nat \<Rightarrow> int"
  printed :: "(stream \<times> string) list"

fun cell :: "u64 \<Rightarrow> var \<Rightarrow> u64 option \<times> nat" where
  "cell t (Global n) = (None, n)"
| "cell t (Local n) = (Some t, n)"

definition sees :: "script \<Rightarrow> u64 \<Rightarrow> store" where
  "sees w t v = vars w (cell t v)"

text \<open>One statement of the running thread \<open>t\<close>; a thread without one returns into \<open>thread_terminate\<close>. A new thread
  executes its work function \<open>f\<close> on its argument \<open>i\<close>, the statements \<open>code f i\<close>.\<close>

definition script_step :: "(call \<Rightarrow> 's \<Rightarrow> (int \<times> 's) res) \<Rightarrow> (u64 \<Rightarrow> u64 \<Rightarrow> stmt list) \<Rightarrow> u64 \<Rightarrow> script \<Rightarrow> 's \<Rightarrow> (script \<times> 's) res" where
  "script_step lib code t w s =
     (case conts w t of
        [] \<Rightarrow> bindR (lib Terminate s) (\<lambda>(_, s). Inr (w, s))
      | Assign x e # r \<Rightarrow> Inr (w\<lparr>conts := (conts w)(t := r), vars := (vars w)(cell t x := e (sees w t))\<rparr>, s)
      | Say f e # r \<Rightarrow> Inr (w\<lparr>conts := (conts w)(t := r), printed := printed w @ [(f, e (sees w t))]\<rparr>, s)
      | When b body # r \<Rightarrow> Inr (w\<lparr>conts := (conts w)(t := (if b (sees w t) then body @ r else r))\<rparr>, s)
      | Invoke c x # r \<Rightarrow> bindR (lib (c (sees w t)) s) (\<lambda>(v, s).
          let cs = (conts w)(t := (case x of None \<Rightarrow> r | Some x \<Rightarrow> Assign x (\<lambda>_. v) # r));
              cs = (case c (sees w t) of Create f i \<Rightarrow> cs(word_of_int v := code f i) | _ \<Rightarrow> cs)
          in Inr (w\<lparr>conts := cs\<rparr>, s)))"

fun run_script :: "nat \<Rightarrow> (call \<Rightarrow> 's \<Rightarrow> (int \<times> 's) res) \<Rightarrow> ('s \<Rightarrow> u64) \<Rightarrow> (u64 \<Rightarrow> u64 \<Rightarrow> stmt list) \<Rightarrow> script \<Rightarrow> 's \<Rightarrow>
    (stream \<times> string) list \<times> 's res" where
  "run_script fuel lib me code w s =
     (if me s = 0 \<and> conts w 0 = [] then (printed w, Inr s)
      else case fuel of 0 \<Rightarrow> (printed w, Inl OutOfFuel)
      | Suc fuel \<Rightarrow> (case script_step lib code (me s) w s of
          Inl e \<Rightarrow> (printed w, Inl e)
        | Inr (w, s) \<Rightarrow> run_script fuel lib me code w s))"

declare run_script.simps [simp del]

text \<open>A whole program: what it prints, and how it ends.\<close>

definition run_test :: "nat \<Rightarrow> (call \<Rightarrow> 's \<Rightarrow> (int \<times> 's) res) \<Rightarrow> ('s \<Rightarrow> u64) \<Rightarrow> ('s \<Rightarrow> 's res) \<Rightarrow> (u64 \<Rightarrow> u64 \<Rightarrow> stmt list) \<Rightarrow>
    stmt list \<Rightarrow> bool \<Rightarrow> 's \<Rightarrow> (stream \<times> string) list \<times> unit res" where
  "run_test fuel lib me clean code main cleans s =
     (let (out, r) = run_script fuel lib me code \<lparr>conts = (\<lambda>_. [])(0 := main), vars = (\<lambda>_. 0), printed = []\<rparr> s
      in (out, bindR r (\<lambda>s. if cleans then bindR (clean s) (\<lambda>_. Inr ()) else Inr ())))"

section \<open>The abstract library\<close>

text \<open>The rules for the client of the abstract scheduler, with its mutexes \<open>M\<close> and conditions \<open>C\<close>.\<close>

definition known :: "('a \<Rightarrow> 'b option) \<Rightarrow> 'a option \<Rightarrow> bool" where
  "known f p = (case p of None \<Rightarrow> True | Some a \<Rightarrow> f a \<noteq> None)"

fun allowed :: "nat set \<Rightarrow> nat set \<Rightarrow> call \<Rightarrow> asched \<Rightarrow> bool" where
  "allowed M C (Create f i) A \<longleftrightarrow> a_next A + 1 \<noteq> 0"
| "allowed M C (MutexInit p) A \<longleftrightarrow> (case p of None \<Rightarrow> True | Some m \<Rightarrow> m \<in> M \<and> a_mutex A m = None)"
| "allowed M C (Lock p) A \<longleftrightarrow> known (a_mutex A) p"
| "allowed M C (Unlock p) A \<longleftrightarrow> known (a_mutex A) p"
| "allowed M C (CondInit p) A \<longleftrightarrow> (case p of None \<Rightarrow> True | Some c \<Rightarrow> c \<in> C \<and> a_cond A c = None)"
| "allowed M C (Wait p q) A \<longleftrightarrow> known (a_cond A) p \<and> known (a_mutex A) q"
| "allowed M C (Signal p) A \<longleftrightarrow> known (a_cond A) p"
| "allowed M C Terminate A \<longleftrightarrow> a_cur A \<noteq> 0"
| "allowed M C _ A \<longleftrightarrow> True"

definition abstract_lib :: "nat set \<Rightarrow> nat set \<Rightarrow> call \<Rightarrow> asched \<Rightarrow> (int \<times> asched) res" where
  "abstract_lib M C c A =
     (if allowed M C c A then (case acall c A of None \<Rightarrow> Inl (ExitCode (-1)) | Some x \<Rightarrow> Inr x) else Inl WildPointer)"

text \<open>A program with a result on the abstract library breaks no rule and ends.\<close>

definition finished :: "'a res \<Rightarrow> bool" where
  "finished r \<longleftrightarrow> r \<noteq> Inl WildPointer \<and> r \<noteq> Inl OutOfFuel"

fun starts :: "call \<Rightarrow> bool" where
  "starts (Create f i) = True"
| "starts (MutexInit p) = True"
| "starts (CondInit p) = True"
| "starts _ = False"

text \<open>The first call of a program creates a thread or initialises a variable.\<close>

fun opens :: "stmt list \<Rightarrow> bool" where
  "opens (Invoke c x # r) = starts (c (\<lambda>_. 0))"
| "opens (Say f e # r) = opens r"
| "opens _ = False"

section \<open>Programs on a library\<close>

text \<open>\<open>ample M C n s\<close>: the client has its variables, and memory for \<open>n\<close> more calls; \<open>blank\<close>: the same before the first call.\<close>

locale script_library = thread_library lib me clean rep usable room fresh
  for lib :: "call \<Rightarrow> 's \<Rightarrow> (int \<times> 's) res" and me clean rep usable room fresh +
  fixes ample :: "nat set \<Rightarrow> nat set \<Rightarrow> nat \<Rightarrow> 's \<Rightarrow> bool"
    and blank :: "nat set \<Rightarrow> nat set \<Rightarrow> nat \<Rightarrow> 's \<Rightarrow> bool"
  assumes ample_usable: "rep s A \<Longrightarrow> ample M C (Suc n) s \<Longrightarrow> allowed M C c A \<Longrightarrow> usable s c"
    and ample_call: "rep s A \<Longrightarrow> ample M C (Suc n) s \<Longrightarrow> lib c s = Inr (r, s') \<Longrightarrow> ample M C n s'"
    and blank_start: "blank M C n s \<Longrightarrow> \<exists>s1. rep s1 a_init \<and> ample M C n s1 \<and> (\<forall>c. starts c \<longrightarrow> lib c s = lib c s1)"
    and blank_me: "blank M C n s \<Longrightarrow> me s = 0"
    and blank_less: "blank M C (Suc n) s \<Longrightarrow> blank M C n s"
    and ample_less: "ample M C (Suc n) s \<Longrightarrow> ample M C n s"
begin

lemma call_cases:
  assumes "rep s A" "ample M C (Suc n) s" "abstract_lib M C c A \<noteq> Inl WildPointer"
  obtains (exits) "abstract_lib M C c A = Inl (ExitCode (-1))" "lib c s = Inl (ExitCode (-1))"
  | (does) r A' s' where "abstract_lib M C c A = Inr (r, A')" "lib c s = Inr (r, s')" "rep s' A'" "ample M C n s'"
proof -
  have a: "allowed M C c A" using assms(3) by (auto simp: abstract_lib_def split: if_splits)
  have u: "usable s c" by (rule ample_usable [OF assms(1,2) a])
  show thesis
  proof (cases "acall c A")
    case None
    then show ?thesis using exits lib_fails [OF assms(1) u] a by (simp add: abstract_lib_def)
  next
    case (Some x)
    obtain r A' where x: "x = (r, A')" by fastforce
    obtain s' where s': "lib c s = Inr (r, s')" "rep s' A'" using lib_does [OF assms(1) u Some [unfolded x]] by blast
    then show ?thesis using does ample_call [OF assms(1,2) s'(1)] a Some x by (simp add: abstract_lib_def)
  qed
qed

lemma step_refines:
  assumes r: "rep s A" and m: "ample M C (Suc n) s"
    and e: "script_step (abstract_lib M C) code t w A = res" "res \<noteq> Inl WildPointer"
  shows "case res of Inl e \<Rightarrow> script_step lib code t w s = Inl e
    | Inr (w', A') \<Rightarrow> \<exists>s'. script_step lib code t w s = Inr (w', s') \<and> rep s' A' \<and> ample M C n s'"
proof -
  have m': "ample M C n s" by (rule ample_less [OF m])
  show ?thesis
  proof (cases "conts w t")
    case Nil
    then have "abstract_lib M C Terminate A \<noteq> Inl WildPointer" using e by (auto simp: script_step_def)
    from call_cases [OF r m this] show ?thesis using e(1) Nil by cases (auto simp: script_step_def)
  next
    case (Cons i rest)
    show ?thesis
    proof (cases i)
      case (Invoke c x)
      then have "abstract_lib M C (c (sees w t)) A \<noteq> Inl WildPointer" using e Cons by (auto simp: script_step_def)
      from call_cases [OF r m this] show ?thesis using e(1) Cons Invoke by cases (auto simp: script_step_def Let_def)
    qed (use e(1) Cons r m' in \<open>auto simp: script_step_def\<close>)
  qed
qed

lemma run_refines:
  assumes "rep s A" "ample M C f s" "f \<le> g" "run_script f (abstract_lib M C) a_cur code w A = (out, r)" "finished r"
  shows "\<exists>r'. run_script g lib me code w s = (out, r') \<and>
    (case r of Inl e \<Rightarrow> r' = Inl e | Inr A' \<Rightarrow> \<exists>s'. r' = Inr s' \<and> rep s' A' \<and> a_cur A' = 0)"
  using assms
proof (induction f arbitrary: g w s A)
  case 0
  have "a_cur A = 0 \<and> conts w 0 = []" using 0(4,5) by (auto simp: run_script.simps [of 0] finished_def split: if_splits)
  then show ?case using 0 me_rep [OF 0(1)] by (auto simp: run_script.simps)
next
  case (Suc f)
  obtain g' where g: "g = Suc g'" "f \<le> g'" using Suc.prems(3) by (cases g) auto
  note me = me_rep [OF Suc.prems(1)]
  show ?case
  proof (cases "a_cur A = 0 \<and> conts w 0 = []")
    case True
    then show ?thesis using Suc.prems(1,4) me by (auto simp: run_script.simps)
  next
    case False
    let ?res = "script_step (abstract_lib M C) code (a_cur A) w A"
    have run: "run_script (Suc f) (abstract_lib M C) a_cur code w A = (case ?res of
          Inl e \<Rightarrow> (printed w, Inl e) | Inr (w, s) \<Rightarrow> run_script f (abstract_lib M C) a_cur code w s)"
      "run_script g lib me code w s = (case script_step lib code (a_cur A) w s of
          Inl e \<Rightarrow> (printed w, Inl e) | Inr (w, s) \<Rightarrow> run_script g' lib me code w s)"
      using False by (auto simp: g(1) me run_script.simps [of "Suc f"] run_script.simps [of "Suc g'"])
    have "?res \<noteq> Inl WildPointer" using Suc.prems(4,5) run(1) by (auto simp: finished_def)
    note st = step_refines [OF Suc.prems(1,2) refl this]
    show ?thesis
    proof (cases ?res)
      case (Inl e)
      then show ?thesis using st run Suc.prems(4) by auto
    next
      case (Inr p)
      obtain w' A' where p: "p = (w', A')" by fastforce
      then obtain s' where "script_step lib code (a_cur A) w s = Inr (w', s')" "rep s' A'" "ample M C f s'" using st Inr by auto
      then show ?thesis using Suc.IH [of s' A' g' w'] run Inr p g(2) Suc.prems(4,5) by simp
    qed
  qed
qed

lemma start_refines:
  assumes "blank M C f s" "opens (conts w 0)" "vars w = (\<lambda>_. 0)" "f \<le> g"
    and "run_script f (abstract_lib M C) a_cur code w a_init = (out, r)" "finished r"
  shows "\<exists>r'. run_script g lib me code w s = (out, r') \<and>
    (case r of Inl e \<Rightarrow> r' = Inl e | Inr A' \<Rightarrow> \<exists>s'. r' = Inr s' \<and> rep s' A' \<and> a_cur A' = 0)"
  using assms
proof (induction f arbitrary: g w)
  case 0
  then show ?case by (cases "conts w 0" rule: opens.cases) (auto simp: run_script.simps [of 0] finished_def)
next
  case (Suc f)
  obtain g' where g: "g = Suc g'" "f \<le> g'" using Suc.prems(4) by (cases g) auto
  have me: "me s = 0" by (rule blank_me [OF Suc.prems(1)])
  from Suc.prems(2) consider
    (call) c x rest where "conts w 0 = Invoke c x # rest" "starts (c (\<lambda>_. 0))"
  | (say) h e rest where "conts w 0 = Say h e # rest" "opens rest"
    by (cases "conts w 0" rule: opens.cases) auto
  then show ?case
  proof cases
    case call
    obtain s1 where s1: "rep s1 a_init" "ample M C (Suc f) s1" "\<forall>c. starts c \<longrightarrow> lib c s = lib c s1"
      using blank_start [OF Suc.prems(1)] by blast
    have "sees w 0 = (\<lambda>_. 0)" using Suc.prems(3) by (simp add: sees_def [abs_def])
    then have st: "script_step lib code 0 w s = script_step lib code 0 w s1" using s1(3) call by (simp add: script_step_def)
    have "me s1 = 0" using me_rep [OF s1(1)] by (simp add: a_init_def)
    then have "run_script g lib me code w s = run_script g lib me code w s1"
      using me call st by (simp add: g(1) run_script.simps [of "Suc g'"])
    then show ?thesis using run_refines [OF s1(1,2) Suc.prems(4,5,6)] by simp
  next
    case say
    let ?w = "w\<lparr>conts := (conts w)(0 := rest), printed := printed w @ [(h, e (sees w 0))]\<rparr>"
    have "run_script (Suc f) (abstract_lib M C) a_cur code w a_init = run_script f (abstract_lib M C) a_cur code ?w a_init"
      "run_script g lib me code w s = run_script g' lib me code ?w s"
      using say by (simp_all add: me g(1) a_init_def script_step_def run_script.simps [of "Suc f"] run_script.simps [of "Suc g'"])
    then show ?thesis using Suc.IH [of ?w g'] Suc.prems say(2) blank_less g(2) by simp
  qed
qed

lemma test_refines:
  assumes b: "blank M C f s" and o: "opens main" and g: "f \<le> g"
    and run: "run_test f (abstract_lib M C) a_cur Inr code main cleans a_init = (out, r)" "finished r"
  shows "run_test g lib me clean code main cleans s = (out, r)"
proof -
  let ?w = "\<lparr>conts = (\<lambda>_. [])(0 := main), vars = (\<lambda>_. 0), printed = []\<rparr>"
  obtain r0 where a: "run_script f (abstract_lib M C) a_cur code ?w a_init = (out, r0)"
    "r = bindR r0 (\<lambda>s. if cleans then bindR (Inr s) (\<lambda>_. Inr ()) else Inr ())"
    using run(1) by (auto simp: run_test_def Let_def split: prod.splits)
  have f0: "finished r0" using run(2) a(2) by (cases r0) (auto simp: finished_def)
  have "opens (conts ?w 0)" "vars ?w = (\<lambda>_. 0)" using o by simp_all
  from start_refines [OF b this g a(1) f0] obtain r' where r': "run_script g lib me code ?w s = (out, r')"
    "case r0 of Inl e \<Rightarrow> r' = Inl e | Inr A' \<Rightarrow> \<exists>s'. r' = Inr s' \<and> rep s' A' \<and> a_cur A' = 0" by blast
  have "bindR r' (\<lambda>s. if cleans then bindR (clean s) (\<lambda>_. Inr ()) else Inr ()) = r"
    using r'(2) a(2) clean_rep by (cases r0) fastforce+
  then show ?thesis using r'(1) by (simp add: run_test_def)
qed

end

end
