(* ===== verification/Thread_Frame.thy ===== *)
theory Thread_Frame
  imports Thread_Spec
begin

text \<open>
  What every call of the thread library A3/thread.c leaves alone: a client's mutexes and conditions stay in memory, and a call
  takes at most two addresses of the heap. The steps of the calls are treated one by one and put together by the rules
  of \<open>keeps\<close>.
\<close>

section \<open>What a call leaves alone\<close>

text \<open>The client's mutexes and conditions stay where they are, and a call takes at most two addresses of the heap.\<close>

definition same_vars :: "threads \<Rightarrow> threads \<Rightarrow> bool" where
  "same_vars s s' \<longleftrightarrow> dom (mutex_mem s') = dom (mutex_mem s) \<and> dom (cond_mem s') = dom (cond_mem s) \<and> hbrk s' = hbrk s \<and> (ready s \<longrightarrow> ready s')"

lemma same_vars_refl: "same_vars s s"
  by (simp add: same_vars_def)

lemma same_vars_trans: "same_vars s s' \<Longrightarrow> same_vars s' s'' \<Longrightarrow> same_vars s s''"
  by (simp add: same_vars_def)

lemma get_cell_Inr [simp]: "get_cell cs p = Inr c \<longleftrightarrow> (\<exists>a. p = Some a \<and> cs a = Some c)"
  by (auto simp: get_cell_def split: option.splits)

lemma need_Inr [simp]: "need p = Inr x \<longleftrightarrow> p = Some x"
  by (auto simp: need_def split: option.splits)

lemma part_same:
  "set_status p st s = Inr s' \<Longrightarrow> same_vars s s'"
  "set_observer p ob s = Inr s' \<Longrightarrow> same_vars s s'"
  "push_ready a s = Inr s' \<Longrightarrow> same_vars s s'"
  "pop_ready s = Inr (x, s') \<Longrightarrow> same_vars s s'"
  "push_mutex m a s = Inr s' \<Longrightarrow> same_vars s s'"
  "pop_mutex m s = Inr (x, s') \<Longrightarrow> same_vars s s'"
  "set_mutex m l w s = Inr s' \<Longrightarrow> same_vars s s'"
  "push_cond c a s = Inr s' \<Longrightarrow> same_vars s s'"
  "pop_cond c s = Inr (x, s') \<Longrightarrow> same_vars s s'"
  by (auto simp: same_vars_def set_status_def set_observer_def push_ready_def pop_ready_def push_mutex_def pop_mutex_def
      set_mutex_def push_cond_def pop_cond_def thread_at_def split: if_splits)

lemma yield_loop_same: "ready s \<Longrightarrow> yield_loop n E s = Inr s' \<Longrightarrow> same_vars s s'"
proof (induction n arbitrary: s)
  case (Suc n)
  then obtain x s1 where p: "pop_ready s = Inr (x, s1)" by (auto simp: ensure_init_def Let_def)
  have s1: "same_vars s s1" "ready s1" using part_same(4) [OF p] Suc.prems(1) by (simp_all add: same_vars_def)
  show ?case
  proof (cases x)
    case None
    then show ?thesis using Suc.prems p s1(1) by (auto simp: ensure_init_def split: if_splits)
  next
    case (Some t)
    show ?thesis
    proof (cases "stat (tcbs s1) t = Some WORKING")
      case True
      let ?s = "s1\<lparr>current_thread := Some t\<rparr>"
      have "s' = ?s \<or> push_ready (the (current_thread s)) ?s = Inr s'"
        using Suc.prems p Some True by (auto simp: ensure_init_def stat_def thread_at_def Let_def split: if_splits)
      then have "same_vars ?s s'" using part_same(3) same_vars_refl by blast
      then show ?thesis using s1(1) by (simp add: same_vars_def)
    next
      case False
      then have "yield_loop n E s1 = Inr s'"
        using Suc.prems p Some by (auto simp: ensure_init_def stat_def thread_at_def Let_def split: if_splits)
      then show ?thesis using Suc.IH [OF s1(2)] same_vars_trans [OF s1(1)] by blast
    qed
  qed
qed simp

lemma yield_same: "ready s \<Longrightarrow> thread_yield E s = Inr s' \<Longrightarrow> same_vars s s'"
  by (simp add: thread_yield_def yield_loop_same)

lemma remove_same:
  assumes "remove_tcb s tab p = Inr (r, s', tab')"
  shows "hbrk s' = hbrk s \<and> heap.more s' = heap.more s"
proof -
  have free: "hbrk m' = hbrk m \<and> heap.more m' = heap.more m" if "free_handle m h = Inr m'" for m m' :: "'a heap_scheme" and h
    using that by (auto simp: free_handle_def split: if_splits)
  have "s' = s \<or> (\<exists>m h. (hbrk m = hbrk s \<and> heap.more m = heap.more s) \<and> free_handle m h = Inr s')"
    using assms by (fastforce simp: remove_tcb_def set_handle_def Let_def split: option.splits if_splits)
  then show ?thesis using free by metis
qed

lemma more_same: "heap.more s' = heap.more (s :: threads) \<Longrightarrow> hbrk s' = hbrk s \<Longrightarrow> same_vars s s'"
  by (cases s; cases s') (simp add: same_vars_def)

lemma destroy_same: "destroy_thread p s = Inr s' \<Longrightarrow> same_vars s s'"
proof (cases p)
  case (Some a)
  assume d: "destroy_thread p s = Inr s'"
  then obtain r s1 tab where r: "remove_tcb s (all_threads s) (Some a) = Inr (r, s1, tab)"
    by (auto simp: destroy_thread_def Some)
  have s1: "same_vars s s1" using remove_same [OF r] more_same by blast
  moreover have "same_vars s1 s'" using d r by (auto simp: destroy_thread_def Some Let_def same_vars_def split: if_splits)
  ultimately show ?thesis by (rule same_vars_trans)
qed (simp add: destroy_thread_def same_vars_refl)

definition call_frame :: "threads \<Rightarrow> threads \<Rightarrow> bool" where
  "call_frame s s' \<longleftrightarrow> dom (mutex_mem s') = dom (mutex_mem s) \<and> dom (cond_mem s') = dom (cond_mem s) \<and> hbrk s' \<le> hbrk s + 2"

lemma same_frame: "same_vars s s' \<Longrightarrow> call_frame s s'"
  by (simp add: same_vars_def call_frame_def)

lemma self_same: "ready s \<Longrightarrow> thread_self E s = Inr (x, s') \<Longrightarrow> s' = s"
  by (auto simp: thread_self_def ensure_init_def)

lemma create_frame: "ready s \<Longrightarrow> thread_create E w i s = Inr (r, s') \<Longrightarrow> call_frame s s'"
proof -
  assume a: "ready s" "thread_create E w i s = Inr (r, s')"
  obtain c0 mem where f: "first_frame E (e_stack E (hbrk s)) w i (e_junk E (hbrk s)) (words s) = (c0, mem)" by fastforce
  show ?thesis using a
    by (auto simp: thread_create_def ensure_init_def f alloc_tcb_def put_tcb_def push_ready_def free_handle_def Let_def call_frame_def
        split: option.splits if_splits)
qed

text \<open>The calls are chains of these steps: \<open>keeps z f r\<close>, the state \<open>f\<close> of the result has the variables of \<open>z\<close>.\<close>

definition keeps :: "threads \<Rightarrow> ('a \<Rightarrow> threads) \<Rightarrow> 'a res \<Rightarrow> bool" where
  "keeps z f r \<longleftrightarrow> (\<forall>y. r = Inr y \<longrightarrow> same_vars z (f y))"

lemma keepsD: "keeps z f r \<Longrightarrow> r = Inr y \<Longrightarrow> same_vars z (f y)"
  by (simp add: keeps_def)

lemma keeps_then:
  assumes "\<And>y. m = Inr y \<Longrightarrow> same_vars s (g y)" "same_vars z s" "\<And>y. same_vars z (g y) \<Longrightarrow> keeps z f (h y)"
  shows "keeps z f (bindR m h)"
  using assms by (cases m) (auto simp: keeps_def intro: same_vars_trans)

lemma keeps_step:
  "same_vars z s \<Longrightarrow> (\<And>y. same_vars z y \<Longrightarrow> keeps z f (h y)) \<Longrightarrow> keeps z f (bindR (set_status p st s) h)"
  "same_vars z s \<Longrightarrow> (\<And>y. same_vars z y \<Longrightarrow> keeps z f (h y)) \<Longrightarrow> keeps z f (bindR (set_observer p ob s) h)"
  "same_vars z s \<Longrightarrow> (\<And>y. same_vars z y \<Longrightarrow> keeps z f (h y)) \<Longrightarrow> keeps z f (bindR (push_ready a s) h)"
  "same_vars z s \<Longrightarrow> (\<And>y. same_vars z y \<Longrightarrow> keeps z f (h y)) \<Longrightarrow> keeps z f (bindR (push_mutex m a s) h)"
  "same_vars z s \<Longrightarrow> (\<And>y. same_vars z y \<Longrightarrow> keeps z f (h y)) \<Longrightarrow> keeps z f (bindR (set_mutex m l w s) h)"
  "same_vars z s \<Longrightarrow> (\<And>y. same_vars z y \<Longrightarrow> keeps z f (h y)) \<Longrightarrow> keeps z f (bindR (push_cond c a s) h)"
  "same_vars z s \<Longrightarrow> (\<And>y. same_vars z y \<Longrightarrow> keeps z f (h y)) \<Longrightarrow> keeps z f (bindR (destroy_thread p s) h)"
  by (rule keeps_then [where g = "\<lambda>y. y"]; blast intro: part_same destroy_same)+

lemma keeps_result:
  "same_vars z s \<Longrightarrow> (\<And>x y. same_vars z y \<Longrightarrow> keeps z f (h (x, y))) \<Longrightarrow> keeps z f (bindR (pop_mutex m s) h)"
  "same_vars z s \<Longrightarrow> (\<And>x y. same_vars z y \<Longrightarrow> keeps z f (h (x, y))) \<Longrightarrow> keeps z f (bindR (pop_cond c s) h)"
  by (rule keeps_then [where g = snd]; force dest: part_same)+

lemma keeps_ready:
  "same_vars z s \<Longrightarrow> ready z \<Longrightarrow> (\<And>y. same_vars z y \<Longrightarrow> keeps z f (h y)) \<Longrightarrow> keeps z f (bindR (thread_yield E s) h)"
  "same_vars z s \<Longrightarrow> ready z \<Longrightarrow> keeps z (\<lambda>y. y) (thread_yield E s)"
  "same_vars z s \<Longrightarrow> ready z \<Longrightarrow> (\<And>x. keeps z f (k (x, s))) \<Longrightarrow> keeps z f (bindR (thread_self E s) k)"
  "same_vars z s \<Longrightarrow> ready z \<Longrightarrow> keeps z f (h s) \<Longrightarrow> keeps z f (bindR (ensure_init E s) h)"
proof -
  assume z: "same_vars z s" "ready z"
  then have s: "ready s" by (simp add: same_vars_def)
  show "keeps z f (bindR (thread_yield E s) h)" if "\<And>y. same_vars z y \<Longrightarrow> keeps z f (h y)"
    by (rule keeps_then [where g = "\<lambda>y. y", OF yield_same [OF s] z(1) that])
  show "keeps z (\<lambda>y. y) (thread_yield E s)" using yield_same [OF s] z(1) same_vars_trans by (auto simp: keeps_def)
  show "keeps z f (bindR (thread_self E s) k)" if "\<And>x. keeps z f (k (x, s))"
    using that by (auto simp: keeps_def dest!: self_same [OF s])
  show "keeps z f (bindR (ensure_init E s) h)" if "keeps z f (h s)"
    using that s by (simp add: ensure_init_def)
qed

lemma keeps_read:
  "(\<And>y. keeps z f (h y)) \<Longrightarrow> keeps z f (bindR m h)"
  "same_vars z (f y) \<Longrightarrow> keeps z f (Inr y)" "keeps z f (Inl e)"
  "(b \<Longrightarrow> keeps z f r) \<Longrightarrow> (\<not> b \<Longrightarrow> keeps z f r') \<Longrightarrow> keeps z f (if b then r else r')"
  "keeps z f r0 \<Longrightarrow> (\<And>a. keeps z f (r1 a)) \<Longrightarrow> keeps z f (case p of None \<Rightarrow> r0 | Some a \<Rightarrow> r1 a)"
  "keeps z f (r2 x y) \<Longrightarrow> keeps z f (case (x, y) of (x, y) \<Rightarrow> r2 x y)"
  "keeps z f (r1 v) \<Longrightarrow> keeps z f (let v = v in r1 v)"
  by (auto simp: keeps_def split: option.split)

lemma keeps_case:
  "keeps z f (bindR r0 h) \<Longrightarrow> (\<And>a. keeps z f (bindR (r1 a) h)) \<Longrightarrow> keeps z f (bindR (case p of None \<Rightarrow> r0 | Some a \<Rightarrow> r1 a) h)"
  "keeps z f (h y) \<Longrightarrow> keeps z f (bindR (Inr y) h)"
  "keeps z f (bindR m (\<lambda>x. bindR (k x) h)) \<Longrightarrow> keeps z f (bindR (bindR m k) h)"
  by (auto simp: keeps_def split: option.splits)

lemma same_vars_done [simp]: "same_vars z (s\<lparr>next_to_destroy := p\<rparr>) = same_vars z s"
  by (simp add: same_vars_def)

lemmas keeps_rules = keeps_step keeps_result keeps_ready keeps_case keeps_read

lemma keeps_calls:
  "ready s \<Longrightarrow> keeps s snd (thread_join E i s)"
  "ready s \<Longrightarrow> keeps s snd (thread_mutex_lock E m s)"
  "ready s \<Longrightarrow> keeps s snd (thread_mutex_unlock E m s)"
  "keeps s snd (thread_cond_signal c s)"
  "ready s \<Longrightarrow> keeps s (\<lambda>y. y) (thread_terminate E s)"
  unfolding thread_join_def thread_mutex_lock_def thread_mutex_unlock_def thread_cond_signal_def thread_terminate_def
  by (rule keeps_rules | simp add: same_vars_refl split del: if_split)+

lemma wait_frame:
  assumes "ready s" "thread_cond_wait E c m s = Inr (r, s')"
  shows "call_frame s s'"
proof (cases "s' = s \<or> (\<exists>p. thread_mutex_unlock E p s = Inr (0, s'))")
  case True
  then show ?thesis using keepsD [OF keeps_calls(3) [OF assms(1)]] same_frame same_vars_refl by fastforce
next
  case False
  then obtain m' v r1 s1 s2 s3 where s1: "thread_mutex_unlock E (Some m') s = Inr (r1, s1)"
    and s2: "set_status (current_thread s1) WAITING s1 = Inr s2"
    and s3: "push_cond v (hbrk s2) (s2\<lparr>infos := (infos s2)(hbrk s2 \<mapsto> \<lparr>ci_thread = the (current_thread s2), ci_mutex = m'\<rparr>), hbrk := Suc (hbrk s2)\<rparr>) = Inr s3"
    and y: "thread_yield E s3 = Inr s'"
    using assms by (auto simp: thread_cond_wait_def Let_def split: option.splits if_splits)
  have 1: "same_vars s s1" using keepsD [OF keeps_calls(3) [OF assms(1)] s1] by simp
  have 2: "same_vars s1 s2" by (rule part_same(1) [OF s2])
  note 3 = part_same(8) [OF s3]
  have "ready s3" using 1 2 3 assms(1) by (simp add: same_vars_def)
  then have "same_vars s3 s'" using y by (rule yield_same)
  then show ?thesis using 1 2 3 by (simp add: same_vars_def call_frame_def)
qed

lemma init_frame:
  "ready s \<Longrightarrow> thread_mutex_init E m s = Inr (r, s') \<Longrightarrow> call_frame s s'"
  "ready s \<Longrightarrow> thread_cond_init E c s = Inr (r, s') \<Longrightarrow> call_frame s s'"
  by (auto simp: thread_mutex_init_def thread_cond_init_def ensure_init_def call_frame_def Let_def split: if_splits option.splits)

lemma exec_frame:
  assumes "ready s" "exec E c s = Inr (r, s')"
  shows "call_frame s s'"
proof (cases c)
  case Self
  then show ?thesis using assms by (auto simp: as_long_def call_frame_def dest!: self_same)
next
  case (Create w i)
  then show ?thesis using assms by (auto simp: as_long_def dest!: create_frame)
next
  case Yield
  then show ?thesis using assms by (auto simp: no_value_def intro: same_frame yield_same)
next
  case Terminate
  then show ?thesis using assms keepsD [OF keeps_calls(5)] by (auto simp: no_value_def intro: same_frame)
next
  case (Wait c m)
  then show ?thesis using assms wait_frame by simp
next
  case (MutexInit m)
  then show ?thesis using assms init_frame(1) by simp
next
  case (CondInit m)
  then show ?thesis using assms init_frame(2) by simp
qed (use assms keepsD [OF keeps_calls(1)] keepsD [OF keeps_calls(2)] keepsD [OF keeps_calls(3)] keepsD [OF keeps_calls(4)]
      in \<open>auto intro!: same_frame\<close>)

end
