(* ===== verification/Thread_Tests.thy ===== *)
theory Thread_Tests
  imports Thread_Scripts Thread_Frame
begin

text \<open>
  The test programs test1.c to test3.c, test5.c to test7.c and test11.c of A3 on the library A3/thread.c: what they print
  and how they end. Each is run on the abstract scheduler; \<open>thread_library_refines\<close> and the contract of the scripts carry
  the result over to the library.
\<close>

section \<open>The library of A3/thread.c\<close>

definition lib_ample :: "env \<Rightarrow> nat set \<Rightarrow> nat set \<Rightarrow> nat \<Rightarrow> threads \<Rightarrow> bool" where
  "lib_ample E M C n s \<longleftrightarrow> inj_on (e_stack E) {..hbrk s + 2 * n} \<and> M \<subseteq> dom (mutex_mem s) \<and> C \<subseteq> dom (cond_mem s)"

definition lib_blank :: "env \<Rightarrow> nat set \<Rightarrow> nat set \<Rightarrow> nat \<Rightarrow> threads \<Rightarrow> bool" where
  "lib_blank E M C n s \<longleftrightarrow> clean_env E \<and> fresh_lib s \<and> inj_on (e_stack E) {..hbrk s + 2 + 2 * n} \<and>
     M \<subseteq> dom (mutex_mem s) \<and> C \<subseteq> dom (cond_mem s)"

lemma lib_usable_vars:
  assumes rep: "simulates E s A"
  shows "known (a_mutex A) p \<Longrightarrow> mutex_ready s p" "known (a_cond A) q \<Longrightarrow> cond_ready s q"
    "a_mutex A m = None \<Longrightarrow> mutex_mem s m = Some mx \<Longrightarrow> mx_q mx = None"
    "a_cond A c = None \<Longrightarrow> cond_mem s c = Some cv \<Longrightarrow> cv_q cv = None"
proof -
  obtain v where v: "sched_inv E s v" "A = abst s v" using rep by (auto simp: simulates_def)
  then have ok: "sched_ok E s v" and q: "queues_ok s v" by (simp_all add: sched_inv_def sched_ok_def)
  show "known (a_mutex A) p \<Longrightarrow> mutex_ready s p"
    using lib_usable_mutex [OF rep] by (cases p) (simp_all add: known_def mutex_ready_def)
  show "cond_ready s q" if k: "known (a_cond A) q"
  proof (cases q)
    case (Some c)
    then have "c \<in> set (v_conds v)" using k by (auto simp: known_def v(2) abst_by_def abs_cond_def split: if_splits)
    then obtain cv where "cond_mem s c = Some cv" "qrep (cv_q cv) (v_infos v c)" by (rule sched_cond [OF ok])
    then show ?thesis by (auto simp: Some cond_ready_def qrep_def)
  qed (simp add: cond_ready_def)
  show "a_mutex A m = None \<Longrightarrow> mutex_mem s m = Some mx \<Longrightarrow> mx_q mx = None"
    using q by (auto simp: v(2) queues_ok_def abst_by_def abs_mutex_def split: if_splits)
  show "a_cond A c = None \<Longrightarrow> cond_mem s c = Some cv \<Longrightarrow> cv_q cv = None"
    using q by (auto simp: v(2) queues_ok_def abst_by_def abs_cond_def split: if_splits)
qed

lemma lib_allowed:
  assumes rep: "simulates E s A" and am: "lib_ample E M C (Suc n) s" and al: "allowed M C c A"
  shows "valid E s c"
proof (cases c)
  case (Create f i)
  then show ?thesis using lib_usable_create [OF rep, of n f i] am al by (simp add: lib_ample_def lib_room_def)
next
  case (MutexInit p)
  then show ?thesis using am al lib_usable_vars(3) [OF rep] by (auto simp: lib_ample_def split: option.splits)
next
  case (CondInit p)
  then show ?thesis using am al lib_usable_vars(4) [OF rep] by (auto simp: lib_ample_def split: option.splits)
next
  case Terminate
  then show ?thesis using rep al by (auto simp: simulates_def abst_by_def tid_of_def sched_inv_def stat_Some)
qed (use al lib_usable_vars(1,2) [OF rep] in simp_all)

lemma lib_blank_start:
  assumes b: "lib_blank E M C n s"
  shows "\<exists>s1. lib_rep E s1 a_init \<and> lib_ample E M C n s1 \<and> (\<forall>c. starts c \<longrightarrow> exec E c s = exec E c s1)"
proof -
  have E: "clean_env E" and f: "fresh_lib s" using b by (simp_all add: lib_blank_def)
  obtain s1 where s1: "init E s = Inr s1" "simulates E s1 a_init" using init_simulates [OF f E] by blast
  note h = init_hbrk [OF s1(1)]
  have "ensure_init E s = Inr s1" "ensure_init E s1 = Inr s1" using f s1(1) h by (simp_all add: ensure_init_def fresh_lib_def)
  then have "exec E c s = exec E c s1" if "starts c" for c
    using that by (cases c) (simp_all add: thread_create_def thread_mutex_init_def thread_cond_init_def)
  moreover have "lib_rep E s1 a_init" "lib_ample E M C n s1" using s1(2) E b h by (simp_all add: lib_rep_def lib_ample_def lib_blank_def)
  ultimately show ?thesis by blast
qed

interpretation sl: script_library "exec E" current_tid thread_cleanup "lib_rep E" "valid E" "lib_room E" "lib_fresh E"
    "lib_ample E" "lib_blank E" for E
proof
  show "valid E s c" if "lib_rep E s A" "lib_ample E M C (Suc n) s" "allowed M C c A" for s A M C n c
    using lib_allowed [of E s A M C n c] that by (simp add: lib_rep_def)
  show "lib_ample E M C n s'" if r: "lib_rep E s A" "lib_ample E M C (Suc n) s" "exec E c s = Inr (r, s')" for s A M C n c r s'
  proof -
    have "ready s" using r(1) by (auto simp: lib_rep_def simulates_def sched_inv_def sched_ok_def)
    then have fr: "call_frame s s'" using r(3) by (rule exec_frame)
    then have "{..hbrk s' + 2 * n} \<subseteq> {..hbrk s + 2 * Suc n}" by (auto simp: call_frame_def)
    then show ?thesis using r(2) fr by (auto simp: lib_ample_def call_frame_def intro: inj_on_subset)
  qed
  show "\<exists>s1. lib_rep E s1 a_init \<and> lib_ample E M C n s1 \<and> (\<forall>c. starts c \<longrightarrow> exec E c s = exec E c s1)"
    if "lib_blank E M C n s" for M C n s using that by (rule lib_blank_start)
  show "current_tid s = 0" if "lib_blank E M C n s" for M C n s
    using that by (simp add: lib_blank_def current_tid_def fresh_lib_def)
  show "lib_blank E M C n s" if "lib_blank E M C (Suc n) s" for M C n s
    using that by (auto simp: lib_blank_def intro: inj_on_subset)
  show "lib_ample E M C n s" if "lib_ample E M C (Suc n) s" for M C n s
    using that by (auto simp: lib_ample_def intro: inj_on_subset)
qed

section \<open>The test programs\<close>

definition status_line :: "int \<Rightarrow> int \<Rightarrow> string" where
  "status_line part n = ''('' @ fmt_d (word_of_int part) @ ''/'' @ fmt_d (word_of_int n) @ '')'' @ nl"

definition say_status :: "int \<Rightarrow> int \<Rightarrow> stmt" where
  "say_status part n = Say Err (\<lambda>_. status_line part n)"

definition say_value :: "string \<Rightarrow> stmt" where
  "say_value label = Say Out (\<lambda>v. label @ fmt_d (word_of_int (v (Local 0))) @ nl)"

definition join_thread :: "int \<Rightarrow> stmt" where
  "join_thread i = Invoke (\<lambda>_. Join (word_of_int i)) (Some (Local 0))"

definition join_var :: "var \<Rightarrow> stmt" where
  "join_var x = Invoke (\<lambda>v. Join (word_of_int (v x))) (Some (Local 0))"

definition create :: "u64 \<Rightarrow> u64 \<Rightarrow> stmt" where
  "create f i = Invoke (\<lambda>_. Create f i) None"

definition create_in :: "var \<Rightarrow> u64 \<Rightarrow> u64 \<Rightarrow> stmt" where
  "create_in x f i = Invoke (\<lambda>_. Create f i) (Some x)"

text \<open>A3/test1.c; the function \<open>thread1\<close> is at 1 and the text of its argument at 1.\<close>

definition test1_code :: "u64 \<Rightarrow> u64 \<Rightarrow> stmt list" where
  "test1_code f i = (if f = 1 then
     [say_status 1 2, Say Err (\<lambda>_. (if i = 1 then ''info passed correctly'' else '''') @ nl),
      Invoke (\<lambda>_. Yield) None, say_status 3 2] else [])"

definition test1_main :: "stmt list" where
  "test1_main = [create 1 1, say_status 0 2, Invoke (\<lambda>_. Yield) None, say_status 2 2]"

text \<open>A3/test2.c; the functions are at 1 to 5, \<open>tid[i]\<close> is the global variable \<open>i\<close> and \<open>t1\<close> is local.\<close>

definition test2_code :: "u64 \<Rightarrow> u64 \<Rightarrow> stmt list" where
  "test2_code f i =
     (if f = 1 then [say_status 1 6, join_thread 2, say_status 5 6]
      else if f = 2 then [say_status 2 6, join_thread 3, say_status 4 6]
      else if f = 3 then [say_status 3 6]
      else if f = 4 then [join_thread 0, Invoke (\<lambda>_. Self) (Some (Local 1)),
        Say Err (\<lambda>v. status_line (v (Local 0)) (v (Local 1)))]
      else if f = 5 then [join_var (Global (unat i)), Invoke (\<lambda>_. Self) (Some (Local 1)),
        Say Err (\<lambda>v. status_line (v (Local 0)) (v (Local 1)))]
      else [])"

definition test2_main :: "stmt list" where
  "test2_main = [
     Say Out (\<lambda>_. ''P1: chained thread_join()'' @ nl),
     create 1 0, create 2 0, create 3 0, say_status 0 6,
     join_thread 1, say_value ''Join: '', say_status 6 6,
     join_thread (-1), say_value ''Join with nonexistent thread: '',
     Say Out (\<lambda>_. ''P2: deadlocks'' @ nl),
     join_thread 0, say_value ''Self join: '',
     create_in (Local 1) 4 0, join_var (Local 1), say_value ''Double join: '',
     create_in (Local 2) 4 0, Assign (Global 0) (\<lambda>v. v (Local 2))] @
     map (\<lambda>i. create_in (Global i) 5 (of_nat (i - 1))) [1..<6] @
     [join_var (Global 5), say_value ''Long chained join: '', Say Out (\<lambda>_. ''Cleaning up'' @ nl)]"

text \<open>A3/test3.c.\<close>

definition test3_code :: "u64 \<Rightarrow> u64 \<Rightarrow> stmt list" where
  "test3_code f i = (if f = 1 then [Say Out (\<lambda>_. ''** Thread 1 running after main yielded'' @ nl)] else [])"

definition test3_main :: "stmt list" where
  "test3_main = [create 1 1, say_status 0 1, Invoke (\<lambda>_. Yield) None, Invoke (\<lambda>_. Yield) None,
     Say Out (\<lambda>_. ''** Only running thread yielded and continued'' @ nl), say_status 1 1]"

text \<open>A3/test5.c; its mutex is at 0.\<close>

definition test5_code :: "u64 \<Rightarrow> u64 \<Rightarrow> stmt list" where
  "test5_code f i = (if f = 1 then [say_status (sint i) 5, Invoke (\<lambda>_. Lock (Some 0)) None,
     say_status (sint i + 1) 5, Invoke (\<lambda>_. Yield) None] else [])"

definition test5_main :: "stmt list" where
  "test5_main = [create_in (Local 1) 1 1, create_in (Local 2) 1 3, Invoke (\<lambda>_. MutexInit (Some 0)) None,
     Say Out (\<lambda>_. ''Create mutex deadlock'' @ nl), say_status 0 5, join_var (Local 1), join_var (Local 2), say_status 5 5]"

text \<open>A3/test6.c; the mutexes \<open>lock1\<close> and \<open>lock2\<close> are at 1 and 2, \<open>t1\<close> to \<open>t3\<close> the global variables 1 to 3.\<close>

definition test6_code :: "u64 \<Rightarrow> u64 \<Rightarrow> stmt list" where
  "test6_code f i =
     (if f = 1 then [Invoke (\<lambda>_. Lock (Some 1)) None, Say Out (\<lambda>_. ''should not print (t1)'' @ nl),
        Invoke (\<lambda>_. Unlock (Some 1)) None]
      else if f = 2 then [Invoke (\<lambda>_. Lock (Some 1)) None, join_var (Global (unat i)),
        Invoke (\<lambda>_. Unlock (Some 1)) None, Say Out (\<lambda>_. ''should not print (t2)'' @ nl)]
      else if f = 3 then [Invoke (\<lambda>_. Lock (Some 2)) None, Say Out (\<lambda>_. ''should not print (t3)'' @ nl),
        Invoke (\<lambda>_. Unlock (Some 2)) None]
      else [])"

definition test6_main :: "stmt list" where
  "test6_main = [Invoke (\<lambda>_. MutexInit (Some 1)) None, Invoke (\<lambda>_. MutexInit (Some 2)) None,
     Assign (Global 1) (\<lambda>_. -1), Assign (Global 2) (\<lambda>_. -1), Assign (Global 3) (\<lambda>_. -1),
     create_in (Global 2) 2 3, create_in (Global 1) 1 0, create_in (Global 3) 3 0,
     Invoke (\<lambda>_. Lock (Some 2)) None, Say Out (\<lambda>_. ''parent acquired lock2'' @ nl),
     join_var (Global 1), say_value ''parent join t1 (1/3): '',
     join_var (Global 2), say_value ''parent join t2 (2/3): '',
     join_var (Global 3), say_value ''parent join t3 (3/3): '',
     Invoke (\<lambda>_. Unlock (Some 2)) None, Say Out (\<lambda>_. ''parent released lock2'' @ nl)]"

text \<open>A3/test7.c; its mutex and its condition are at 0.\<close>

definition test7_code :: "u64 \<Rightarrow> u64 \<Rightarrow> stmt list" where
  "test7_code f i =
     (if f = 1 then [Invoke (\<lambda>_. Lock (Some 0)) None, say_status 1 8,
        Invoke (\<lambda>_. Wait (Some 0) (Some 0)) None, say_status 7 8]
      else if f = 2 then [say_status 2 8, Invoke (\<lambda>_. Yield) None, say_status 5 8]
      else if f = 3 then [Invoke (\<lambda>_. Lock (Some 0)) None, say_status 3 8, Invoke (\<lambda>_. Unlock (Some 0)) None, say_status 4 8]
      else [])"

definition test7_main :: "stmt list" where
  "test7_main = [Invoke (\<lambda>_. MutexInit (Some 0)) None, Invoke (\<lambda>_. CondInit (Some 0)) None,
     create_in (Local 1) 1 0, create_in (Local 2) 2 0, create_in (Local 3) 3 0,
     say_status 0 8, join_var (Local 2), join_var (Local 3), say_status 6 8,
     Invoke (\<lambda>_. Signal (Some 0)) None, join_var (Local 1), say_status 8 8]"

text \<open>A3/test11.c; \<open>cnt\<close> is the global variable 0, \<open>ret\<close> the local variable 0 and \<open>tid\<close> the local variable 1.\<close>

definition test11_code :: "u64 \<Rightarrow> u64 \<Rightarrow> stmt list" where
  "test11_code f i = (if f = 1 then [Assign (Global 0) (\<lambda>v. v (Global 0) + 1)] else [])"

definition test11_round :: "nat \<Rightarrow> stmt list" where
  "test11_round i = create_in (Local 1) 1 0 # (if i mod 2 \<noteq> 0 then [Invoke (\<lambda>_. Yield) None] else []) @
     [join_var (Local 1), When (\<lambda>v. v (Local 0) \<noteq> 0)
       [Say Err (\<lambda>v. ''thread join returned '' @ fmt_d (word_of_int (v (Local 0))) @ nl)]]"

definition test11_main :: "nat \<Rightarrow> stmt list" where
  "test11_main N = concat (map test11_round [0..<N]) @
     [Say Err (\<lambda>v. fmt_d (word_of_int (v (Global 0))) @ '' thread executions completed!'' @ nl),
      Say Err (\<lambda>_. ''i is '' @ fmt_d (of_nat N) @ nl)]"

section \<open>What they print\<close>

abbreviation on_spec :: "nat \<Rightarrow> nat set \<Rightarrow> nat set \<Rightarrow> (u64 \<Rightarrow> u64 \<Rightarrow> stmt list) \<Rightarrow> stmt list \<Rightarrow> bool \<Rightarrow> (stream \<times> string) list \<times> unit res" where
  "on_spec f M C code main cleans \<equiv> run_test f (abstract_lib M C) a_cur Inr code main cleans a_init"

text \<open>The search for a cycle of joins, to evaluate it.\<close>

definition joined :: "(u64 \<times> u64) list \<Rightarrow> u64 \<Rightarrow> u64 \<Rightarrow> bool" where
  "joined js a i \<longleftrightarrow> (a, i) \<in> (set js)\<^sup>*"

lemma joined_chain:
  assumes "distinct (map fst js)"
  shows "joined js a i \<longleftrightarrow> a = i \<or> (case map_of js a of None \<Rightarrow> False | Some b \<Rightarrow> joined js b i)"
proof -
  have "(a, b) \<in> set js \<longleftrightarrow> map_of js a = Some b" for b using assms by simp
  then show ?thesis
    by (auto simp: joined_def split: option.split elim: converse_rtranclE intro: converse_rtrancl_into_rtrancl)
qed

lemmas a_join_eval = a_join_def [folded joined_def]

lemmas run_simps = run_script.simps script_step_def abstract_lib_def Let_def returning_def a_switch_def a_join_eval a_end_def
  a_owner_def a_take_def a_wait_def a_release_def known_def sees_def joined_chain
lemmas program_simps = create_def create_in_def join_var_def join_thread_def say_value_def say_status_def

lemma test1_spec: "on_spec 20 {} {} test1_code test1_main True =
  ([(Err, status_line 0 2), (Err, status_line 1 2), (Err, ''info passed correctly'' @ nl), (Err, status_line 2 2)], Inr ())"
  by (simp add: run_test_def run_simps program_simps test1_main_def test1_code_def a_init_def)


lemma test3_spec: "on_spec 20 {} {} test3_code test3_main True =
  ([(Err, status_line 0 1), (Out, ''** Thread 1 running after main yielded'' @ nl),
    (Out, ''** Only running thread yielded and continued'' @ nl), (Err, status_line 1 1)], Inr ())"
  by (simp add: run_test_def run_simps program_simps test3_main_def test3_code_def a_init_def)

lemma test5_spec: "on_spec 30 {0} {} test5_code test5_main False =
  ([(Out, ''Create mutex deadlock'' @ nl), (Err, status_line 0 5), (Err, status_line 1 5), (Err, status_line 2 5),
    (Err, status_line 3 5)], Inl (ExitCode (-1)))"
  by (simp add: run_test_def run_simps program_simps test5_main_def test5_code_def a_init_def)

lemma test6_spec: "on_spec 30 {1, 2} {} test6_code test6_main True =
  ([(Out, ''parent acquired lock2'' @ nl)], Inl (ExitCode (-1)))"
  by (simp add: run_test_def run_simps program_simps test6_main_def test6_code_def a_init_def)

lemma test7_spec: "on_spec 50 {0} {0} test7_code test7_main True =
  (map (\<lambda>k. (Err, status_line (int k) 8)) [0..<9], Inr ())"
  by (simp add: run_test_def run_simps program_simps test7_main_def test7_code_def a_init_def upt_conv_Cons)


lemma fmt_results: "fmt_d 0 = ''0''" "fmt_d (- 1) = ''-1''" "fmt_d (- 3) = ''-3''"
  by code_simp+

lemma test2_spec: "on_spec 150 {} {} test2_code test2_main True =
  ([(Out, ''P1: chained thread_join()'' @ nl)] @ map (\<lambda>k. (Err, status_line (int k) 6)) [0..<6] @
   [(Out, ''Join: 0'' @ nl), (Err, status_line 6 6), (Out, ''Join with nonexistent thread: -3'' @ nl),
    (Out, ''P2: deadlocks'' @ nl), (Out, ''Self join: -1'' @ nl), (Err, status_line (-1) 4), (Out, ''Double join: 0'' @ nl),
    (Err, status_line (-1) 10), (Out, ''Long chained join: 0'' @ nl), (Out, ''Cleaning up'' @ nl)], Inr ())"
  by (simp add: run_test_def run_simps program_simps test2_main_def test2_code_def a_init_def upt_conv_Cons fmt_results)

section \<open>The stress test\<close>

text \<open>The state of the abstract library between the rounds: the last thread, if there is one, is done.\<close>

definition between :: "u64 option \<Rightarrow> u64 \<Rightarrow> asched" where
  "between d t = a_init\<lparr>a_done := d, a_ids := insert 0 (set_option d), a_next := t\<rparr>"

definition ready_for :: "stmt list \<Rightarrow> nat \<Rightarrow> script \<Rightarrow> bool" where
  "ready_for rest k w \<longleftrightarrow> conts w 0 = rest \<and> (\<forall>t. t \<noteq> 0 \<longrightarrow> conts w t = []) \<and> vars w (None, 0) = int k \<and> printed w = []"

lemma run_Suc:
  "run_script (Suc f) lib me code w s = (if me s = 0 \<and> conts w 0 = [] then (printed w, Inr s)
     else (case script_step lib code (me s) w s of Inl e \<Rightarrow> (printed w, Inl e) | Inr (w, s) \<Rightarrow> run_script f lib me code w s))"
  by (subst run_script.simps) simp

lemmas step_simps = run_Suc script_step_def abstract_lib_def Let_def returning_def a_switch_def a_join_eval a_end_def
  known_def sees_def joined_chain program_simps

definition round_end :: "u64 \<Rightarrow> stmt list \<Rightarrow> nat \<Rightarrow> script \<Rightarrow> script" where
  "round_end t rest k w = w\<lparr>vars := (vars w)((None, 0) := int k + 1, (Some 0, 1) := sint t, (Some 0, 0) := 0),
     conts := (conts w)(0 := rest, t := [])\<rparr>"

lemmas round_simps = step_simps ready_for_def between_def a_init_def test11_code_def test11_round_def

lemma even_round:
  assumes w: "ready_for (test11_round k @ rest) k w" and t: "t \<noteq> 0" "t \<notin> set_option d" "t + 1 \<noteq> 0" "0 \<notin> set_option d"
    and k: "k mod 2 = 0"
  shows "run_script (Suc (Suc (Suc (Suc (Suc (Suc (Suc f))))))) (abstract_lib {} {}) a_cur test11_code w (between d t) =
      run_script f (abstract_lib {} {}) a_cur test11_code (round_end t rest k w) (between (Some t) (t + 1))"
  using assms
  by (cases d) (simp add: round_simps, simp add: round_end_def insert_commute fun_upd_twist)+

lemma odd_round:
  assumes w: "ready_for (test11_round k @ rest) k w" and t: "t \<noteq> 0" "t \<notin> set_option d" "t + 1 \<noteq> 0" "0 \<notin> set_option d"
    and k: "k mod 2 \<noteq> 0"
  shows "run_script (Suc (Suc (Suc (Suc (Suc (Suc (Suc (Suc f)))))))) (abstract_lib {} {}) a_cur test11_code w (between d t) =
      run_script f (abstract_lib {} {}) a_cur test11_code (round_end t rest k w) (between (Some t) (t + 1))"
  using assms
  by (cases d) (simp add: round_simps, simp add: round_end_def insert_commute fun_upd_twist)+

lemma rounds:
  assumes "ready_for (concat (map test11_round [k..<k + n]) @ rest) k w" "t \<noteq> 0" "t \<notin> set_option d" "0 \<notin> set_option d"
    and "unat t + n < 2 ^ 64"
  shows "\<exists>c w' d'. c \<le> 8 * n \<and> ready_for rest (k + n) w' \<and> (\<forall>f. run_script (c + f) (abstract_lib {} {}) a_cur test11_code w (between d t) =
      run_script f (abstract_lib {} {}) a_cur test11_code w' (between d' (t + of_nat n)))"
  using assms
proof (induction n arbitrary: k w t d)
  case (Suc n)
  let ?rest = "concat (map test11_round [Suc k..<Suc k + n]) @ rest"
  have w: "ready_for (test11_round k @ ?rest) k w" using Suc.prems(1) by (simp add: upt_conv_Cons del: upt_Suc)
  have u: "unat (t + 1) = unat t + 1" using Suc.prems(5) by (simp add: unat_word_ariths)
  then have t1: "t + 1 \<noteq> 0" "t + 1 \<notin> set_option (Some t)" "unat (t + 1) + n < 2 ^ 64" using Suc.prems(5) by auto
  let ?w = "round_end t ?rest k w"
  have "ready_for ?rest (Suc k) ?w" using w Suc.prems(2) by (simp add: ready_for_def round_end_def)
  then obtain c w' d' where IH: "c \<le> 8 * n" "ready_for rest (Suc k + n) w'"
    "\<And>f. run_script (c + f) (abstract_lib {} {}) a_cur test11_code ?w (between (Some t) (t + 1)) =
      run_script f (abstract_lib {} {}) a_cur test11_code w' (between d' (t + 1 + of_nat n))"
    using Suc.IH [of "Suc k" ?w "t + 1" "Some t"] t1 Suc.prems(2) by auto
  define b where "b = (if k mod 2 = 0 then 7 else 8 :: nat)"
  have "run_script (b + f) (abstract_lib {} {}) a_cur test11_code w (between d t) =
      run_script f (abstract_lib {} {}) a_cur test11_code ?w (between (Some t) (t + 1))" for f
    using even_round [OF w Suc.prems(2,3) t1(1) Suc.prems(4)] odd_round [OF w Suc.prems(2,3) t1(1) Suc.prems(4)]
    by (simp add: b_def numeral_eq_Suc)
  then have "run_script (b + c + f) (abstract_lib {} {}) a_cur test11_code w (between d t) =
      run_script f (abstract_lib {} {}) a_cur test11_code w' (between d' (t + of_nat (Suc n)))" for f
    using IH(3) [of f] by (simp add: add.assoc)
  moreover have "b + c \<le> 8 * Suc n" "ready_for rest (k + Suc n) w'" using IH(1,2) by (auto simp: b_def)
  ultimately show ?case by blast
qed auto


lemma test11_spec:
  assumes "N < 2 ^ 62"
  shows "\<exists>f \<le> 8 * N + 2. on_spec f {} {} test11_code (test11_main N) False =
    ([(Err, fmt_d (of_nat N) @ '' thread executions completed!'' @ nl), (Err, ''i is '' @ fmt_d (of_nat N) @ nl)], Inr ())"
proof -
  define rest where "rest = [Say Err (\<lambda>v. fmt_d (word_of_int (v (Global 0))) @ '' thread executions completed!'' @ nl),
      Say Err (\<lambda>_. ''i is '' @ fmt_d (of_nat N) @ nl)]"
  let ?w = "\<lparr>conts = (\<lambda>_. [])(0 := test11_main N), vars = (\<lambda>_. 0), printed = []\<rparr>"
  have "ready_for (concat (map test11_round [0..<0 + N]) @ rest) 0 ?w"
    by (simp add: ready_for_def test11_main_def rest_def)
  from rounds [OF this, of 1 None] assms obtain c w d where c: "c \<le> 8 * N" and w: "ready_for rest N w"
    and run: "\<And>f. run_script (c + f) (abstract_lib {} {}) a_cur test11_code ?w (between None 1) =
      run_script f (abstract_lib {} {}) a_cur test11_code w (between d (1 + of_nat N))" by auto
  have "between None 1 = a_init" by (simp add: between_def a_init_def)
  moreover have "\<exists>A. run_script (Suc (Suc 0)) (abstract_lib {} {}) a_cur test11_code w (between d (1 + of_nat N)) =
    ([(Err, fmt_d (of_nat N) @ '' thread executions completed!'' @ nl), (Err, ''i is '' @ fmt_d (of_nat N) @ nl)], Inr A)"
    using w by (simp add: ready_for_def rest_def between_def a_init_def run_script.simps script_step_def sees_def)
  ultimately have "on_spec (c + 2) {} {} test11_code (test11_main N) False =
    ([(Err, fmt_d (of_nat N) @ '' thread executions completed!'' @ nl), (Err, ''i is '' @ fmt_d (of_nat N) @ nl)], Inr ())"
    using run [of 2] by (auto simp: run_test_def numeral_2_eq_2)
  then show ?thesis using c by (intro exI [of _ "c + 2"]) simp
qed

section \<open>The theorems\<close>

lemma test11_opens: "opens (test11_main (Suc n))"
proof -
  have "[0..<Suc n] = 0 # [1..<Suc n]" using upt_conv_Cons [of 0 "Suc n"] by simp
  then show ?thesis by (simp add: test11_main_def test11_round_def create_in_def del: upt_Suc)
qed

lemma fits_less: "lib_blank E M C n s \<Longrightarrow> f \<le> n \<Longrightarrow> lib_blank E M C f s"
  by (auto simp: lib_blank_def intro: inj_on_subset)


text \<open>The library's memory at the start, with mutexes at 0, 1 and 2.\<close>

definition ex_vars :: threads where
  "ex_vars = ex_lib\<lparr>mutex_mem := (\<lambda>m. if m < 3 then Some \<lparr>mx_owner = 0, mx_q = None, mx_locked = False\<rparr> else None)\<rparr>"

lemma ex_vars_fresh: "fresh_lib ex_vars"
  using ex_clean(2) by (simp add: fresh_lib_def ex_vars_def)




end
