(* ===== verification/Context_Switch.thy ===== *)
theory Context_Switch
  imports Thread_Props
begin

text \<open>
  The switch of registers in A3/thread_asm.s, instruction by instruction, and the first frame that
  \<open>thread_create\<close> prepares for it: a thread that is switched away from continues where it was, with its
  registers, when it is switched to; a new thread enters its work function with its argument, above
  the address of \<open>thread_terminate\<close>.
\<close>

section \<open>The machine\<close>

datatype gpr = RBX | RBP | RSP | R12 | R13 | R14 | R15 | RDI | RSI

text \<open>Registers, the program counter, the words of the stacks and the control blocks at their addresses.\<close>

record x86 =
  gpr :: "gpr \<Rightarrow> u64"
  rip :: u64
  stack_words :: "u64 \<Rightarrow> u64"
  blocks :: "u64 \<Rightarrow> tcb option"

text \<open>The fields of a control block at their offsets.\<close>

fun load_field :: "nat \<Rightarrow> tcb \<Rightarrow> u64 res" where
  "load_field off c =
     (if off = 0 then Inr (tcb_rbx c) else if off = 8 then Inr (tcb_r12 c)
      else if off = 16 then Inr (tcb_r13 c) else if off = 24 then Inr (tcb_r14 c)
      else if off = 32 then Inr (tcb_r15 c) else if off = 40 then Inr (tcb_rbp c)
      else if off = 48 then Inr (tcb_rsp c) else if off = 56 then Inr (tcb_rip c)
      else if off = 64 then Inr (tcb_rdi c) else if off = 72 then Inr (tcb_rsi c)
      else Inl OutOfBounds)"

fun store_field :: "nat \<Rightarrow> u64 \<Rightarrow> tcb \<Rightarrow> tcb res" where
  "store_field off v c =
     (if off = 0 then Inr (c\<lparr>tcb_rbx := v\<rparr>) else if off = 8 then Inr (c\<lparr>tcb_r12 := v\<rparr>)
      else if off = 16 then Inr (c\<lparr>tcb_r13 := v\<rparr>) else if off = 24 then Inr (c\<lparr>tcb_r14 := v\<rparr>)
      else if off = 32 then Inr (c\<lparr>tcb_r15 := v\<rparr>) else if off = 40 then Inr (c\<lparr>tcb_rbp := v\<rparr>)
      else if off = 48 then Inr (c\<lparr>tcb_rsp := v\<rparr>) else if off = 56 then Inr (c\<lparr>tcb_rip := v\<rparr>)
      else if off = 64 then Inr (c\<lparr>tcb_rdi := v\<rparr>) else if off = 72 then Inr (c\<lparr>tcb_rsi := v\<rparr>)
      else Inl OutOfBounds)"

text \<open>The instructions of the file, source first: \<open>Store r off b\<close> is \<open>mov r, off(b)\<close>.\<close>

datatype x86_ins = Push gpr | Pop gpr | Mov gpr gpr | Store gpr nat gpr | Load nat gpr gpr | Ret

definition set_gpr :: "gpr \<Rightarrow> u64 \<Rightarrow> x86 \<Rightarrow> x86" where
  "set_gpr r v s = s\<lparr>gpr := (gpr s)(r := v)\<rparr>"

definition block_at :: "u64 \<Rightarrow> x86 \<Rightarrow> tcb res" where
  "block_at a s = (case blocks s a of None \<Rightarrow> Inl WildPointer | Some c \<Rightarrow> Inr c)"

fun x86_step :: "x86_ins \<Rightarrow> x86 \<Rightarrow> x86 res" where
  "x86_step (Push r) s =
     (let sp = gpr s RSP - 8
      in Inr (set_gpr RSP sp (s\<lparr>stack_words := (stack_words s)(sp := gpr s r)\<rparr>)))"
| "x86_step (Pop r) s = (let sp = gpr s RSP in Inr (set_gpr r (stack_words s sp) (set_gpr RSP (sp + 8) s)))"
| "x86_step (Mov src dst) s = Inr (set_gpr dst (gpr s src) s)"
| "x86_step (Store r off b) s =
     bindR (block_at (gpr s b) s) (\<lambda>c. bindR (store_field off (gpr s r) c) (\<lambda>c.
     Inr (s\<lparr>blocks := (blocks s)(gpr s b \<mapsto> c)\<rparr>)))"
| "x86_step (Load off b r) s =
     bindR (block_at (gpr s b) s) (\<lambda>c. bindR (load_field off c) (\<lambda>v. Inr (set_gpr r v s)))"
| "x86_step Ret s = (let sp = gpr s RSP in Inr ((set_gpr RSP (sp + 8) s)\<lparr>rip := stack_words s sp\<rparr>))"

fun x86_run :: "x86_ins list \<Rightarrow> x86 \<Rightarrow> x86 res" where
  "x86_run [] s = Inr s"
| "x86_run (i # is) s = bindR (x86_step i s) (x86_run is)"

section \<open>The switch\<close>

definition asm_yield :: "x86_ins list" where
  "asm_yield =
    [Push RBP, Mov RSP RBP,
     Store RBX 0 RDI, Store R12 8 RDI, Store R13 16 RDI, Store R14 24 RDI, Store R15 32 RDI,
     Store RBP 40 RDI, Store RSP 48 RDI, Store RDI 64 RDI, Store RSI 72 RDI,
     Load 0 RSI RBX, Load 8 RSI R12, Load 16 RSI R13, Load 24 RSI R14, Load 32 RSI R15,
     Load 40 RSI RBP, Load 48 RSI RSP, Load 64 RSI RDI, Load 72 RSI RSI,
     Mov RBP RSP, Pop RBP, Ret]"

text \<open>What the switch stores in the control block it leaves.\<close>

definition saved :: "x86 \<Rightarrow> tcb \<Rightarrow> tcb" where
  "saved s c = c\<lparr>tcb_rbx := gpr s RBX, tcb_r12 := gpr s R12, tcb_r13 := gpr s R13, tcb_r14 := gpr s R14,
     tcb_r15 := gpr s R15, tcb_rbp := gpr s RSP - 8, tcb_rsp := gpr s RSP - 8, tcb_rdi := gpr s RDI, tcb_rsi := gpr s RSI\<rparr>"

lemma asm_yield_run:
  assumes "gpr s RDI \<noteq> gpr s RSI" "blocks s (gpr s RDI) = Some f" "blocks s (gpr s RSI) = Some t"
  shows "\<exists>s'. x86_run asm_yield s = Inr s' \<and>
    stack_words s' = (stack_words s)(gpr s RSP - 8 := gpr s RBP) \<and>
    blocks s' = (blocks s)(gpr s RDI \<mapsto> saved s f) \<and>
    gpr s' RBX = tcb_rbx t \<and> gpr s' R12 = tcb_r12 t \<and> gpr s' R13 = tcb_r13 t \<and> gpr s' R14 = tcb_r14 t \<and>
    gpr s' R15 = tcb_r15 t \<and> gpr s' RDI = tcb_rdi t \<and> gpr s' RSI = tcb_rsi t \<and> gpr s' RSP = tcb_rbp t + 16 \<and>
    gpr s' RBP = stack_words s' (tcb_rbp t) \<and> rip s' = stack_words s' (tcb_rbp t + 8)"
  using assms by (simp add: asm_yield_def block_at_def set_gpr_def saved_def Let_def)

section \<open>A thread goes on where it was\<close>

text \<open>C34: A thread that calls \<open>asm_yield\<close> with its control block \<open>A\<close> and is switched to later, by whatever
  thread, returns from that call with the registers that a callee has to keep and its stack pointer
  unchanged, if its control block and the two words on top of its stack have been left alone in
  between; the switch writes nothing but one word of the other stack and the other block.
\<close>

theorem context_switch_roundtrip:
  assumes first: "x86_run asm_yield s = Inr s'" "gpr s RDI = A" "gpr s RSI \<noteq> A"
      "blocks s A \<noteq> None" "blocks s (gpr s RSI) \<noteq> None"
    and ret: "gpr u RSI = A" "gpr u RDI \<noteq> A" "blocks u (gpr u RDI) \<noteq> None" "gpr u RSP \<noteq> gpr s RSP" "gpr u RSP - 8 \<noteq> gpr s RSP"
    and kept: "blocks u A = blocks s' A" "stack_words u (gpr s RSP) = stack_words s' (gpr s RSP)"
      "stack_words u (gpr s RSP - 8) = stack_words s' (gpr s RSP - 8)"
  shows "\<exists>u'. x86_run asm_yield u = Inr u' \<and> rip u' = stack_words s (gpr s RSP) \<and> gpr u' RSP = gpr s RSP + 8 \<and>
    list_all (\<lambda>r. gpr u' r = gpr s r) [RBX, RBP, R12, R13, R14, R15, RDI, RSI] \<and>
    (\<forall>a. a \<noteq> gpr u RSP - 8 \<longrightarrow> stack_words u' a = stack_words u a) \<and>
    (\<forall>a. a \<noteq> gpr u RDI \<longrightarrow> blocks u' a = blocks u a)"
proof -
  obtain f t c where b: "blocks s A = Some f" "blocks s (gpr s RSI) = Some t" "blocks u (gpr u RDI) = Some c"
    using first(4,5) ret(3) by blast
  have s': "stack_words s' = (stack_words s)(gpr s RSP - 8 := gpr s RBP)" "blocks s' A = Some (saved s f)"
    using asm_yield_run [of s f t] first b by auto
  have "blocks u (gpr u RSI) = Some (saved s f)" using kept(1) s'(2) ret(1) by simp
  from asm_yield_run [OF _ b(3) this] obtain u' where u': "x86_run asm_yield u = Inr u'"
    "stack_words u' = (stack_words u)(gpr u RSP - 8 := gpr u RBP)"
    "blocks u' = (blocks u)(gpr u RDI \<mapsto> saved u c)"
    "gpr u' RSP = tcb_rbp (saved s f) + 16" "gpr u' RBP = stack_words u' (tcb_rbp (saved s f))"
    "rip u' = stack_words u' (tcb_rbp (saved s f) + 8)"
    "gpr u' RBX = tcb_rbx (saved s f)" "gpr u' R12 = tcb_r12 (saved s f)" "gpr u' R13 = tcb_r13 (saved s f)"
    "gpr u' R14 = tcb_r14 (saved s f)" "gpr u' R15 = tcb_r15 (saved s f)" "gpr u' RDI = tcb_rdi (saved s f)"
    "gpr u' RSI = tcb_rsi (saved s f)"
    using ret(1,2) by auto
  have "stack_words u' (gpr s RSP) = stack_words s (gpr s RSP)" "stack_words u' (gpr s RSP - 8) = gpr s RBP"
    using ret(4,5) kept(2,3) s'(1) by (simp_all add: u'(2))
  then show ?thesis using u' by (intro exI [of _ u']) (simp add: saved_def)
qed

section \<open>A new thread\<close>

definition tcb_regs :: "tcb \<Rightarrow> u64 list" where
  "tcb_regs c = [tcb_rbx c, tcb_r12 c, tcb_r13 c, tcb_r14 c, tcb_r15 c, tcb_rbp c, tcb_rsp c, tcb_rdi c, tcb_rsi c]"

lemma put_tcb_regs:
  assumes "put_tcb True m tab (Some a) = Inr (r, m', tab')" "tcbs (m :: threads) a = Some c"
  shows "\<exists>c'. tcbs m' a = Some c' \<and> tcb_regs c' = tcb_regs c \<and> words m' = words m"
  using assms by (auto simp: put_tcb_def get_cell_def Let_def free_handle_def tcb_regs_def split: option.splits if_splits)

lemma thread_create_regs:
  assumes "ready s" "thread_create E work info s = Inr (tid, s1)"
  shows "\<exists>c. tcbs s1 (hbrk s) = Some c \<and> words s1 = snd (first_frame E (e_stack E (hbrk s)) work info (e_junk E (hbrk s)) (words s)) \<and>
     tcb_regs c = tcb_regs (fst (first_frame E (e_stack E (hbrk s)) work info (e_junk E (hbrk s)) (words s)))"
proof -
  obtain c0 mem where f: "first_frame E (e_stack E (hbrk s)) work info (e_junk E (hbrk s)) (words s) = (c0, mem)" by fastforce
  obtain m where m: "alloc_tcb s c0 = (hbrk s, m)" "tcbs m (hbrk s) = Some c0" by (simp add: alloc_tcb_def)
  let ?m = "m\<lparr>stacks := insert (e_stack E (hbrk s)) (stacks m), words := mem\<rparr>"
  obtain r m' tab' where p: "put_tcb True ?m (all_threads ?m) (Some (hbrk s)) = Inr (r, m', tab')"
    and rest: "tcbs s1 = tcbs m'" "words s1 = words m'"
    using assms by (auto simp: thread_create_def ensure_init_def f m push_ready_def need_def split: option.splits)
  have "tcbs ?m (hbrk s) = Some c0" using m(2) by simp
  from put_tcb_regs [OF p this] show ?thesis by (auto simp: f rest)
qed

text \<open>C35: A thread that \<open>thread_create\<close> has made enters, at the first switch to it, its work function with
  the argument in \<open>rdi\<close> and the callee's registers zero, the stack pointer just under the top of its
  stack, as the calling convention has it when the stack is aligned; and when the function returns
  with that stack pointer, \<open>thread_terminate\<close> begins, with the stack pointer at the very top of the
  stack.
\<close>

theorem new_thread_starts:
  assumes "ready s" "thread_create E work info s = Inr (tid, s1)"
    and x: "blocks x (gpr x RSI) = tcbs s1 (hbrk s)" "blocks x (gpr x RDI) \<noteq> None" "gpr x RDI \<noteq> gpr x RSI"
    and top: "T = e_stack E (hbrk s) + STACK_SIZE" "gpr x RSP \<noteq> T" "gpr x RSP \<noteq> T - 8"
    and stk: "stack_words x (T - 8) = words s1 (T - 8)" "stack_words x (T - 16) = words s1 (T - 16)"
  shows "\<exists>x'. x86_run asm_yield x = Inr x' \<and> rip x' = work \<and> gpr x' RDI = info \<and> gpr x' RSP = T - 8 \<and>
    list_all (\<lambda>r. gpr x' r = 0) [RBX, R12, R13, R14, R15, RSI] \<and>
    (\<forall>y. gpr y RSP = T - 8 \<longrightarrow> stack_words y (T - 8) = stack_words x' (T - 8) \<longrightarrow>
       (\<exists>y'. x86_run [Ret] y = Inr y' \<and> rip y' = e_terminate E \<and> gpr y' RSP = T))"
proof -
  define F where "F = first_frame E (e_stack E (hbrk s)) work info (e_junk E (hbrk s)) (words s)"
  obtain c where c: "tcbs s1 (hbrk s) = Some c" "words s1 = snd F" "tcb_regs c = tcb_regs (fst F)"
    using thread_create_regs [OF assms(1,2)] unfolding F_def by blast
  have w: "snd F (T - 8) = e_terminate E" "snd F (T - 16) = work"
    by (simp_all add: F_def first_frame_def Let_def top(1))
  have r: "tcb_rbx c = 0" "tcb_r12 c = 0" "tcb_r13 c = 0" "tcb_r14 c = 0" "tcb_r15 c = 0"
    "tcb_rbp c = T - 24" "tcb_rdi c = info" "tcb_rsi c = 0"
    using c(3) by (simp_all add: F_def first_frame_def Let_def top(1) tcb_regs_def)
  obtain f where f: "blocks x (gpr x RDI) = Some f" using x(2) by blast
  from asm_yield_run [OF x(3) f x(1) [unfolded c(1)]] obtain x' where x': "x86_run asm_yield x = Inr x'"
    "stack_words x' = (stack_words x)(gpr x RSP - 8 := gpr x RBP)" "gpr x' RBX = 0" "gpr x' R12 = 0" "gpr x' R13 = 0" "gpr x' R14 = 0"
    "gpr x' R15 = 0" "gpr x' RDI = info" "gpr x' RSI = 0" "gpr x' RSP = T - 24 + 16" "rip x' = stack_words x' (T - 24 + 8)"
    using r by auto
  have e: "T - 24 + 16 = T - 8" "T - 24 + 8 = T - 16" by simp_all
  have k: "stack_words x' (T - 8) = e_terminate E" "stack_words x' (T - 16) = work"
    using top(2,3) stk c(2) w by (auto simp: x'(2))
  have "\<exists>y'. x86_run [Ret] y = Inr y' \<and> rip y' = e_terminate E \<and> gpr y' RSP = T"
    if "gpr y RSP = T - 8" "stack_words y (T - 8) = stack_words x' (T - 8)" for y
    using that k by (simp add: set_gpr_def Let_def)
  then show ?thesis using x' k e by (intro exI [of _ x']) simp
qed

section \<open>Witnesses\<close>

definition ex_x86 :: "tcb \<Rightarrow> x86" where
  "ex_x86 t = \<lparr>gpr = (\<lambda>r. case r of RDI \<Rightarrow> 0x1000 | RSI \<Rightarrow> 0x2000 | RSP \<Rightarrow> 0x8000 | RBX \<Rightarrow> 7 | _ \<Rightarrow> 1), rip = 0,
     stack_words = (\<lambda>a. a + 1), blocks = [0x1000 \<mapsto> clean_tcb, 0x2000 \<mapsto> t]\<rparr>"

text \<open>Two threads switch to each other: the first is back at its return address.\<close>

theorem context_switch_roundtrip_witness:
  "\<exists>s' u'. x86_run asm_yield (ex_x86 clean_tcb) = Inr s' \<and>
    x86_run asm_yield (set_gpr RSP 0x9000 (set_gpr RDI 0x2000 (set_gpr RSI 0x1000 s'))) = Inr u' \<and>
    rip u' = 0x8001 \<and> gpr u' RBX = 7 \<and> gpr u' RSP = 0x8008"
proof -
  let ?s = "ex_x86 clean_tcb"
  have b: "gpr ?s RDI = 0x1000" "gpr ?s RSI \<noteq> 0x1000" "blocks ?s 0x1000 \<noteq> None" "blocks ?s (gpr ?s RSI) \<noteq> None"
    by (simp_all add: ex_x86_def)
  obtain s' where s': "x86_run asm_yield ?s = Inr s'" "blocks s' = (blocks ?s)(gpr ?s RDI \<mapsto> saved ?s clean_tcb)"
    using asm_yield_run [of ?s clean_tcb clean_tcb] by (auto simp: ex_x86_def)
  let ?u = "set_gpr RSP 0x9000 (set_gpr RDI 0x2000 (set_gpr RSI 0x1000 s'))"
  have "gpr ?u RSI = 0x1000" "gpr ?u RDI \<noteq> 0x1000" "blocks ?u (gpr ?u RDI) \<noteq> None" "gpr ?u RSP \<noteq> gpr ?s RSP"
    "gpr ?u RSP - 8 \<noteq> gpr ?s RSP" "blocks ?u 0x1000 = blocks s' 0x1000"
    "stack_words ?u (gpr ?s RSP) = stack_words s' (gpr ?s RSP)" "stack_words ?u (gpr ?s RSP - 8) = stack_words s' (gpr ?s RSP - 8)"
    using s'(2) by (simp_all add: set_gpr_def ex_x86_def)
  from context_switch_roundtrip [OF s'(1) b this] s'(1) show ?thesis by (auto simp: ex_x86_def)
qed

text \<open>The first thread of a program, with 5 as its argument.\<close>

theorem new_thread_starts_witness:
  "\<exists>s tid s1 c x'. init ex_env ex_lib = Inr s \<and> thread_create ex_env 0x400000 5 s = Inr (tid, s1) \<and>
    tcbs s1 (hbrk s) = Some c \<and> x86_run asm_yield ((ex_x86 c)\<lparr>stack_words := words s1\<rparr>) = Inr x' \<and>
    rip x' = 0x400000 \<and> gpr x' RDI = 5"
proof -
  have "\<exists>s tid s1 c. init ex_env ex_lib = Inr s \<and> thread_create ex_env 0x400000 5 s = Inr (tid, s1) \<and> tcbs s1 (hbrk s) = Some c \<and>
      ready s \<and> hbrk s = 2"
    by (simp add: eval_defs)
  then obtain s tid s1 c where s: "init ex_env ex_lib = Inr s" "thread_create ex_env 0x400000 5 s = Inr (tid, s1)"
    "tcbs s1 (hbrk s) = Some c" "ready s" "hbrk s = 2" by blast
  let ?x = "(ex_x86 c)\<lparr>stack_words := words s1\<rparr>" and ?T = "e_stack ex_env (hbrk s) + STACK_SIZE"
  have x: "blocks ?x (gpr ?x RSI) = tcbs s1 (hbrk s)" "blocks ?x (gpr ?x RDI) \<noteq> None" "gpr ?x RDI \<noteq> gpr ?x RSI"
    "gpr ?x RSP \<noteq> ?T" "gpr ?x RSP \<noteq> ?T - 8"
    "stack_words ?x (?T - 8) = words s1 (?T - 8)" "stack_words ?x (?T - 16) = words s1 (?T - 16)"
    using s(3,5) by (simp_all add: ex_x86_def ex_env_def STACK_SIZE_def)
  from new_thread_starts [OF s(4,2) x(1-3) refl x(4-7)] s show ?thesis by blast
qed

end
