(* ===== verification/Alloc.thy ===== *)
theory Alloc
  imports Elf
begin

text \<open>
  The conservative mark-and-sweep allocator A4/alloc.c on the bytes of the process.  The allocator
  reads globals, stack and heap as 64-bit words at any address inside those ranges; reading there
  does not fault, a null block pointer does.  The static variables are fields of the state; their
  own place in the data segment is whatever the memory holds there.  What the linker and the C
  library decide is in the environment: the data segment, the address of the variable \<open>heap\<close>, what
  \<open>calloc\<close> returns, and what a finalizer does.  Loops over the list of blocks have as fuel the number
  of words of the heap, of which every block takes three; the loops of the heap scan, which need not
  end, have a fuel of their own.
\<close>

section \<open>Memory\<close>

type_synonym memory = "u64 \<Rightarrow> u8"

definition rd64 :: "memory \<Rightarrow> u64 \<Rightarrow> u64" where
  "rd64 m a = le_val (map (\<lambda>i. m (a + of_nat i)) [0..<8])"

definition wr64 :: "memory \<Rightarrow> u64 \<Rightarrow> u64 \<Rightarrow> memory" where
  "wr64 m a w = (\<lambda>x. if unat (x - a) < 8 then le_bytes 8 w ! unat (x - a) else m x)"

section \<open>State\<close>

record gc =
  mem :: memory
  initialized :: int
  heap :: u64
  total_heap_size :: u64
  in_finalize_call :: bool
  stack_top :: u64
  frame_bottom :: u64

record gc_env =
  data_start :: u64
  data_end :: u64
  heap_var :: u64
  calloc_at :: "u64 \<Rightarrow> u64"
  finalize :: "u64 \<Rightarrow> gc \<Rightarrow> gc res"

definition ALLOC_BIT :: u64 where "ALLOC_BIT = 0x8000000000000000"
definition MARK_BIT :: u64 where "MARK_BIT = 0x4000000000000000"
definition SIZE_MASK :: u64 where "SIZE_MASK = 0x3FFFFFFFFFFFFFFF"
definition BLOCK_SIZE :: u64 where "BLOCK_SIZE = 3"

text \<open>The fields of \<open>struct Block\<close> at an address.\<close>

definition blk_info :: "gc \<Rightarrow> u64 \<Rightarrow> u64" where "blk_info s b = rd64 (mem s) b"
definition blk_next :: "gc \<Rightarrow> u64 \<Rightarrow> u64" where "blk_next s b = rd64 (mem s) (b + 8)"
definition blk_finalizer :: "gc \<Rightarrow> u64 \<Rightarrow> u64" where "blk_finalizer s b = rd64 (mem s) (b + 16)"

definition set_info :: "u64 \<Rightarrow> u64 \<Rightarrow> gc \<Rightarrow> gc" where "set_info b w s = s\<lparr>mem := wr64 (mem s) b w\<rparr>"
definition set_next :: "u64 \<Rightarrow> u64 \<Rightarrow> gc \<Rightarrow> gc" where "set_next b w s = s\<lparr>mem := wr64 (mem s) (b + 8) w\<rparr>"
definition set_finalizer :: "u64 \<Rightarrow> u64 \<Rightarrow> gc \<Rightarrow> gc" where "set_finalizer b w s = s\<lparr>mem := wr64 (mem s) (b + 16) w\<rparr>"

section \<open>Helpers\<close>

definition infoMake :: "bool \<Rightarrow> bool \<Rightarrow> u64 \<Rightarrow> u64" where
  "infoMake alloc mark sz = push_bit 63 (of_bool alloc) OR push_bit 62 (of_bool mark) OR (sz AND SIZE_MASK)"

definition inGlobalRange :: "gc_env \<Rightarrow> u64 \<Rightarrow> bool" where
  "inGlobalRange E a \<longleftrightarrow> data_start E \<le> a \<and> a < data_end E"

definition inStackRange :: "gc \<Rightarrow> u64 \<Rightarrow> bool" where
  "inStackRange s a \<longleftrightarrow> frame_bottom s > a \<and> a \<ge> stack_top s"

definition inHeapRange :: "gc \<Rightarrow> u64 \<Rightarrow> bool" where
  "inHeapRange s a \<longleftrightarrow> heap s \<le> a \<and> a < heap s + total_heap_size s * 8"

definition heap_fuel :: "gc \<Rightarrow> nat" where
  "heap_fuel s = Suc (unat (total_heap_size s))"

fun get_block_loop :: "nat \<Rightarrow> gc \<Rightarrow> u64 \<Rightarrow> u64 \<Rightarrow> u64 \<Rightarrow> u64 res" where
  "get_block_loop 0 s ptr prev cur = Inl OutOfFuel"
| "get_block_loop (Suc n) s ptr prev cur =
     (if cur \<noteq> 0 \<and> cur < ptr then get_block_loop n s ptr cur (blk_next s cur)
      else if cur = 0 then Inr 0 else Inr prev)"

definition getBlock :: "gc \<Rightarrow> u64 \<Rightarrow> u64 res" where
  "getBlock s ptr =
     (if initialized s \<noteq> 1 \<or> heap s = 0 then Inr 0
      else if ptr < heap s \<or> ptr \<ge> heap s + total_heap_size s * 8 then Inr 0
      else get_block_loop (heap_fuel s) s ptr (heap s) (heap s))"

definition pointsToAllocatedData :: "gc \<Rightarrow> u64 \<Rightarrow> bool res" where
  "pointsToAllocatedData s ptr = bindR (getBlock s ptr) (\<lambda>block.
     if block = 0 then Inr False else Inr (blk_info s block AND ALLOC_BIT \<noteq> 0))"

section \<open>Marking\<close>

text \<open>A word of the globals or of the stack is followed at most 100 times.  \<open>own\<close> is the test for the
  allocator's own variable \<open>heap\<close>.\<close>

fun chase :: "nat \<Rightarrow> gc_env \<Rightarrow> bool \<Rightarrow> u64 \<Rightarrow> gc \<Rightarrow> gc res" where
  "chase 0 E own word s = Inr s"
| "chase (Suc n) E own word s =
     (if word = 0 then Inr s
      else if inHeapRange s word then
        bindR (getBlock s word) (\<lambda>block.
        if own then Inr s
        else if block = 0 then Inl NullDeref
        else if blk_info s block AND MARK_BIT = 0 \<and> blk_info s block AND ALLOC_BIT \<noteq> 0
        then Inr (set_info block (blk_info s block OR MARK_BIT) s)
        else chase n E own (rd64 (mem s) word) s)
      else if inGlobalRange E word \<or> inStackRange s word then chase n E own (rd64 (mem s) word) s
      else chase n E own word s)"

text \<open>\<open>n\<close> globals from index \<open>i\<close>.\<close>

fun mark_globals :: "nat \<Rightarrow> gc_env \<Rightarrow> nat \<Rightarrow> gc \<Rightarrow> gc res" where
  "mark_globals 0 E i s = Inr s"
| "mark_globals (Suc n) E i s =
     (let word = rd64 (mem s) (data_start E + of_nat (8 * i)) in
      bindR (chase 100 E (word = heap_var E) word s) (mark_globals n E (Suc i)))"

definition global_length :: "gc_env \<Rightarrow> nat" where
  "global_length E = nat (sint (data_end E - data_start E) div 8)"

text \<open>\<open>n\<close> words of a frame from \<open>addr\<close>; then the frames, each from the saved frame pointer of the one
  before.  The counter of frames in the source is never increased, so that it bounds nothing.\<close>

fun mark_frame :: "nat \<Rightarrow> gc_env \<Rightarrow> u64 \<Rightarrow> gc \<Rightarrow> gc res" where
  "mark_frame 0 E addr s = Inr s"
| "mark_frame (Suc n) E addr s =
     bindR (chase 100 E (addr = heap_var E) (rd64 (mem s) addr) s) (mark_frame n E (addr + 8))"

function mark_stack :: "gc_env \<Rightarrow> u64 \<Rightarrow> u64 \<Rightarrow> gc \<Rightarrow> gc res" where
  "mark_stack E start bottom s =
     (if bottom \<le> start \<or> bottom = 0 then Inr s
      else if bottom AND 7 \<noteq> 0 then Inr s
      else bindR (mark_frame (Suc ((unat bottom - unat start) div 8)) E start s)
             (\<lambda>s. mark_stack E bottom (rd64 (mem s) bottom) s))"
  by pat_completeness auto

termination
proof (relation "measure (\<lambda>(E, start, bottom, s). 2 ^ 64 - unat start)")
  fix E start bottom s x assume "\<not> (bottom \<le> start \<or> bottom = (0 :: u64))"
  then have "unat start < unat bottom" by (simp add: not_le word_less_nat_alt)
  moreover have "unat bottom < 2 ^ 64" using unsigned_less [where ?'a = nat and w = bottom] by simp
  ultimately show "((E, bottom, rd64 (mem x) bottom, x), (E, start, bottom, s)) \<in> measure (\<lambda>(E, start, bottom, s). 2 ^ 64 - unat start)"
    by simp
qed simp

declare mark_stack.simps [simp del]

text \<open>The scan of the heap: a word is followed until it marks a block or leaves the ranges.  The result
  says whether it marked one.\<close>

fun chase_heap :: "nat \<Rightarrow> gc_env \<Rightarrow> u64 \<Rightarrow> gc \<Rightarrow> (bool \<times> gc) res" where
  "chase_heap 0 E word s = Inl OutOfFuel"
| "chase_heap (Suc n) E word s =
     (if word = 0 then Inr (False, s)
      else if inHeapRange s word then
        bindR (getBlock s word) (\<lambda>block.
        if block = 0 then Inl (ExitCode (-1))
        else if blk_info s block AND MARK_BIT = 0 \<and> blk_info s block AND ALLOC_BIT \<noteq> 0
        then Inr (True, set_info block (blk_info s block OR MARK_BIT) s)
        else chase_heap n E (rd64 (mem s) word) s)
      else if inGlobalRange E word \<or> inStackRange s word then chase_heap n E (rd64 (mem s) word) s
      else Inr (False, s))"

fun scan_words :: "nat \<Rightarrow> nat \<Rightarrow> gc_env \<Rightarrow> u64 \<Rightarrow> bool \<Rightarrow> gc \<Rightarrow> (bool \<times> gc) res" where
  "scan_words F 0 E addr marked s = Inr (marked, s)"
| "scan_words F (Suc n) E addr marked s =
     bindR (chase_heap F E (rd64 (mem s) addr) s) (\<lambda>(any, s). scan_words F n E (addr + 8) (marked \<or> any) s)"

fun scan_blocks :: "nat \<Rightarrow> nat \<Rightarrow> gc_env \<Rightarrow> u64 \<Rightarrow> bool \<Rightarrow> gc \<Rightarrow> (bool \<times> gc) res" where
  "scan_blocks F 0 E cur marked s = Inl OutOfFuel"
| "scan_blocks F (Suc n) E cur marked s =
     (if cur = 0 then Inr (marked, s)
      else bindR (scan_words F (unat (blk_info s cur AND SIZE_MASK)) E (cur + 24) marked s)
             (\<lambda>(marked, s). scan_blocks F n E (blk_next s cur) marked s))"

fun mark_heap :: "nat \<Rightarrow> nat \<Rightarrow> gc_env \<Rightarrow> gc \<Rightarrow> gc res" where
  "mark_heap F 0 E s = Inl OutOfFuel"
| "mark_heap F (Suc n) E s =
     bindR (scan_blocks F (heap_fuel s) E (heap s) False s) (\<lambda>(marked_any, s).
     if marked_any then mark_heap F n E s else Inr s)"

section \<open>Sweeping\<close>

fun sweep :: "nat \<Rightarrow> gc_env \<Rightarrow> u64 \<Rightarrow> u64 \<Rightarrow> u64 \<Rightarrow> gc \<Rightarrow> (u64 \<times> gc) res" where
  "sweep 0 E cur prev freed s = Inl OutOfFuel"
| "sweep (Suc n) E cur prev freed s =
     (if cur = 0 then Inr (freed, s)
      else if blk_info s cur AND MARK_BIT \<noteq> 0 then
        let s = set_info cur (blk_info s cur AND NOT MARK_BIT) s in
        sweep n E (blk_next s cur) 0 freed s
      else
        bindR (if blk_info s cur AND ALLOC_BIT \<noteq> 0 then
                 let s = set_info cur (blk_info s cur AND NOT ALLOC_BIT) s;
                     freed = freed + (blk_info s cur AND SIZE_MASK)
                 in if blk_finalizer s cur \<noteq> 0 then
                      bindR (finalize E (blk_finalizer s cur) (s\<lparr>in_finalize_call := True\<rparr>)) (\<lambda>s.
                      Inr (freed, s\<lparr>in_finalize_call := False\<rparr>))
                    else Inr (freed, s)
               else Inr (freed, s)) (\<lambda>(freed, s).
        if prev \<noteq> 0 then
          let prev_size = blk_info s prev AND SIZE_MASK;
              s = set_info prev (blk_info s prev AND NOT SIZE_MASK) s;
              prev_size = prev_size + (BLOCK_SIZE + (blk_info s cur AND SIZE_MASK));
              s = set_info prev (blk_info s prev OR (prev_size AND SIZE_MASK)) s;
              s = set_next prev (blk_next s cur) s
          in sweep n E (blk_next s cur) prev (freed + BLOCK_SIZE) s
        else sweep n E (blk_next s cur) cur freed s))"

text \<open>The count of words freed is returned as an \<open>int\<close>.\<close>

definition markAndSweep :: "nat \<Rightarrow> gc_env \<Rightarrow> gc \<Rightarrow> (int \<times> gc) res" where
  "markAndSweep F E s =
     bindR (mark_globals (global_length E) E 0 s) (\<lambda>s.
     bindR (mark_stack E (stack_top s) (frame_bottom s) s) (\<lambda>s.
     bindR (mark_heap F F E s) (\<lambda>s.
     bindR (sweep (heap_fuel s) E (heap s) 0 0 s) (\<lambda>(freed, s). Inr (sint (ucast freed :: u32), s)))))"

section \<open>The interface\<close>

text \<open>\<open>rsp\<close> and \<open>rbp\<close> are the stack registers at the call; \<open>calloc\<close> clears what it returns.\<close>

definition memInitialize :: "gc_env \<Rightarrow> u64 \<Rightarrow> u64 \<Rightarrow> u64 \<Rightarrow> gc \<Rightarrow> int \<times> gc" where
  "memInitialize E rsp rbp sz s =
     (if initialized s \<noteq> 0 then (0, s) else
      let s = s\<lparr>initialized := -1\<rparr> in
      if sz = 0 then (0, s)
      else if sz > SIZE_MASK then (0, s)
      else
        let s = s\<lparr>total_heap_size := sz * 6 div 5\<rparr>;
            s = s\<lparr>heap := calloc_at E (total_heap_size s)\<rparr>
        in if heap s = 0 then (0, s) else
        let s = s\<lparr>mem := (\<lambda>x. if unat (x - heap s) < 8 * unat (total_heap_size s) then 0 else mem s x)\<rparr>;
            s = set_info (heap s) (infoMake False False (total_heap_size s - BLOCK_SIZE)) s;
            s = set_next (heap s) 0 s;
            s = set_finalizer (heap s) 0 s
        in (1, s\<lparr>stack_top := rsp, frame_bottom := rbp, initialized := 1\<rparr>))"

fun next_block_loop :: "nat \<Rightarrow> gc \<Rightarrow> u64 \<Rightarrow> u64 \<Rightarrow> u64 res" where
  "next_block_loop 0 s sz cur = Inl OutOfFuel"
| "next_block_loop (Suc n) s sz cur =
     (if cur = 0 then Inr 0
      else if blk_info s cur AND SIZE_MASK \<ge> sz - BLOCK_SIZE \<and> blk_info s cur AND ALLOC_BIT = 0 then Inr cur
      else next_block_loop n s sz (blk_next s cur))"

definition nextBlockOfSize :: "gc \<Rightarrow> u64 \<Rightarrow> u64 res" where
  "nextBlockOfSize s sz = next_block_loop (heap_fuel s) s sz (heap s)"

text \<open>The end of \<open>memAllocate\<close>, once the block is chosen.\<close>

definition take_block :: "u64 \<Rightarrow> u64 \<Rightarrow> u64 \<Rightarrow> gc \<Rightarrow> u64 \<times> gc" where
  "take_block alloced sz fin s =
     (let alloced_size = blk_info s alloced AND SIZE_MASK in
      if alloced_size - sz \<ge> BLOCK_SIZE + 1 then
        let new = alloced + 8 * (BLOCK_SIZE + sz);
            s = set_info new (infoMake False False (alloced_size - sz - BLOCK_SIZE)) s;
            s = set_next new (blk_next s alloced) s;
            s = set_finalizer new 0 s;
            s = set_info alloced (infoMake True False sz) s;
            s = set_next alloced new s;
            s = set_finalizer alloced fin s
        in (alloced + 24, s)
      else
        let s = set_info alloced (infoMake True False alloced_size) s;
            s = set_finalizer alloced fin s
        in (alloced + 24, s))"

definition memAllocate :: "nat \<Rightarrow> gc_env \<Rightarrow> u64 \<Rightarrow> u64 \<Rightarrow> u64 \<Rightarrow> u64 \<Rightarrow> gc \<Rightarrow> (u64 \<times> gc) res" where
  "memAllocate F E rsp rbp sz fin s =
     (if initialized s \<noteq> 1 then Inr (0, s)
      else if in_finalize_call s then Inl (ExitCode (-1))
      else
        let s = s\<lparr>stack_top := rsp, frame_bottom := rbp\<rparr> in
        bindR (nextBlockOfSize s sz) (\<lambda>alloced.
        if alloced \<noteq> 0 then Inr (take_block alloced sz fin s)
        else
          bindR (markAndSweep F E s) (\<lambda>(result, s).
          if result = 0 then Inr (0, s)
          else bindR (nextBlockOfSize s sz) (\<lambda>alloced.
            if alloced = 0 then Inr (0, s) else Inr (take_block alloced sz fin s)))))"

end
