(* ===== verification/Alloc_Blocks.thy ===== *)
theory Alloc_Blocks
  imports Alloc
begin

text \<open>
  The heap of A4/alloc.c as a list of blocks. \<open>blocks s bs\<close> says that the memory of the state holds
  exactly the headers of \<open>bs\<close>, one after another, linked in order and filling the heap. The lemmas
  show what \<open>getBlock\<close>, \<open>nextBlockOfSize\<close>, \<open>take_block\<close>, \<open>memInitialize\<close> and \<open>memAllocate\<close>
  do to such a list, on the way where a block fits and where it is up to three words too small.
\<close>

section \<open>Reads over writes\<close>

lemma le_val_nth: "le_val (map (\<lambda>i. le_bytes 8 w ! i) [0..<8]) = w"
proof -
  have "map (\<lambda>i. le_bytes 8 w ! i) [0..<8] = le_bytes 8 w"
    by (rule nth_equalityI) simp_all
  then have "le_val (map (\<lambda>i. le_bytes 8 w ! i) [0..<8]) = take_bit (8 * 8) w" by (simp only: le_val_bytes)
  then show ?thesis by (simp add: take_bit_word_eq_self)
qed

lemma unat_of_small: "n < 2 ^ 64 \<Longrightarrow> unat (of_nat n :: u64) = n"
  by (simp add: unat_of_nat)

lemma rd_wr_same [simp]: "rd64 (wr64 m a w) a = w"
proof -
  have "map (\<lambda>i. wr64 m a w (a + of_nat i)) [0..<8] = map (\<lambda>i. le_bytes 8 w ! i) [0..<8]"
    by (rule map_cong) (auto simp: wr64_def unat_of_small)
  then show ?thesis by (simp only: rd64_def le_val_nth)
qed

text \<open>Words that do not overlap, inside the address space.\<close>

definition apart :: "u64 \<Rightarrow> u64 \<Rightarrow> bool" where
  "apart a b \<longleftrightarrow> 8 \<le> unat (b - a) \<and> 8 \<le> unat (a - b)"

lemma apart_if: "unat a + 8 \<le> unat b \<Longrightarrow> unat b + 8 \<le> 2 ^ 64 \<Longrightarrow> apart a b \<and> apart b a"
proof -
  assume ab: "unat a + 8 \<le> unat b" and b: "unat b + 8 \<le> 2 ^ 64"
  have "unat (b - a) = unat b - unat a" using ab by (intro unat_sub) (simp add: word_le_nat_alt)
  moreover have "unat (a - b) = 2 ^ 64 - (unat b - unat a)"
    using ab by (simp add: unat_sub_if_size word_size)
  ultimately show ?thesis using ab b by (simp add: apart_def; linarith)
qed

lemma rd_wr_apart [simp]: "apart a b \<Longrightarrow> rd64 (wr64 m a w) b = rd64 m b"
proof -
  assume ap: "apart a b"
  have "wr64 m a w (b + of_nat i) = m (b + of_nat i)" if i: "i < 8" for i
  proof -
    have u: "unat (b - a) + unat (of_nat i :: u64) < 2 ^ 64"
    proof -
      have "unat (a - b) = 2 ^ 64 - unat (b - a)"
      proof -
        have "unat b \<noteq> unat a"
        proof
          assume "unat b = unat a"
          then have "b = a" by (rule unsigned_word_eqI)
          then show False using ap by (simp add: apart_def)
        qed
        then show ?thesis using unsigned_less [where ?'a = nat and w = a] unsigned_less [where ?'a = nat and w = b]
          by (simp add: unat_sub_if_size word_size; linarith)
      qed
      then show ?thesis using ap i by (simp add: apart_def unat_of_small; linarith)
    qed
    have e: "b + of_nat i - a = (b - a) + of_nat i" by simp
    have "unat (b + of_nat i - a) = unat (b - a) + i"
      unfolding e using u i by (subst unat_add_lem [THEN iffD1]) (simp_all add: unat_of_small)
    then show ?thesis using ap by (simp add: wr64_def apart_def)
  qed
  then have "map (\<lambda>i. wr64 m a w (b + of_nat i)) [0..<8] = map (\<lambda>i. m (b + of_nat i)) [0..<8]"
    by (intro map_cong) auto
  then show ?thesis by (simp only: rd64_def)
qed

lemma mem_set:
  "mem (set_info b w s) = wr64 (mem s) b w" "mem (set_next b w s) = wr64 (mem s) (b + 8) w"
  "mem (set_finalizer b w s) = wr64 (mem s) (b + 16) w"
  by (simp_all add: set_info_def set_next_def set_finalizer_def)

lemma set_same [simp]:
  "heap (set_info b w s) = heap s" "heap (set_next b w s) = heap s" "heap (set_finalizer b w s) = heap s"
  "initialized (set_info b w s) = initialized s" "initialized (set_next b w s) = initialized s"
  "total_heap_size (set_info b w s) = total_heap_size s" "total_heap_size (set_next b w s) = total_heap_size s"
  "stack_top (set_info b w s) = stack_top s" "frame_bottom (set_info b w s) = frame_bottom s"
  by (simp_all add: set_info_def set_next_def set_finalizer_def)

lemma wr64_outside: "unat a + 8 \<le> 2 ^ 64 \<Longrightarrow> unat x < unat a \<or> unat a + 8 \<le> unat x \<Longrightarrow> wr64 m a w x = m x"
proof -
  assume a: "unat a + 8 \<le> 2 ^ 64" "unat x < unat a \<or> unat a + 8 \<le> unat x"
  have "unat (x - a) = (if unat a \<le> unat x then unat x - unat a else 2 ^ 64 + unat x - unat a)"
    by (simp add: unat_sub_if_size word_size word_le_nat_alt; linarith)
  then have "\<not> unat (x - a) < 8" using a by (auto split: if_splits)
  then show ?thesis by (simp add: wr64_def)
qed

section \<open>Block headers\<close>

lemmas bit_consts = ALLOC_BIT_def MARK_BIT_def SIZE_MASK_def

lemma size_mask: "x AND SIZE_MASK = take_bit 62 x"
  by (simp add: SIZE_MASK_def take_bit_eq_mask mask_eq_exp_minus_1)

lemma alloc_bit: "x AND ALLOC_BIT = 0 \<longleftrightarrow> \<not> bit x 63"
proof -
  have e: "ALLOC_BIT = 2 ^ 63" by (simp add: ALLOC_BIT_def)
  show ?thesis unfolding e by (rule and_exp_eq_0_iff_not_bit)
qed

lemma mark_bit: "x AND MARK_BIT = 0 \<longleftrightarrow> \<not> bit x 62"
proof -
  have e: "MARK_BIT = 2 ^ 62" by (simp add: MARK_BIT_def)
  show ?thesis unfolding e by (rule and_exp_eq_0_iff_not_bit)
qed

lemma bit_masks:
  "bit ALLOC_BIT n \<longleftrightarrow> n = 63" "bit MARK_BIT n \<longleftrightarrow> n = 62" "bit SIZE_MASK n \<longleftrightarrow> n < 62"
proof -
  have e: "ALLOC_BIT = 2 ^ 63" "MARK_BIT = 2 ^ 62" "SIZE_MASK = mask 62"
    by (simp_all add: bit_consts mask_eq_exp_minus_1)
  show "bit ALLOC_BIT n \<longleftrightarrow> n = 63" "bit MARK_BIT n \<longleftrightarrow> n = 62" "bit SIZE_MASK n \<longleftrightarrow> n < 62"
    unfolding e bit_exp_iff bit_mask_iff by (auto simp: possible_bit_word)
qed

lemma bit_info: "n < 64 \<Longrightarrow> bit (infoMake a k w) n \<longleftrightarrow> (n = 63 \<and> a) \<or> (n = 62 \<and> k) \<or> (n < 62 \<and> bit w n)"
  by (auto simp: infoMake_def bit_simps bit_masks)

lemma infoMake_bits:
  "infoMake a k w AND SIZE_MASK = take_bit 62 w"
  "infoMake a k w AND ALLOC_BIT = 0 \<longleftrightarrow> \<not> a" "infoMake a k w AND MARK_BIT = 0 \<longleftrightarrow> \<not> k"
  "infoMake a k w OR MARK_BIT = infoMake a True w" "infoMake a k w AND NOT MARK_BIT = infoMake a False w"
  "infoMake a k w AND NOT ALLOC_BIT = infoMake False k w" "infoMake a k w AND NOT SIZE_MASK = infoMake a k 0"
  "infoMake a k 0 OR (w AND SIZE_MASK) = infoMake a k w"
  by (simp_all add: alloc_bit mark_bit bit_info, (rule bit_word_eqI; auto simp: bit_simps bit_masks bit_info)+)

section \<open>The list of blocks\<close>

record blk =
  b_size :: nat
  b_alloc :: bool
  b_mark :: bool
  b_fin :: u64

text \<open>Words taken by a list of blocks, and the address of block \<open>i\<close> of a list at \<open>a\<close>.\<close>

definition plus_words :: "u64 \<Rightarrow> nat \<Rightarrow> u64" where
  "plus_words a n = a + of_nat (8 * n)"

lemma plus_words_simps [simp]: "plus_words a 0 = a" "plus_words (plus_words a m) n = plus_words a (m + n)"
  by (simp_all add: plus_words_def distrib_left add.assoc)

lemma unat_plus_words: "unat a + 8 * n < 2 ^ 64 \<Longrightarrow> unat (plus_words a n) = unat a + 8 * n"
proof -
  assume "unat a + 8 * n < 2 ^ 64"
  moreover from this have "unat (of_nat (8 * n) :: u64) = 8 * n" by (intro unat_of_small) simp
  ultimately show ?thesis unfolding plus_words_def by (subst unat_add_lem [THEN iffD1]) simp_all
qed

definition words_of :: "blk list \<Rightarrow> nat" where
  "words_of bs = sum_list (map (\<lambda>b. 3 + b_size b) bs)"

definition adr :: "u64 \<Rightarrow> blk list \<Rightarrow> nat \<Rightarrow> u64" where
  "adr a bs i = plus_words a (words_of (take i bs))"

definition info_of :: "blk \<Rightarrow> u64" where
  "info_of b = infoMake (b_alloc b) (b_mark b) (of_nat (b_size b))"

text \<open>A header in memory, with the link to the next block; and blocks one after another from \<open>a\<close>, the
  last linked to \<open>e\<close>.\<close>

definition hdr_at :: "memory \<Rightarrow> u64 \<Rightarrow> blk \<Rightarrow> u64 \<Rightarrow> bool" where
  "hdr_at m a b n \<longleftrightarrow> rd64 m a = info_of b \<and> rd64 m (a + 8) = n \<and> rd64 m (a + 16) = b_fin b"

definition after_blk :: "u64 \<Rightarrow> blk \<Rightarrow> u64" where
  "after_blk a b = plus_words a (3 + b_size b)"

fun layout :: "memory \<Rightarrow> u64 \<Rightarrow> blk list \<Rightarrow> u64 \<Rightarrow> bool" where
  "layout m a [] e = True"
| "layout m a (b # bs) e \<longleftrightarrow> hdr_at m a b (if bs = [] then e else after_blk a b) \<and> layout m (after_blk a b) bs e"

text \<open>The heap is filled by the blocks.\<close>

definition room :: "u64 \<Rightarrow> blk list \<Rightarrow> bool" where
  "room a bs \<longleftrightarrow> a \<noteq> 0 \<and> bs \<noteq> [] \<and> unat a + 8 * words_of bs < 2 ^ 64 \<and> words_of bs < 2 ^ 61"

definition blocks :: "gc \<Rightarrow> blk list \<Rightarrow> bool" where
  "blocks s bs \<longleftrightarrow> initialized s = 1 \<and> room (heap s) bs \<and> unat (total_heap_size s) = words_of bs \<and>
     layout (mem s) (heap s) bs 0"

lemma words_simps [simp]:
  "words_of [] = 0" "words_of (b # bs) = 3 + b_size b + words_of bs" "words_of (xs @ ys) = words_of xs + words_of ys"
  by (simp_all add: words_of_def)

lemma words_take_le: "words_of (take i bs) \<le> words_of bs"
proof -
  have "words_of bs = words_of (take i bs) + words_of (drop i bs)" by (metis append_take_drop_id words_simps(3))
  then show ?thesis by simp
qed

lemma words_take_Suc: "i < length bs \<Longrightarrow> words_of (take (Suc i) bs) = words_of (take i bs) + (3 + b_size (bs ! i))"
  by (simp add: take_Suc_conv_app_nth)

lemma words_take_mono: "i \<le> j \<Longrightarrow> words_of (take i bs) \<le> words_of (take j bs)"
  using words_take_le [of i "take j bs"] by (simp add: min_def split: if_splits)

lemma words_length: "3 * length bs \<le> words_of bs"
  by (induction bs) auto

lemma adr_0 [simp]: "adr a bs 0 = a"
  by (simp add: adr_def)

lemma unat_adr: "room a bs \<Longrightarrow> unat (adr a bs i) = unat a + 8 * words_of (take i bs)"
proof -
  assume r: "room a bs"
  have "8 * words_of (take i bs) \<le> 8 * words_of bs" using words_take_le by simp
  then show ?thesis unfolding adr_def using r by (intro unat_plus_words) (simp add: room_def)
qed

lemma adr_end:
  assumes "room a bs" "i < length bs"
  shows "unat (adr a bs i) + 24 + 8 * b_size (bs ! i) = unat a + 8 * words_of (take (Suc i) bs)"
    and "unat (adr a bs i) + 24 + 8 * b_size (bs ! i) < 2 ^ 64"
proof -
  show e: "unat (adr a bs i) + 24 + 8 * b_size (bs ! i) = unat a + 8 * words_of (take (Suc i) bs)"
    using assms by (simp add: unat_adr words_take_Suc)
  have "words_of (take (Suc i) bs) \<le> words_of bs" by (rule words_take_le)
  then show "unat (adr a bs i) + 24 + 8 * b_size (bs ! i) < 2 ^ 64"
    unfolding e using assms(1) by (simp add: room_def)
qed

lemma unat_field:
  assumes "room a bs" "i < length bs" "k \<le> 16"
  shows "unat (adr a bs i + of_nat k) = unat (adr a bs i) + k"
  using adr_end(2) [OF assms(1,2)] assms(3) by (subst unat_add_lem [THEN iffD1]) (simp_all add: unat_of_small)

lemma adr_nz: "room a bs \<Longrightarrow> adr a bs i \<noteq> 0"
proof
  assume r: "room a bs" and z: "adr a bs i = 0"
  have "unat a \<noteq> 0" using r by (simp add: room_def unat_eq_0)
  then show False using unat_adr [OF r, of i] z by simp
qed

lemma adr_less: "room a bs \<Longrightarrow> i < j \<Longrightarrow> j \<le> length bs \<Longrightarrow> unat (adr a bs i) + 24 \<le> unat (adr a bs j)"
proof -
  assume r: "room a bs" and ij: "i < j" "j \<le> length bs"
  have "words_of (take (Suc i) bs) \<le> words_of (take j bs)" using ij(1) by (intro words_take_mono) simp
  then show ?thesis using ij by (simp add: unat_adr [OF r] words_take_Suc)
qed

lemma adr_append [simp]: "adr a (xs @ ys) (length xs) = plus_words a (words_of xs)"
  by (simp add: adr_def)

lemma layout_append:
  "layout m a (xs @ ys) e \<longleftrightarrow> layout m a xs (if ys = [] then e else plus_words a (words_of xs)) \<and>
     layout m (plus_words a (words_of xs)) ys e"
proof (induction xs arbitrary: a)
  case (Cons x xs)
  then show ?case using Cons [of "after_blk a x"] by (cases "xs = []") (auto simp: after_blk_def)
qed simp

text \<open>A write outside the region of the blocks.\<close>

lemma layout_frame:
  assumes "unat a + 8 * words_of bs < 2 ^ 64" "unat p + 8 \<le> 2 ^ 64"
    and "unat p + 8 \<le> unat a \<or> unat a + 8 * words_of bs \<le> unat p"
  shows "layout (wr64 m p w) a bs e = layout m a bs e"
  using assms
proof (induction bs arbitrary: a)
  case (Cons b bs)
  have u: "unat (a + 8) = unat a + 8" "unat (a + 16) = unat a + 16"
    using Cons.prems(1) by (simp_all add: unat_add_lem [THEN iffD1])
  have n: "unat (after_blk a b) = unat a + 8 * (3 + b_size b)"
    unfolding after_blk_def using Cons.prems(1) by (intro unat_plus_words) simp
  have ap: "unat x + 8 \<le> unat p \<or> unat p + 8 \<le> unat x \<Longrightarrow> unat x + 8 \<le> 2 ^ 64 \<Longrightarrow> apart p x" for x
    using apart_if Cons.prems(2) by blast
  have "apart p a" "apart p (a + 8)" "apart p (a + 16)"
    by (rule ap; use Cons.prems u in auto)+
  moreover have "layout (wr64 m p w) (after_blk a b) bs e = layout m (after_blk a b) bs e"
    by (rule Cons.IH) (use Cons.prems n in auto)
  ultimately show ?case by (simp add: hdr_at_def)
qed simp

lemma size_bound: "room a bs \<Longrightarrow> i < length bs \<Longrightarrow> b_size (bs ! i) < 2 ^ 61"
  using words_take_Suc [of i bs] words_take_le [of "Suc i" bs] by (simp add: room_def)

lemma info_size: "room a bs \<Longrightarrow> i < length bs \<Longrightarrow> info_of (bs ! i) AND SIZE_MASK = of_nat (b_size (bs ! i))"
proof -
  assume "room a bs" "i < length bs"
  then have "b_size (bs ! i) < 2 ^ 62" using size_bound by fastforce
  then have "take_bit 62 (of_nat (b_size (bs ! i)) :: u64) = of_nat (b_size (bs ! i))"
    by (simp flip: of_nat_take_bit add: take_bit_nat_eq_self)
  then show ?thesis by (simp add: info_of_def infoMake_bits)
qed

lemma info_flags: "info_of b AND ALLOC_BIT = 0 \<longleftrightarrow> \<not> b_alloc b" "info_of b AND MARK_BIT = 0 \<longleftrightarrow> \<not> b_mark b"
  by (simp_all add: info_of_def infoMake_bits)

lemma layout_split: "i < length bs \<Longrightarrow> bs = take i bs @ bs ! i # drop (Suc i) bs"
  by (rule id_take_nth_drop)

lemma blocks_read:
  assumes "blocks s bs" "i < length bs"
  shows "blk_info s (adr (heap s) bs i) = info_of (bs ! i)"
    and "blk_next s (adr (heap s) bs i) = (if Suc i = length bs then 0 else adr (heap s) bs (Suc i))"
    and "blk_finalizer s (adr (heap s) bs i) = b_fin (bs ! i)"
proof -
  let ?p = "plus_words (heap s) (words_of (take i bs))"
  have "layout (mem s) (heap s) (take i bs @ bs ! i # drop (Suc i) bs) 0"
    using assms by (simp add: blocks_def flip: layout_split)
  then have h: "hdr_at (mem s) ?p (bs ! i) (if drop (Suc i) bs = [] then 0 else after_blk ?p (bs ! i))"
    unfolding layout_append by simp
  have "after_blk ?p (bs ! i) = adr (heap s) bs (Suc i)"
    using assms(2) by (simp add: after_blk_def adr_def words_take_Suc)
  moreover have "drop (Suc i) bs = [] \<longleftrightarrow> Suc i = length bs" using assms(2) by auto
  ultimately show "blk_info s (adr (heap s) bs i) = info_of (bs ! i)"
      "blk_next s (adr (heap s) bs i) = (if Suc i = length bs then 0 else adr (heap s) bs (Suc i))"
      "blk_finalizer s (adr (heap s) bs i) = b_fin (bs ! i)"
    using h by (simp_all add: hdr_at_def blk_info_def blk_next_def blk_finalizer_def adr_def)
qed

lemma blocks_room: "blocks s bs \<Longrightarrow> room (heap s) bs"
  by (simp add: blocks_def)

lemma blocks_fuel: "blocks s bs \<Longrightarrow> length bs < heap_fuel s"
  using words_length [of bs] by (simp add: blocks_def heap_fuel_def)

section \<open>Writes to one block\<close>

text \<open>A block in the middle of a heap: its address, its end, and the writes that stay inside it.\<close>

lemma middle:
  assumes "blocks s (xs @ b # ys)" "p = plus_words (heap s) (words_of xs)"
  shows "unat p = unat (heap s) + 8 * words_of xs" "unat (after_blk p b) = unat p + 24 + 8 * b_size b"
    and "unat (after_blk p b) + 8 * words_of ys < 2 ^ 64" "p \<noteq> 0"
    and "layout (mem s) (heap s) xs p" "hdr_at (mem s) p b (if ys = [] then 0 else after_blk p b)"
    and "layout (mem s) (after_blk p b) ys 0"
proof -
  have r: "room (heap s) (xs @ b # ys)" using assms(1) by (simp add: blocks_def)
  then show p: "unat p = unat (heap s) + 8 * words_of xs"
    unfolding assms(2) by (intro unat_plus_words) (simp add: room_def)
  show q: "unat (after_blk p b) = unat p + 24 + 8 * b_size b"
    unfolding after_blk_def using r p by (subst unat_plus_words) (simp_all add: room_def)
  show "unat (after_blk p b) + 8 * words_of ys < 2 ^ 64" using r unfolding q p by (simp add: room_def)
  show "p \<noteq> 0" using adr_nz [OF r, of "length xs"] assms(2) by simp
  have "layout (mem s) (heap s) (xs @ b # ys) 0" using assms(1) by (simp add: blocks_def)
  then have "layout (mem s) (heap s) xs p \<and> layout (mem s) p (b # ys) 0" unfolding layout_append by (simp add: assms(2))
  then show "layout (mem s) (heap s) xs p" "hdr_at (mem s) p b (if ys = [] then 0 else after_blk p b)"
      "layout (mem s) (after_blk p b) ys 0" by auto
qed

lemma frame_middle:
  assumes "blocks s (xs @ b # ys)" "p = plus_words (heap s) (words_of xs)"
    and "unat p \<le> unat x" "unat x + 8 \<le> unat (after_blk p b)"
  shows "layout (wr64 m x w) (heap s) xs e = layout m (heap s) xs e"
    and "layout (wr64 m x w) (after_blk p b) ys e = layout m (after_blk p b) ys e"
  using middle [OF assms(1,2)] assms(3,4) by (intro layout_frame; simp)+

lemma blocks_middle:
  assumes "blocks s (xs @ b # ys)" "p = plus_words (heap s) (words_of xs)"
    and "s' = s\<lparr>mem := mem s'\<rparr>" "words_of zs = 3 + b_size b" "zs \<noteq> []"
    and "layout (mem s') (heap s) xs p" "layout (mem s') p zs (if ys = [] then 0 else after_blk p b)"
    and "layout (mem s') (after_blk p b) ys 0"
  shows "blocks s' (xs @ zs @ ys)"
proof -
  have q: "after_blk p b = plus_words (heap s) (words_of (xs @ zs))"
    by (simp add: after_blk_def assms(2,4))
  have "layout (mem s') (heap s) (xs @ zs) (if ys = [] then 0 else after_blk p b)"
    unfolding layout_append using assms(5-7) by (simp flip: assms(2))
  then have "layout (mem s') (heap s) ((xs @ zs) @ ys) 0"
    unfolding layout_append [of _ _ "xs @ zs" ys] using assms(8) q by (cases "ys = []") simp_all
  moreover have "room (heap s) (xs @ zs @ ys)" "unat (total_heap_size s) = words_of (xs @ zs @ ys)"
    using assms(1,4,5) by (simp_all add: blocks_def room_def)
  moreover have "heap s' = heap s" "initialized s' = initialized s" "total_heap_size s' = total_heap_size s"
    by (subst assms(3), simp)+
  ultimately show ?thesis using assms(1) by (simp add: blocks_def)
qed

lemma same_block_apart:
  assumes "unat x + 24 \<le> 2 ^ 64"
  shows "apart x (x + 8)" "apart x (x + 16)" "apart (x + 8) x" "apart (x + 8) (x + 16)" "apart (x + 16) x"
    "apart (x + 16) (x + 8)"
proof -
  have u: "unat (x + 8) = unat x + 8" "unat (x + 16) = unat x + 16"
    using assms by (simp_all add: unat_add_lem [THEN iffD1])
  show "apart x (x + 8)" "apart x (x + 16)" "apart (x + 8) x" "apart (x + 8) (x + 16)" "apart (x + 16) x"
    "apart (x + 16) (x + 8)"
    using apart_if [of x "x + 8"] apart_if [of x "x + 16"] apart_if [of "x + 8" "x + 16"] assms u by simp_all
qed

text \<open>A new info word.\<close>

lemma set_info_blocks:
  assumes "blocks s (xs @ b # ys)" "p = plus_words (heap s) (words_of xs)" "b_size b' = b_size b" "b_fin b' = b_fin b"
  shows "blocks (set_info p (info_of b') s) (xs @ b' # ys)"
proof -
  note m = middle [OF assms(1,2)]
  have x: "unat p \<le> unat p" "unat p + 8 \<le> unat (after_blk p b)" using m(2) by simp_all
  have ap: "apart p (p + 8)" "apart p (p + 16)" using same_block_apart(1,2) [of p] m(2,3) by simp_all
  have q: "after_blk p b' = after_blk p b" by (simp add: after_blk_def assms(3))
  have "blocks (set_info p (info_of b') s) (xs @ [b'] @ ys)"
    by (rule blocks_middle [OF assms(1,2)])
      (use m(5,6,7) ap assms(3,4) frame_middle [OF assms(1,2) x] in \<open>simp_all add: set_info_def hdr_at_def\<close>)
  then show ?thesis by simp
qed

section \<open>Finding a block\<close>

lemma get_block_loop_spec:
  assumes "blocks s bs" "Suc j < length bs" "adr (heap s) bs j < ptr" "ptr \<le> adr (heap s) bs (Suc j)"
  shows "i \<le> Suc j \<Longrightarrow> i = Suc j \<longrightarrow> prev = adr (heap s) bs j \<Longrightarrow> Suc j - i < n \<Longrightarrow>
    get_block_loop n s ptr prev (adr (heap s) bs i) = Inr (adr (heap s) bs j)"
proof (induction n arbitrary: i prev)
  case (Suc n)
  note r = blocks_room [OF assms(1)]
  show ?case
  proof (cases "i = Suc j")
    case True
    then show ?thesis using Suc.prems(2) assms(4) adr_nz [OF r] by (auto simp: not_less)
  next
    case False
    then have "i \<le> j" using Suc.prems(1) by simp
    then have "unat (adr (heap s) bs i) \<le> unat (adr (heap s) bs j)"
      using words_take_mono [of i j bs] by (simp add: unat_adr [OF r])
    then have "adr (heap s) bs i < ptr" using assms(3) by (simp add: word_less_nat_alt)
    moreover have "blk_next s (adr (heap s) bs i) = adr (heap s) bs (Suc i)"
      using blocks_read(2) [OF assms(1), of i] \<open>i \<le> j\<close> assms(2) by simp
    moreover have "get_block_loop n s ptr (adr (heap s) bs i) (adr (heap s) bs (Suc i)) = Inr (adr (heap s) bs j)"
      by (rule Suc.IH) (use Suc.prems(3) \<open>i \<le> j\<close> in auto)
    ultimately show ?thesis using adr_nz [OF r, of i] by simp
  qed
qed simp

lemma get_block_loop_end:
  assumes "blocks s bs" "adr (heap s) bs (length bs - 1) < ptr"
  shows "i < length bs \<Longrightarrow> length bs - i < n \<Longrightarrow> get_block_loop n s ptr prev (adr (heap s) bs i) = Inr 0"
proof (induction n arbitrary: i prev)
  case (Suc n)
  note r = blocks_room [OF assms(1)]
  have "unat (adr (heap s) bs i) \<le> unat (adr (heap s) bs (length bs - 1))"
    using words_take_mono [of i "length bs - 1" bs] Suc.prems(1) by (simp add: unat_adr [OF r])
  then have c: "adr (heap s) bs i < ptr" "adr (heap s) bs i \<noteq> 0"
    using assms(2) adr_nz [OF r] by (simp_all add: word_less_nat_alt)
  show ?case
  proof (cases "Suc i = length bs")
    case True
    then have "blk_next s (adr (heap s) bs i) = 0" using blocks_read(2) [OF assms(1) Suc.prems(1)] by simp
    moreover obtain k where "n = Suc k" using Suc.prems True by (cases n) auto
    ultimately show ?thesis using c by simp
  next
    case False
    then have "blk_next s (adr (heap s) bs i) = adr (heap s) bs (Suc i)"
      using blocks_read(2) [OF assms(1) Suc.prems(1)] by simp
    moreover have "get_block_loop n s ptr (adr (heap s) bs i) (adr (heap s) bs (Suc i)) = Inr 0"
      by (rule Suc.IH) (use Suc.prems False in auto)
    ultimately show ?thesis using c by simp
  qed
qed simp

lemma heap_end: "blocks s bs \<Longrightarrow> unat (heap s + total_heap_size s * 8) = unat (heap s) + 8 * words_of bs"
proof -
  assume b: "blocks s bs"
  then have "unat (total_heap_size s * 8) = 8 * words_of bs"
    by (subst unat_mult_lem [THEN iffD1]) (simp_all add: blocks_def room_def)
  then show ?thesis using b by (subst unat_add_lem [THEN iffD1]) (simp_all add: blocks_def room_def)
qed

lemma in_heap_iff: "blocks s bs \<Longrightarrow> inHeapRange s ptr \<longleftrightarrow> unat (heap s) \<le> unat ptr \<and> unat ptr < unat (heap s) + 8 * words_of bs"
  by (simp add: inHeapRange_def word_le_nat_alt word_less_nat_alt heap_end)

lemma getBlock_loop: "blocks s bs \<Longrightarrow> inHeapRange s ptr \<Longrightarrow> getBlock s ptr = get_block_loop (heap_fuel s) s ptr (heap s) (heap s)"
  by (auto simp: getBlock_def inHeapRange_def blocks_def room_def)

text \<open>Every pointer into the heap is in a block, in its header or its words.\<close>

lemma pointer_block:
  assumes "blocks s bs" "inHeapRange s ptr"
  shows "\<exists>i < length bs. unat (adr (heap s) bs i) \<le> unat ptr \<and> unat ptr < unat (adr (heap s) bs (Suc i))"
proof -
  note r = blocks_room [OF assms(1)]
  let ?P = "\<lambda>i. i < length bs \<and> unat (adr (heap s) bs i) \<le> unat ptr"
  define j where "j = (GREATEST i. ?P i)"
  have ex: "?P 0" using assms r by (simp add: in_heap_iff [OF assms(1)] room_def)
  have bound: "\<And>y. ?P y \<Longrightarrow> y \<le> length bs" by simp
  have j: "?P j" unfolding j_def by (rule GreatestI_nat [where P = ?P and k = 0 and b = "length bs", OF ex bound])
  have "unat ptr < unat (adr (heap s) bs (Suc j))"
  proof (cases "Suc j = length bs")
    case True
    then show ?thesis using assms(2) by (simp add: in_heap_iff [OF assms(1)] unat_adr [OF r])
  next
    case False
    show ?thesis
    proof (rule ccontr)
      assume "\<not> ?thesis"
      then have "?P (Suc j)" using j False by simp
      then have "Suc j \<le> j" unfolding j_def by (rule Greatest_le_nat [where P = ?P and b = "length bs"]) (rule bound)
      then show False by simp
    qed
  qed
  then show ?thesis using j by blast
qed

lemma get_block_spec:
  assumes "blocks s bs" "i < length bs" "unat (adr (heap s) bs i) < unat ptr" "unat ptr \<le> unat (adr (heap s) bs (Suc i))"
    and "inHeapRange s ptr"
  shows "getBlock s ptr = Inr (if Suc i = length bs then 0 else adr (heap s) bs i)"
proof (cases "Suc i = length bs")
  case True
  then have i: "length bs - 1 = i" by simp
  have "get_block_loop (heap_fuel s) s ptr (heap s) (adr (heap s) bs 0) = Inr 0"
    by (rule get_block_loop_end [OF assms(1), unfolded i])
      (use assms(2,3) blocks_fuel [OF assms(1)] in \<open>auto simp: word_less_nat_alt\<close>)
  then show ?thesis using True getBlock_loop [OF assms(1,5)] by simp
next
  case False
  have "get_block_loop (heap_fuel s) s ptr (heap s) (adr (heap s) bs 0) = Inr (adr (heap s) bs i)"
    by (rule get_block_loop_spec [OF assms(1)])
      (use assms(2-4) False blocks_fuel [OF assms(1)] in \<open>auto simp: word_less_nat_alt word_le_nat_alt\<close>)
  then show ?thesis using False getBlock_loop [OF assms(1,5)] by simp
qed

lemma get_block_first: "blocks s bs \<Longrightarrow> getBlock s (heap s) = Inr (heap s)"
proof -
  assume b: "blocks s bs"
  have "0 < words_of bs" using b words_length [of bs] by (cases bs) (auto simp: blocks_def room_def)
  then have "inHeapRange s (heap s)" by (simp add: in_heap_iff [OF b])
  moreover have "heap s \<noteq> 0" using b by (simp add: blocks_def room_def)
  ultimately show ?thesis using getBlock_loop [OF b] by (simp add: heap_fuel_def)
qed

section \<open>Choosing a block\<close>

text \<open>What the search accepts: a free block whose size is at most three words short, as a comparison of
  unsigned words.\<close>

definition accepts :: "u64 \<Rightarrow> blk \<Rightarrow> bool" where
  "accepts sz b \<longleftrightarrow> \<not> b_alloc b \<and> sz - 3 \<le> of_nat (b_size b)"

definition first_fit :: "u64 \<Rightarrow> blk list \<Rightarrow> nat option" where
  "first_fit sz bs = find (\<lambda>i. accepts sz (bs ! i)) [0..<length bs]"

lemma next_block_loop_spec:
  assumes "blocks s bs"
  shows "i < length bs \<Longrightarrow> length bs - i < n \<Longrightarrow> next_block_loop n s sz (adr (heap s) bs i) =
    Inr (case find (\<lambda>i. accepts sz (bs ! i)) [i..<length bs] of None \<Rightarrow> 0 | Some j \<Rightarrow> adr (heap s) bs j)"
proof (induction n arbitrary: i)
  case (Suc n)
  note r = blocks_room [OF assms]
  have h: "blk_info s (adr (heap s) bs i) = info_of (bs ! i)" by (rule blocks_read(1) [OF assms Suc.prems(1)])
  have c: "blk_info s (adr (heap s) bs i) AND SIZE_MASK \<ge> sz - BLOCK_SIZE \<and> blk_info s (adr (heap s) bs i) AND ALLOC_BIT = 0
      \<longleftrightarrow> accepts sz (bs ! i)"
    unfolding h by (auto simp: info_size [OF r Suc.prems(1)] info_flags accepts_def BLOCK_SIZE_def)
  have u: "[i..<length bs] = i # [Suc i..<length bs]" using Suc.prems(1) by (rule upt_conv_Cons)
  show ?case
  proof (cases "accepts sz (bs ! i)")
    case True
    then show ?thesis using c adr_nz [OF r] unfolding u by simp
  next
    case False
    note nx = blocks_read(2) [OF assms Suc.prems(1)]
    have "next_block_loop n s sz (blk_next s (adr (heap s) bs i)) =
        Inr (case find (\<lambda>i. accepts sz (bs ! i)) [Suc i..<length bs] of None \<Rightarrow> 0 | Some j \<Rightarrow> adr (heap s) bs j)"
    proof (cases "Suc i = length bs")
      case True
      then obtain k where "n = Suc k" using Suc.prems by (cases n) auto
      then show ?thesis using True nx by simp
    next
      case False
      then show ?thesis using nx Suc.IH [of "Suc i"] Suc.prems by simp
    qed
    then show ?thesis using False c adr_nz [OF r] unfolding u by auto
  qed
qed simp

lemma next_block_spec:
  assumes "blocks s bs"
  shows "nextBlockOfSize s sz = Inr (case first_fit sz bs of None \<Rightarrow> 0 | Some j \<Rightarrow> adr (heap s) bs j)"
proof -
  have "0 < length bs" using assms by (simp add: blocks_def room_def)
  from next_block_loop_spec [OF assms this, of "heap_fuel s" sz] show ?thesis
    using blocks_fuel [OF assms] by (simp add: nextBlockOfSize_def first_fit_def)
qed

lemma first_fit_Some: "first_fit sz bs = Some i \<Longrightarrow> i < length bs \<and> accepts sz (bs ! i) \<and> (\<forall>j < i. \<not> accepts sz (bs ! j))"
  by (auto simp: first_fit_def find_Some_iff)

section \<open>Cutting a block\<close>

text \<open>A block of \<open>n\<close> words taken from the front of a free block: the rest becomes a block when it has at
  least one word.\<close>

definition cut :: "nat \<Rightarrow> u64 \<Rightarrow> blk \<Rightarrow> blk list" where
  "cut n fin b = (if 4 \<le> b_size b - n
     then [\<lparr>b_size = n, b_alloc = True, b_mark = False, b_fin = fin\<rparr>,
           \<lparr>b_size = b_size b - n - 3, b_alloc = False, b_mark = False, b_fin = 0\<rparr>]
     else [\<lparr>b_size = b_size b, b_alloc = True, b_mark = False, b_fin = fin\<rparr>])"

lemma take_block_spec:
  assumes bl: "blocks s (xs @ b # ys)" and p: "p = plus_words (heap s) (words_of xs)"
    and n: "unat sz \<le> b_size b"
  shows "\<exists>s'. take_block p sz fin s = (p + 24, s') \<and> blocks s' (xs @ cut (unat sz) fin b @ ys) \<and> s' = s\<lparr>mem := mem s'\<rparr> \<and>
    (\<forall>y. unat y < unat p \<or> unat (after_blk p b) \<le> unat y \<longrightarrow> mem s' y = mem s y)"
proof -
  note m = middle [OF bl p]
  have r: "room (heap s) (xs @ b # ys)" by (rule blocks_room [OF bl])
  let ?i = "length xs"
  have i: "?i < length (xs @ b # ys)" "(xs @ b # ys) ! ?i = b" "adr (heap s) (xs @ b # ys) ?i = p"
    by (simp_all add: p)
  have info: "blk_info s p = info_of b" using blocks_read(1) [OF bl i(1)] unfolding i .
  have sm: "blk_info s p AND SIZE_MASK = of_nat (b_size b)" using info_size [OF r i(1)] by (simp only: info i)
  have sb: "b_size b < 2 ^ 61" using size_bound [OF r i(1)] by simp
  let ?k = "b_size b - unat sz"
  have d: "of_nat (b_size b) - sz = of_nat ?k" using n by (simp add: of_nat_diff)
  have ge: "of_nat (b_size b) - sz \<ge> BLOCK_SIZE + 1 \<longleftrightarrow> 4 \<le> ?k"
    using sb by (simp add: d BLOCK_SIZE_def word_le_nat_alt unat_of_small)
  have apx: "apart p (p + 8)" "apart p (p + 16)" "apart (p + 8) p" "apart (p + 8) (p + 16)" "apart (p + 16) p"
      "apart (p + 16) (p + 8)"
    using same_block_apart [of p] m(2,3) by simp_all
  have u: "unat (p + 8) = unat p + 8" "unat (p + 16) = unat p + 16"
    using m(2,3) by (simp_all add: unat_add_lem [THEN iffD1])
  show ?thesis
  proof (cases "4 \<le> ?k")
    case False
    let ?b = "\<lparr>b_size = b_size b, b_alloc = True, b_mark = False, b_fin = fin\<rparr>"
    let ?s = "set_finalizer p fin (set_info p (infoMake True False (of_nat (b_size b))) s)"
    have f: "unat p \<le> unat p" "unat p + 8 \<le> unat (after_blk p b)" "unat p \<le> unat (p + 16)"
        "unat (p + 16) + 8 \<le> unat (after_blk p b)" using m(2) u by simp_all
    have t: "take_block p sz fin s = (p + 24, ?s)" using False ge sm by (simp add: take_block_def)
    have q: "after_blk p ?b = after_blk p b" by (simp add: after_blk_def)
    have "blocks ?s (xs @ [?b] @ ys)"
      by (rule blocks_middle [OF bl p])
        (use m(5,6,7) apx in \<open>simp_all add: set_info_def set_finalizer_def hdr_at_def info_of_def
          frame_middle [OF bl p f(1,2)] frame_middle [OF bl p f(3,4)]\<close>)
    then have "blocks ?s (xs @ cut (unat sz) fin b @ ys)" using False by (simp add: cut_def)
    moreover have "?s = s\<lparr>mem := mem ?s\<rparr>" by (simp add: set_info_def set_finalizer_def)
    moreover have "\<forall>y. unat y < unat p \<or> unat (after_blk p b) \<le> unat y \<longrightarrow> mem ?s y = mem s y"
      using f m(3) unfolding mem_set by (auto simp: wr64_outside)
    ultimately show ?thesis using t by (intro exI [of _ ?s]) blast
  next
    case True
    let ?b1 = "\<lparr>b_size = unat sz, b_alloc = True, b_mark = False, b_fin = fin\<rparr>"
    let ?b2 = "\<lparr>b_size = ?k - 3, b_alloc = False, b_mark = False, b_fin = 0\<rparr>"
    define new where "new = p + 8 * (BLOCK_SIZE + sz)"
    have new: "new = after_blk p ?b1"
      by (simp add: new_def after_blk_def plus_words_def BLOCK_SIZE_def)
    have un: "unat new = unat p + 24 + 8 * unat sz"
      unfolding new after_blk_def using m(2,3) n by (subst unat_plus_words) simp_all
    have q: "after_blk new ?b2 = after_blk p b"
      unfolding new after_blk_def using True n by simp
    have un2: "unat (new + 8) = unat new + 8" "unat (new + 16) = unat new + 16" "unat new + 24 < unat (after_blk p b)"
      using m(2,3) un True by (simp_all add: unat_add_lem [THEN iffD1])
    have nn: "apart new (new + 8)" "apart new (new + 16)" "apart (new + 8) new" "apart (new + 8) (new + 16)"
        "apart (new + 16) new" "apart (new + 16) (new + 8)"
      using same_block_apart [of new] un2(3) m(3) by simp_all
    have ap: "apart x y \<and> apart y x" if "x \<in> {p, p + 8, p + 16}" "y \<in> {new, new + 8, new + 16}" for x y
      by (rule apart_if) (use that u un un2 m(3) in auto)
    have pn: "apart p new" "apart p (new + 8)" "apart p (new + 16)" "apart (p + 8) new" "apart (p + 8) (new + 8)" "apart (p + 8) (new + 16)" "apart (p + 16) new" "apart (p + 16) (new + 8)" "apart (p + 16) (new + 16)"
      by (rule conjunct1 [OF ap]; simp)+
    have np: "apart new p" "apart (new + 8) p" "apart (new + 16) p" "apart new (p + 8)" "apart (new + 8) (p + 8)" "apart (new + 16) (p + 8)" "apart new (p + 16)" "apart (new + 8) (p + 16)" "apart (new + 16) (p + 16)"
      by (rule conjunct2 [OF ap]; simp)+
    have word_unat_eq: "of_nat (unat sz) = sz" by simp
    let ?sa = "set_finalizer new 0 (set_next new (if ys = [] then 0 else after_blk p b)
        (set_info new (infoMake False False (of_nat (?k - 3))) s))"
    let ?s = "set_finalizer p fin (set_next p new (set_info p (infoMake True False sz) ?sa))"
    have nx: "blk_next (set_info new w s) p = (if ys = [] then 0 else after_blk p b)" for w
      using m(6) ap [of "p + 8" new] by (simp add: blk_next_def set_info_def hdr_at_def)
    have kk: "of_nat ?k - BLOCK_SIZE = of_nat (?k - 3)" using True by (simp add: BLOCK_SIZE_def of_nat_diff)
    have ge': "BLOCK_SIZE + 1 \<le> of_nat ?k \<longleftrightarrow> True" using True ge unfolding d by simp
    have t: "take_block p sz fin s = (p + 24, ?s)"
      unfolding take_block_def Let_def sm d ge' if_True new_def [symmetric] kk
      by (simp only: nx)
    have f: "unat p \<le> unat x \<and> unat x + 8 \<le> unat (after_blk p b)"
      if "x \<in> {p, p + 8, p + 16, new, new + 8, new + 16}" for x
      using that m(2) u un un2 by auto
    have fr: "layout (wr64 mm x w) (heap s) xs e = layout mm (heap s) xs e"
        "layout (wr64 mm x w) (after_blk p b) ys e = layout mm (after_blk p b) ys e"
      if "x \<in> {p, p + 8, p + 16, new, new + 8, new + 16}" for x mm w e
      using frame_middle [OF bl p] f [OF that] by blast+
    have "blocks ?s (xs @ [?b1, ?b2] @ ys)"
    proof (rule blocks_middle [OF bl p])
      show "?s = s\<lparr>mem := mem ?s\<rparr>" by (simp add: set_info_def set_next_def set_finalizer_def)
      show "words_of [?b1, ?b2] = 3 + b_size b" using True n by simp
      show "layout (mem ?s) (heap s) xs p" "layout (mem ?s) (after_blk p b) ys 0"
        using m(5,7) by (simp_all add: set_info_def set_next_def set_finalizer_def fr)
      show "layout (mem ?s) p [?b1, ?b2] (if ys = [] then 0 else after_blk p b)"
        unfolding layout.simps new [symmetric] hdr_at_def info_of_def mem_set
        by (simp only: q rd_wr_same rd_wr_apart apx nn pn np blk.simps list.distinct if_False if_True simp_thms word_unat_eq)
    qed simp
    then have "blocks ?s (xs @ cut (unat sz) fin b @ ys)" using True by (simp add: cut_def)
    moreover have "?s = s\<lparr>mem := mem ?s\<rparr>" by (simp add: set_info_def set_next_def set_finalizer_def)
    moreover have "mem ?s y = mem s y" if "unat y < unat p \<or> unat (after_blk p b) \<le> unat y" for y
    proof -
      have o: "wr64 mm x w y = mm y" if "x \<in> {p, p + 8, p + 16, new, new + 8, new + 16}" for x mm w
        by (rule wr64_outside) (use f [OF that] m(3) \<open>unat y < unat p \<or> unat (after_blk p b) \<le> unat y\<close> in auto)
      show ?thesis unfolding mem_set by (simp add: o)
    qed
    ultimately show ?thesis using t by (intro exI [of _ ?s]) blast
  qed
qed

section \<open>Allocation\<close>

definition set_stack :: "u64 \<Rightarrow> u64 \<Rightarrow> gc \<Rightarrow> gc" where
  "set_stack rsp rbp s = s\<lparr>stack_top := rsp, frame_bottom := rbp\<rparr>"

lemma set_stack_simps [simp]:
  "blocks (set_stack rsp rbp s) bs = blocks s bs" "heap (set_stack rsp rbp s) = heap s"
  "mem (set_stack rsp rbp s) = mem s"
  by (simp_all add: set_stack_def blocks_def)

lemma split_at: "i < length bs \<Longrightarrow> bs ! i = b \<Longrightarrow> bs = take i bs @ b # drop (Suc i) bs"
  by (metis id_take_nth_drop)

lemma allocate_first_fit:
  assumes "blocks s bs" "\<not> in_finalize_call s" "first_fit sz bs = Some i"
  shows "memAllocate F E rsp rbp sz fin s = Inr (take_block (adr (heap s) bs i) sz fin (set_stack rsp rbp s))"
proof -
  have i: "i < length bs" using first_fit_Some [OF assms(3)] by simp
  have b: "blocks (set_stack rsp rbp s) bs" using assms(1) by simp
  have "nextBlockOfSize (set_stack rsp rbp s) sz = Inr (adr (heap s) bs i)"
    unfolding next_block_spec [OF b] by (simp add: assms(3))
  moreover have "initialized s = 1" using assms(1) by (simp add: blocks_def)
  ultimately show ?thesis
    using assms(2) adr_nz [OF blocks_room [OF assms(1)]] by (simp add: memAllocate_def Let_def flip: set_stack_def)
qed

lemma memAllocate_fits:
  assumes "blocks s bs" "\<not> in_finalize_call s" "first_fit sz bs = Some i" "unat sz \<le> b_size (bs ! i)"
  shows "\<exists>s'. memAllocate F E rsp rbp sz fin s = Inr (adr (heap s) bs i + 24, s') \<and>
    blocks s' (take i bs @ cut (unat sz) fin (bs ! i) @ drop (Suc i) bs) \<and> s' = (set_stack rsp rbp s)\<lparr>mem := mem s'\<rparr> \<and>
    (\<forall>y. unat y < unat (adr (heap s) bs i) \<or> unat (adr (heap s) bs (Suc i)) \<le> unat y \<longrightarrow> mem s' y = mem s y)"
proof -
  have i: "i < length bs" using first_fit_Some [OF assms(3)] by simp
  note sp = split_at [OF i refl]
  have b: "blocks (set_stack rsp rbp s) (take i bs @ bs ! i # drop (Suc i) bs)" using assms(1) sp by simp
  have p: "adr (heap s) bs i = plus_words (heap (set_stack rsp rbp s)) (words_of (take i bs))" by (simp add: adr_def)
  have q: "after_blk (adr (heap s) bs i) (bs ! i) = adr (heap s) bs (Suc i)"
    using i by (simp add: after_blk_def adr_def words_take_Suc)
  from take_block_spec [OF b p assms(4), of fin] show ?thesis
    unfolding allocate_first_fit [OF assms(1-3)] q by auto
qed

text \<open>A block that is one to three words too small is taken as well: the header of the rest is written
  behind its end.\<close>

lemma accepts_short: "accepts sz b \<Longrightarrow> b_size b < unat sz \<Longrightarrow> b_size b < 2 ^ 61 \<Longrightarrow> unat sz \<le> b_size b + 3 \<and> 3 \<le> unat sz"
proof -
  assume a: "accepts sz b" "b_size b < unat sz" "b_size b < 2 ^ 61"
  then have "unat (sz - 3) \<le> b_size b" by (simp add: accepts_def word_le_nat_alt unat_of_small)
  moreover have "unat (sz - 3) = (if 3 \<le> unat sz then unat sz - 3 else 2 ^ 64 + unat sz - 3)"
    by (simp add: unat_sub_if_size word_size word_le_nat_alt; linarith)
  ultimately show ?thesis using a(3) by (simp split: if_splits)
qed

lemma small_never_accepted: "unat sz < 3 \<Longrightarrow> b_size b < 2 ^ 61 \<Longrightarrow> \<not> accepts sz b"
proof
  assume a: "unat sz < 3" "b_size b < 2 ^ 61" "accepts sz b"
  then have "unat (sz - 3) \<le> b_size b" by (simp add: accepts_def word_le_nat_alt unat_of_small)
  moreover have "unat (sz - 3) = 2 ^ 64 + unat sz - 3"
    using a(1) by (simp add: unat_sub_if_size word_size word_le_nat_alt; linarith)
  ultimately show False using a(2) by simp
qed

lemma memAllocate_short:
  assumes "blocks s bs" "\<not> in_finalize_call s" "first_fit sz bs = Some i" "b_size (bs ! i) < unat sz"
    and "unat (heap s) + 8 * words_of bs + 48 \<le> 2 ^ 64"
  shows "\<exists>s' new. memAllocate F E rsp rbp sz fin s = Inr (adr (heap s) bs i + 24, s') \<and>
    unat new = unat (adr (heap s) bs i) + 24 + 8 * unat sz \<and> unat (adr (heap s) bs (Suc i)) < unat new \<and>
    unat new \<le> unat (adr (heap s) bs (Suc i)) + 24 \<and>
    blk_info s' new = infoMake False False (of_nat (b_size (bs ! i)) - sz - 3) \<and> blk_finalizer s' new = 0 \<and>
    blk_next s' (adr (heap s) bs i) = new \<and> blk_info s' (adr (heap s) bs i) = infoMake True False sz"
proof -
  have i: "i < length bs" and acc: "accepts sz (bs ! i)" using first_fit_Some [OF assms(3)] by simp_all
  note r = blocks_room [OF assms(1)]
  have sb: "b_size (bs ! i) < 2 ^ 61" by (rule size_bound [OF r i])
  note sh = accepts_short [OF acc assms(4) sb]
  define p where "p = adr (heap s) bs i"
  define new where "new = p + 8 * (BLOCK_SIZE + sz)"
  have up: "unat p + 24 + 8 * b_size (bs ! i) = unat (adr (heap s) bs (Suc i))"
    unfolding p_def using adr_end(1) [OF r i] by (simp add: unat_adr [OF r])
  have e: "unat (adr (heap s) bs (Suc i)) + 48 \<le> 2 ^ 64"
    using assms(5) words_take_le [of "Suc i" bs] by (simp add: unat_adr [OF r])
  have nw: "new = plus_words p (3 + unat sz)" by (simp add: new_def plus_words_def BLOCK_SIZE_def)
  then have un: "unat new = unat p + 24 + 8 * unat sz"
    using up e sh by (subst nw, subst unat_plus_words) simp_all
  let ?s = "set_stack rsp rbp s"
  have bi: "blk_info ?s p AND SIZE_MASK = of_nat (b_size (bs ! i))"
    using blocks_read(1) [OF assms(1) i] info_size [OF r i] by (simp add: p_def blk_info_def)
  have "unat (of_nat (b_size (bs ! i)) - sz) = 2 ^ 64 + b_size (bs ! i) - unat sz"
    using assms(4) sb by (simp add: unat_sub_if_size word_size word_le_nat_alt unat_of_small; linarith)
  then have big: "BLOCK_SIZE + 1 \<le> of_nat (b_size (bs ! i)) - sz"
    using sh sb by (simp add: BLOCK_SIZE_def word_le_nat_alt; linarith)
  define n where "n = blk_next (set_info new (infoMake False False (of_nat (b_size (bs ! i)) - sz - BLOCK_SIZE)) ?s) p"
  define s' where "s' = set_finalizer p fin (set_next p new (set_info p (infoMake True False sz) (set_finalizer new 0
     (set_next new n (set_info new (infoMake False False (of_nat (b_size (bs ! i)) - sz - BLOCK_SIZE)) ?s)))))"
  have t: "take_block p sz fin ?s = (p + 24, s')"
    using big unfolding take_block_def Let_def bi new_def [symmetric] s'_def n_def by (simp only: if_True)
  have al: "memAllocate F E rsp rbp sz fin s = Inr (p + 24, s')"
    unfolding allocate_first_fit [OF assms(1-3)] p_def [symmetric] t ..
  have u: "unat (p + 8) = unat p + 8" "unat (p + 16) = unat p + 16" "unat (new + 8) = unat new + 8" "unat (new + 16) = unat new + 16"
    using up e un sh by (simp_all add: unat_add_lem [THEN iffD1])
  have ap: "apart x y \<and> apart y x" if "x \<in> {p, p + 8, p + 16}" "y \<in> {new, new + 8, new + 16}" for x y
    by (rule apart_if) (use that u un e up sh in auto)
  have apx: "apart (p + 8) p" "apart (p + 16) p" "apart (p + 16) (p + 8)"
    using same_block_apart [of p] e up by simp_all
  have nn: "apart (new + 8) new" "apart (new + 16) new"
    using same_block_apart [of new] e up un sh by simp_all
  have pn: "apart p new" "apart (p + 8) new" "apart (p + 16) new" "apart p (new + 16)" "apart (p + 8) (new + 16)"
      "apart (p + 16) (new + 16)"
    by (rule conjunct1 [OF ap]; simp)+
  have three: "BLOCK_SIZE = 3" by (rule BLOCK_SIZE_def)
  have f: "blk_info s' new = infoMake False False (of_nat (b_size (bs ! i)) - sz - 3)" "blk_finalizer s' new = 0"
      "blk_next s' p = new" "blk_info s' p = infoMake True False sz"
    unfolding s'_def blk_info_def blk_next_def blk_finalizer_def mem_set three
    by (simp_all only: rd_wr_same rd_wr_apart apx nn pn)
  have w: "unat (adr (heap s) bs (Suc i)) < unat new" "unat new \<le> unat (adr (heap s) bs (Suc i)) + 24"
    using un up assms(4) sh by simp_all
  show ?thesis
    by (rule exI [of _ s'], rule exI [of _ new]) (use al f w un in \<open>simp add: p_def\<close>)
qed

section \<open>Initialisation\<close>

lemma infoMake_free: "n < 2 ^ 62 \<Longrightarrow> infoMake False False (of_nat n) = info_of \<lparr>b_size = n, b_alloc = False, b_mark = False, b_fin = f\<rparr>"
  by (simp add: info_of_def)

lemma memInitialize_blocks:
  assumes "initialized s = 0" "3 \<le> unat sz" "unat sz * 6 < 2 ^ 64" "unat sz * 6 div 5 < 2 ^ 61"
    and "calloc_at E (of_nat (unat sz * 6 div 5)) = a" "a \<noteq> 0" "unat a + 8 * (unat sz * 6 div 5) < 2 ^ 64"
  shows "\<exists>s'. memInitialize E rsp rbp sz s = (1, s') \<and>
    blocks s' [\<lparr>b_size = unat sz * 6 div 5 - 3, b_alloc = False, b_mark = False, b_fin = 0\<rparr>] \<and>
    heap s' = a \<and> stack_top s' = rsp \<and> frame_bottom s' = rbp \<and> in_finalize_call s' = in_finalize_call s"
proof -
  let ?n = "unat sz * 6 div 5"
  have n: "3 \<le> ?n" using assms(2) by linarith
  have "unat (sz * 6) = unat sz * 6" using assms(3) by (subst unat_mult_lem [THEN iffD1]) simp_all
  then have un: "unat (sz * 6 div 5) = ?n" by (simp add: unat_div)
  have tot: "sz * 6 div 5 = of_nat ?n" by (simp flip: un)
  have c: "calloc_at E (sz * 6 div 5) = a" unfolding tot by (rule assms(5))
  have z: "sz \<noteq> 0" using assms(2) by auto
  have sz: "\<not> SIZE_MASK < sz" using assms(3) by (simp add: SIZE_MASK_def word_less_nat_alt)
  define m where "m = (\<lambda>x. if unat (x - a) < 8 * unat (sz * 6 div 5) then 0 else mem s x)"
  define s' where "s' = (set_finalizer a 0 (set_next a 0 (set_info a (infoMake False False (sz * 6 div 5 - BLOCK_SIZE))
     (s\<lparr>initialized := -1, total_heap_size := sz * 6 div 5, heap := a, mem := m\<rparr>))))\<lparr>stack_top := rsp, frame_bottom := rbp, initialized := 1\<rparr>"
  have run: "memInitialize E rsp rbp sz s = (1, s')"
    using assms(1,6) z sz unfolding memInitialize_def Let_def s'_def m_def by (simp add: c cong: if_cong)
  let ?b = "\<lparr>b_size = ?n - 3, b_alloc = False, b_mark = False, b_fin = 0\<rparr>"
  have ap: "apart (a + 8) a" "apart (a + 16) a" "apart (a + 16) (a + 8)"
    using same_block_apart [of a] assms(7) n by simp_all
  have i: "sz * 6 div 5 - BLOCK_SIZE = of_nat (?n - 3)" using n by (simp add: tot BLOCK_SIZE_def of_nat_diff)
  have ms: "mem s' = wr64 (wr64 (wr64 m a (infoMake False False (of_nat (?n - 3)))) (a + 8) 0) (a + 16) 0"
    unfolding s'_def by (simp add: mem_set i)
  have "hdr_at (mem s') a ?b 0"
    unfolding hdr_at_def ms info_of_def by (simp only: rd_wr_same rd_wr_apart ap blk.simps simp_thms)
  moreover have "heap s' = a" "initialized s' = 1" "total_heap_size s' = sz * 6 div 5" "stack_top s' = rsp"
      "frame_bottom s' = rbp" "in_finalize_call s' = in_finalize_call s"
    by (simp_all add: s'_def set_finalizer_def set_next_def set_info_def)
  moreover have "words_of [?b] = ?n" using n by simp
  ultimately have "blocks s' [?b]" using assms(4,6,7) un unfolding blocks_def room_def by simp
  then show ?thesis
    using run \<open>heap s' = a\<close> \<open>stack_top s' = rsp\<close> \<open>frame_bottom s' = rbp\<close> \<open>in_finalize_call s' = _\<close> by blast
qed

end
