(* ===== verification/Alloc_Sweep.thy ===== *)
theory Alloc_Sweep
  imports Alloc_Blocks
begin

text \<open>
  The sweep of A4/alloc.c. Its abstract specification \<open>swept\<close> turns every run of unmarked blocks into
  one free block; \<open>sweep_exact_spec\<close> shows that the loop over the headers in memory does just this,
  changes no byte outside the headers, and counts the growth of the free space.
\<close>

section \<open>The bytes of the headers\<close>

fun hdrs :: "u64 \<Rightarrow> blk list \<Rightarrow> u64 set" where
  "hdrs a [] = {}"
| "hdrs a (b # bs) = {y. unat (y - a) < 24} \<union> hdrs (after_blk a b) bs"

lemma hdrs_append: "hdrs a (xs @ ys) = hdrs a xs \<union> hdrs (plus_words a (words_of xs)) ys"
  by (induction xs arbitrary: a) (auto simp: after_blk_def)

lemma wr64_off: "unat (y - p) \<ge> 24 \<Longrightarrow> k \<in> {0, 8, 16} \<Longrightarrow> wr64 m (p + k) w y = m y"
proof -
  assume a: "unat (y - p) \<ge> 24" "k \<in> {0, 8, 16}"
  then have k: "unat k \<le> 16" by auto
  have e: "y - (p + k) = (y - p) - k" by simp
  have "unat (y - (p + k)) = unat (y - p) - unat k"
    unfolding e by (rule unat_sub) (use a k in \<open>simp add: word_le_nat_alt\<close>)
  then have "\<not> unat (y - (p + k)) < 8" using a(1) k by linarith
  then show ?thesis unfolding wr64_def by (simp only: if_False)
qed

lemma set_off:
  assumes "unat (y - p) \<ge> 24"
  shows "mem (set_info p w s) y = mem s y" "mem (set_next p w s) y = mem s y" "mem (set_finalizer p w s) y = mem s y"
  using wr64_off [OF assms, of 0] wr64_off [OF assms, of 8] wr64_off [OF assms, of 16] by (simp_all add: mem_set)

text \<open>Only memory changes, and only inside a set of bytes.\<close>

definition only_mem :: "u64 set \<Rightarrow> gc \<Rightarrow> gc \<Rightarrow> bool" where
  "only_mem H s s' \<longleftrightarrow> s' = s\<lparr>mem := mem s'\<rparr> \<and> (\<forall>y. y \<notin> H \<longrightarrow> mem s' y = mem s y)"

lemma only_mem_refl [simp]: "only_mem H s s"
  by (simp add: only_mem_def)

lemma only_mem_fields:
  "only_mem H s s' \<Longrightarrow> heap s' = heap s \<and> initialized s' = initialized s \<and> total_heap_size s' = total_heap_size s \<and>
     in_finalize_call s' = in_finalize_call s \<and> stack_top s' = stack_top s \<and> frame_bottom s' = frame_bottom s"
  unfolding only_mem_def by (metis gc.ext_inject gc.surjective gc.update_convs(1))

lemma only_mem_trans: "only_mem H s t \<Longrightarrow> only_mem H t u \<Longrightarrow> only_mem H s u"
  unfolding only_mem_def by (cases s; cases t; cases u) simp

lemma only_mem_mono: "only_mem G s t \<Longrightarrow> G \<subseteq> H \<Longrightarrow> only_mem H s t"
  by (auto simp: only_mem_def)

lemma outside_hdr: "{y. unat (y - a) < 24} \<subseteq> H \<Longrightarrow> y \<notin> H \<Longrightarrow> 24 \<le> unat (y - a)"
  by (metis mem_Collect_eq not_less subsetD)

lemma only_mem_info: "{y. unat (y - a) < 24} \<subseteq> H \<Longrightarrow> only_mem H s (set_info a w s)"
proof -
  assume h: "{y. unat (y - a) < 24} \<subseteq> H"
  have "mem (set_info a w s) y = mem s y" if "y \<notin> H" for y
    by (rule set_off) (rule outside_hdr [OF h that])
  then show ?thesis by (simp add: only_mem_def, simp add: set_info_def)
qed

section \<open>Replacing a part of the heap\<close>

lemma blocks_replace:
  assumes "blocks s (xs @ ws @ ys)" "ws \<noteq> []" "zs \<noteq> []" "words_of zs = words_of ws"
    and "heap s' = heap s" "initialized s' = initialized s" "total_heap_size s' = total_heap_size s"
    and "layout (mem s') (heap s) xs (plus_words (heap s) (words_of xs))"
    and "layout (mem s') (plus_words (heap s) (words_of xs)) zs (if ys = [] then 0 else plus_words (heap s) (words_of (xs @ ws)))"
    and "layout (mem s') (plus_words (heap s) (words_of (xs @ ws))) ys 0"
  shows "blocks s' (xs @ zs @ ys)"
proof -
  have "layout (mem s') (heap s) (xs @ zs) (if ys = [] then 0 else plus_words (heap s) (words_of (xs @ ws)))"
    unfolding layout_append using assms(3,8,9) by simp
  then have "layout (mem s') (heap s) ((xs @ zs) @ ys) 0"
    unfolding layout_append [of _ _ "xs @ zs" ys] using assms(4,10) by (cases "ys = []") simp_all
  moreover have "room (heap s) (xs @ zs @ ys)" "unat (total_heap_size s) = words_of (xs @ zs @ ys)"
    using assms(1-4) by (simp_all add: blocks_def room_def)
  ultimately show ?thesis using assms(1,5-7) by (simp add: blocks_def)
qed

definition merged :: "blk \<Rightarrow> blk \<Rightarrow> blk" where
  "merged p b = p\<lparr>b_size := b_size p + 3 + b_size b\<rparr>"

definition merge :: "u64 \<Rightarrow> u64 \<Rightarrow> gc \<Rightarrow> gc" where
  "merge prev cur s =
     (let prev_size = blk_info s prev AND SIZE_MASK;
          s = set_info prev (blk_info s prev AND NOT SIZE_MASK) s;
          prev_size = prev_size + (BLOCK_SIZE + (blk_info s cur AND SIZE_MASK));
          s = set_info prev (blk_info s prev OR (prev_size AND SIZE_MASK)) s
      in set_next prev (blk_next s cur) s)"

lemma merge_blocks:
  assumes bl: "blocks s (xs @ p # b # ys)" and a: "a = plus_words (heap s) (words_of xs)" and c: "c = after_blk a p"
  shows "blocks (merge a c s) (xs @ merged p b # ys)"
    and "blk_next (merge a c s) c = (if ys = [] then 0 else after_blk c b)"
    and "heap (merge a c s) = heap s"
    and "{y. unat (y - a) < 24} \<subseteq> H \<Longrightarrow> only_mem H s (merge a c s)"
proof -
  have bl': "blocks s ((xs @ [p]) @ b # ys)" using bl by simp
  have c': "c = plus_words (heap s) (words_of (xs @ [p]))" by (simp add: c a after_blk_def)
  note m = middle [OF bl a] and n = middle [OF bl' c']
  have r: "room (heap s) (xs @ p # b # ys)" by (rule blocks_room [OF bl])
  have i: "length xs < length (xs @ p # b # ys)" "(xs @ p # b # ys) ! length xs = p"
    and j: "Suc (length xs) < length (xs @ p # b # ys)" "(xs @ p # b # ys) ! Suc (length xs) = b"
    by (simp_all add: nth_append)
  have ip: "blk_info s a = info_of p" and ic: "blk_info s c = info_of b"
    using m(6) n(6) by (simp_all add: blk_info_def hdr_at_def)
  have sp: "info_of p AND SIZE_MASK = of_nat (b_size p)" using info_size [OF r i(1)] unfolding i(2) .
  have sb: "info_of b AND SIZE_MASK = of_nat (b_size b)" using info_size [OF r j(1)] unfolding j(2) .
  have apa: "apart a (a + 8)" "apart a (a + 16)" "apart (a + 8) a" "apart (a + 8) (a + 16)"
    using same_block_apart [of a] m(2,3) by simp_all
  have ua: "unat (a + 8) = unat a + 8" using m(2,3) by (simp add: unat_add_lem [THEN iffD1])
  have uc: "unat c = unat a + 24 + 8 * b_size p" unfolding c by (rule m(2))
  have uc8: "unat (c + 8) = unat c + 8" "unat c + 24 + 8 * b_size b < 2 ^ 64" using n(2,3) by (simp_all add: unat_add_lem [THEN iffD1])
  have ac: "apart a c" "apart a (c + 8)" "apart (a + 8) c" "apart (a + 8) (c + 8)"
    by (rule conjunct1 [OF apart_if]; use ua uc uc8 in simp)+
  have nx: "rd64 (mem s) (c + 8) = (if ys = [] then 0 else after_blk c b)"
    using n(6) by (simp add: hdr_at_def)
  define w where "w = of_nat (b_size p) + (BLOCK_SIZE + of_nat (b_size b) :: u64)"
  have we: "w = of_nat (b_size (merged p b))" by (simp add: w_def merged_def BLOCK_SIZE_def)
  have i1: "(info_of p AND NOT SIZE_MASK) OR (w AND SIZE_MASK) = info_of (merged p b)"
    by (simp add: info_of_def infoMake_bits flip: we, simp add: merged_def)
  have e: "merge a c s = set_next a (if ys = [] then 0 else after_blk c b) (set_info a (info_of (merged p b)) (set_info a (info_of p AND NOT SIZE_MASK) s))"
  proof -
    have r1: "blk_info (set_info a v s) a = v" "blk_info (set_info a v s) c = info_of b" for v
      using ic ac by (simp_all add: blk_info_def mem_set)
    have r2: "blk_next (set_info a v (set_info a u s)) c = (if ys = [] then 0 else after_blk c b)" for u v
      using nx ac by (simp add: blk_next_def mem_set)
    show ?thesis unfolding merge_def Let_def ip r1 sp sb w_def [symmetric] i1 r2 ..
  qed
  show h: "heap (merge a c s) = heap s" unfolding e by simp
  have g: "merge a c s = s\<lparr>mem := mem (merge a c s)\<rparr>" unfolding e by (simp add: set_next_def set_info_def)
  have off: "unat (y - a) \<ge> 24 \<Longrightarrow> mem (merge a c s) y = mem s y" for y
    unfolding e by (simp add: set_off)
  show "{y. unat (y - a) < 24} \<subseteq> H \<Longrightarrow> only_mem H s (merge a c s)"
    unfolding only_mem_def using g off [OF outside_hdr] by blast
  have f: "unat x + 8 \<le> 2 ^ 64" "unat (heap s) + 8 * words_of xs \<le> unat x" "unat x + 8 \<le> unat (after_blk c b)"
    if "x \<in> {a, a + 8}" for x
    using that ua m(1) uc uc8 n(2) by auto
  have fr: "layout (wr64 mm x v) (heap s) xs e' = layout mm (heap s) xs e'"
    "layout (wr64 mm x v) (after_blk c b) ys e' = layout mm (after_blk c b) ys e'" if "x \<in> {a, a + 8}" for x mm v e'
    by (rule layout_frame; use f [OF that] m(1,3) n(2,3) uc in simp)+
  have q: "plus_words (heap s) (words_of (xs @ [p, b])) = after_blk c b"
    by (simp add: c a after_blk_def add.assoc)
  have ms: "mem (merge a c s) = wr64 (wr64 (wr64 (mem s) a (info_of p AND NOT SIZE_MASK)) a (info_of (merged p b))) (a + 8) (if ys = [] then 0 else after_blk c b)"
    unfolding e by (simp add: mem_set)
  have fin: "rd64 (mem s) (a + 16) = b_fin p" using m(6) by (simp add: hdr_at_def)
  have "blocks (merge a c s) (xs @ [merged p b] @ ys)"
  proof (rule blocks_replace [where ws = "[p, b]"])
    show "blocks s (xs @ [p, b] @ ys)" using bl by simp
    show "words_of [merged p b] = words_of [p, b]" by (simp add: merged_def)
    show "initialized (merge a c s) = initialized s" "total_heap_size (merge a c s) = total_heap_size s"
      unfolding e by simp_all
    show "layout (mem (merge a c s)) (heap s) xs (plus_words (heap s) (words_of xs))"
      using m(5) unfolding ms by (simp add: fr flip: a)
    show "layout (mem (merge a c s)) (plus_words (heap s) (words_of (xs @ [p, b]))) ys 0"
      using n(7) unfolding ms q by (simp add: fr)
    show "layout (mem (merge a c s)) (plus_words (heap s) (words_of xs)) [merged p b] (if ys = [] then 0 else plus_words (heap s) (words_of (xs @ [p, b])))"
      unfolding q a [symmetric] ms layout.simps hdr_at_def using fin apa by (simp add: merged_def)
  qed (simp_all add: h)
  then show "blocks (merge a c s) (xs @ merged p b # ys)" by simp
  show "blk_next (merge a c s) c = (if ys = [] then 0 else after_blk c b)"
    unfolding blk_next_def ms using nx ac by simp
qed

section \<open>Sweeping\<close>

text \<open>What a sweep leaves: marked blocks lose their mark, a run of unmarked ones becomes one free block.\<close>

function swept :: "blk list \<Rightarrow> blk list" where
  "swept [] = []"
| "swept (b # bs) =
     (if b_mark b then b\<lparr>b_mark := False\<rparr> # swept bs
      else b\<lparr>b_size := b_size b + words_of (takeWhile (\<lambda>b. \<not> b_mark b) bs), b_alloc := False\<rparr>
        # swept (dropWhile (\<lambda>b. \<not> b_mark b) bs))"
  by pat_completeness auto

termination
  by (relation "measure length") (auto simp: less_Suc_eq_le length_dropWhile_le)

definition free_words :: "blk list \<Rightarrow> nat" where
  "free_words bs = sum_list (map b_size (filter (\<lambda>b. \<not> b_alloc b) bs))"

text \<open>The same by the steps of the loop, \<open>pv\<close> the free block before.\<close>

fun sweep_from :: "blk option \<Rightarrow> blk list \<Rightarrow> blk list" where
  "sweep_from pv [] = (case pv of None \<Rightarrow> [] | Some p \<Rightarrow> [p])"
| "sweep_from pv (b # bs) =
     (if b_mark b then (case pv of None \<Rightarrow> [] | Some p \<Rightarrow> [p]) @ b\<lparr>b_mark := False\<rparr> # sweep_from None bs
      else sweep_from (Some (case pv of None \<Rightarrow> b\<lparr>b_alloc := False\<rparr> | Some p \<Rightarrow> merged p b)) bs)"

fun freed_from :: "bool \<Rightarrow> blk list \<Rightarrow> nat" where
  "freed_from pv [] = 0"
| "freed_from pv (b # bs) =
     (if b_mark b then freed_from False bs
      else (if b_alloc b then b_size b else 0) + (if pv then 3 else 0) + freed_from True bs)"

lemma sweep_from_run:
  "sweep_from (Some p) bs = p\<lparr>b_size := b_size p + words_of (takeWhile (\<lambda>b. \<not> b_mark b) bs)\<rparr>
     # sweep_from None (dropWhile (\<lambda>b. \<not> b_mark b) bs)"
  by (induction bs arbitrary: p) (auto simp: merged_def add.assoc)

lemma sweep_from_swept: "sweep_from None bs = swept bs"
proof (induction bs rule: swept.induct)
  case (2 b bs)
  then show ?case by (cases "b_mark b") (simp_all add: sweep_from_run)
qed simp

lemma free_words_simps [simp]:
  "free_words [] = 0" "free_words (b # bs) = (if b_alloc b then 0 else b_size b) + free_words bs"
  "free_words (xs @ ys) = free_words xs + free_words ys"
  by (simp_all add: free_words_def)

lemma freed_from_words:
  "(case pv of None \<Rightarrow> True | Some p \<Rightarrow> \<not> b_alloc p) \<Longrightarrow>
   free_words (sweep_from pv bs) = (case pv of None \<Rightarrow> 0 | Some p \<Rightarrow> b_size p) + free_words bs + freed_from (pv \<noteq> None) bs"
proof (induction bs arbitrary: pv)
  case Nil
  then show ?case by (cases pv) simp_all
next
  case (Cons b bs)
  show ?case
  proof (cases "b_mark b")
    case True
    then show ?thesis using Cons.prems Cons.IH [of None] by (cases pv) auto
  next
    case False
    define q where "q = (case pv of None \<Rightarrow> b\<lparr>b_alloc := False\<rparr> | Some p \<Rightarrow> merged p b)"
    have "\<not> b_alloc q" using Cons.prems by (cases pv) (auto simp: q_def merged_def)
    then have "free_words (sweep_from (Some q) bs) = b_size q + free_words bs + freed_from True bs"
      using Cons.IH [of "Some q"] by simp
    moreover have "sweep_from pv (b # bs) = sweep_from (Some q) bs" using False by (simp add: q_def)
    ultimately show ?thesis using False by (cases pv) (auto simp: q_def merged_def)
  qed
qed

text \<open>The loop. Finalizers leave the state of the allocator as it is.\<close>

definition quiet_finalizers :: "gc_env \<Rightarrow> bool" where
  "quiet_finalizers E \<longleftrightarrow> (\<forall>f s. finalize E f s = Inr s)"

text \<open>The step for an unmarked block.\<close>

definition free_block :: "gc_env \<Rightarrow> u64 \<Rightarrow> u64 \<Rightarrow> gc \<Rightarrow> (u64 \<times> gc) res" where
  "free_block E cur freed s =
     (if blk_info s cur AND ALLOC_BIT \<noteq> 0 then
        let s = set_info cur (blk_info s cur AND NOT ALLOC_BIT) s;
            freed = freed + (blk_info s cur AND SIZE_MASK)
        in if blk_finalizer s cur \<noteq> 0 then
             bindR (finalize E (blk_finalizer s cur) (s\<lparr>in_finalize_call := True\<rparr>)) (\<lambda>s.
             Inr (freed, s\<lparr>in_finalize_call := False\<rparr>))
           else Inr (freed, s)
      else Inr (freed, s))"

lemma sweep_unmarked:
  "cur \<noteq> 0 \<Longrightarrow> blk_info s cur AND MARK_BIT = 0 \<Longrightarrow> sweep (Suc n) E cur prev freed s =
     bindR (free_block E cur freed s) (\<lambda>(freed, s).
       if prev \<noteq> 0 then sweep n E (blk_next (merge prev cur s) cur) prev (freed + BLOCK_SIZE) (merge prev cur s)
       else sweep n E (blk_next s cur) cur freed s)"
  unfolding sweep.simps free_block_def merge_def Let_def by simp

lemma sweep_marked_step:
  "cur \<noteq> 0 \<Longrightarrow> blk_info s cur AND MARK_BIT \<noteq> 0 \<Longrightarrow> sweep (Suc n) E cur prev freed s =
     sweep n E (blk_next (set_info cur (blk_info s cur AND NOT MARK_BIT) s) cur) 0 freed (set_info cur (blk_info s cur AND NOT MARK_BIT) s)"
  by (simp add: Let_def)

lemma sweep_end [simp]: "sweep (Suc n) E 0 prev freed s = Inr (freed, s)"
  by simp

declare sweep.simps [simp del]

lemma hdrs_at: "hdrs a (xs @ b # ys) \<subseteq> H \<Longrightarrow> {y. unat (y - plus_words a (words_of xs)) < 24} \<subseteq> H"
  by (auto simp: hdrs_append)

lemma free_block_blocks:
  assumes bl: "blocks s (xs @ b # ys)" and a: "a = plus_words (heap s) (words_of xs)" and "quiet_finalizers E" "\<not> in_finalize_call s"
    and "{y. unat (y - a) < 24} \<subseteq> H"
  shows "\<exists>s'. free_block E a freed s = Inr (freed + (if b_alloc b then of_nat (b_size b) else 0), s') \<and>
    blocks s' (xs @ b\<lparr>b_alloc := False\<rparr> # ys) \<and> only_mem H s s'"
proof (cases "b_alloc b")
  case False
  then have "free_block E a freed s = Inr (freed, s)"
    using middle(6) [OF bl a] by (simp add: free_block_def blk_info_def hdr_at_def info_flags)
  moreover have e: "b\<lparr>b_alloc := False\<rparr> = b" using False by simp
  ultimately show ?thesis using False bl unfolding e by (intro exI [of _ s]) simp
next
  case True
  let ?b = "b\<lparr>b_alloc := False\<rparr>"
  let ?s = "set_info a (info_of ?b) s"
  have i: "blk_info s a = info_of b" using middle(6) [OF bl a] by (simp add: blk_info_def hdr_at_def)
  have nb: "blocks ?s (xs @ ?b # ys)" by (rule set_info_blocks [OF bl a]) simp_all
  have ib: "info_of b AND NOT ALLOC_BIT = info_of ?b" by (simp add: info_of_def infoMake_bits)
  have sz: "blk_info ?s a AND SIZE_MASK = of_nat (b_size b)"
    using info_size [OF blocks_room [OF nb], of "length xs"] by (simp add: blk_info_def mem_set)
  have fc: "?s\<lparr>in_finalize_call := True, in_finalize_call := False\<rparr> = ?s" using assms(4) by (simp add: set_info_def)
  have al: "(info_of b AND ALLOC_BIT \<noteq> 0) = True" using True by (simp add: info_flags)
  have "free_block E a freed s = Inr (freed + of_nat (b_size b), ?s)"
    unfolding free_block_def Let_def i al if_True ib sz using assms(3) fc by (simp add: quiet_finalizers_def)
  then show ?thesis using True nb only_mem_info [OF assms(5)] by (intro exI [of _ ?s]) auto
qed

text \<open>The two states of the loop: no free block before, or \<open>p\<close>.\<close>

definition after_sweep :: "nat \<Rightarrow> gc_env \<Rightarrow> u64 \<Rightarrow> u64 \<Rightarrow> u64 \<Rightarrow> gc \<Rightarrow> u64 set \<Rightarrow> nat \<Rightarrow> blk list \<Rightarrow> bool" where
  "after_sweep n E cur prev freed s H k bs \<longleftrightarrow>
     (\<exists>s'. sweep n E cur prev freed s = Inr (freed + of_nat k, s') \<and> blocks s' bs \<and> only_mem H s s')"

lemma after_sweep_step:
  "sweep (Suc n) E cur prev freed s = sweep n E cur' prev' (freed + of_nat j) t \<Longrightarrow>
   after_sweep n E cur' prev' (freed + of_nat j) t H k bs \<Longrightarrow> only_mem H s t \<Longrightarrow> after_sweep (Suc n) E cur prev freed s H (j + k) bs"
  unfolding after_sweep_def using only_mem_trans by (fastforce simp: add.assoc)

definition next_at :: "gc \<Rightarrow> blk list \<Rightarrow> blk list \<Rightarrow> u64" where
  "next_at s xs ys = (if ys = [] then 0 else plus_words (heap s) (words_of xs))"

lemma sweep_marked:
  assumes A: "\<And>s xs freed. blocks s (xs @ ys) \<Longrightarrow> \<not> in_finalize_call s \<Longrightarrow> hdrs (heap s) (xs @ ys) \<subseteq> H \<Longrightarrow>
      after_sweep n E (next_at s xs ys) 0 freed s H (freed_from False ys) (xs @ sweep_from None ys)"
    and "b_mark b" "blocks s (xs @ b # ys)" "\<not> in_finalize_call s" "hdrs (heap s) (xs @ b # ys) \<subseteq> H"
  shows "after_sweep (Suc n) E (next_at s xs (b # ys)) prev freed s H (freed_from False ys) (xs @ b\<lparr>b_mark := False\<rparr> # sweep_from None ys)"
proof -
  let ?a = "plus_words (heap s) (words_of xs)"
  let ?b = "b\<lparr>b_mark := False\<rparr>"
  let ?s = "set_info ?a (info_of ?b) s"
  note m = middle [OF assms(3) refl]
  have i: "blk_info s ?a = info_of b" using m(6) by (simp add: blk_info_def hdr_at_def)
  have nb: "blocks ?s ((xs @ [?b]) @ ys)" using set_info_blocks [OF assms(3) refl, of ?b] by simp
  have nb': "blocks ?s (xs @ ?b # ys)" using nb by simp
  have ib: "info_of b AND NOT MARK_BIT = info_of ?b" by (simp add: info_of_def infoMake_bits)
  have nx: "blk_next ?s ?a = next_at ?s (xs @ [?b]) ys"
    using middle(6) [OF nb' refl] by (simp add: blk_next_def hdr_at_def after_blk_def next_at_def)
  have e: "sweep (Suc n) E (next_at s xs (b # ys)) prev freed s = sweep n E (next_at ?s (xs @ [?b]) ys) 0 (freed + of_nat 0) ?s"
    using m(4) assms(2) by (simp add: next_at_def [of s] sweep_marked_step i ib info_flags nx)
  have h: "hdrs (heap ?s) ((xs @ [?b]) @ ys) \<subseteq> H" using assms(5) by (simp add: hdrs_append after_blk_def)
  have om: "only_mem H s ?s" by (rule only_mem_info) (rule hdrs_at [OF assms(5)])
  have "\<not> in_finalize_call ?s" using assms(4) only_mem_fields [OF om] by simp
  from after_sweep_step [OF e A [OF nb this h] om] show ?thesis by simp
qed

lemma sweep_steps:
  assumes "quiet_finalizers E"
  shows "\<And>s xs n freed. blocks s (xs @ ys) \<Longrightarrow> \<not> in_finalize_call s \<Longrightarrow> length ys < n \<Longrightarrow> hdrs (heap s) (xs @ ys) \<subseteq> H \<Longrightarrow>
     after_sweep n E (next_at s xs ys) 0 freed s H (freed_from False ys) (xs @ sweep_from None ys)"
   "\<And>s xs p n freed. blocks s (xs @ p # ys) \<Longrightarrow> \<not> in_finalize_call s \<Longrightarrow> length ys < n \<Longrightarrow> hdrs (heap s) (xs @ p # ys) \<subseteq> H \<Longrightarrow>
     after_sweep n E (next_at s (xs @ [p]) ys) (plus_words (heap s) (words_of xs)) freed s H (freed_from True ys) (xs @ sweep_from (Some p) ys)"
proof (induction ys)
  case Nil
  { case (1 s xs n freed) then show ?case by (cases n) (simp_all add: after_sweep_def next_at_def) }
  { case (2 s xs p n freed) then show ?case by (cases n) (simp_all add: after_sweep_def next_at_def) }
next
  case (Cons b ys)
  {
    case (1 s xs n freed)
    then obtain k where n: "n = Suc k" and k: "length ys < k" by (cases n) auto
    show ?case
    proof (cases "b_mark b")
      case True
      show ?thesis
        using sweep_marked [OF Cons.IH(1) [OF _ _ k] True 1(1,2,4)] n True by simp
    next
      case False
      define a where "a = plus_words (heap s) (words_of xs)"
      define j where "j = (if b_alloc b then b_size b else 0)"
      let ?b = "b\<lparr>b_alloc := False\<rparr>"
      obtain t where t: "free_block E a freed s = Inr (freed + of_nat j, t)" "blocks t (xs @ ?b # ys)" "only_mem H s t"
        using free_block_blocks [OF 1(1) a_def assms 1(2) hdrs_at [OF 1(4), folded a_def], of freed] by (auto simp: j_def)
      note f = only_mem_fields [OF t(3)]
      have at: "a = plus_words (heap t) (words_of xs)" using f by (simp add: a_def)
      have nx: "blk_next t a = next_at t (xs @ [?b]) ys"
        using middle(6) [OF t(2) at] by (simp add: blk_next_def hdr_at_def after_blk_def next_at_def at)
      have "blk_info s a = info_of b" using middle(6) [OF 1(1) a_def] by (simp add: blk_info_def hdr_at_def)
      then have um: "blk_info s a AND MARK_BIT = 0" using False by (simp add: info_flags)
      have na: "next_at s xs (b # ys) = a" by (simp add: next_at_def a_def)
      have e: "sweep (Suc k) E (next_at s xs (b # ys)) 0 freed s = sweep k E (next_at t (xs @ [?b]) ys) a (freed + of_nat j) t"
        unfolding na sweep_unmarked [OF middle(4) [OF 1(1) a_def] um] t(1) by (simp add: nx)
      have h: "hdrs (heap t) (xs @ ?b # ys) \<subseteq> H" using 1(4) f by (simp add: hdrs_append after_blk_def)
      have i: "\<not> in_finalize_call t" using 1(2) f by simp
      have "after_sweep (Suc k) E (next_at s xs (b # ys)) 0 freed s H (j + freed_from True ys) (xs @ sweep_from (Some ?b) ys)"
        by (rule after_sweep_step [OF e _ t(3)]) (use Cons.IH(2) [OF t(2) i k h] in \<open>simp add: at\<close>)
      then show ?thesis using False n by (simp add: j_def)
    qed
  }
  {
    case (2 s xs p n freed)
    then obtain k where n: "n = Suc k" and k: "length ys < k" by (cases n) auto
    have bl: "blocks s ((xs @ [p]) @ b # ys)" using 2(1) by simp
    have hh: "hdrs (heap s) ((xs @ [p]) @ b # ys) \<subseteq> H" using 2(4) by simp
    let ?a = "plus_words (heap s) (words_of xs)"
    show ?case
    proof (cases "b_mark b")
      case True
      show ?thesis
        using sweep_marked [OF Cons.IH(1) [OF _ _ k] True bl 2(2) hh, of ?a freed] n True by simp
    next
      case False
      define a where "a = plus_words (heap s) (words_of xs)"
      define c where "c = plus_words (heap s) (words_of (xs @ [p]))"
      define j where "j = (if b_alloc b then b_size b else 0)"
      let ?b = "b\<lparr>b_alloc := False\<rparr>"
      obtain t where t: "free_block E c freed s = Inr (freed + of_nat j, t)"
        "blocks t ((xs @ [p]) @ ?b # ys)" "only_mem H s t"
        using free_block_blocks [OF bl c_def assms 2(2) hdrs_at [OF hh, folded c_def], of freed] by (auto simp: j_def)
      note f = only_mem_fields [OF t(3)]
      have tb: "blocks t (xs @ p # ?b # ys)" using t(2) by simp
      have at: "a = plus_words (heap t) (words_of xs)" and ct: "c = after_blk a p"
        using f by (simp_all add: after_blk_def a_def c_def)
      define u where "u = merge a c t"
      note mb = merge_blocks [OF tb at ct, folded u_def]
      have om: "only_mem H t u" by (rule mb(4)) (rule hdrs_at [OF 2(4), folded a_def])
      note g = only_mem_fields [OF om]
      have mg: "merged p ?b = merged p b" by (simp add: merged_def)
      have ub: "blocks u (xs @ merged p b # ys)" using mb(1) unfolding mg .
      have nx: "blk_next u c = next_at u (xs @ [merged p b]) ys"
        unfolding mb(2) using f g by (simp add: c_def next_at_def after_blk_def merged_def add.assoc)
      have z: "a \<noteq> 0" "c \<noteq> 0" using middle(4) [OF 2(1) a_def] middle(4) [OF bl c_def] by simp_all
      have "blk_info s c = info_of b" using middle(6) [OF bl c_def] by (simp add: blk_info_def hdr_at_def)
      then have um: "blk_info s c AND MARK_BIT = 0" using False by (simp add: info_flags)
      have na: "next_at s (xs @ [p]) (b # ys) = c" by (simp add: next_at_def c_def)
      have e: "sweep (Suc k) E (next_at s (xs @ [p]) (b # ys)) a freed s =
          sweep k E (next_at u (xs @ [merged p b]) ys) a (freed + of_nat (j + 3)) u"
        unfolding na sweep_unmarked [OF z(2) um] t(1) using z(1) by (simp add: nx BLOCK_SIZE_def add.assoc flip: u_def)
      have h: "hdrs (heap u) (xs @ merged p b # ys) \<subseteq> H"
        using 2(4) f g by (auto simp: hdrs_append after_blk_def merged_def add.assoc)
      have i: "\<not> in_finalize_call u" using 2(2) f g by simp
      have au: "a = plus_words (heap u) (words_of xs)" using f g by (simp add: a_def)
      have "after_sweep (Suc k) E (next_at s (xs @ [p]) (b # ys)) a freed s H (j + 3 + freed_from True ys) (xs @ sweep_from (Some (merged p b)) ys)"
        by (rule after_sweep_step [OF e _ only_mem_trans [OF t(3) om]]) (use Cons.IH(2) [OF ub i k h] in \<open>simp add: au\<close>)
      then show ?thesis using False n by (simp add: a_def j_def)
    qed
  }
qed

lemma sweep_exact_spec:
  assumes "blocks s bs" "quiet_finalizers E" "\<not> in_finalize_call s"
  shows "\<exists>s'. sweep (heap_fuel s) E (heap s) 0 0 s = Inr (of_nat (free_words (swept bs) - free_words bs), s') \<and>
    blocks s' (swept bs) \<and> only_mem (hdrs (heap s) bs) s s' \<and> free_words bs \<le> free_words (swept bs)"
proof -
  have b: "blocks s ([] @ bs)" using assms(1) by simp
  have "next_at s [] bs = heap s" using assms(1) by (simp add: next_at_def blocks_def room_def)
  then show ?thesis
    using sweep_steps(1) [OF assms(2) b assms(3) blocks_fuel [OF assms(1)], of "hdrs (heap s) bs" 0]
      freed_from_words [of None bs] by (simp add: after_sweep_def sweep_from_swept)
qed

end
