(* ===== verification/Alloc_Mark.thy ===== *)
theory Alloc_Mark
  imports Alloc_Sweep
begin

text \<open>
  The marking phases of A4/alloc.c: the block of a pointer (\<open>owner\<close>), the effect of following a word
  (\<open>kept_by\<close>: the block it points into has its mark), the globals and the stack frames as a list of
  addresses (\<open>mark_list\<close>), and the scan of the heap, which ends when no word of a block marks
  anything (\<open>settled\<close>).
\<close>

section \<open>The block of a pointer\<close>

lemma words_sizes: "words_of (take i bs) = sum_list (map ((+) 3) (take i (map b_size bs)))"
  by (simp add: words_of_def take_map comp_def)

lemma words_cong: "map b_size bs = map b_size cs \<Longrightarrow> words_of (take i bs) = words_of (take i cs)"
  by (simp only: words_sizes)

lemma adr_cong: "map b_size bs = map b_size cs \<Longrightarrow> adr a bs i = adr a cs i"
  unfolding adr_def by (rule arg_cong [OF words_cong])

lemma hdrs_cong: "map b_size bs = map b_size cs \<Longrightarrow> hdrs a bs = hdrs a cs"
proof (induction bs arbitrary: cs a)
  case (Cons b bs)
  then obtain c cs' where c: "cs = c # cs'" "b_size b = b_size c" "map b_size bs = map b_size cs'"
    by (cases cs) simp_all
  have "after_blk a b = after_blk a c" by (simp add: after_blk_def c(2))
  then show ?case using Cons.IH [OF c(3), of "after_blk a c"] by (simp only: c(1) hdrs.simps)
qed simp

lemma hdrs_adr: "hdrs a bs = (\<Union>i < length bs. {y. unat (y - adr a bs i) < 24})"
proof (induction bs arbitrary: a)
  case (Cons b bs)
  have "adr a (b # bs) (Suc i) = adr (after_blk a b) bs i" for i
    by (simp add: adr_def after_blk_def)
  then have "(\<Union>i < length (b # bs). {y. unat (y - adr a (b # bs) i) < 24}) =
      {y. unat (y - a) < 24} \<union> (\<Union>i < length bs. {y. unat (y - adr (after_blk a b) bs i) < 24})"
    by (simp add: lessThan_Suc_eq_insert_0)
  then show ?case using Cons by simp
qed simp

text \<open>The index of the block that \<open>getBlock\<close> finds: the block that the pointer is in, where the first
  byte of a header counts for the block before; none for a pointer into the last block.\<close>

definition owner :: "u64 \<Rightarrow> blk list \<Rightarrow> u64 \<Rightarrow> nat option" where
  "owner a bs w = (if w = a then Some 0
     else find (\<lambda>i. Suc i < length bs \<and> adr a bs i < w \<and> w \<le> adr a bs (Suc i)) [0..<length bs])"

lemma owner_cong: "map b_size bs = map b_size cs \<Longrightarrow> owner a bs w = owner a cs w"
  using map_eq_imp_length_eq [of b_size bs b_size cs] by (simp add: owner_def adr_cong [of bs cs])

lemma owner_less: "owner a bs w = Some i \<Longrightarrow> bs \<noteq> [] \<Longrightarrow> i < length bs"
  by (auto simp: owner_def find_Some_iff split: if_splits)

lemma owner_at:
  assumes r: "room a bs" and i: "Suc i < length bs" "adr a bs i < w" "w \<le> adr a bs (Suc i)"
  shows "owner a bs w = Some i"
proof -
  have "w \<noteq> a" using i(2) by (auto simp: word_less_nat_alt unat_adr [OF r])
  moreover have "\<not> (adr a bs j < w \<and> w \<le> adr a bs (Suc j))" if "j < i" for j
  proof -
    have "unat (adr a bs (Suc j)) \<le> unat (adr a bs i)"
      using words_take_mono [of "Suc j" i bs] that by (simp add: unat_adr [OF r])
    then show ?thesis using i(2) by (simp add: word_less_nat_alt word_le_nat_alt)
  qed
  ultimately show ?thesis using i by (auto simp: owner_def find_Some_iff intro!: exI [of _ i])
qed

lemma owner_last:
  assumes r: "room a bs" and i: "adr a bs (length bs - 1) < w"
  shows "owner a bs w = None"
proof -
  have m: "unat (adr a bs j) \<le> unat (adr a bs (length bs - 1))" if "j < length bs" for j
    using words_take_mono [of j "length bs - 1" bs] that by (simp add: unat_adr [OF r])
  have "w \<noteq> a" using i by (auto simp: word_less_nat_alt unat_adr [OF r])
  moreover have "\<not> w \<le> adr a bs (Suc j)" if "Suc j < length bs" for j
    using m [OF that] i by (simp add: word_less_nat_alt word_le_nat_alt)
  ultimately show ?thesis by (auto simp: owner_def find_None_iff)
qed

lemma get_block_owner:
  assumes "blocks s bs" "inHeapRange s w"
  shows "getBlock s w = Inr (case owner (heap s) bs w of None \<Rightarrow> 0 | Some i \<Rightarrow> adr (heap s) bs i)"
proof -
  note r = blocks_room [OF assms(1)]
  obtain i where i: "i < length bs" "unat (adr (heap s) bs i) \<le> unat w" "unat w < unat (adr (heap s) bs (Suc i))"
    using pointer_block [OF assms] by auto
  have inside: "getBlock s w = Inr (case owner (heap s) bs w of None \<Rightarrow> 0 | Some i \<Rightarrow> adr (heap s) bs i)"
    if "j < length bs" "unat (adr (heap s) bs j) < unat w" "unat w \<le> unat (adr (heap s) bs (Suc j))" for j
  proof (cases "Suc j = length bs")
    case True
    then have "j = length bs - 1" by simp
    then show ?thesis using get_block_spec [OF assms(1) that assms(2)] owner_last [OF r, of w] that(2) True
      by (simp add: word_less_nat_alt)
  next
    case False
    then show ?thesis using get_block_spec [OF assms(1) that assms(2)] owner_at [OF r, of j w] that
      by (simp add: word_less_nat_alt word_le_nat_alt)
  qed
  show ?thesis
  proof (cases "unat (adr (heap s) bs i) = unat w")
    case False
    then show ?thesis using inside [OF i(1)] i by simp
  next
    case True
    then have w: "adr (heap s) bs i = w" by (simp add: unsigned_word_eqI)
    show ?thesis
    proof (cases i)
      case 0
      then show ?thesis using w get_block_first [OF assms(1)] by (simp add: owner_def)
    next
      case (Suc k)
      then show ?thesis using inside [of k] i True adr_less [OF r, of k "Suc k"] by simp
    qed
  qed
qed

section \<open>Marks\<close>

definition marks :: "blk list \<Rightarrow> blk list \<Rightarrow> bool" where
  "marks = list_all2 (\<lambda>b c. c = b \<or> b_alloc b \<and> c = b\<lparr>b_mark := True\<rparr>)"

lemma marks_refl [simp]: "marks bs bs"
  by (simp add: marks_def list.rel_refl)

lemma marks_trans: "marks bs cs \<Longrightarrow> marks cs ds \<Longrightarrow> marks bs ds"
  unfolding marks_def by (erule (1) list_all2_trans [rotated]) auto

lemma marks_length: "marks bs cs \<Longrightarrow> length cs = length bs"
  by (simp add: marks_def list_all2_lengthD)

lemma marks_nth: "marks bs cs \<Longrightarrow> i < length bs \<Longrightarrow> cs ! i = bs ! i \<or> b_alloc (bs ! i) \<and> cs ! i = (bs ! i)\<lparr>b_mark := True\<rparr>"
  by (auto simp: marks_def dest: list_all2_nthD)

lemma marks_sizes: "marks bs cs \<Longrightarrow> map b_size bs = map b_size cs"
  unfolding marks_def by (induction rule: list_all2_induct) auto

lemma marks_fields: "marks bs cs \<Longrightarrow> i < length bs \<Longrightarrow> b_size (cs ! i) = b_size (bs ! i) \<and> b_alloc (cs ! i) = b_alloc (bs ! i)"
  using marks_nth by fastforce

lemma marks_mono: "marks bs cs \<Longrightarrow> i < length bs \<Longrightarrow> b_mark (bs ! i) \<Longrightarrow> b_mark (cs ! i)"
  using marks_nth by fastforce

lemma marks_update: "i < length bs \<Longrightarrow> b_alloc (bs ! i) \<Longrightarrow> marks bs (bs[i := (bs ! i)\<lparr>b_mark := True\<rparr>])"
  by (auto simp: marks_def list_all2_conv_all_nth nth_list_update)

text \<open>A state reached by marking blocks.\<close>

definition marked_to :: "u64 set \<Rightarrow> gc \<Rightarrow> blk list \<Rightarrow> gc \<Rightarrow> blk list \<Rightarrow> bool" where
  "marked_to H s bs s' cs \<longleftrightarrow> blocks s' cs \<and> marks bs cs \<and> only_mem H s s'"

lemma marked_to_refl: "blocks s bs \<Longrightarrow> marked_to H s bs s bs"
  by (simp add: marked_to_def)

lemma marked_to_trans: "marked_to H s bs t cs \<Longrightarrow> marked_to H t cs u ds \<Longrightarrow> marked_to H s bs u ds"
  by (auto simp: marked_to_def intro: marks_trans only_mem_trans)

lemma mark_step:
  assumes "blocks s bs" "i < length bs" "b_alloc (bs ! i)" "hdrs (heap s) bs \<subseteq> H"
  shows "marked_to H s bs (set_info (adr (heap s) bs i) (blk_info s (adr (heap s) bs i) OR MARK_BIT) s)
     (bs[i := (bs ! i)\<lparr>b_mark := True\<rparr>])"
proof -
  let ?b = "(bs ! i)\<lparr>b_mark := True\<rparr>"
  have b: "blocks s (take i bs @ bs ! i # drop (Suc i) bs)" using assms(1,2) by (simp flip: id_take_nth_drop)
  have e: "info_of (bs ! i) OR MARK_BIT = info_of ?b" by (simp add: info_of_def infoMake_bits)
  have "blocks (set_info (adr (heap s) bs i) (info_of ?b) s) (take i bs @ ?b # drop (Suc i) bs)"
    by (rule set_info_blocks [OF b]) (simp_all add: adr_def)
  then have "blocks (set_info (adr (heap s) bs i) (info_of ?b) s) (bs[i := ?b])"
    using assms(2) by (simp add: upd_conv_take_nth_drop)
  moreover have "only_mem H s (set_info (adr (heap s) bs i) (info_of ?b) s)"
    by (rule only_mem_info) (use assms(2,4) in \<open>auto simp: hdrs_adr\<close>)
  ultimately show ?thesis
    unfolding blocks_read(1) [OF assms(1,2)] e marked_to_def using marks_update [OF assms(2,3)] by simp
qed

section \<open>Marking\<close>

text \<open>If a word points into an allocated block, the block has its mark.\<close>

definition kept_by :: "gc \<Rightarrow> blk list \<Rightarrow> blk list \<Rightarrow> u64 \<Rightarrow> bool" where
  "kept_by s bs cs w \<longleftrightarrow> (inHeapRange s w \<longrightarrow> (\<forall>i. owner (heap s) bs w = Some i \<longrightarrow> b_alloc (bs ! i) \<longrightarrow> b_mark (cs ! i)))"

lemma in_heap_nz: "blocks s bs \<Longrightarrow> inHeapRange s w \<Longrightarrow> w \<noteq> 0"
  by (auto simp: blocks_def room_def inHeapRange_def)

lemma blocks_Nil: "\<not> blocks s []"
  by (simp add: blocks_def room_def)

lemma only_mem_range: "only_mem H s t \<Longrightarrow> inHeapRange t w = inHeapRange s w"
  using only_mem_fields [of H s t] by (simp add: inHeapRange_def)

lemma kept_mono:
  assumes "kept_by s bs cs w" "marks bs cs" "marks cs ds" "blocks s bs"
  shows "kept_by s bs ds w"
  unfolding kept_by_def
proof (intro impI allI)
  fix i assume a: "inHeapRange s w" "owner (heap s) bs w = Some i" "b_alloc (bs ! i)"
  then have "b_mark (cs ! i)" using assms(1) by (simp add: kept_by_def)
  moreover have "i < length cs" using owner_less [OF a(2)] assms(2,4) blocks_Nil marks_length by metis
  ultimately show "b_mark (ds ! i)" using marks_mono [OF assms(3)] by simp
qed

lemma kept_shift:
  assumes "kept_by t cs ds w" "marked_to H s bs t cs" "blocks s bs"
  shows "kept_by s bs ds w"
  unfolding kept_by_def
proof (intro impI allI)
  fix i assume a: "inHeapRange s w" "owner (heap s) bs w = Some i" "b_alloc (bs ! i)"
  have m: "marks bs cs" "only_mem H s t" using assms(2) by (simp_all add: marked_to_def)
  have "i < length bs" using owner_less [OF a(2)] assms(3) blocks_Nil by metis
  then have "b_alloc (cs ! i)" using marks_fields [OF m(1)] a(3) by simp
  moreover have "owner (heap t) cs w = Some i"
    using a(2) owner_cong [OF marks_sizes [OF m(1)]] only_mem_fields [OF m(2)] by simp
  moreover have "inHeapRange t w" using a(1) only_mem_range [OF m(2)] by simp
  ultimately show "b_mark (ds ! i)" using assms(1) by (simp add: kept_by_def)
qed

text \<open>One word.\<close>

lemma chase_marks:
  assumes b: "blocks s bs" and h: "hdrs (heap s) bs \<subseteq> H"
  shows "chase n E own w s = Inr s' \<Longrightarrow> \<exists>cs. marked_to H s bs s' cs \<and> (n > 0 \<and> \<not> own \<longrightarrow> kept_by s bs cs w)"
proof (induction n arbitrary: w)
  case 0
  then show ?case using marked_to_refl [OF b] by auto
next
  case (Suc n)
  have triv: "\<exists>cs. marked_to H s bs s cs \<and> (Suc n > 0 \<and> \<not> own \<longrightarrow> kept_by s bs cs w)" if "own \<or> \<not> inHeapRange s w"
    using that marked_to_refl [OF b] by (auto simp: kept_by_def)
  have sub: "\<exists>cs. marked_to H s bs s' cs \<and> (Suc n > 0 \<and> \<not> own \<longrightarrow> kept_by s bs cs w)"
    if c: "chase n E own v s = Inr s'" and k: "kept_by s bs bs w" for v
  proof -
    obtain cs where "marked_to H s bs s' cs" using Suc.IH [OF c] by auto
    then show ?thesis using kept_mono [OF k marks_refl _ b] by (auto simp: marked_to_def)
  qed
  show ?case
  proof (cases "inHeapRange s w")
    case False
    then have k: "kept_by s bs bs w" by (simp add: kept_by_def)
    show ?thesis
    proof (cases "w = 0")
      case True
      then show ?thesis using Suc.prems False triv by simp
    next
      case False
      then show ?thesis using Suc.prems \<open>\<not> inHeapRange s w\<close> sub [OF _ k] by (simp split: if_splits)
    qed
  next
    case True
    note nz = in_heap_nz [OF b True]
    show ?thesis
    proof (cases "own")
      case True
      then show ?thesis using Suc.prems nz \<open>inHeapRange s w\<close> get_block_owner [OF b] triv by (simp split: if_splits)
    next
      case False
      obtain i where i: "owner (heap s) bs w = Some i"
        using Suc.prems nz True False get_block_owner [OF b True] by (cases "owner (heap s) bs w") simp_all
      then have il: "i < length bs" using owner_less blocks_Nil b by metis
      have g: "getBlock s w = Inr (adr (heap s) bs i)" "adr (heap s) bs i \<noteq> 0"
        using get_block_owner [OF b True] i adr_nz [OF blocks_room [OF b]] by simp_all
      have info: "blk_info s (adr (heap s) bs i) = info_of (bs ! i)" by (rule blocks_read(1) [OF b il])
      show ?thesis
      proof (cases "\<not> b_mark (bs ! i) \<and> b_alloc (bs ! i)")
        case m: True
        then have "s' = set_info (adr (heap s) bs i) (blk_info s (adr (heap s) bs i) OR MARK_BIT) s"
          using Suc.prems nz True False g info by (simp add: info_flags)
        then have "marked_to H s bs s' (bs[i := (bs ! i)\<lparr>b_mark := True\<rparr>])"
          using mark_step [OF b il _ h] m by simp
        moreover have "kept_by s bs (bs[i := (bs ! i)\<lparr>b_mark := True\<rparr>]) w" using i il by (simp add: kept_by_def)
        ultimately show ?thesis by blast
      next
        case m: False
        then have "chase n E own (rd64 (mem s) w) s = Inr s'"
          using Suc.prems nz True False g info by (auto simp: info_flags split: if_splits)
        moreover have "kept_by s bs bs w" using i m by (auto simp: kept_by_def)
        ultimately show ?thesis by (rule sub)
      qed
    qed
  qed
qed

lemma chase_fault: "blocks s bs \<Longrightarrow> inHeapRange s w \<Longrightarrow> owner (heap s) bs w = None \<Longrightarrow> chase (Suc n) E False w s = Inl NullDeref"
  using in_heap_nz get_block_owner by fastforce

lemma chase_errors: "blocks s bs \<Longrightarrow> chase n E own w s = Inl e \<Longrightarrow> e = NullDeref"
proof (induction n arbitrary: w)
  case (Suc n)
  then show ?case using get_block_owner [OF Suc.prems(1), of w] by (auto split: if_splits option.splits)
qed simp

text \<open>A list of words.\<close>

fun mark_list :: "gc_env \<Rightarrow> (u64 \<Rightarrow> u64 \<Rightarrow> bool) \<Rightarrow> u64 list \<Rightarrow> gc \<Rightarrow> gc res" where
  "mark_list E own [] s = Inr s"
| "mark_list E own (a # as) s =
     bindR (chase 100 E (own a (rd64 (mem s) a)) (rd64 (mem s) a) s) (mark_list E own as)"

definition clear :: "u64 set \<Rightarrow> u64 \<Rightarrow> bool" where
  "clear H a \<longleftrightarrow> (\<forall>i < 8. a + of_nat i \<notin> H)"

lemma clear_read: "clear H a \<Longrightarrow> only_mem H s t \<Longrightarrow> rd64 (mem t) a = rd64 (mem s) a"
proof -
  assume c: "clear H a" "only_mem H s t"
  then have "map (\<lambda>i. mem t (a + of_nat i)) [0..<8] = map (\<lambda>i. mem s (a + of_nat i)) [0..<8]"
    by (intro map_cong) (auto simp: clear_def only_mem_def)
  then show ?thesis by (simp only: rd64_def)
qed

lemma marked_hdrs: "marked_to H s bs t cs \<Longrightarrow> hdrs (heap t) cs = hdrs (heap s) bs"
  using hdrs_cong [OF marks_sizes, of bs cs] only_mem_fields [of H s t] by (simp add: marked_to_def)

lemma mark_list_marks:
  "mark_list E own as s = Inr s' \<Longrightarrow> blocks s bs \<Longrightarrow> hdrs (heap s) bs \<subseteq> H \<Longrightarrow> \<forall>a \<in> set as. clear H a \<Longrightarrow>
   \<exists>cs. marked_to H s bs s' cs \<and> (\<forall>a \<in> set as. \<not> own a (rd64 (mem s) a) \<longrightarrow> kept_by s bs cs (rd64 (mem s) a))"
proof (induction as arbitrary: s bs)
  case Nil
  then have "marked_to H s bs s' bs" using marked_to_refl by simp
  then show ?case by auto
next
  case (Cons a as)
  obtain t where t: "chase 100 E (own a (rd64 (mem s) a)) (rd64 (mem s) a) s = Inr t" "mark_list E own as t = Inr s'"
    using Cons.prems(1) by (auto simp: bindR_def split: sum.splits)
  obtain cs where cs: "marked_to H s bs t cs" "\<not> own a (rd64 (mem s) a) \<longrightarrow> kept_by s bs cs (rd64 (mem s) a)"
    using chase_marks [OF Cons.prems(2,3) t(1)] by auto
  then have b: "blocks t cs" and m: "marks bs cs" and o: "only_mem H s t" by (simp_all add: marked_to_def)
  have h: "hdrs (heap t) cs \<subseteq> H" using Cons.prems(3) marked_hdrs [OF cs(1)] by simp
  obtain ds where ds: "marked_to H t cs s' ds"
    "\<forall>a \<in> set as. \<not> own a (rd64 (mem t) a) \<longrightarrow> kept_by t cs ds (rd64 (mem t) a)"
    using Cons.IH [OF t(2) b h] Cons.prems(4) by auto
  have "kept_by s bs ds (rd64 (mem s) x)" if "x \<in> set (a # as)" "\<not> own x (rd64 (mem s) x)" for x
  proof (cases "x = a")
    case True
    then show ?thesis using cs(2) that kept_mono [OF _ m _ Cons.prems(2)] ds(1) by (auto simp: marked_to_def)
  next
    case False
    then have "rd64 (mem t) x = rd64 (mem s) x" using that Cons.prems(4) clear_read [OF _ o] by auto
    then show ?thesis using kept_shift [OF _ cs(1) Cons.prems(2)] ds(2) that False by auto
  qed
  then show ?case using marked_to_trans [OF cs(1) ds(1)] by blast
qed

lemma mark_list_errors: "mark_list E own as s = Inl e \<Longrightarrow> blocks s bs \<Longrightarrow> e = NullDeref"
proof (induction as arbitrary: s bs)
  case (Cons a as)
  show ?case
  proof (cases "chase 100 E (own a (rd64 (mem s) a)) (rd64 (mem s) a) s")
    case (Inl e')
    then show ?thesis using Cons.prems chase_errors by fastforce
  next
    case (Inr t)
    then obtain cs where "marked_to (hdrs (heap s) bs) s bs t cs" using chase_marks [OF Cons.prems(2) order_refl Inr] by auto
    then have "blocks t cs" by (simp add: marked_to_def)
    then show ?thesis using Cons.IH Cons.prems(1) Inr by simp
  qed
qed simp

lemma mark_list_fault:
  "blocks s bs \<Longrightarrow> \<forall>x \<in> set as. clear (hdrs (heap s) bs) x \<Longrightarrow> a \<in> set as \<Longrightarrow> \<not> own a (rd64 (mem s) a) \<Longrightarrow>
   inHeapRange s (rd64 (mem s) a) \<Longrightarrow> owner (heap s) bs (rd64 (mem s) a) = None \<Longrightarrow> mark_list E own as s = Inl NullDeref"
proof (induction as arbitrary: s bs)
  case (Cons x as)
  show ?case
  proof (cases "x = a")
    case True
    then show ?thesis using Cons.prems chase_fault [OF Cons.prems(1,5,6), of 99] by simp
  next
    case False
    show ?thesis
    proof (cases "chase 100 E (own x (rd64 (mem s) x)) (rd64 (mem s) x) s")
      case (Inl e)
      then show ?thesis using chase_errors [OF Cons.prems(1)] by simp
    next
      case (Inr t)
      obtain cs where cs: "marked_to (hdrs (heap s) bs) s bs t cs" using chase_marks [OF Cons.prems(1) order_refl Inr] by auto
      then have b: "blocks t cs" and m: "marks bs cs" and o: "only_mem (hdrs (heap s) bs) s t" by (simp_all add: marked_to_def)
      have "rd64 (mem t) a = rd64 (mem s) a" using clear_read [OF _ o] Cons.prems(2,3) by auto
      then have "mark_list E own as t = Inl NullDeref"
        using Cons.IH [OF b] Cons.prems False marked_hdrs [OF cs] only_mem_range [OF o] only_mem_fields [OF o]
          owner_cong [OF marks_sizes [OF m]] by simp
      then show ?thesis using Inr by simp
    qed
  qed
qed simp

section \<open>Roots\<close>

lemma mark_list_append: "mark_list E own (as @ bs) s = bindR (mark_list E own as s) (mark_list E own bs)"
proof (induction as arbitrary: s)
  case (Cons a as)
  have "mark_list E own (as @ bs) = (\<lambda>s. bindR (mark_list E own as s) (mark_list E own bs))"
    by (rule ext) (rule Cons.IH)
  then show ?case by (simp add: bindR_assoc)
qed simp

definition global_words :: "gc_env \<Rightarrow> u64 list" where
  "global_words E = map (\<lambda>i. data_start E + of_nat (8 * i)) [0..<global_length E]"

lemma mark_globals_list:
  "mark_globals n E i s = mark_list E (\<lambda>a w. w = heap_var E) (map (\<lambda>i. data_start E + of_nat (8 * i)) [i..<i + n]) s"
proof (induction n arbitrary: i s)
  case (Suc n)
  have e: "mark_globals n E (Suc i) = mark_list E (\<lambda>a w. w = heap_var E) (map (\<lambda>i. data_start E + of_nat (8 * i)) [Suc i..<Suc i + n])"
    by (rule ext) (rule Suc.IH)
  have u: "[i..<i + Suc n] = i # [Suc i..<Suc i + n]" by (simp add: upt_conv_Cons del: upt_Suc)
  show ?case unfolding u list.map mark_list.simps mark_globals.simps e by (simp add: Let_def)
qed simp

definition frame_words :: "u64 \<Rightarrow> nat \<Rightarrow> u64 list" where
  "frame_words a n = map (\<lambda>k. plus_words a k) [0..<n]"

lemma mark_frame_list: "mark_frame n E a s = mark_list E (\<lambda>a w. a = heap_var E) (frame_words a n) s"
proof (induction n arbitrary: a s)
  case (Suc n)
  have "frame_words a (Suc n) = a # frame_words (a + 8) n"
    unfolding frame_words_def by (simp add: upt_conv_Cons map_Suc_upt [symmetric] comp_def plus_words_def distrib_left add.assoc del: upt_Suc map_Suc_upt)
  moreover have "mark_frame n E (a + 8) = mark_list E (\<lambda>a w. a = heap_var E) (frame_words (a + 8) n)"
    by (rule ext) (rule Suc.IH)
  ultimately show ?case by simp
qed (simp add: frame_words_def)

text \<open>The words of the stack frames from \<open>start\<close>.\<close>

function stack_words :: "memory \<Rightarrow> u64 \<Rightarrow> u64 \<Rightarrow> u64 list" where
  "stack_words m start bottom =
     (if bottom \<le> start \<or> bottom = 0 then []
      else if bottom AND 7 \<noteq> 0 then []
      else frame_words start (Suc ((unat bottom - unat start) div 8)) @ stack_words m bottom (rd64 m bottom))"
  by pat_completeness auto

termination
proof (relation "measure (\<lambda>(m, start, bottom). 2 ^ 64 - unat start)")
  fix m start bottom assume "\<not> (bottom \<le> start \<or> bottom = (0 :: u64))"
  then have "unat start < unat bottom" by (simp add: not_le word_less_nat_alt)
  moreover have "unat bottom < 2 ^ 64" using unsigned_less [where ?'a = nat and w = bottom] by simp
  ultimately show "((m, bottom, rd64 m bottom), (m, start, bottom)) \<in> measure (\<lambda>(m, start, bottom). 2 ^ 64 - unat start)"
    by simp
qed simp

declare stack_words.simps [simp del]

lemma stack_words_end: "bottom \<le> start \<or> bottom = 0 \<or> bottom AND 7 \<noteq> 0 \<Longrightarrow> stack_words m start bottom = []"
  by (subst stack_words.simps) auto

lemma stack_words_step:
  "\<not> (bottom \<le> start \<or> bottom = 0 \<or> bottom AND 7 \<noteq> 0) \<Longrightarrow> stack_words m start bottom =
     frame_words start (Suc ((unat bottom - unat start) div 8)) @ stack_words m bottom (rd64 m bottom)"
  by (subst stack_words.simps) auto

lemma mark_stack_end: "bottom \<le> start \<or> bottom = 0 \<or> bottom AND 7 \<noteq> 0 \<Longrightarrow> mark_stack E start bottom s = Inr s"
  by (subst mark_stack.simps) auto

lemma mark_stack_step:
  "\<not> (bottom \<le> start \<or> bottom = 0 \<or> bottom AND 7 \<noteq> 0) \<Longrightarrow> mark_stack E start bottom s =
     bindR (mark_frame (Suc ((unat bottom - unat start) div 8)) E start s) (\<lambda>s. mark_stack E bottom (rd64 (mem s) bottom) s)"
  by (subst mark_stack.simps) auto

lemma aligned_low: "b AND 7 = (0 :: u64) \<Longrightarrow> unat b + 8 \<le> 2 ^ 64"
proof -
  assume b: "b AND 7 = 0"
  have "take_bit 3 b = b AND 7" by (simp add: take_bit_eq_mask mask_eq_exp_minus_1)
  then have "unat (take_bit 3 b) = 0" using b by simp
  then have "unat b mod 8 = 0" by (simp add: unsigned_take_bit_eq take_bit_eq_mod unat_mod)
  then obtain k where "unat b = 8 * k" by auto
  moreover have "unat b < 2 ^ 64" using unsigned_less [where ?'a = nat and w = b] by simp
  ultimately show ?thesis by simp
qed

lemma frame_words_range:
  assumes "a \<in> set (frame_words start (Suc ((unat bottom - unat start) div 8)))" "start < bottom" "bottom AND 7 = 0"
  shows "unat start \<le> unat a \<and> unat a + 8 \<le> 2 ^ 64"
proof -
  obtain k where k: "k \<le> (unat bottom - unat start) div 8" "a = plus_words start k"
    using assms(1) by (auto simp: frame_words_def less_Suc_eq_le simp del: upt_Suc)
  have "8 * k \<le> unat bottom - unat start" using k(1) by (simp add: less_eq_div_iff_mult_less_eq mult.commute)
  then have le: "unat start + 8 * k \<le> unat bottom" using assms(2) by (simp add: word_less_nat_alt)
  then have "unat a = unat start + 8 * k"
    unfolding k(2) using aligned_low [OF assms(3)] by (intro unat_plus_words) simp
  then show ?thesis using le aligned_low [OF assms(3)] by simp
qed

lemma stack_words_range: "a \<in> set (stack_words m start bottom) \<Longrightarrow> unat start \<le> unat a \<and> unat a + 8 \<le> 2 ^ 64"
proof (induction m start bottom rule: stack_words.induct)
  case (1 m start bottom)
  then have c: "\<not> (bottom \<le> start \<or> bottom = 0 \<or> bottom AND 7 \<noteq> 0)" using stack_words_end by fastforce
  consider "a \<in> set (frame_words start (Suc ((unat bottom - unat start) div 8)))"
    | "a \<in> set (stack_words m bottom (rd64 m bottom))"
    using 1(2) unfolding stack_words_step [OF c] by auto
  then show ?case
  proof cases
    case 1
    then show ?thesis by (rule frame_words_range) (use c in \<open>simp_all add: not_le\<close>)
  next
    case 2
    then have "unat bottom \<le> unat a \<and> unat a + 8 \<le> 2 ^ 64" using 1(1) c by blast
    then show ?thesis using c by (simp add: not_le word_less_nat_alt)
  qed
qed

lemma clear_above: "\<forall>y \<in> H. unat y < unat L \<Longrightarrow> unat L \<le> unat a \<Longrightarrow> unat a + 8 \<le> 2 ^ 64 \<Longrightarrow> clear H a"
proof -
  assume h: "\<forall>y \<in> H. unat y < unat L" "unat L \<le> unat a" "unat a + 8 \<le> 2 ^ 64"
  have "unat (a + of_nat i) = unat a + i" if "i < 8" for i
    using h(3) that by (subst unat_add_lem [THEN iffD1]) (simp_all add: unat_of_small)
  then show ?thesis unfolding clear_def using h by (metis le_add1 le_trans not_less)
qed

lemma stack_words_cong:
  assumes o: "only_mem H s t" and h: "\<forall>y \<in> H. unat y < unat L"
  shows "unat L \<le> unat start \<Longrightarrow> m = mem s \<Longrightarrow> stack_words (mem t) start bottom = stack_words m start bottom"
proof (induction m start bottom rule: stack_words.induct)
  case (1 m start bottom)
  show ?case
  proof (cases "bottom \<le> start \<or> bottom = 0 \<or> bottom AND 7 \<noteq> 0")
    case True
    then show ?thesis by (simp add: stack_words_end)
  next
    case False
    then have l: "unat L \<le> unat bottom" using 1(2) by (simp add: not_le word_less_nat_alt)
    then have "clear H bottom" using False by (intro clear_above [OF h _ aligned_low]) simp_all
    then have r: "rd64 (mem t) bottom = rd64 m bottom" using clear_read o 1(3) by blast
    have "stack_words (mem t) bottom (rd64 m bottom) = stack_words m bottom (rd64 m bottom)"
      by (rule 1(1)) (use False l 1(3) in auto)
    then show ?thesis unfolding stack_words_step [OF False] r by simp
  qed
qed

lemma mark_stack_list:
  "blocks s bs \<Longrightarrow> \<forall>y \<in> hdrs (heap s) bs. unat y < unat L \<Longrightarrow> unat L \<le> unat start \<Longrightarrow>
   mark_stack E start bottom s = mark_list E (\<lambda>a w. a = heap_var E) (stack_words (mem s) start bottom) s"
proof (induction E start bottom s arbitrary: bs rule: mark_stack.induct)
  case (1 E start bottom s)
  show ?case
  proof (cases "bottom \<le> start \<or> bottom = 0 \<or> bottom AND 7 \<noteq> 0")
    case True
    then show ?thesis by (simp add: mark_stack_end stack_words_end)
  next
    case False
    let ?f = "frame_words start (Suc ((unat bottom - unat start) div 8))"
    let ?own = "\<lambda>a w. a = heap_var E"
    have l: "unat L \<le> unat bottom" using False 1(4) by (simp add: not_le word_less_nat_alt)
    have c: "clear (hdrs (heap s) bs) bottom" using False l by (intro clear_above [OF 1(3) _ aligned_low]) simp_all
    have ca: "\<forall>a \<in> set ?f. clear (hdrs (heap s) bs) a"
      using frame_words_range False 1(4) clear_above [OF 1(3)] by (meson le_trans not_le)
    have st: "mark_stack E bottom (rd64 (mem t) bottom) t = mark_list E ?own (stack_words (mem s) bottom (rd64 (mem s) bottom)) t"
      if t: "mark_list E ?own ?f s = Inr t" for t
    proof -
      obtain cs where cs: "marked_to (hdrs (heap s) bs) s bs t cs"
        using mark_list_marks [OF t 1(2) order_refl ca] by auto
      then have o: "only_mem (hdrs (heap s) bs) s t" and b: "blocks t cs" by (simp_all add: marked_to_def)
      have r: "rd64 (mem t) bottom = rd64 (mem s) bottom" by (rule clear_read [OF c o])
      have "mark_stack E bottom (rd64 (mem t) bottom) t = mark_list E ?own (stack_words (mem t) bottom (rd64 (mem t) bottom)) t"
        by (rule 1(1) [OF _ _ _ b]) (use False l 1(3) t marked_hdrs [OF cs] in \<open>auto simp: mark_frame_list\<close>)
      then show ?thesis unfolding r stack_words_cong [OF o 1(3) l refl] .
    qed
    have "mark_stack E start bottom s = bindR (mark_list E ?own ?f s) (\<lambda>t. mark_stack E bottom (rd64 (mem t) bottom) t)"
      unfolding mark_stack_step [OF False] mark_frame_list ..
    also have "\<dots> = bindR (mark_list E ?own ?f s) (mark_list E ?own (stack_words (mem s) bottom (rd64 (mem s) bottom)))"
      by (rule bindR_cong [OF refl]) (rule st)
    also have "\<dots> = mark_list E ?own (stack_words (mem s) start bottom) s"
      unfolding stack_words_step [OF False] mark_list_append ..
    finally show ?thesis .
  qed
qed

section \<open>The scan of the heap\<close>

text \<open>Blocks that can still be marked.\<close>

definition unmarked :: "blk list \<Rightarrow> nat" where
  "unmarked bs = length (filter (\<lambda>b. b_alloc b \<and> \<not> b_mark b) bs)"

lemma unmarked_mono: "marks bs cs \<Longrightarrow> unmarked cs \<le> unmarked bs"
  unfolding marks_def by (induction rule: list_all2_induct) (auto simp: unmarked_def)

lemma unmarked_update:
  assumes "i < length bs" "b_alloc (bs ! i)" "\<not> b_mark (bs ! i)"
  shows "unmarked (bs[i := (bs ! i)\<lparr>b_mark := True\<rparr>]) < unmarked bs"
proof -
  have "unmarked (take i bs @ bs ! i # drop (Suc i) bs) = unmarked (take i bs) + Suc (unmarked (drop (Suc i) bs))"
    using assms(2,3) by (simp add: unmarked_def)
  moreover have "unmarked (bs[i := (bs ! i)\<lparr>b_mark := True\<rparr>]) = unmarked (take i bs) + unmarked (drop (Suc i) bs)"
    using assms(1) by (simp add: upd_conv_take_nth_drop unmarked_def)
  ultimately show ?thesis using assms(1) by (simp flip: id_take_nth_drop)
qed

text \<open>A word whose scan marks nothing.\<close>

definition settled :: "nat \<Rightarrow> gc_env \<Rightarrow> gc \<Rightarrow> u64 \<Rightarrow> bool" where
  "settled F E s w \<longleftrightarrow> chase_heap F E w s = Inr (False, s)"

lemma chase_heap_marks:
  assumes b: "blocks s bs" and h: "hdrs (heap s) bs \<subseteq> H"
  shows "chase_heap n E w s = Inr (any, s') \<Longrightarrow> \<exists>cs. marked_to H s bs s' cs \<and> (if any then unmarked cs < unmarked bs else s' = s \<and> kept_by s bs bs w)"
proof (induction n arbitrary: w)
  case (Suc n)
  show ?case
  proof (cases "inHeapRange s w")
    case False
    then have k: "kept_by s bs bs w" by (simp add: kept_by_def)
    show ?thesis
    proof (cases "w \<noteq> 0 \<and> (inGlobalRange E w \<or> inStackRange s w)")
      case True
      then have "chase_heap n E (rd64 (mem s) w) s = Inr (any, s')" using Suc.prems False by auto
      from Suc.IH [OF this] k show ?thesis by auto
    next
      case c: False
      then have "any = False \<and> s' = s" using Suc.prems False by (auto split: if_splits)
      then show ?thesis using k marked_to_refl [OF b] by auto
    qed
  next
    case True
    note nz = in_heap_nz [OF b True]
    obtain i where i: "owner (heap s) bs w = Some i"
      using Suc.prems nz True get_block_owner [OF b True] by (cases "owner (heap s) bs w") simp_all
    then have il: "i < length bs" using owner_less blocks_Nil b by metis
    have g: "getBlock s w = Inr (adr (heap s) bs i)" "adr (heap s) bs i \<noteq> 0"
      using get_block_owner [OF b True] i adr_nz [OF blocks_room [OF b]] by simp_all
    have info: "blk_info s (adr (heap s) bs i) = info_of (bs ! i)" by (rule blocks_read(1) [OF b il])
    show ?thesis
    proof (cases "\<not> b_mark (bs ! i) \<and> b_alloc (bs ! i)")
      case m: True
      then have "any" "s' = set_info (adr (heap s) bs i) (blk_info s (adr (heap s) bs i) OR MARK_BIT) s"
        using Suc.prems nz True g info by (simp_all add: info_flags)
      then show ?thesis using mark_step [OF b il _ h] unmarked_update [OF il] m by (intro exI [of _ "bs[i := (bs ! i)\<lparr>b_mark := True\<rparr>]"]) simp
    next
      case m: False
      then have r: "chase_heap n E (rd64 (mem s) w) s = Inr (any, s')"
        using Suc.prems nz True g info by (auto simp: info_flags split: if_splits)
      have "kept_by s bs bs w" using i m by (auto simp: kept_by_def)
      then show ?thesis using Suc.IH [OF r] by auto
    qed
  qed
qed simp

lemma marked_to_blocks: "marked_to H s bs t cs \<Longrightarrow> blocks t cs \<and> marks bs cs \<and> only_mem H s t"
  by (simp add: marked_to_def)

lemma marked_same:
  assumes "marked_to H s bs s cs" "blocks s bs"
  shows "cs = bs"
proof (rule nth_equalityI)
  have b: "blocks s cs" and m: "marks bs cs" using marked_to_blocks [OF assms(1)] by simp_all
  show l: "length cs = length bs" by (rule marks_length [OF m])
  fix i assume i: "i < length cs"
  then have "info_of (cs ! i) = info_of (bs ! i)"
    using blocks_read(1) [OF b i] blocks_read(1) [OF assms(2), of i] l adr_cong [OF marks_sizes [OF m]] by simp
  then have "b_mark (cs ! i) = b_mark (bs ! i)" by (metis info_flags(2))
  then show "cs ! i = bs ! i" using marks_nth [OF m, of i] i l by (cases "bs ! i") auto
qed

lemma settled_kept: "settled F E s w \<Longrightarrow> blocks s bs \<Longrightarrow> kept_by s bs bs w"
  using chase_heap_marks [of s bs _ F E w False s, OF _ order_refl] by (auto simp: settled_def)

lemma scan_words_marks:
  "scan_words F n E a marked s = Inr (any, s') \<Longrightarrow> blocks s bs \<Longrightarrow> hdrs (heap s) bs \<subseteq> H \<Longrightarrow>
   \<exists>cs. marked_to H s bs s' cs \<and> (marked \<longrightarrow> any) \<and> (any \<longrightarrow> marked \<or> unmarked cs < unmarked bs) \<and>
     (\<not> any \<longrightarrow> s' = s \<and> (\<forall>k < n. settled F E s (rd64 (mem s) (plus_words a k))))"
proof (induction n arbitrary: a marked s bs)
  case 0
  then show ?case using marked_to_refl [OF 0(2), of H] by auto
next
  case (Suc n)
  obtain x t where t: "chase_heap F E (rd64 (mem s) a) s = Inr (x, t)" "scan_words F n E (a + 8) (marked \<or> x) t = Inr (any, s')"
    using Suc.prems(1) by (auto split: prod.splits)
  obtain cs where cs: "marked_to H s bs t cs" "if x then unmarked cs < unmarked bs else t = s"
    using chase_heap_marks [OF Suc.prems(2,3) t(1)] by (auto split: if_splits)
  have h: "hdrs (heap t) cs \<subseteq> H" using Suc.prems(3) marked_hdrs [OF cs(1)] by simp
  obtain ds where ds: "marked_to H t cs s' ds" "marked \<or> x \<longrightarrow> any" "any \<longrightarrow> marked \<or> x \<or> unmarked ds < unmarked cs"
    "\<not> any \<longrightarrow> s' = t \<and> (\<forall>k < n. settled F E t (rd64 (mem t) (plus_words (a + 8) k)))"
    using Suc.IH [OF t(2) _ h] marked_to_blocks [OF cs(1)] by blast
  have le: "unmarked cs \<le> unmarked bs" "unmarked ds \<le> unmarked cs"
    using unmarked_mono marked_to_blocks [OF cs(1)] marked_to_blocks [OF ds(1)] by simp_all
  have "settled F E s (rd64 (mem s) (plus_words a k))" if "\<not> any" "k < Suc n" for k
  proof (cases k)
    case 0
    then show ?thesis using that cs(2) ds(2) t(1) by (simp add: settled_def)
  next
    case (Suc j)
    have "plus_words (a + 8) j = plus_words a k" by (simp add: Suc plus_words_def distrib_left add.assoc)
    then show ?thesis using ds(2,4) cs(2) that Suc by auto
  qed
  moreover have "any \<longrightarrow> marked \<or> unmarked ds < unmarked bs" using ds(3) cs(2) le by (cases x) auto
  ultimately show ?case using marked_to_trans [OF cs(1) ds(1)] ds cs(2) by (intro exI [of _ ds]) auto
qed

text \<open>The words of a block.\<close>

definition word_at :: "u64 \<Rightarrow> blk list \<Rightarrow> nat \<Rightarrow> nat \<Rightarrow> u64" where
  "word_at a bs i k = plus_words (adr a bs i + 24) k"

text \<open>All the words of the blocks from \<open>i\<close>.\<close>

definition all_settled :: "nat \<Rightarrow> gc_env \<Rightarrow> gc \<Rightarrow> blk list \<Rightarrow> nat \<Rightarrow> bool" where
  "all_settled F E s bs i \<longleftrightarrow>
     (\<forall>j k. i \<le> j \<and> j < length bs \<and> k < b_size (bs ! j) \<longrightarrow> settled F E s (rd64 (mem s) (word_at (heap s) bs j k)))"

lemma block_size_read: "blocks s bs \<Longrightarrow> i < length bs \<Longrightarrow> unat (blk_info s (adr (heap s) bs i) AND SIZE_MASK) = b_size (bs ! i)"
proof -
  assume b: "blocks s bs" "i < length bs"
  note r = blocks_room [OF b(1)]
  show ?thesis unfolding blocks_read(1) [OF b] info_size [OF r b(2)]
    using size_bound [OF r b(2)] by (simp add: unat_of_small)
qed

text \<open>The address of block \<open>i\<close>, null after the last.\<close>

definition from_block :: "gc \<Rightarrow> blk list \<Rightarrow> nat \<Rightarrow> u64" where
  "from_block s bs i = (if i < length bs then adr (heap s) bs i else 0)"

lemma next_from: "marked_to H s bs t cs \<Longrightarrow> i < length bs \<Longrightarrow> blk_next t (adr (heap s) bs i) = from_block t cs (Suc i)"
proof -
  assume m: "marked_to H s bs t cs" and i: "i < length bs"
  then have b: "blocks t cs" and l: "length cs = length bs" and a: "adr (heap s) bs j = adr (heap t) cs j" for j
    using adr_cong [OF marks_sizes, of bs cs] only_mem_fields [of H s t] marks_length by (simp_all add: marked_to_def)
  show ?thesis unfolding a using blocks_read(2) [OF b, of i] i l by (auto simp: from_block_def)
qed

lemma scan_blocks_marks:
  "scan_blocks F n E (from_block s bs i) marked s = Inr (any, s') \<Longrightarrow> blocks s bs \<Longrightarrow> hdrs (heap s) bs \<subseteq> H \<Longrightarrow>
   \<exists>cs. marked_to H s bs s' cs \<and> (marked \<longrightarrow> any) \<and> (any \<longrightarrow> marked \<or> unmarked cs < unmarked bs) \<and>
     (\<not> any \<longrightarrow> s' = s \<and> all_settled F E s bs i)"
proof (induction n arbitrary: i marked s bs)
  case (Suc n)
  note r = blocks_room [OF Suc.prems(2)]
  show ?case
  proof (cases "i < length bs")
    case False
    then show ?thesis using Suc.prems marked_to_refl [OF Suc.prems(2), of H] by (auto simp: from_block_def all_settled_def)
  next
    case True
    let ?a = "adr (heap s) bs i"
    obtain x t where t: "scan_words F (b_size (bs ! i)) E (?a + 24) marked s = Inr (x, t)"
        "scan_blocks F n E (blk_next t ?a) x t = Inr (any, s')"
      using Suc.prems(1) True adr_nz [OF r] block_size_read [OF Suc.prems(2) True] by (auto simp: from_block_def split: prod.splits)
    obtain cs where cs: "marked_to H s bs t cs" "marked \<longrightarrow> x" "x \<longrightarrow> marked \<or> unmarked cs < unmarked bs"
        "\<not> x \<longrightarrow> t = s \<and> (\<forall>k < b_size (bs ! i). settled F E s (rd64 (mem s) (plus_words (?a + 24) k)))"
      using scan_words_marks [OF t(1) Suc.prems(2,3)] by auto
    have h: "hdrs (heap t) cs \<subseteq> H" using Suc.prems(3) marked_hdrs [OF cs(1)] by simp
    have "scan_blocks F n E (from_block t cs (Suc i)) x t = Inr (any, s')"
      using t(2) next_from [OF cs(1) True] by simp
    then obtain ds where ds: "marked_to H t cs s' ds" "x \<longrightarrow> any" "any \<longrightarrow> x \<or> unmarked ds < unmarked cs"
        "\<not> any \<longrightarrow> s' = t \<and> all_settled F E t cs (Suc i)"
      using Suc.IH [OF _ _ h] marked_to_blocks [OF cs(1)] by blast
    have le: "unmarked cs \<le> unmarked bs" "unmarked ds \<le> unmarked cs"
      using unmarked_mono marked_to_blocks [OF cs(1)] marked_to_blocks [OF ds(1)] by simp_all
    have "all_settled F E s bs i" if a: "\<not> any"
    proof -
      have x: "\<not> x" "t = s" using a ds(2) cs(4) by auto
      then have "cs = bs" using marked_same cs(1) Suc.prems(2) by simp
      then have "all_settled F E s bs (Suc i)" using ds(4) a x by simp
      moreover have "\<forall>k < b_size (bs ! i). settled F E s (rd64 (mem s) (word_at (heap s) bs i k))"
        using cs(4) x by (simp add: word_at_def)
      ultimately show ?thesis by (auto simp: all_settled_def) (metis le_neq_implies_less Suc_leI)
    qed
    moreover have "any \<longrightarrow> marked \<or> unmarked ds < unmarked bs" using ds(3) cs(3) le by auto
    ultimately show ?thesis using marked_to_trans [OF cs(1) ds(1)] ds cs(2,4) by (intro exI [of _ ds]) auto
  qed
qed simp

lemma from_block_0: "blocks s bs \<Longrightarrow> from_block s bs 0 = heap s"
  using blocks_Nil by (auto simp: from_block_def)

lemma mark_heap_marks:
  "mark_heap F n E s = Inr s' \<Longrightarrow> blocks s bs \<Longrightarrow> hdrs (heap s) bs \<subseteq> H \<Longrightarrow>
   \<exists>cs. marked_to H s bs s' cs \<and> all_settled F E s' cs 0"
proof (induction n arbitrary: s bs)
  case (Suc n)
  obtain any t where t: "scan_blocks F (heap_fuel s) E (from_block s bs 0) False s = Inr (any, t)" "(if any then mark_heap F n E t else Inr t) = Inr s'"
    using Suc.prems(1) from_block_0 [OF Suc.prems(2)] by (auto split: prod.splits)
  from scan_blocks_marks [OF t(1) Suc.prems(2,3)] obtain cs where cs: "marked_to H s bs t cs"
    "\<not> any \<longrightarrow> t = s \<and> all_settled F E s bs 0"
    by auto
  show ?case
  proof (cases any)
    case False
    then show ?thesis using t(2) cs marked_to_refl [OF Suc.prems(2), of H] by auto
  next
    case True
    have h: "hdrs (heap t) cs \<subseteq> H" using Suc.prems(3) marked_hdrs [OF cs(1)] by simp
    obtain ds where "marked_to H t cs s' ds" "all_settled F E s' ds 0"
      using Suc.IH [OF _ _ h] t(2) True marked_to_blocks [OF cs(1)] by auto
    then show ?thesis using marked_to_trans [OF cs(1)] by blast
  qed
qed simp

end
