(* ===== verification/Alloc_Collect.thy ===== *)
theory Alloc_Collect
  imports Alloc_Mark
begin

text \<open>
  A whole collection of A4/alloc.c: what it keeps, when it returns, and when it does not: a root that
  points into the last block faults, and a word that holds its own address is followed for ever.
\<close>

section \<open>A collection\<close>

lemma hdr_byte:
  assumes "room a bs" "i < length bs" "unat (y - adr a bs i) < 24"
  shows "unat (adr a bs i) \<le> unat y \<and> unat y < unat (adr a bs i) + 24"
proof -
  have "y = adr a bs i + (y - adr a bs i)" by simp
  also have "unat \<dots> = unat (adr a bs i) + unat (y - adr a bs i)"
    using adr_end(2) [OF assms(1,2)] assms(3) by (subst unat_add_lem [THEN iffD1]) simp_all
  finally show ?thesis using assms(3) by simp
qed

lemma hdrs_range: "room a bs \<Longrightarrow> y \<in> hdrs a bs \<Longrightarrow> unat a \<le> unat y \<and> unat y < unat a + 8 * words_of bs"
proof -
  assume r: "room a bs" and "y \<in> hdrs a bs"
  then obtain i where i: "i < length bs" "unat (y - adr a bs i) < 24" by (auto simp: hdrs_adr)
  have "words_of (take (Suc i) bs) \<le> words_of bs" by (rule words_take_le)
  then show ?thesis using hdr_byte [OF r i] adr_end(1) [OF r i(1)] by (simp add: unat_adr [OF r])
qed

lemma unat_word_at: "room a bs \<Longrightarrow> i < length bs \<Longrightarrow> k < b_size (bs ! i) \<Longrightarrow> unat (word_at a bs i k) = unat (adr a bs i) + 24 + 8 * k"
proof -
  assume a: "room a bs" "i < length bs" "k < b_size (bs ! i)"
  note e = adr_end(2) [OF a(1,2)]
  have "unat (adr a bs i + 24) = unat (adr a bs i) + 24" using e by (subst unat_add_lem [THEN iffD1]) simp_all
  then show ?thesis unfolding word_at_def using e a(3) by (subst unat_plus_words) simp_all
qed

lemma word_clear:
  assumes r: "room a bs" and i: "i < length bs" "k < b_size (bs ! i)"
  shows "clear (hdrs a bs) (word_at a bs i k)"
  unfolding clear_def
proof (intro allI impI notI)
  fix n :: nat assume n: "n < 8" and h: "word_at a bs i k + of_nat n \<in> hdrs a bs"
  let ?y = "word_at a bs i k + of_nat n"
  note e = adr_end(2) [OF r i(1)]
  have y: "unat ?y = unat (adr a bs i) + 24 + 8 * k + n"
    using unat_word_at [OF r i] e n i(2) by (subst unat_add_lem [THEN iffD1]) (simp_all add: unat_of_small)
  obtain j where j: "j < length bs" "unat (?y - adr a bs j) < 24" using h by (auto simp: hdrs_adr)
  note b = hdr_byte [OF r j]
  consider "j < i" | "j = i" | "i < j" by linarith
  then show False
  proof cases
    case 1
    then show ?thesis using adr_less [OF r 1] i(1) b y by simp
  next
    case 2
    then show ?thesis using b y by simp
  next
    case 3
    then have "unat (adr a bs (Suc i)) \<le> unat (adr a bs j)"
      using words_take_mono [of "Suc i" j bs] by (simp add: unat_adr [OF r])
    then show ?thesis using b y adr_end(1) [OF r i(1)] n i(2) by (simp add: unat_adr [OF r])
  qed
qed

text \<open>The globals and the stack are not in the heap; the stack lies above it.\<close>

definition roots_apart :: "gc_env \<Rightarrow> gc \<Rightarrow> bool" where
  "roots_apart E s \<longleftrightarrow>
     (\<forall>a \<in> set (global_words E). unat a + 8 \<le> unat (heap s) \<or>
        unat (heap s) + 8 * unat (total_heap_size s) \<le> unat a \<and> unat a + 8 \<le> 2 ^ 64) \<and>
     unat (heap s) + 8 * unat (total_heap_size s) \<le> unat (stack_top s)"

lemma roots_clear:
  assumes "blocks s bs" "roots_apart E s"
  shows "\<forall>a \<in> set (global_words E). clear (hdrs (heap s) bs) a"
    and "\<forall>y \<in> hdrs (heap s) bs. unat y < unat (stack_top s)"
    and "\<forall>a \<in> set (stack_words (mem s) (stack_top s) bottom). clear (hdrs (heap s) bs) a"
proof -
  note hr = hdrs_range [OF blocks_room [OF assms(1)]]
  have t: "unat (total_heap_size s) = words_of bs" using assms(1) by (simp add: blocks_def)
  show st: "\<forall>y \<in> hdrs (heap s) bs. unat y < unat (stack_top s)"
    using hr assms(2) t by (fastforce simp: roots_apart_def)
  then show "\<forall>a \<in> set (stack_words (mem s) (stack_top s) bottom). clear (hdrs (heap s) bs) a"
    using stack_words_range clear_above [OF st] by blast
  show "\<forall>a \<in> set (global_words E). clear (hdrs (heap s) bs) a"
  proof
    fix a assume "a \<in> set (global_words E)"
    then have a: "unat a + 8 \<le> unat (heap s) \<or> unat (heap s) + 8 * words_of bs \<le> unat a \<and> unat a + 8 \<le> 2 ^ 64"
      using assms(2) t by (auto simp: roots_apart_def)
    show "clear (hdrs (heap s) bs) a" unfolding clear_def
    proof (intro allI impI notI)
      fix i :: nat assume i: "i < 8" "a + of_nat i \<in> hdrs (heap s) bs"
      have "unat (a + of_nat i) = unat a + i"
        using a i(1) unsigned_less [where ?'a = nat and w = "heap s"]
        by (subst unat_add_lem [THEN iffD1]) (auto simp: unat_of_small)
      then show False using hr [OF i(2)] a i(1) by auto
    qed
  qed
qed

text \<open>The roots that are followed.\<close>

definition root_values :: "gc_env \<Rightarrow> gc \<Rightarrow> u64 set" where
  "root_values E s = {rd64 (mem s) a | a. a \<in> set (global_words E) \<and> rd64 (mem s) a \<noteq> heap_var E}
     \<union> {rd64 (mem s) a | a. a \<in> set (stack_words (mem s) (stack_top s) (frame_bottom s)) \<and> a \<noteq> heap_var E}"

lemma global_words_list: "mark_globals (global_length E) E 0 s = mark_list E (\<lambda>a w. w = heap_var E) (global_words E) s"
  using mark_globals_list [of "global_length E" E 0 s] by (simp add: global_words_def)

lemma mark_roots:
  assumes b: "blocks s bs" and ra: "roots_apart E s"
    and g: "mark_globals (global_length E) E 0 s = Inr t" and st: "mark_stack E (stack_top t) (frame_bottom t) t = Inr u"
  shows "\<exists>cs. marked_to (hdrs (heap s) bs) s bs u cs \<and> (\<forall>w \<in> root_values E s. kept_by s bs cs w)"
proof -
  let ?H = "hdrs (heap s) bs"
  note rc = roots_clear [OF b ra]
  obtain cs where cs: "marked_to ?H s bs t cs"
    "\<forall>a \<in> set (global_words E). rd64 (mem s) a \<noteq> heap_var E \<longrightarrow> kept_by s bs cs (rd64 (mem s) a)"
    using mark_list_marks [OF g [unfolded global_words_list] b order_refl rc(1)] by auto
  then have bt: "blocks t cs" and m: "marks bs cs" and o: "only_mem ?H s t" using marked_to_blocks by auto
  note h = marked_hdrs [OF cs(1)] and f = only_mem_fields [OF o]
  have rc2: "\<forall>y \<in> hdrs (heap t) cs. unat y < unat (stack_top s)" using rc(2) h by simp
  have sw: "stack_words (mem t) (stack_top s) (frame_bottom s) = stack_words (mem s) (stack_top s) (frame_bottom s)"
    by (rule stack_words_cong [OF o rc(2)]) simp_all
  have "mark_list E (\<lambda>a w. a = heap_var E) (stack_words (mem s) (stack_top s) (frame_bottom s)) t = Inr u"
    using st mark_stack_list [OF bt rc2 order_refl, of E "frame_bottom s"] f sw by simp
  from mark_list_marks [OF this bt _ rc(3)] obtain ds where ds: "marked_to ?H t cs u ds"
    "\<forall>a \<in> set (stack_words (mem s) (stack_top s) (frame_bottom s)). a \<noteq> heap_var E \<longrightarrow> kept_by t cs ds (rd64 (mem t) a)"
    using h by auto
  have "kept_by s bs ds (rd64 (mem s) a)" if "a \<in> set (global_words E)" "rd64 (mem s) a \<noteq> heap_var E" for a
    using kept_mono [OF _ m _ b] cs(2) that ds(1) marked_to_blocks by blast
  moreover have "kept_by s bs ds (rd64 (mem s) a)"
    if "a \<in> set (stack_words (mem s) (stack_top s) (frame_bottom s))" "a \<noteq> heap_var E" for a
  proof -
    have "kept_by t cs ds (rd64 (mem t) a)" using ds(2) that by blast
    moreover have "rd64 (mem t) a = rd64 (mem s) a" using clear_read o rc(3) that(1) by blast
    ultimately show ?thesis using kept_shift [OF _ cs(1) b] by simp
  qed
  ultimately show ?thesis using marked_to_trans [OF cs(1) ds(1)] unfolding root_values_def by blast
qed

lemma split_pos:
  "bs = xs @ ys \<Longrightarrow> length xs \<le> k \<Longrightarrow> k < length bs \<Longrightarrow>
   k - length xs < length ys \<and> ys ! (k - length xs) = bs ! k \<and> take k bs = xs @ take (k - length xs) ys"
  by (auto simp: nth_append)

lemma swept_keeps:
  "i < length bs \<Longrightarrow> b_mark (bs ! i) \<Longrightarrow>
   \<exists>j < length (swept bs). words_of (take j (swept bs)) = words_of (take i bs) \<and> swept bs ! j = (bs ! i)\<lparr>b_mark := False\<rparr>"
proof (induction bs arbitrary: i rule: swept.induct)
  case (2 b bs)
  show ?case
  proof (cases "b_mark b")
    case True
    show ?thesis
    proof (cases i)
      case 0
      then show ?thesis using True 2(4) by (intro exI [of _ 0]) simp
    next
      case (Suc k)
      then obtain j where "j < length (swept bs)" "words_of (take j (swept bs)) = words_of (take k bs)"
          "swept bs ! j = (bs ! k)\<lparr>b_mark := False\<rparr>"
        using 2(1) [OF True, of k] 2(3,4) by auto
      then show ?thesis using True Suc by (intro exI [of _ "Suc j"]) simp
    qed
  next
    case False
    let ?t = "takeWhile (\<lambda>b. \<not> b_mark b) bs" and ?d = "dropWhile (\<lambda>b. \<not> b_mark b) bs"
    obtain k where i: "i = Suc k" "k < length bs" "b_mark (bs ! k)" using 2(3,4) False by (cases i) auto
    have le: "length ?t \<le> k"
    proof (rule ccontr)
      assume "\<not> ?thesis"
      then have "k < length ?t" by simp
      from takeWhile_nth [OF this] set_takeWhileD [OF nth_mem [OF this]] i(3) show False by simp
    qed
    define l where "l = k - length ?t"
    have l: "l < length ?d" "?d ! l = bs ! k" "take k bs = ?t @ take l ?d"
      unfolding l_def using split_pos [OF takeWhile_dropWhile_id [symmetric] le i(2)] by blast+
    then obtain j where "j < length (swept ?d)" "words_of (take j (swept ?d)) = words_of (take l ?d)"
        "swept ?d ! j = (bs ! k)\<lparr>b_mark := False\<rparr>"
      using 2(2) [OF False, of l] i(3) by auto
    then show ?thesis using False i l(3) by (intro exI [of _ "Suc j"]) simp
  qed
qed simp

lemma collection_steps:
  assumes b: "blocks s bs" and q: "quiet_finalizers E" "\<not> in_finalize_call s" and ra: "roots_apart E s"
    and r: "markAndSweep F E s = Inr (r, s')"
  shows "\<exists>t cs. marked_to (hdrs (heap s) bs) s bs t cs \<and> (\<forall>w \<in> root_values E s. kept_by s bs cs w) \<and> all_settled F E t cs 0 \<and>
     blocks s' (swept cs) \<and> only_mem (hdrs (heap s) bs) t s' \<and> r = sint (ucast (of_nat (free_words (swept cs) - free_words cs) :: u64) :: u32)"
proof -
  let ?H = "hdrs (heap s) bs"
  obtain t u v w where p: "mark_globals (global_length E) E 0 s = Inr t" "mark_stack E (stack_top t) (frame_bottom t) t = Inr u"
      "mark_heap F F E u = Inr v" "sweep (heap_fuel v) E (heap v) 0 0 v = Inr (w, s')" "r = sint (ucast w :: u32)"
    using r by (auto simp: markAndSweep_def split: prod.splits)
  obtain cs where cs: "marked_to ?H s bs u cs" "\<forall>w \<in> root_values E s. kept_by s bs cs w"
    using mark_roots [OF b ra p(1,2)] by auto
  note h = marked_hdrs [OF cs(1)]
  obtain ds where ds: "marked_to ?H u cs v ds" "all_settled F E v ds 0"
    using mark_heap_marks [OF p(3), of cs ?H] marked_to_blocks [OF cs(1)] h by auto
  have m: "marked_to ?H s bs v ds" by (rule marked_to_trans [OF cs(1) ds(1)])
  have bv: "blocks v ds" and o: "only_mem ?H s v" using marked_to_blocks [OF m] by simp_all
  have nf: "\<not> in_finalize_call v" using only_mem_fields [OF o] q(2) by simp
  have "\<forall>w \<in> root_values E s. kept_by s bs ds w"
    using kept_mono [OF _ _ _ b] cs(2) marked_to_blocks [OF cs(1)] marked_to_blocks [OF ds(1)] by blast
  moreover have "w = of_nat (free_words (swept ds) - free_words ds) \<and> blocks s' (swept ds) \<and> only_mem ?H v s'"
    using sweep_exact_spec [OF bv q(1) nf] p(4) marked_hdrs [OF m] by auto
  ultimately show ?thesis using m ds(2) p(5) by blast
qed

lemma collection_keeps:
  assumes b: "blocks s bs" and q: "quiet_finalizers E" "\<not> in_finalize_call s" and ra: "roots_apart E s"
    and r: "markAndSweep F E s = Inr (r, s')"
    and i: "Suc i < length bs" "b_alloc (bs ! i)" and w: "adr (heap s) bs i < w" "w \<le> adr (heap s) bs (Suc i)"
    and ref: "w \<in> root_values E s \<or> (\<exists>j < length bs. \<exists>k < b_size (bs ! j). rd64 (mem s) (word_at (heap s) bs j k) = w)"
  shows "\<exists>ks j. blocks s' ks \<and> j < length ks \<and> adr (heap s) ks j = adr (heap s) bs i \<and> ks ! j = (bs ! i)\<lparr>b_mark := False\<rparr> \<and>
     (\<forall>k < b_size (bs ! i). rd64 (mem s') (word_at (heap s) bs i k) = rd64 (mem s) (word_at (heap s) bs i k))"
proof -
  let ?H = "hdrs (heap s) bs"
  note rm = blocks_room [OF b]
  obtain t cs where t: "marked_to ?H s bs t cs" "\<forall>w \<in> root_values E s. kept_by s bs cs w" "all_settled F E t cs 0"
      "blocks s' (swept cs)" "only_mem ?H t s'"
    using collection_steps [OF assms(1-5)] by blast
  have bt: "blocks t cs" and m: "marks bs cs" and o: "only_mem ?H s t" using marked_to_blocks [OF t(1)] by simp_all
  have i': "i < length bs" "i < length cs" using i(1) marks_length [OF m] by simp_all
  have e: "unat (adr (heap s) bs (Suc i)) < unat (heap s) + 8 * words_of bs"
  proof -
    have "words_of (take (Suc (Suc i)) bs) \<le> words_of bs" by (rule words_take_le)
    then show ?thesis using i(1) words_take_Suc [of "Suc i" bs] by (simp add: unat_adr [OF rm])
  qed
  then have inh: "inHeapRange s w"
    using w by (auto simp: in_heap_iff [OF b] word_less_nat_alt word_le_nat_alt unat_adr [OF rm])
  have ow: "owner (heap s) bs w = Some i" by (rule owner_at [OF rm i(1) w])
  have kb: "kept_by s bs cs w" using ref
  proof
    assume "w \<in> root_values E s"
    then show ?thesis using t(2) by blast
  next
    assume "\<exists>j < length bs. \<exists>k < b_size (bs ! j). rd64 (mem s) (word_at (heap s) bs j k) = w"
    then obtain j k where jk: "j < length bs" "k < b_size (bs ! j)" "rd64 (mem s) (word_at (heap s) bs j k) = w" by blast
    have "word_at (heap t) cs j k = word_at (heap s) bs j k"
      using adr_cong [OF marks_sizes [OF m]] only_mem_fields [OF o] by (simp add: word_at_def)
    moreover have "rd64 (mem t) (word_at (heap s) bs j k) = w"
      using clear_read [OF word_clear [OF rm jk(1,2)] o] jk(3) by simp
    moreover have "settled F E t (rd64 (mem t) (word_at (heap t) cs j k))"
      using t(3) jk(1,2) marks_length [OF m] marks_fields [OF m jk(1)] unfolding all_settled_def by simp
    ultimately have "settled F E t w" by (simp only:)
    then show ?thesis using kept_shift [OF settled_kept [OF _ bt] t(1) b] by blast
  qed
  then have mk: "b_mark (cs ! i)" using inh ow i(2) by (simp add: kept_by_def)
  then have bi: "(cs ! i)\<lparr>b_mark := False\<rparr> = (bs ! i)\<lparr>b_mark := False\<rparr>" using marks_nth [OF m i'(1)] by auto
  obtain j where j: "j < length (swept cs)" "words_of (take j (swept cs)) = words_of (take i cs)"
      "swept cs ! j = (cs ! i)\<lparr>b_mark := False\<rparr>"
    using swept_keeps [OF i'(2) mk] by blast
  have "adr (heap s) (swept cs) j = adr (heap s) bs i"
    using j(2) adr_cong [OF marks_sizes [OF m]] by (simp add: adr_def)
  moreover have "rd64 (mem s') (word_at (heap s) bs i k) = rd64 (mem s) (word_at (heap s) bs i k)" if "k < b_size (bs ! i)" for k
    using clear_read [OF word_clear [OF rm i'(1) that] only_mem_trans [OF o t(5)]] .
  ultimately show ?thesis using t(4) j bi by auto
qed

section \<open>Collections that end\<close>

text \<open>The chain of words from \<open>w\<close> ends within \<open>n\<close> steps and stays off the headers and the last block.\<close>

fun ends :: "nat \<Rightarrow> gc_env \<Rightarrow> gc \<Rightarrow> blk list \<Rightarrow> u64 \<Rightarrow> bool" where
  "ends 0 E s bs w = False"
| "ends (Suc n) E s bs w \<longleftrightarrow> w = 0 \<or>
     (if inHeapRange s w then owner (heap s) bs w \<noteq> None \<and> clear (hdrs (heap s) bs) w \<and> ends n E s bs (rd64 (mem s) w)
      else inGlobalRange E w \<or> inStackRange s w \<longrightarrow> clear (hdrs (heap s) bs) w \<and> ends n E s bs (rd64 (mem s) w))"

lemma ends_marked: "marked_to (hdrs (heap s) bs) s bs t cs \<Longrightarrow> ends n E t cs w = ends n E s bs w"
proof (induction n arbitrary: w)
  case (Suc n)
  have m: "marks bs cs" and o: "only_mem (hdrs (heap s) bs) s t" using marked_to_blocks [OF Suc.prems] by simp_all
  note f = only_mem_fields [OF o]
  have r: "clear (hdrs (heap s) bs) w \<Longrightarrow> rd64 (mem t) w = rd64 (mem s) w" by (rule clear_read [OF _ o])
  have i: "inHeapRange t w = inHeapRange s w" "inStackRange t w = inStackRange s w" "heap t = heap s"
    "hdrs (heap t) cs = hdrs (heap s) bs" "owner (heap s) cs w = owner (heap s) bs w"
    using only_mem_range [OF o] f marked_hdrs [OF Suc.prems] owner_cong [OF marks_sizes [OF m]] by (simp_all add: inStackRange_def)
  note IH = Suc.IH [OF Suc.prems]
  show ?case
  proof (cases "clear (hdrs (heap s) bs) w")
    case True
    show ?thesis unfolding ends.simps i(1,2,4) unfolding i(3,5) r [OF True] IH ..
  next
    case False
    then show ?thesis unfolding ends.simps i(1,2,4) unfolding i(3,5) by simp
  qed
qed simp

lemma chase_own: "blocks s bs \<Longrightarrow> \<exists>t. chase m E True w s = Inr t"
proof (induction m arbitrary: w)
  case (Suc m)
  then show ?case using get_block_owner [OF Suc.prems, of w] by auto
qed simp

lemma chase_total: "blocks s bs \<Longrightarrow> ends n E s bs w \<Longrightarrow> \<exists>t. chase m E own w s = Inr t"
proof (induction m arbitrary: n w)
  case (Suc m)
  show ?case
  proof (cases "own")
    case True
    then have o: "own = True" by simp
    show ?thesis unfolding o by (rule chase_own [OF Suc.prems(1)])
  next
    case False
    obtain k where n: "n = Suc k" using Suc.prems(2) by (cases n) auto
    show ?thesis
    proof (cases "w = 0")
      case w: False
      show ?thesis
      proof (cases "inHeapRange s w")
        case True
        then obtain i where i: "owner (heap s) bs w = Some i" and e: "ends k E s bs (rd64 (mem s) w)"
          using Suc.prems(2) n w by auto
        have "getBlock s w = Inr (adr (heap s) bs i)" "adr (heap s) bs i \<noteq> 0"
          using get_block_owner [OF Suc.prems(1) True] i adr_nz [OF blocks_room [OF Suc.prems(1)]] by simp_all
        then show ?thesis using Suc.IH [OF Suc.prems(1) e] w True False by simp
      next
        case h: False
        note same = Suc.IH [OF Suc.prems]
        show ?thesis
        proof (cases "inGlobalRange E w \<or> inStackRange s w")
          case True
          then have "ends k E s bs (rd64 (mem s) w)" using Suc.prems(2) n w h by auto
          from Suc.IH [OF Suc.prems(1) this] show ?thesis using True w h by simp
        next
          case False
          then show ?thesis using same w h by simp
        qed
      qed
    qed simp
  qed
qed simp

lemma mark_list_total:
  "blocks s bs \<Longrightarrow> \<forall>a \<in> set as. clear (hdrs (heap s) bs) a \<and> (own a (rd64 (mem s) a) \<or> ends n E s bs (rd64 (mem s) a)) \<Longrightarrow>
   \<exists>t. mark_list E own as s = Inr t"
proof (induction as arbitrary: s bs)
  case (Cons a as)
  obtain t where t: "chase 100 E (own a (rd64 (mem s) a)) (rd64 (mem s) a) s = Inr t"
    using Cons.prems chase_own [OF Cons.prems(1), of 100 E] chase_total [OF Cons.prems(1)]
    by (cases "own a (rd64 (mem s) a)") fastforce+
  obtain cs where cs: "marked_to (hdrs (heap s) bs) s bs t cs" using chase_marks [OF Cons.prems(1) order_refl t] by auto
  then have b: "blocks t cs" and o: "only_mem (hdrs (heap s) bs) s t" using marked_to_blocks by auto
  have "\<forall>a \<in> set as. clear (hdrs (heap t) cs) a \<and> (own a (rd64 (mem t) a) \<or> ends n E t cs (rd64 (mem t) a))"
    using Cons.prems(2) clear_read [OF _ o] ends_marked [OF cs] marked_hdrs [OF cs] by simp
  then show ?case using Cons.IH [OF b] t by simp
qed simp

lemma chase_heap_total: "blocks s bs \<Longrightarrow> ends n E s bs w \<Longrightarrow> n \<le> F \<Longrightarrow> \<exists>x t. chase_heap F E w s = Inr (x, t)"
proof (induction n arbitrary: F w)
  case (Suc k)
  obtain G where F: "F = Suc G" "k \<le> G" using Suc.prems(3) by (cases F) auto
  show ?case
  proof (cases "w = 0")
    case w: False
    show ?thesis
    proof (cases "inHeapRange s w")
      case True
      then obtain i where i: "owner (heap s) bs w = Some i" and e: "ends k E s bs (rd64 (mem s) w)"
        using Suc.prems(2) w by auto
      have "getBlock s w = Inr (adr (heap s) bs i)" "adr (heap s) bs i \<noteq> 0"
        using get_block_owner [OF Suc.prems(1) True] i adr_nz [OF blocks_room [OF Suc.prems(1)]] by simp_all
      then show ?thesis using Suc.IH [OF Suc.prems(1) e F(2)] w True F by (simp, blast)
    next
      case False
      then show ?thesis using Suc.IH [OF Suc.prems(1) _ F(2)] Suc.prems(2) w F by auto
    qed
  qed (simp add: F, blast)
qed simp

lemma scan_words_total:
  "blocks s bs \<Longrightarrow> \<forall>k < m. clear (hdrs (heap s) bs) (plus_words a k) \<and> ends n E s bs (rd64 (mem s) (plus_words a k)) \<Longrightarrow> n \<le> F \<Longrightarrow>
   \<exists>x t. scan_words F m E a marked s = Inr (x, t)"
proof (induction m arbitrary: a marked s bs)
  case (Suc m)
  have "ends n E s bs (rd64 (mem s) a)" using Suc.prems(2) by force
  then obtain x t where t: "chase_heap F E (rd64 (mem s) a) s = Inr (x, t)" using chase_heap_total [OF Suc.prems(1) _ Suc.prems(3)] by blast
  obtain cs where cs: "marked_to (hdrs (heap s) bs) s bs t cs" using chase_heap_marks [OF Suc.prems(1) order_refl t] by auto
  then have b: "blocks t cs" and o: "only_mem (hdrs (heap s) bs) s t" using marked_to_blocks by auto
  have sh: "plus_words (a + 8) k = plus_words a (Suc k)" for k by (simp add: plus_words_def distrib_left add.assoc)
  have "\<forall>k < m. clear (hdrs (heap t) cs) (plus_words (a + 8) k) \<and> ends n E t cs (rd64 (mem t) (plus_words (a + 8) k))"
    using Suc.prems(2) clear_read [OF _ o] ends_marked [OF cs] marked_hdrs [OF cs] unfolding sh by simp
  then show ?case using Suc.IH [OF b _ Suc.prems(3), of "a + 8"] t by simp
qed simp

text \<open>Every word of the blocks ends.\<close>

definition words_end :: "nat \<Rightarrow> gc_env \<Rightarrow> gc \<Rightarrow> blk list \<Rightarrow> bool" where
  "words_end n E s bs \<longleftrightarrow> (\<forall>j k. j < length bs \<and> k < b_size (bs ! j) \<longrightarrow> ends n E s bs (rd64 (mem s) (word_at (heap s) bs j k)))"

lemma words_end_marked: "blocks s bs \<Longrightarrow> marked_to (hdrs (heap s) bs) s bs t cs \<Longrightarrow> words_end n E s bs \<Longrightarrow> words_end n E t cs"
proof -
  assume b: "blocks s bs" and m: "marked_to (hdrs (heap s) bs) s bs t cs" and w: "words_end n E s bs"
  have mk: "marks bs cs" and o: "only_mem (hdrs (heap s) bs) s t" using marked_to_blocks [OF m] by simp_all
  have "word_at (heap t) cs j k = word_at (heap s) bs j k" for j k
    using adr_cong [OF marks_sizes [OF mk]] only_mem_fields [OF o] by (simp add: word_at_def)
  then show ?thesis
    using w clear_read [OF word_clear [OF blocks_room [OF b]] o] marks_length [OF mk] marks_fields [OF mk]
    unfolding words_end_def ends_marked [OF m] by (intro allI impI) (erule conjE, simp)
qed

lemma scan_blocks_total:
  "blocks s bs \<Longrightarrow> words_end n E s bs \<Longrightarrow> n \<le> F \<Longrightarrow> length bs - i < m \<Longrightarrow> \<exists>x t. scan_blocks F m E (from_block s bs i) marked s = Inr (x, t)"
proof (induction m arbitrary: i marked s bs)
  case (Suc m)
  show ?case
  proof (cases "i < length bs")
    case False
    then show ?thesis by (simp add: from_block_def)
  next
    case True
    note r = blocks_room [OF Suc.prems(1)]
    let ?a = "adr (heap s) bs i"
    have "\<forall>k < b_size (bs ! i). clear (hdrs (heap s) bs) (plus_words (?a + 24) k) \<and> ends n E s bs (rd64 (mem s) (plus_words (?a + 24) k))"
      using word_clear [OF r True] Suc.prems(2) True by (simp add: word_at_def words_end_def)
    then obtain x t where t: "scan_words F (b_size (bs ! i)) E (?a + 24) marked s = Inr (x, t)"
      using scan_words_total [OF Suc.prems(1) _ Suc.prems(3)] by blast
    obtain cs where cs: "marked_to (hdrs (heap s) bs) s bs t cs" using scan_words_marks [OF t Suc.prems(1) order_refl] by auto
    have b: "blocks t cs" and l: "length cs = length bs" using marked_to_blocks [OF cs] marks_length by auto
    have "\<exists>y u. scan_blocks F m E (from_block t cs (Suc i)) x t = Inr (y, u)"
      by (rule Suc.IH [OF b words_end_marked [OF Suc.prems(1) cs Suc.prems(2)] Suc.prems(3)]) (use Suc.prems(4) True l in auto)
    then show ?thesis
      using t True adr_nz [OF r] block_size_read [OF Suc.prems(1) True] next_from [OF cs True] by (simp add: from_block_def)
  qed
qed simp

lemma mark_heap_total:
  "blocks s bs \<Longrightarrow> words_end n E s bs \<Longrightarrow> n \<le> F \<Longrightarrow> unmarked bs < m \<Longrightarrow> \<exists>t. mark_heap F m E s = Inr t"
proof (induction m arbitrary: s bs)
  case (Suc m)
  obtain x t where t: "scan_blocks F (heap_fuel s) E (from_block s bs 0) False s = Inr (x, t)"
    using scan_blocks_total [OF Suc.prems(1,2,3)] blocks_fuel [OF Suc.prems(1)] by (metis diff_zero)
  obtain cs where cs: "marked_to (hdrs (heap s) bs) s bs t cs" "x \<longrightarrow> unmarked cs < unmarked bs"
    using scan_blocks_marks [OF t Suc.prems(1) order_refl] by auto
  have b: "blocks t cs" using marked_to_blocks [OF cs(1)] by simp
  have "x \<Longrightarrow> \<exists>u. mark_heap F m E t = Inr u"
    by (rule Suc.IH [OF b words_end_marked [OF Suc.prems(1) cs(1) Suc.prems(2)] Suc.prems(3)]) (use cs(2) Suc.prems(4) in auto)
  then show ?case using t from_block_0 [OF Suc.prems(1)] by (cases x) auto
qed simp

lemma collection_returns:
  assumes b: "blocks s bs" and q: "quiet_finalizers E" "\<not> in_finalize_call s" and ra: "roots_apart E s"
    and e: "\<forall>w \<in> root_values E s. ends n E s bs w" "words_end n E s bs" and F: "n \<le> F" "length bs < F"
  shows "\<exists>r s'. markAndSweep F E s = Inr (r, s')"
proof -
  let ?H = "hdrs (heap s) bs" and ?sw = "stack_words (mem s) (stack_top s) (frame_bottom s)"
  note rc = roots_clear [OF b ra]
  have "\<forall>a \<in> set (global_words E). clear ?H a \<and> (rd64 (mem s) a = heap_var E \<or> ends n E s bs (rd64 (mem s) a))"
    using rc(1) e(1) by (auto simp: root_values_def)
  then obtain t where t: "mark_globals (global_length E) E 0 s = Inr t"
    unfolding global_words_list using mark_list_total [OF b, of _ "\<lambda>a w. w = heap_var E"] by blast
  obtain cs where cs: "marked_to ?H s bs t cs"
    using mark_list_marks [OF t [unfolded global_words_list] b order_refl rc(1)] by auto
  then have bt: "blocks t cs" and o: "only_mem ?H s t" using marked_to_blocks by auto
  note h = marked_hdrs [OF cs] and f = only_mem_fields [OF o]
  have rc2: "\<forall>y \<in> hdrs (heap t) cs. unat y < unat (stack_top s)" using rc(2) h by simp
  have sw: "stack_words (mem t) (stack_top s) (frame_bottom s) = ?sw"
    by (rule stack_words_cong [OF o rc(2)]) simp_all
  have "\<forall>a \<in> set ?sw. clear (hdrs (heap t) cs) a \<and> (a = heap_var E \<or> ends n E t cs (rd64 (mem t) a))"
  proof
    fix a assume a: "a \<in> set ?sw"
    then have c: "clear ?H a" using rc(3) by blast
    show "clear (hdrs (heap t) cs) a \<and> (a = heap_var E \<or> ends n E t cs (rd64 (mem t) a))"
      unfolding h clear_read [OF c o] ends_marked [OF cs] using a c e(1) by (auto simp: root_values_def)
  qed
  then obtain u where u: "mark_stack E (stack_top t) (frame_bottom t) t = Inr u"
    using mark_list_total [OF bt, of ?sw "\<lambda>a w. a = heap_var E" n E] mark_stack_list [OF bt rc2 order_refl, of E "frame_bottom s"] f sw by auto
  obtain ds where ds: "marked_to ?H s bs u ds" using mark_roots [OF b ra t u] by auto
  then have bu: "blocks u ds" "marks bs ds" using marked_to_blocks by auto
  have "unmarked ds \<le> length ds" by (simp add: unmarked_def)
  then have "unmarked ds < F" using F(2) marks_length [OF bu(2)] by simp
  then obtain v where v: "mark_heap F F E u = Inr v"
    using mark_heap_total [OF bu(1) words_end_marked [OF b ds e(2)] F(1)] by blast
  obtain es where es: "marked_to (hdrs (heap u) ds) u ds v es"
    using mark_heap_marks [OF v bu(1) order_refl] by auto
  have bv: "blocks v es" using marked_to_blocks [OF es] by simp
  have "\<not> in_finalize_call v"
    using only_mem_fields [of _ s u] only_mem_fields [of _ u v] marked_to_blocks [OF ds] marked_to_blocks [OF es] q(2) by auto
  from sweep_exact_spec [OF bv q(1) this] obtain x s' where "sweep (heap_fuel v) E (heap v) 0 0 v = Inr (x, s')" by blast
  then show ?thesis using t u v by (simp add: markAndSweep_def)
qed

section \<open>Allocation with a collection\<close>

lemma collection_swept:
  assumes "blocks s bs" "quiet_finalizers E" "\<not> in_finalize_call s" "roots_apart E s" "markAndSweep F E s = Inr (r, s')"
  shows "\<exists>cs. marks bs cs \<and> blocks s' (swept cs) \<and> heap s' = heap s \<and>
    r = sint (ucast (of_nat (free_words (swept cs) - free_words cs) :: u64) :: u32)"
proof -
  obtain t cs where c: "marked_to (hdrs (heap s) bs) s bs t cs" "blocks s' (swept cs)" "only_mem (hdrs (heap s) bs) t s'"
      "r = sint (ucast (of_nat (free_words (swept cs) - free_words cs) :: u64) :: u32)"
    using collection_steps [OF assms] by blast
  have "heap s' = heap s"
    using only_mem_fields [OF c(3)] only_mem_fields [of _ s t] marked_to_blocks [OF c(1)] by auto
  then show ?thesis using c marked_to_blocks [OF c(1)] by blast
qed

lemma take_block_fits:
  assumes "blocks s bs" "first_fit sz bs = Some i" "unat sz \<le> b_size (bs ! i)" "take_block (adr (heap s) bs i) sz fin s = (p, s')"
  shows "blocks s' (take i bs @ cut (unat sz) fin (bs ! i) @ drop (Suc i) bs)"
proof -
  have i: "i < length bs" using first_fit_Some [OF assms(2)] by simp
  have b: "blocks s (take i bs @ bs ! i # drop (Suc i) bs)" using assms(1) i by (simp flip: id_take_nth_drop)
  have p: "adr (heap s) bs i = plus_words (heap s) (words_of (take i bs))" by (simp add: adr_def)
  from take_block_spec [OF b p assms(3), of fin] assms(4) show ?thesis by auto
qed

lemma take_block_result: "fst (take_block a sz fin s) = a + 24"
  by (simp add: take_block_def Let_def)

lemma memAllocate_exact:
  assumes b: "blocks s bs" and q: "quiet_finalizers E" "\<not> in_finalize_call s" and ra: "roots_apart E (set_stack rsp rbp s)"
    and r: "memAllocate F E rsp rbp sz fin s = Inr (p, s')"
  shows "\<exists>ks. (ks = bs \<or> first_fit sz bs = None \<and> (\<exists>cs. marks bs cs \<and> ks = swept cs)) \<and>
    (p = 0 \<and> blocks s' ks \<or>
     (\<exists>i. first_fit sz ks = Some i \<and> p = adr (heap s) ks i + 24 \<and>
        (unat sz \<le> b_size (ks ! i) \<longrightarrow> blocks s' (take i ks @ cut (unat sz) fin (ks ! i) @ drop (Suc i) ks))))"
proof -
  let ?s = "set_stack rsp rbp s"
  have b0: "blocks ?s bs" using b by simp
  have nf: "\<not> in_finalize_call ?s" using q(2) by (simp add: set_stack_def)
  have ini: "initialized s = 1" using b by (simp add: blocks_def)
  show ?thesis
  proof (cases "first_fit sz bs")
    case (Some i)
    then have t: "take_block (adr (heap ?s) bs i) sz fin ?s = (p, s')"
      using allocate_first_fit [OF b q(2) Some] r by simp
    then have "p = adr (heap s) bs i + 24" using take_block_result [of "adr (heap s) bs i" sz fin ?s] by simp
    then show ?thesis using take_block_fits [OF b0 Some _ t] Some by blast
  next
    case None
    then have nb: "nextBlockOfSize ?s sz = Inr 0" unfolding next_block_spec [OF b0] by simp
    have m: "memAllocate F E rsp rbp sz fin s = bindR (markAndSweep F E ?s) (\<lambda>(result, s).
        if result = 0 then Inr (0, s) else bindR (nextBlockOfSize s sz) (\<lambda>a. if a = 0 then Inr (0, s) else Inr (take_block a sz fin s)))"
      using q(2) ini nb by (simp add: memAllocate_def Let_def flip: set_stack_def)
    then obtain x t where t: "markAndSweep F E ?s = Inr (x, t)" using r by (auto simp: bindR_def split: sum.splits)
    obtain cs where cs: "marks bs cs" "blocks t (swept cs)" "heap t = heap s"
      using collection_swept [OF b0 q(1) nf ra t] by auto
    have e: "(if x = 0 then Inr (0, t) else bindR (nextBlockOfSize t sz) (\<lambda>a. if a = 0 then Inr (0, t) else Inr (take_block a sz fin t))) = Inr (p, s')"
      using r t unfolding m by simp
    show ?thesis
    proof (cases "x = 0")
      case True
      then have "p = 0" "s' = t" using e by simp_all
      then show ?thesis using cs None by blast
    next
      case x: False
      show ?thesis
      proof (cases "first_fit sz (swept cs)")
        case None': None
        then have "p = 0" "s' = t" using e x unfolding next_block_spec [OF cs(2)] by simp_all
        then show ?thesis using cs None by blast
      next
        case (Some i)
        then have t: "take_block (adr (heap t) (swept cs) i) sz fin t = (p, s')"
          using e x adr_nz [OF blocks_room [OF cs(2)]] unfolding next_block_spec [OF cs(2)] by simp
        then have "p = adr (heap s) (swept cs) i + 24" using take_block_result [of "adr (heap t) (swept cs) i" sz fin t] cs(3) by simp
        then show ?thesis using take_block_fits [OF cs(2) Some _ t] Some cs(1) None by blast
      qed
    qed
  qed
qed

text \<open>A root that points into the last block.\<close>

lemma collection_faults:
  assumes b: "blocks s bs" and ra: "roots_apart E s" and w: "w \<in> root_values E s"
    and l: "adr (heap s) bs (length bs - 1) < w" "inHeapRange s w"
  shows "markAndSweep F E s = Inl NullDeref"
proof -
  let ?H = "hdrs (heap s) bs" and ?sw = "stack_words (mem s) (stack_top s) (frame_bottom s)"
  note rc = roots_clear [OF b ra]
  have ow: "owner (heap s) bs w = None" by (rule owner_last [OF blocks_room [OF b] l(1)])
  show ?thesis
  proof (cases "mark_globals (global_length E) E 0 s")
    case (Inl e)
    then show ?thesis using mark_list_errors [OF Inl [unfolded global_words_list] b] by (simp add: markAndSweep_def)
  next
    case (Inr t)
    obtain cs where cs: "marked_to ?H s bs t cs"
      using mark_list_marks [OF Inr [unfolded global_words_list] b order_refl rc(1)] by auto
    then have bt: "blocks t cs" and m: "marks bs cs" and o: "only_mem ?H s t" using marked_to_blocks by auto
    note h = marked_hdrs [OF cs] and f = only_mem_fields [OF o]
    have rc2: "\<forall>y \<in> hdrs (heap t) cs. unat y < unat (stack_top s)" using rc(2) h by simp
    have sw: "stack_words (mem t) (stack_top s) (frame_bottom s) = ?sw"
      by (rule stack_words_cong [OF o rc(2)]) simp_all
    have ng: "\<not> (\<exists>a \<in> set (global_words E). rd64 (mem s) a = w \<and> rd64 (mem s) a \<noteq> heap_var E)"
      using mark_list_fault [OF b rc(1), of _ "\<lambda>a w. w = heap_var E" E] ow l(2) Inr global_words_list by auto
    then obtain a where a: "a \<in> set ?sw" "a \<noteq> heap_var E" "rd64 (mem s) a = w"
      using w by (auto simp: root_values_def)
    have rt: "rd64 (mem t) a = w" using clear_read [OF _ o] rc(3) a(1,3) by blast
    have ot: "owner (heap t) cs w = None" using owner_cong [OF marks_sizes [OF m]] f ow by simp
    have "mark_list E (\<lambda>a w. a = heap_var E) ?sw t = Inl NullDeref"
      by (rule mark_list_fault [OF bt _ a(1)]) (use rc(3) h a(2) rt ot l(2) only_mem_range [OF o] in simp_all)
    then have "mark_stack E (stack_top t) (frame_bottom t) t = Inl NullDeref"
      using mark_stack_list [OF bt rc2 order_refl, of E "frame_bottom s"] f sw by simp
    then show ?thesis using Inr by (simp add: markAndSweep_def)
  qed
qed

lemma memAllocate_collects:
  assumes "blocks s bs" "\<not> in_finalize_call s" "first_fit sz bs = None" "markAndSweep F E (set_stack rsp rbp s) = Inl e"
  shows "memAllocate F E rsp rbp sz fin s = Inl e"
proof -
  have b0: "blocks (set_stack rsp rbp s) bs" using assms(1) by simp
  have nb: "nextBlockOfSize (set_stack rsp rbp s) sz = Inr 0" unfolding next_block_spec [OF b0] using assms(3) by simp
  have "initialized s = 1" using assms(1) by (simp add: blocks_def)
  then show ?thesis using assms(2,4) nb by (simp add: memAllocate_def Let_def flip: set_stack_def)
qed

text \<open>A word of the heap that holds its own address is followed for ever.\<close>

lemma self_never_settled: "rd64 (mem s) w = w \<Longrightarrow> inHeapRange s w \<Longrightarrow> w \<noteq> 0 \<Longrightarrow> \<not> settled F E s w"
proof -
  assume w: "rd64 (mem s) w = w" "inHeapRange s w" "w \<noteq> 0"
  have "chase_heap F E w s \<noteq> Inr (False, t)" for t
  proof (induction F)
    case (Suc F)
    then show ?case using w by (cases "getBlock s w") auto
  qed simp
  then show ?thesis by (simp add: settled_def)
qed

lemma self_reference_hangs:
  assumes b: "blocks s bs" and q: "quiet_finalizers E" "\<not> in_finalize_call s" and ra: "roots_apart E s"
    and j: "j < length bs" "k < b_size (bs ! j)" and self: "rd64 (mem s) (word_at (heap s) bs j k) = word_at (heap s) bs j k"
  shows "markAndSweep F E s \<noteq> Inr x"
proof
  assume "markAndSweep F E s = Inr x"
  then obtain r s' where r: "markAndSweep F E s = Inr (r, s')" by (cases x) auto
  obtain t cs where t: "marked_to (hdrs (heap s) bs) s bs t cs" "all_settled F E t cs 0"
    using collection_steps [OF b q ra r] by blast
  have m: "marks bs cs" and o: "only_mem (hdrs (heap s) bs) s t" using marked_to_blocks [OF t(1)] by simp_all
  note rm = blocks_room [OF b]
  let ?w = "word_at (heap s) bs j k"
  have wa: "word_at (heap t) cs j k = ?w"
    using adr_cong [OF marks_sizes [OF m]] only_mem_fields [OF o] by (simp add: word_at_def)
  have rw: "rd64 (mem t) ?w = ?w" using clear_read [OF word_clear [OF rm j] o] self by simp
  have "settled F E t (rd64 (mem t) (word_at (heap t) cs j k))"
    using t(2) j marks_length [OF m] marks_fields [OF m j(1)] unfolding all_settled_def by simp
  then have st: "settled F E t ?w" by (simp only: wa rw)
  have u: "unat ?w = unat (adr (heap s) bs j) + 24 + 8 * k" by (rule unat_word_at [OF rm j])
  have "words_of (take (Suc j) bs) \<le> words_of bs" by (rule words_take_le)
  then have "inHeapRange s ?w"
    using u j adr_end(1) [OF rm j(1)] by (simp add: in_heap_iff [OF b] unat_adr [OF rm])
  moreover have "?w \<noteq> 0" using u by (metis add_is_0 unat_0 zero_neq_numeral)
  ultimately show False using self_never_settled [OF rw] st only_mem_range [OF o] by blast
qed

end
