(* ===== verification/Alloc_Props.thy ===== *)
theory Alloc_Props
  imports Alloc_Collect
begin

text \<open>
  Runs of a client of A4/alloc.c, and the properties of the allocator with their witnesses on small heaps.
\<close>

section \<open>Runs of a client\<close>

text \<open>The block that a call of \<open>memAllocate\<close> takes is large enough.\<close>

definition big_enough :: "u64 \<Rightarrow> gc \<Rightarrow> bool" where
  "big_enough sz s \<longleftrightarrow> (case nextBlockOfSize s sz of Inl e \<Rightarrow> True | Inr a \<Rightarrow> a \<noteq> 0 \<longrightarrow> sz \<le> blk_info s a AND SIZE_MASK)"

definition fitting_call :: "nat \<Rightarrow> gc_env \<Rightarrow> u64 \<Rightarrow> u64 \<Rightarrow> u64 \<Rightarrow> gc \<Rightarrow> bool" where
  "fitting_call F E rsp rbp sz s \<longleftrightarrow>
     (let s = set_stack rsp rbp s in big_enough sz s \<and>
        (nextBlockOfSize s sz = Inr 0 \<longrightarrow> (case markAndSweep F E s of Inl e \<Rightarrow> True | Inr (r, t) \<Rightarrow> big_enough sz t)))"

text \<open>A client initializes the heap once, allocates, and writes where no header is.\<close>

inductive heap_run :: "gc_env \<Rightarrow> gc \<Rightarrow> bool" for E where
  start: "initialized s = 0 \<Longrightarrow> \<not> in_finalize_call s \<Longrightarrow> 3 \<le> unat sz \<Longrightarrow> unat sz * 6 < 2 ^ 64 \<Longrightarrow> unat sz * 6 div 5 < 2 ^ 61 \<Longrightarrow>
    calloc_at E (of_nat (unat sz * 6 div 5)) \<noteq> 0 \<Longrightarrow> unat (calloc_at E (of_nat (unat sz * 6 div 5))) + 8 * (unat sz * 6 div 5) < 2 ^ 64 \<Longrightarrow>
    memInitialize E rsp rbp sz s = (r, t) \<Longrightarrow> heap_run E t"
| allocate: "heap_run E s \<Longrightarrow> roots_apart E (set_stack rsp rbp s) \<Longrightarrow> fitting_call F E rsp rbp sz s \<Longrightarrow>
    memAllocate F E rsp rbp sz fin s = Inr (p, t) \<Longrightarrow> heap_run E t"
| client: "heap_run E s \<Longrightarrow> t = s\<lparr>mem := m\<rparr> \<Longrightarrow> \<forall>bs. blocks s bs \<longrightarrow> (\<forall>y \<in> hdrs (heap s) bs. m y = mem s y) \<Longrightarrow> heap_run E t"

definition plain :: "gc \<Rightarrow> blk list \<Rightarrow> bool" where
  "plain s bs \<longleftrightarrow> blocks s bs \<and> \<not> in_finalize_call s \<and> (\<forall>b \<in> set bs. \<not> b_mark b)"

lemma layout_same: "\<forall>y \<in> hdrs a bs. m' y = m y \<Longrightarrow> unat a + 8 * words_of bs < 2 ^ 64 \<Longrightarrow> layout m a bs e \<Longrightarrow> layout m' a bs e"
proof (induction bs arbitrary: a)
  case (Cons b bs)
  have r: "rd64 m' (a + k) = rd64 m (a + k)" if "k \<in> {0, 8, 16}" for k
  proof -
    have "m' (a + k + of_nat i) = m (a + k + of_nat i)" if i: "i < 8" for i
    proof -
      have "unat (k + of_nat i) = unat k + i" using \<open>k \<in> {0, 8, 16}\<close> i by (subst unat_add_lem [THEN iffD1]) (auto simp: unat_of_small)
      then have "unat (a + k + of_nat i - a) < 24" using \<open>k \<in> {0, 8, 16}\<close> i by (auto simp: add.assoc)
      then show ?thesis using Cons.prems(1) by simp
    qed
    then have "map (\<lambda>i. m' (a + k + of_nat i)) [0..<8] = map (\<lambda>i. m (a + k + of_nat i)) [0..<8]" by (intro map_cong) auto
    then show ?thesis by (simp only: rd64_def)
  qed
  have n: "unat (after_blk a b) = unat a + 8 * (3 + b_size b)"
    unfolding after_blk_def using Cons.prems(2) by (intro unat_plus_words) simp
  have "layout m' (after_blk a b) bs e" by (rule Cons.IH) (use Cons.prems n in auto)
  then show ?case using Cons.prems(3) r [of 0] r [of 8] r [of 16] by (simp add: hdr_at_def)
qed simp

lemma swept_unmarked: "b \<in> set (swept bs) \<Longrightarrow> \<not> b_mark b"
  by (induction bs rule: swept.induct) (auto split: if_splits)

lemma cut_unmarked: "b \<in> set (cut n fin c) \<Longrightarrow> \<not> b_mark b"
  by (auto simp: cut_def split: if_splits)

lemma big_enough_fit: "blocks s bs \<Longrightarrow> big_enough sz s \<Longrightarrow> first_fit sz bs = Some i \<Longrightarrow> unat sz \<le> b_size (bs ! i)"
proof -
  assume b: "blocks s bs" and g: "big_enough sz s" and f: "first_fit sz bs = Some i"
  then have i: "i < length bs" using first_fit_Some by simp
  have "sz \<le> blk_info s (adr (heap s) bs i) AND SIZE_MASK"
    using g adr_nz [OF blocks_room [OF b]] unfolding big_enough_def next_block_spec [OF b] by (simp add: f)
  then show ?thesis using block_size_read [OF b i] by (simp add: word_le_nat_alt)
qed

lemma take_block_calls: "in_finalize_call (snd (take_block a sz fin s)) = in_finalize_call s"
  by (simp add: take_block_def Let_def set_info_def set_next_def set_finalizer_def)

lemma memAllocate_plain:
  assumes pl: "plain s bs" and q: "quiet_finalizers E" and ra: "roots_apart E (set_stack rsp rbp s)"
    and fc: "fitting_call F E rsp rbp sz s" and r: "memAllocate F E rsp rbp sz fin s = Inr (p, t)"
  shows "\<exists>cs. plain t cs"
proof -
  let ?s = "set_stack rsp rbp s"
  have b: "blocks s bs" and nf: "\<not> in_finalize_call s" and um: "\<forall>b \<in> set bs. \<not> b_mark b" using pl by (simp_all add: plain_def)
  have b0: "blocks ?s bs" using b by simp
  have nf0: "\<not> in_finalize_call ?s" using nf by (simp add: set_stack_def)
  have ini: "initialized s = 1" using b by (simp add: blocks_def)
  have tk: "\<exists>cs. plain u cs"
    if v: "blocks v ks" "\<not> in_finalize_call v" "\<forall>b \<in> set ks. \<not> b_mark b" "big_enough sz v" "first_fit sz ks = Some i"
      and tb: "take_block (adr (heap v) ks i) sz fin v = (p, u)" for v ks i u
  proof -
    have "blocks u (take i ks @ cut (unat sz) fin (ks ! i) @ drop (Suc i) ks)"
      by (rule take_block_fits [OF v(1,5) big_enough_fit [OF v(1,4,5)] tb])
    moreover have "\<not> in_finalize_call u" using take_block_calls [of "adr (heap v) ks i" sz fin v] tb v(2) by simp
    moreover have "\<not> b_mark b" if "b \<in> set (take i ks @ cut (unat sz) fin (ks ! i) @ drop (Suc i) ks)" for b
      using that v(3) cut_unmarked by (auto dest: in_set_takeD in_set_dropD)
    ultimately show ?thesis unfolding plain_def by blast
  qed
  show ?thesis
  proof (cases "first_fit sz bs")
    case (Some i)
    then have "take_block (adr (heap ?s) bs i) sz fin ?s = (p, t)" using allocate_first_fit [OF b nf Some] r by simp
    then show ?thesis using tk [OF b0 nf0 um _ Some] fc by (simp add: fitting_call_def Let_def)
  next
    case None
    then have nb: "nextBlockOfSize ?s sz = Inr 0" unfolding next_block_spec [OF b0] by simp
    have m: "memAllocate F E rsp rbp sz fin s = bindR (markAndSweep F E ?s) (\<lambda>(result, s).
        if result = 0 then Inr (0, s) else bindR (nextBlockOfSize s sz) (\<lambda>a. if a = 0 then Inr (0, s) else Inr (take_block a sz fin s)))"
      using nf ini nb by (simp add: memAllocate_def Let_def flip: set_stack_def)
    then obtain x u where u: "markAndSweep F E ?s = Inr (x, u)" using r by (auto simp: bindR_def split: sum.splits)
    obtain v cs where cs: "marked_to (hdrs (heap ?s) bs) ?s bs v cs" "blocks u (swept cs)" "only_mem (hdrs (heap ?s) bs) v u"
      using collection_steps [OF b0 q nf0 ra u] by blast
    have nu: "\<not> in_finalize_call u"
      using only_mem_fields [OF cs(3)] only_mem_fields [of _ ?s v] marked_to_blocks [OF cs(1)] nf0 by auto
    have pu: "plain u (swept cs)" using cs(2) nu swept_unmarked by (auto simp: plain_def)
    have bg: "big_enough sz u" using fc nb u by (simp add: fitting_call_def Let_def)
    have e: "(if x = 0 then Inr (0, u) else bindR (nextBlockOfSize u sz) (\<lambda>a. if a = 0 then Inr (0, u) else Inr (take_block a sz fin u))) = Inr (p, t)"
      using r u unfolding m by simp
    consider "t = u" | i where "first_fit sz (swept cs) = Some i" "take_block (adr (heap u) (swept cs) i) sz fin u = (p, t)"
      using e adr_nz [OF blocks_room [OF cs(2)]] unfolding next_block_spec [OF cs(2)]
      by (cases "x = 0"; cases "first_fit sz (swept cs)") auto
    then show ?thesis
    proof cases
      case 1
      then show ?thesis using pu by blast
    next
      case 2
      then show ?thesis using tk [OF cs(2) nu _ bg] swept_unmarked by blast
    qed
  qed
qed

lemma heap_run_plain: "heap_run E s \<Longrightarrow> quiet_finalizers E \<Longrightarrow> \<exists>bs. plain s bs"
proof (induction rule: heap_run.induct)
  case (start s sz rsp rbp r t)
  let ?b = "\<lparr>b_size = unat sz * 6 div 5 - 3, b_alloc = False, b_mark = False, b_fin = 0\<rparr>"
  have "blocks t [?b]" "\<not> in_finalize_call t"
    using memInitialize_blocks [OF start(1,3,4,5) refl start(6,7), of rsp rbp] start(2,8) by auto
  then have "plain t [?b]" by (simp add: plain_def)
  then show ?case by blast
next
  case (allocate s rsp rbp F sz fin p t)
  then show ?case using memAllocate_plain by blast
next
  case (client s t m)
  then obtain bs where p: "plain s bs" by blast
  then have b: "blocks s bs" by (simp add: plain_def)
  have "\<forall>y \<in> hdrs (heap s) bs. m y = mem s y" using client(3) b by blast
  then have "layout m (heap s) bs 0" by (rule layout_same) (use b in \<open>simp_all add: blocks_def room_def\<close>)
  then have "plain t bs" using p client(2) by (simp add: plain_def blocks_def)
  then show ?case by blast
qed

section \<open>Heaps for examples\<close>

fun put_blocks :: "memory \<Rightarrow> u64 \<Rightarrow> blk list \<Rightarrow> memory" where
  "put_blocks m a [] = m"
| "put_blocks m a (b # bs) = wr64 (wr64 (wr64 (put_blocks m (after_blk a b) bs) a (info_of b)) (a + 8) (if bs = [] then 0 else after_blk a b)) (a + 16) (b_fin b)"

lemma put_layout: "unat a + 8 * words_of bs < 2 ^ 64 \<Longrightarrow> layout (put_blocks m a bs) a bs 0"
proof (induction bs arbitrary: a)
  case (Cons b bs)
  have n: "unat (after_blk a b) = unat a + 8 * (3 + b_size b)"
    unfolding after_blk_def using Cons.prems by (intro unat_plus_words) simp
  have u: "unat (a + 8) = unat a + 8" "unat (a + 16) = unat a + 16"
    using Cons.prems by (simp_all add: unat_add_lem [THEN iffD1])
  have ap: "apart (a + 8) a" "apart (a + 16) a" "apart (a + 16) (a + 8)"
    using same_block_apart [of a] Cons.prems by simp_all
  have fr: "layout (wr64 mm x w) (after_blk a b) bs e = layout mm (after_blk a b) bs e" if "x \<in> {a, a + 8, a + 16}" for x mm w e
    by (rule layout_frame) (use that u n Cons.prems in auto)
  have "layout (put_blocks m (after_blk a b) bs) (after_blk a b) bs 0" by (rule Cons.IH) (use Cons.prems n in simp)
  then show ?case using ap by (simp add: hdr_at_def fr)
qed simp

lemma put_off: "clear (hdrs a bs) x \<Longrightarrow> rd64 (put_blocks m a bs) x = rd64 m x"
proof -
  have off: "y \<notin> hdrs a bs \<Longrightarrow> put_blocks m a bs y = m y" for y
  proof (induction bs arbitrary: a)
    case (Cons b bs)
    then have "24 \<le> unat (y - a)" by (simp add: not_less)
    then show ?case using Cons wr64_off [of y a 0] wr64_off [of y a 8] wr64_off [of y a 16] by simp
  qed simp
  assume "clear (hdrs a bs) x"
  then have "map (\<lambda>i. put_blocks m a bs (x + of_nat i)) [0..<8] = map (\<lambda>i. m (x + of_nat i)) [0..<8]"
    by (intro map_cong) (auto simp: clear_def off)
  then show ?thesis by (simp only: rd64_def)
qed

definition demo :: "memory \<Rightarrow> blk list \<Rightarrow> gc" where
  "demo m bs = \<lparr>mem = put_blocks m 0x10000 bs, initialized = 1, heap = 0x10000, total_heap_size = of_nat (words_of bs),
     in_finalize_call = False, stack_top = 0x20000, frame_bottom = 0\<rparr>"

definition demo_env :: gc_env where
  "demo_env = \<lparr>data_start = 0x1000, data_end = 0x1008, heap_var = 0x2000, calloc_at = (\<lambda>n. 0x10000), finalize = (\<lambda>f s. Inr s)\<rparr>"

lemma demo_simps [simp]:
  "heap (demo m bs) = 0x10000" "in_finalize_call (demo m bs) = False" "mem (demo m bs) = put_blocks m 0x10000 bs"
  "stack_top (demo m bs) = 0x20000" "frame_bottom (demo m bs) = 0" "total_heap_size (demo m bs) = of_nat (words_of bs)"
  by (simp_all add: demo_def)

lemma demo_blocks: "bs \<noteq> [] \<Longrightarrow> words_of bs < 1000 \<Longrightarrow> blocks (demo m bs) bs"
  using put_layout [of "0x10000" bs m] by (simp add: blocks_def room_def demo_def unat_of_small)

lemma demo_quiet: "quiet_finalizers demo_env"
  by (simp add: quiet_finalizers_def demo_env_def)

lemma demo_globals: "global_words demo_env = [0x1000]"
  by (simp add: global_words_def global_length_def demo_env_def)

lemma demo_apart: "words_of bs < 1000 \<Longrightarrow> roots_apart demo_env (demo m bs)"
  by (simp add: roots_apart_def demo_globals unat_of_small)

lemma demo_roots:
  assumes "bs \<noteq> []" "words_of bs < 1000"
  shows "root_values demo_env (demo m bs) = (if rd64 m 0x1000 = 0x2000 then {} else {rd64 m 0x1000})"
proof -
  have "clear (hdrs 0x10000 bs) 0x1000"
    using roots_clear(1) [OF demo_blocks demo_apart, OF assms assms(2), of m] by (simp add: demo_globals)
  then have r: "rd64 (put_blocks m 0x10000 bs) 0x1000 = rd64 m 0x1000" by (rule put_off)
  have h: "heap_var demo_env = 0x2000" by (simp add: demo_env_def)
  show ?thesis by (auto simp: root_values_def demo_globals r h stack_words_end)
qed

section \<open>Properties\<close>

definition lists_AB :: "blk list" where
  "lists_AB = [\<lparr>b_size = 1, b_alloc = True, b_mark = False, b_fin = 0\<rparr>, \<lparr>b_size = 10, b_alloc = False, b_mark = False, b_fin = 0\<rparr>]"

definition lists_full :: "blk list" where
  "lists_full = [\<lparr>b_size = 1, b_alloc = True, b_mark = False, b_fin = 0\<rparr>, \<lparr>b_size = 1, b_alloc = True, b_mark = False, b_fin = 0\<rparr>]"

lemmas demo_eval = lists_AB_def lists_full_def adr_def plus_words_def first_fit_def accepts_def cut_def swept.simps




definition cold :: gc where
  "cold = \<lparr>mem = (\<lambda>_. 0), initialized = 0, heap = 0, total_heap_size = 0, in_finalize_call = False, stack_top = 0, frame_bottom = 0\<rparr>"


text \<open>\<open>nextBlockOfSize\<close> compares with the size less the header, so it takes a block that is one to three
  words too small. Then \<open>memAllocate\<close> returns it with the size asked for, and writes the header of a
  remainder of almost \<open>2^62\<close> words at most three words behind the end of the block: into the next
  block, or past the end of the heap.\<close>

theorem alloc_overruns:
  assumes "blocks s bs" "\<not> in_finalize_call s" "first_fit sz bs = Some i" "b_size (bs ! i) < unat sz"
    and "unat (heap s) + 8 * words_of bs + 48 \<le> 2 ^ 64"
  shows "\<exists>s' new. memAllocate F E rsp rbp sz fin s = Inr (adr (heap s) bs i + 24, s') \<and>
    unat new = unat (adr (heap s) bs i) + 24 + 8 * unat sz \<and> unat (adr (heap s) bs (Suc i)) < unat new \<and>
    unat new \<le> unat (adr (heap s) bs (Suc i)) + 24 \<and>
    blk_info s' new = infoMake False False (of_nat (b_size (bs ! i)) - sz - 3) \<and>
    blk_next s' (adr (heap s) bs i) = new \<and> blk_info s' (adr (heap s) bs i) = infoMake True False sz"
  using memAllocate_short [OF assms, of F E rsp rbp fin] by blast

theorem alloc_overruns_witness:
  "\<exists>s' new. memAllocate 0 demo_env 0x20000 0 12 7 (demo (\<lambda>_. 0) lists_AB) = Inr (0x10038, s') \<and>
     unat new = 0x10098 \<and> blk_next s' 0x10020 = new \<and> unat (heap (demo (\<lambda>_. 0) lists_AB) + 8 * of_nat (words_of lists_AB)) = 0x10088"
proof -
  have b: "blocks (demo (\<lambda>_. 0) lists_AB) lists_AB" by (rule demo_blocks) (simp_all add: lists_AB_def)
  have f: "first_fit 12 lists_AB = Some 1" by (simp add: demo_eval)
  have n: "b_size (lists_AB ! 1) < unat (12 :: u64)" by (simp add: lists_AB_def)
  have a: "adr 0x10000 lists_AB 1 = 0x10020" by (simp add: demo_eval)
  have e: "unat (heap (demo (\<lambda>_. 0) lists_AB)) + 8 * words_of lists_AB + 48 \<le> 2 ^ 64" by (simp add: lists_AB_def)
  show ?thesis using alloc_overruns [OF b _ f n e, of 0 demo_env "0x20000" 0 7] a by (auto simp: lists_AB_def)
qed





definition pointing :: "u64 \<Rightarrow> gc" where
  "pointing w = demo (wr64 (\<lambda>_. 0) 0x1000 w) lists_full"

lemma pointing_facts:
  "blocks (pointing w) lists_full" "roots_apart demo_env (pointing w)" "\<not> in_finalize_call (pointing w)"
  "w \<noteq> 0x2000 \<Longrightarrow> root_values demo_env (pointing w) = {w}" "heap (pointing w) = 0x10000"
proof -
  have l: "lists_full \<noteq> []" "words_of lists_full < 1000" by (simp_all add: lists_full_def)
  show "blocks (pointing w) lists_full" "roots_apart demo_env (pointing w)" "\<not> in_finalize_call (pointing w)" "heap (pointing w) = 0x10000"
    using demo_blocks [OF l] demo_apart [OF l(2)] by (simp_all add: pointing_def)
  show "w \<noteq> 0x2000 \<Longrightarrow> root_values demo_env (pointing w) = {w}"
    using demo_roots [OF l] by (simp add: pointing_def)
qed

lemma rd64_zero: "rd64 (\<lambda>_. 0) a = 0"
proof -
  have "le_val (map (\<lambda>i. 0) xs) = 0" for xs :: "nat list" by (induction xs) simp_all
  then show ?thesis by (simp add: rd64_def)
qed

lemma pointing_words: "j < 2 \<Longrightarrow> rd64 (mem (pointing w)) (word_at 0x10000 lists_full j 0) = 0"
proof -
  assume j: "j < 2"
  have l: "j < length lists_full" "0 < b_size (lists_full ! j)"
    using j by (auto simp: lists_full_def less_Suc_eq numeral_2_eq_2)
  have r: "room 0x10000 lists_full" using blocks_room [OF pointing_facts(1) [of w]] by (simp only: pointing_facts)
  have w: "word_at 0x10000 lists_full 0 0 = 0x10018" "word_at 0x10000 lists_full 1 0 = 0x10038"
    by (simp_all add: word_at_def demo_eval)
  have "j = 0 \<or> j = 1" using j by arith
  then have "apart 0x1000 (word_at 0x10000 lists_full j 0)" using w by (auto simp: apart_def)
  then show ?thesis using put_off [OF word_clear [OF r l]] by (simp add: pointing_def rd64_zero)
qed

lemma pointing_A:
  "owner 0x10000 lists_full 0x10018 = Some 0" "inHeapRange (pointing w) 0x10018" "word_at 0x10000 lists_full 0 0 = 0x10018"
proof -
  have r: "room 0x10000 lists_full" using blocks_room [OF pointing_facts(1) [of w]] by (simp only: pointing_facts)
  show "owner 0x10000 lists_full 0x10018 = Some 0" by (rule owner_at [OF r]) (simp_all add: demo_eval)
  show "inHeapRange (pointing w) 0x10018" by (simp add: in_heap_iff [OF pointing_facts(1)] pointing_facts, simp add: lists_full_def)
  show "word_at 0x10000 lists_full 0 0 = 0x10018" by (simp add: word_at_def)
qed

lemma pointing_ends:
  "\<forall>w \<in> root_values demo_env (pointing 0x10018). ends 2 demo_env (pointing 0x10018) lists_full w"
  "words_end 2 demo_env (pointing 0x10018) lists_full"
proof -
  have r: "room 0x10000 lists_full" using blocks_room [OF pointing_facts(1) [of 0]] by (simp only: pointing_facts)
  have z: "rd64 (mem (pointing 0x10018)) 0x10018 = 0" using pointing_words [of 0 "0x10018"] by (simp add: pointing_A)
  have c: "clear (hdrs 0x10000 lists_full) 0x10018"
    using word_clear [OF r, of 0 0] by (simp add: pointing_A, simp add: lists_full_def)
  have "ends 2 demo_env (pointing 0x10018) lists_full 0x10018"
    using pointing_A(1,2) c z by (simp add: numeral_2_eq_2 pointing_facts)
  then show "\<forall>w \<in> root_values demo_env (pointing 0x10018). ends 2 demo_env (pointing 0x10018) lists_full w"
    by (simp add: pointing_facts(4))
  show "words_end 2 demo_env (pointing 0x10018) lists_full"
    unfolding words_end_def
  proof (intro allI impI)
    fix j k assume "j < length lists_full \<and> k < b_size (lists_full ! j)"
    then have "j < 2" "k = 0" by (auto simp: lists_full_def less_Suc_eq)
    then show "ends 2 demo_env (pointing 0x10018) lists_full (rd64 (mem (pointing 0x10018)) (word_at (heap (pointing 0x10018)) lists_full j k))"
      using pointing_words [of j "0x10018"] by (simp add: pointing_facts(5) numeral_2_eq_2)
  qed
qed

lemma pointing_collects: "\<exists>r s'. markAndSweep 3 demo_env (pointing 0x10018) = Inr (r, s')"
  by (rule collection_returns [OF pointing_facts(1) demo_quiet pointing_facts(3,2) pointing_ends]) (simp_all add: lists_full_def)



text \<open>C33: When no block fits, a global or a word of the stack that points into the last block makes
  \<open>memAllocate\<close> use a null pointer, as \<open>getBlock\<close> finds no block for it.\<close>

theorem gc_faults_last_block:
  assumes "blocks s bs" "\<not> in_finalize_call s" "roots_apart E (set_stack rsp rbp s)" "first_fit sz bs = None"
    and "w \<in> root_values E (set_stack rsp rbp s)" "adr (heap s) bs (length bs - 1) < w" "inHeapRange s w"
  shows "memAllocate F E rsp rbp sz fin s = Inl NullDeref"
proof (rule memAllocate_collects [OF assms(1,2,4)])
  have b: "blocks (set_stack rsp rbp s) bs" using assms(1) by simp
  show "markAndSweep F E (set_stack rsp rbp s) = Inl NullDeref"
    by (rule collection_faults [OF b assms(3,5)]) (use assms(6,7) in \<open>simp_all add: inHeapRange_def set_stack_def\<close>)
qed

theorem gc_faults_last_block_witness: "memAllocate 3 demo_env 0x20000 0 3 0 (pointing 0x10038) = Inl NullDeref"
proof (rule gc_faults_last_block [OF pointing_facts(1,3)])
  have s: "set_stack 0x20000 0 (pointing 0x10038) = pointing 0x10038" by (simp add: set_stack_def pointing_def demo_def)
  show "roots_apart demo_env (set_stack 0x20000 0 (pointing 0x10038))" unfolding s by (rule pointing_facts(2))
  show "0x10038 \<in> root_values demo_env (set_stack 0x20000 0 (pointing 0x10038))" unfolding s by (simp add: pointing_facts(4))
  show "first_fit 3 lists_full = None" by (simp add: demo_eval)
  show "adr (heap (pointing 0x10038)) lists_full (length lists_full - 1) < 0x10038" by (simp add: pointing_facts(5) demo_eval)
  show "inHeapRange (pointing 0x10038) 0x10038"
    by (simp add: in_heap_iff [OF pointing_facts(1)] pointing_facts(5), simp add: lists_full_def)
qed

text \<open>A word of the heap that holds its own address, as in an empty circular list, keeps a collection
  from returning, whatever the fuel.\<close>

theorem gc_hangs_self_reference:
  assumes "blocks s bs" "quiet_finalizers E" "\<not> in_finalize_call s" "roots_apart E s" "j < length bs" "k < b_size (bs ! j)"
    and "rd64 (mem s) (word_at (heap s) bs j k) = word_at (heap s) bs j k"
  shows "markAndSweep F E s \<noteq> Inr x"
  using self_reference_hangs [OF assms] .

theorem gc_hangs_self_reference_witness:
  "\<not> (\<exists>x. markAndSweep 1000 demo_env (demo (wr64 (\<lambda>_. 0) 0x10018 0x10018) lists_full) = Inr x)"
proof -
  let ?s = "demo (wr64 (\<lambda>_. 0) 0x10018 0x10018) lists_full"
  have l: "lists_full \<noteq> []" "words_of lists_full < 1000" by (simp_all add: lists_full_def)
  note b = demo_blocks [OF l, of "wr64 (\<lambda>_. 0) 0x10018 0x10018"]
  have r: "room 0x10000 lists_full" using blocks_room [OF b] by simp
  have i: "0 < length lists_full" "0 < b_size (lists_full ! 0)" by (simp_all add: lists_full_def)
  have "rd64 (mem ?s) (word_at (heap ?s) lists_full 0 0) = word_at (heap ?s) lists_full 0 0"
    using put_off [OF word_clear [OF r i]] by (simp add: pointing_A(3))
  from gc_hangs_self_reference [OF b demo_quiet _ demo_apart [OF l(2)] i this] show ?thesis by auto
qed

end
