(* ===== verification/Alloc_Dump.thy ===== *)
theory Alloc_Dump
  imports Alloc_Blocks
begin

text \<open>
  \<open>memDump\<close> of A4/alloc.c: the text it prints on the standard output, the messages of \<open>getBlock\<close> on
  the way included. The lemmas show that the dump of a well-formed heap returns and describes every
  block once, in order.
\<close>

section \<open>The text\<close>

definition fmt_lx :: "u64 \<Rightarrow> string" where
  "fmt_lx w = hex_nat (unat w)"

definition fmt_p :: "u64 \<Rightarrow> string" where
  "fmt_p a = (if a = 0 then ''(nil)'' else ''0x'' @ hex_nat (unat a))"

definition fmt_lu :: "u64 \<Rightarrow> string" where
  "fmt_lu w = dec_nat (unat w)"

definition fmt_ld :: "u64 \<Rightarrow> string" where
  "fmt_ld w = dec_int (sint w)"

text \<open>\<open>pointsToAllocatedData\<close> with what its call prints.\<close>

definition points_noting :: "gc \<Rightarrow> u64 \<Rightarrow> (string \<times> bool) res" where
  "points_noting s w = bindR (getBlock s w) (\<lambda>block.
     bindR (pointsToAllocatedData s w) (\<lambda>p.
     Inr (if initialized s \<noteq> 1 \<or> heap s = 0 then ''[getBlock] initialized != 1 || !heap'' @ nl
          else if block = 0 \<and> inHeapRange s w then ''[getBlock] cur == NULL; did not find a block'' @ nl else [], p)))"

text \<open>A line with an address and a word; \<open>no\<close> is printed after a word that is no pointer.\<close>

definition word_line :: "string \<Rightarrow> u64 \<Rightarrow> gc \<Rightarrow> string res" where
  "word_line no a s =
     (let w = rd64 (mem s) a in
      bindR (points_noting s w) (\<lambda>(note, p).
      Inr (note @ fill_left 20 (fmt_p a) @ '': '' @ fill_left 16 (fmt_lx w) @ (if p then '' *'' else no) @ nl)))"

definition columns :: string where
  "columns = ''    '' @ fill_left 16 ''Address'' @ '': '' @ fill_left 16 ''Value'' @ nl"

fun dump_globals :: "nat \<Rightarrow> gc_env \<Rightarrow> nat \<Rightarrow> gc \<Rightarrow> string res" where
  "dump_globals 0 E i s = Inr []"
| "dump_globals (Suc n) E i s =
     (let a = data_start E + of_nat (8 * i); w = rd64 (mem s) a in
      bindR (if w = heap s then Inr (fill_left 20 (fmt_p a) @ '': '' @ fill_left 16 (fmt_lx w) @ '' * <- block_t *heap'' @ nl)
             else word_line ''  '' a s) (\<lambda>t.
      bindR (dump_globals n E (Suc i) s) (\<lambda>r. Inr (t @ r))))"

fun dump_frame :: "nat \<Rightarrow> u64 \<Rightarrow> gc \<Rightarrow> string res" where
  "dump_frame 0 a s = Inr []"
| "dump_frame (Suc n) a s =
     bindR (word_line ''  '' a s) (\<lambda>t. bindR (dump_frame n (a + 8) s) (\<lambda>r. Inr (t @ r)))"

text \<open>The frames, at most 128; \<open>n\<close> is 129 before the first.\<close>

fun dump_stack :: "nat \<Rightarrow> u64 \<Rightarrow> u64 \<Rightarrow> gc \<Rightarrow> string res" where
  "dump_stack 0 start bottom s = Inr []"
| "dump_stack (Suc n) start bottom s =
     (let head = nl @ ''Stack frame #'' @ dec_nat (129 - n) @ '' (start='' @ fmt_p start @ '', end='' @ fmt_p bottom @ ''):'' @ nl in
      if bottom \<le> start \<or> bottom = 0 then Inr head
      else if n = 0 then Inr head
      else if bottom AND 7 \<noteq> 0 then Inr head
      else bindR (dump_frame (Suc ((unat bottom - unat start) div 8)) start s) (\<lambda>t.
        bindR (dump_stack n bottom (rd64 (mem s) bottom) s) (\<lambda>r. Inr (head @ columns @ t @ r))))"

text \<open>Zeros from word \<open>i\<close> of \<open>n\<close> at \<open>p\<close>.\<close>

definition zero_run :: "gc \<Rightarrow> u64 \<Rightarrow> nat \<Rightarrow> nat \<Rightarrow> nat" where
  "zero_run s p i n = length (takeWhile (\<lambda>k. rd64 (mem s) (p + of_nat (8 * k)) = 0) [i..<n])"

definition zero_lines :: "u64 \<Rightarrow> nat \<Rightarrow> string" where
  "zero_lines a zeros =
     (let line = (\<lambda>a. fill_left 20 (fmt_p a) @ '': '' @ fill_left 16 ''0'' @ nl) in
      if zeros = 1 then line a
      else line a @ (if zeros > 2 then ''       ... <skipped '' @ dec_nat (zeros - 2) @ '' words of 0> ...'' @ nl else [])
        @ line (a + of_nat (8 * (zeros - 1))))"

function dump_words :: "gc \<Rightarrow> u64 \<Rightarrow> nat \<Rightarrow> nat \<Rightarrow> string res" where
  "dump_words s p i n =
     (if i < n then
        let a = p + of_nat (8 * i) in
        if rd64 (mem s) a = 0 then
          bindR (dump_words s p (i + max 1 (zero_run s p i n)) n) (\<lambda>r. Inr (zero_lines a (zero_run s p i n) @ r))
        else bindR (word_line '' '' a s) (\<lambda>t. bindR (dump_words s p (Suc i) n) (\<lambda>r. Inr (t @ r)))
      else Inr [])"
  by pat_completeness auto

termination by (relation "measure (\<lambda>(s, p, i, n). n - i)") auto

declare dump_words.simps [simp del]

definition dump_block :: "gc \<Rightarrow> u64 \<Rightarrow> nat \<Rightarrow> string res" where
  "dump_block s cur count =
     (let cur_size = blk_info s cur AND SIZE_MASK; alloc = (blk_info s cur AND ALLOC_BIT \<noteq> 0);
          head = ''Block '' @ dec_nat count @ '' ('' @ (if alloc then ''Allocated'' else ''Free'') @ ''): '' @ fmt_ld cur_size @ '' words. ''
      in if alloc then
           bindR (dump_words s (cur + 24) 0 (unat cur_size)) (\<lambda>t.
           Inr (head @ ''Finalizer @ 0x'' @ fmt_lx (blk_finalizer s cur) @ nl @ columns @ t @ nl))
         else Inr head)"

fun dump_blocks :: "nat \<Rightarrow> gc \<Rightarrow> u64 \<Rightarrow> nat \<Rightarrow> string res" where
  "dump_blocks 0 s cur count = Inl OutOfFuel"
| "dump_blocks (Suc n) s cur count =
     (if cur = 0 then Inr []
      else bindR (dump_block s cur (Suc count)) (\<lambda>t. bindR (dump_blocks n s (blk_next s cur) (Suc count)) (\<lambda>r. Inr (t @ r))))"

definition memDump :: "gc_env \<Rightarrow> u64 \<Rightarrow> u64 \<Rightarrow> u64 \<Rightarrow> gc \<Rightarrow> string res" where
  "memDump E rbx rsi rdi s =
     (if initialized s \<noteq> 1 then Inr (''[DEBUG] memDump()'' @ nl) else
      bindR (dump_globals (global_length E) E 0 s) (\<lambda>g.
      bindR (dump_stack 129 (stack_top s) (frame_bottom s) s) (\<lambda>st.
      bindR (dump_blocks (heap_fuel s) s (heap s) 0) (\<lambda>b.
      Inr (''[DEBUG] memDump()'' @ nl
        @ ''Globals: '' @ nl @ ''start  = '' @ prec 16 (fmt_lx (data_start E)) @ nl @ ''end    = '' @ prec 16 (fmt_lx (data_end E)) @ nl
        @ ''length = '' @ dec_nat (global_length E) @ '' words'' @ nl @ nl @ columns @ g
        @ nl @ ''End globals.'' @ nl @ nl @ ''Print stack frames.'' @ nl @ nl @ st @ nl @ ''End stack frames.'' @ nl
        @ nl @ ''Registers:'' @ nl @ ''%rbx = '' @ prec 16 (fmt_lx rbx) @ ''  %rsi = '' @ prec 16 (fmt_lx rsi)
        @ ''  %rdi = '' @ prec 16 (fmt_lx rdi) @ nl @ nl @ ''Block header size: '' @ fmt_lu BLOCK_SIZE @ '' words'' @ nl
        @ ''Printing blocks.'' @ nl @ nl @ b @ nl @ ''End heap.'' @ nl)))))"

section \<open>The dump of a well-formed heap\<close>

lemma get_block_returns: "blocks s bs \<Longrightarrow> \<exists>b. getBlock s w = Inr b"
proof (cases "inHeapRange s w")
  case True
  assume b: "blocks s bs"
  obtain i where i: "i < length bs" "unat (adr (heap s) bs i) \<le> unat w" "unat w < unat (adr (heap s) bs (Suc i))"
    using pointer_block [OF b True] by auto
  note r = blocks_room [OF b]
  show ?thesis
  proof (cases "unat (adr (heap s) bs i) = unat w")
    case False
    then show ?thesis using get_block_spec [OF b i(1) _ _ True] i by simp
  next
    case eq: True
    then have w: "adr (heap s) bs i = w" by (simp add: unsigned_word_eqI)
    show ?thesis
    proof (cases i)
      case 0
      then show ?thesis using w get_block_first [OF b] by simp
    next
      case (Suc k)
      then show ?thesis using get_block_spec [OF b, of k w] i eq True adr_less [OF r, of k "Suc k"] by simp
    qed
  qed
next
  case False
  then show ?thesis by (auto simp: getBlock_def inHeapRange_def mult.commute)
qed

lemma word_line_returns: "blocks s bs \<Longrightarrow> \<exists>t. word_line no a s = Inr t"
proof -
  assume b: "blocks s bs"
  obtain c where "getBlock s (rd64 (mem s) a) = Inr c" using get_block_returns [OF b] by blast
  then show ?thesis by (auto simp: word_line_def points_noting_def pointsToAllocatedData_def Let_def)
qed

lemma dump_words_returns: "blocks s bs \<Longrightarrow> \<exists>t. dump_words s p i n = Inr t"
proof (induction s p i n rule: dump_words.induct)
  case (1 s p i n)
  show ?case
  proof (cases "i < n")
    case i: True
    show ?thesis
    proof (cases "rd64 (mem s) (p + of_nat (8 * i)) = 0")
      case True
      then obtain t where "dump_words s p (i + max 1 (zero_run s p i n)) n = Inr t" using 1(1) [OF i refl True] 1(3) by blast
      then show ?thesis using i True by (subst dump_words.simps) (simp add: Let_def)
    next
      case False
      obtain u where u: "word_line '' '' (p + of_nat (8 * i)) s = Inr u" using word_line_returns [OF 1(3)] by blast
      then obtain t where "dump_words s p (Suc i) n = Inr t" using 1(2) [OF i refl False] 1(3) by blast
      then show ?thesis using i False u by (subst dump_words.simps) (simp add: Let_def)
    qed
  qed (simp add: dump_words.simps)
qed

text \<open>The blocks as they are listed from number \<open>i\<close>.\<close>

definition block_text :: "gc \<Rightarrow> blk list \<Rightarrow> nat \<Rightarrow> string res" where
  "block_text s bs i =
     (let head = ''Block '' @ dec_nat (Suc i) @ '' ('' @ (if b_alloc (bs ! i) then ''Allocated'' else ''Free'') @ ''): ''
        @ dec_nat (b_size (bs ! i)) @ '' words. ''
      in if b_alloc (bs ! i) then
           bindR (dump_words s (adr (heap s) bs i + 24) 0 (b_size (bs ! i))) (\<lambda>t.
           Inr (head @ ''Finalizer @ 0x'' @ fmt_lx (b_fin (bs ! i)) @ nl @ columns @ t @ nl))
         else Inr head)"

lemma dump_block_text:
  assumes b: "blocks s bs" and i: "i < length bs"
  shows "dump_block s (adr (heap s) bs i) (Suc i) = block_text s bs i" "\<exists>t. block_text s bs i = Inr t"
proof -
  note r = blocks_room [OF b]
  have sz: "b_size (bs ! i) < 2 ^ 61" by (rule size_bound [OF r i])
  have m: "info_of (bs ! i) AND SIZE_MASK = of_nat (b_size (bs ! i))" by (rule info_size [OF r i])
  have u: "unat (of_nat (b_size (bs ! i)) :: u64) = b_size (bs ! i)" using sz by (simp add: unat_of_small)
  have "sint (of_nat (b_size (bs ! i)) :: u64) = int (b_size (bs ! i))"
    using sz by (simp add: signed_of_nat signed_take_bit_int_eq_self)
  then have d: "fmt_ld (of_nat (b_size (bs ! i))) = dec_nat (b_size (bs ! i))" by (simp add: fmt_ld_def dec_int_def)
  show "dump_block s (adr (heap s) bs i) (Suc i) = block_text s bs i"
    unfolding dump_block_def block_text_def Let_def blocks_read(1,3) [OF b i] m u d by (simp add: info_flags)
  show "\<exists>t. block_text s bs i = Inr t"
    using dump_words_returns [OF b, of "adr (heap s) bs i + 24" 0 "b_size (bs ! i)"] by (auto simp: block_text_def Let_def)
qed

fun concatR :: "string res list \<Rightarrow> string res" where
  "concatR [] = Inr []"
| "concatR (x # xs) = bindR x (\<lambda>t. bindR (concatR xs) (\<lambda>r. Inr (t @ r)))"

lemma dump_blocks_text:
  assumes b: "blocks s bs"
  shows "i \<le> length bs \<Longrightarrow> length bs - i < n \<Longrightarrow>
    dump_blocks n s (if i < length bs then adr (heap s) bs i else 0) i = concatR (map (block_text s bs) [i..<length bs])"
proof (induction n arbitrary: i)
  case (Suc n)
  show ?case
  proof (cases "i < length bs")
    case True
    have nx: "blk_next s (adr (heap s) bs i) = (if Suc i < length bs then adr (heap s) bs (Suc i) else 0)"
      using blocks_read(2) [OF b True] True by auto
    have u: "[i..<length bs] = i # [Suc i..<length bs]" using True by (rule upt_conv_Cons)
    have "dump_blocks n s (blk_next s (adr (heap s) bs i)) (Suc i) = concatR (map (block_text s bs) [Suc i..<length bs])"
      unfolding nx by (rule Suc.IH) (use Suc.prems True in auto)
    then show ?thesis using True adr_nz [OF blocks_room [OF b]] unfolding u by (simp add: dump_block_text(1) [OF b True])
  qed simp
qed simp

text \<open>The dump of a well-formed heap returns, and lists every block once, in order, with its state and its
  size.\<close>

theorem memDump_lists_blocks:
  assumes b: "blocks s bs"
  shows "\<exists>t r. memDump E rbx rsi rdi s = Inr (t @ ''Printing blocks.'' @ nl @ nl @ r @ nl @ ''End heap.'' @ nl) \<and>
    concatR (map (block_text s bs) [0..<length bs]) = Inr r"
proof -
  have g: "\<exists>t. dump_globals n E i s = Inr t" for n i
  proof (induction n arbitrary: i)
    case (Suc n)
    then show ?case using word_line_returns [OF b, of "''  ''" "data_start E + of_nat (8 * i)"] by (fastforce simp: Let_def)
  qed simp
  have f: "\<exists>t. dump_frame n a s = Inr t" for n a
  proof (induction n arbitrary: a)
    case (Suc n)
    then show ?case using word_line_returns [OF b, of "''  ''" a] by fastforce
  qed simp
  have st: "\<exists>t. dump_stack n a c s = Inr t" for n a c
  proof (induction n arbitrary: a c)
    case (Suc n)
    then show ?case using f [of "Suc ((unat c - unat a) div 8)" a] by (fastforce simp: Let_def)
  qed simp
  have "\<exists>r. concatR (map (block_text s bs) is) = Inr r" if "set is \<subseteq> {..<length bs}" for "is"
    using that by (induction "is") (use dump_block_text(2) [OF b] in fastforce)+
  then obtain r where r: "concatR (map (block_text s bs) [0..<length bs]) = Inr r" by (metis atLeast_upt order_refl)
  have i: "initialized s = 1" and n: "0 < length bs" using b by (auto simp: blocks_def room_def)
  have "dump_blocks (heap_fuel s) s (heap s) 0 = Inr r"
    using dump_blocks_text [OF b, of 0 "heap_fuel s"] blocks_fuel [OF b] n r by simp
  then show ?thesis using g [of "global_length E" 0] st [of 129 "stack_top s" "frame_bottom s"] i r
    by (fastforce simp: memDump_def)
qed

end
